(* ===== verification/Ngx_Prelude.thy ===== *)
theory Ngx_Prelude
  imports Main "HOL-Library.Word"
begin

text \<open>
  Shared vocabulary of the development: the machine types of the C code, the return codes of
  \<^verbatim>\<open>src/core/ngx_core.h\<close>, byte strings, and the generic byte scanner whose instances are the
  state-machine parsers (\<^verbatim>\<open>for (p = b->pos; p < b->last; p++) switch (state)\<close>).

  Conventions used everywhere:
  \<^item> the platform is LP64: \<^verbatim>\<open>ngx_int_t\<close>, \<^verbatim>\<open>ssize_t\<close>, \<^verbatim>\<open>off_t\<close> and \<^verbatim>\<open>time_t\<close> are 64-bit signed,
    \<^verbatim>\<open>size_t\<close> and \<^verbatim>\<open>ngx_uint_t\<close> 64-bit unsigned;
  \<^item> \<^verbatim>\<open>u_char\<close> is \<open>8 word\<close>, \<^verbatim>\<open>uint32_t\<close> is \<open>32 word\<close>;
  \<^item> a pair (pointer, length) that is only read is the list of its bytes, and a pointer into a
    buffer is the index of the byte it points to;
  \<^item> a signed value is an \<open>int\<close>; where the code guards against overflow, the theorems show that
    the value stays in the range of the C type, so no wrap-around is hidden.
\<close>

unbundle bit_operations_syntax

named_theorems byte_simps \<open>evaluation of byte predicates and return codes\<close>
named_theorems list_bounds \<open>lengths and index bounds of produced byte strings\<close>

subsection \<open>Types and return codes\<close>

type_synonym u_char = "8 word"
type_synonym bytes = "u_char list"
type_synonym uint32 = "32 word"
type_synonym uint64 = "64 word"

abbreviation (input) NGX_OK :: int where "NGX_OK \<equiv> 0"
abbreviation (input) NGX_ERROR :: int where "NGX_ERROR \<equiv> -1"
abbreviation (input) NGX_AGAIN :: int where "NGX_AGAIN \<equiv> -2"
abbreviation (input) NGX_BUSY :: int where "NGX_BUSY \<equiv> -3"
abbreviation (input) NGX_DONE :: int where "NGX_DONE \<equiv> -4"
abbreviation (input) NGX_DECLINED :: int where "NGX_DECLINED \<equiv> -5"

definition NGX_MAX_INT_T_VALUE :: int where
  "NGX_MAX_INT_T_VALUE = 9223372036854775807"

text \<open>\<^verbatim>\<open>auto/types/sizeof\<close> writes the same bound for every 8-byte type.\<close>

definition NGX_MAX_SIZE_T_VALUE :: int where "NGX_MAX_SIZE_T_VALUE = 9223372036854775807"
definition NGX_MAX_OFF_T_VALUE :: int where "NGX_MAX_OFF_T_VALUE = 9223372036854775807"
definition NGX_MAX_TIME_T_VALUE :: int where "NGX_MAX_TIME_T_VALUE = 9223372036854775807"

lemmas max_value_defs =
  NGX_MAX_INT_T_VALUE_def NGX_MAX_SIZE_T_VALUE_def NGX_MAX_OFF_T_VALUE_def NGX_MAX_TIME_T_VALUE_def

lemma max_value_nonneg [simp]:
  "0 \<le> NGX_MAX_INT_T_VALUE" "0 \<le> NGX_MAX_SIZE_T_VALUE"
  "0 \<le> NGX_MAX_OFF_T_VALUE" "0 \<le> NGX_MAX_TIME_T_VALUE"
  by (simp_all add: max_value_defs)

subsection \<open>Characters\<close>

text \<open>The bytes of a C string literal.\<close>

definition str :: "string \<Rightarrow> bytes" where
  "str s = map of_char s"

abbreviation (input) chr_0 :: u_char where "chr_0 \<equiv> 0x30"
abbreviation (input) chr_9 :: u_char where "chr_9 \<equiv> 0x39"
abbreviation (input) chr_A :: u_char where "chr_A \<equiv> 0x41"
abbreviation (input) chr_F :: u_char where "chr_F \<equiv> 0x46"
abbreviation (input) chr_Z :: u_char where "chr_Z \<equiv> 0x5A"
abbreviation (input) chr_a :: u_char where "chr_a \<equiv> 0x61"
abbreviation (input) chr_f :: u_char where "chr_f \<equiv> 0x66"
abbreviation (input) chr_z :: u_char where "chr_z \<equiv> 0x7A"
abbreviation (input) chr_nul :: u_char where "chr_nul \<equiv> 0"
abbreviation (input) chr_tab :: u_char where "chr_tab \<equiv> 0x09"
abbreviation (input) LF :: u_char where "LF \<equiv> 0x0A"
abbreviation (input) CR :: u_char where "CR \<equiv> 0x0D"
abbreviation (input) chr_space :: u_char where "chr_space \<equiv> 0x20"
abbreviation (input) chr_quot :: u_char where "chr_quot \<equiv> 0x22"
abbreviation (input) chr_hash :: u_char where "chr_hash \<equiv> 0x23"
abbreviation (input) chr_percent :: u_char where "chr_percent \<equiv> 0x25"
abbreviation (input) chr_amp :: u_char where "chr_amp \<equiv> 0x26"
abbreviation (input) chr_plus :: u_char where "chr_plus \<equiv> 0x2B"
abbreviation (input) chr_comma :: u_char where "chr_comma \<equiv> 0x2C"
abbreviation (input) chr_minus :: u_char where "chr_minus \<equiv> 0x2D"
abbreviation (input) chr_dot :: u_char where "chr_dot \<equiv> 0x2E"
abbreviation (input) chr_slash :: u_char where "chr_slash \<equiv> 0x2F"
abbreviation (input) chr_colon :: u_char where "chr_colon \<equiv> 0x3A"
abbreviation (input) chr_semicolon :: u_char where "chr_semicolon \<equiv> 0x3B"
abbreviation (input) chr_lt :: u_char where "chr_lt \<equiv> 0x3C"
abbreviation (input) chr_eq :: u_char where "chr_eq \<equiv> 0x3D"
abbreviation (input) chr_gt :: u_char where "chr_gt \<equiv> 0x3E"
abbreviation (input) chr_question :: u_char where "chr_question \<equiv> 0x3F"
abbreviation (input) chr_at :: u_char where "chr_at \<equiv> 0x40"
abbreviation (input) chr_lbracket :: u_char where "chr_lbracket \<equiv> 0x5B"
abbreviation (input) chr_backslash :: u_char where "chr_backslash \<equiv> 0x5C"
abbreviation (input) chr_rbracket :: u_char where "chr_rbracket \<equiv> 0x5D"
abbreviation (input) chr_underscore :: u_char where "chr_underscore \<equiv> 0x5F"
abbreviation (input) chr_tilde :: u_char where "chr_tilde \<equiv> 0x7E"

definition is_digit :: "u_char \<Rightarrow> bool" where
  "is_digit c \<longleftrightarrow> chr_0 \<le> c \<and> c \<le> chr_9"

definition digit_val :: "u_char \<Rightarrow> int" where
  "digit_val c = uint c - 0x30"

text \<open>
  The test every hexadecimal reader of the program writes out: a digit, or, after
  \<^verbatim>\<open>c = (u_char) (ch | 0x20)\<close>, a letter from \<^verbatim>\<open>'a'\<close> to \<^verbatim>\<open>'f'\<close>.
\<close>

definition hex_digit :: "u_char \<Rightarrow> u_char option" where
  "hex_digit ch =
     (if chr_0 \<le> ch \<and> ch \<le> chr_9 then Some (ch - chr_0)
      else let c = ch OR 0x20 in
        if chr_a \<le> c \<and> c \<le> chr_f then Some (c - chr_a + 10) else None)"

definition ngx_tolower :: "u_char \<Rightarrow> u_char" where
  "ngx_tolower c = (if chr_A \<le> c \<and> c \<le> chr_Z then c OR 0x20 else c)"

definition ngx_toupper :: "u_char \<Rightarrow> u_char" where
  "ngx_toupper c = (if chr_a \<le> c \<and> c \<le> chr_z then c AND NOT 0x20 else c)"

lemmas [byte_simps] = is_digit_def digit_val_def hex_digit_def ngx_tolower_def ngx_toupper_def str_def

lemma is_digit_iff: "is_digit c \<longleftrightarrow> \<not> (c < chr_0 \<or> chr_9 < c)"
  by (auto simp: is_digit_def)

lemma digit_val_bounds: "is_digit c \<Longrightarrow> 0 \<le> digit_val c \<and> digit_val c \<le> 9"
  by (simp add: is_digit_def digit_val_def word_le_def)

text \<open>
  A statement about all the bytes of a range is the conjunction of its instances, which the
  simplifier evaluates one by one.
\<close>

lemma byte_range_all:
  fixes a b c :: u_char
  assumes all: "list_all P (map of_nat [unat a ..< Suc (unat b)])" and c: "a \<le> c" "c \<le> b"
  shows "P c"
proof -
  have "unat c \<in> set [unat a ..< Suc (unat b)]"
    using c unfolding word_le_nat_alt set_upt by simp
  with all have "P (of_nat (unat c))" unfolding list_all_iff set_map by blast
  then show ?thesis by simp
qed

lemmas upt_numeral_simps = upt_rec [of _ "numeral _"] upt_rec [of _ "Suc _"]

lemma hex_digit_bound: "hex_digit c = Some d \<Longrightarrow> d < 16"
  by (auto simp: hex_digit_def Let_def split: if_splits) unat_arith+

lemma upper_or_0x20:
  assumes "chr_A \<le> c" "c \<le> chr_Z"
  shows "chr_a \<le> c OR 0x20 \<and> c OR 0x20 \<le> chr_z \<and> (c OR 0x20) AND NOT 0x20 = c"
  by (rule byte_range_all [OF _ assms]) (simp add: upt_numeral_simps)

lemma ngx_tolower_idem [simp]: "ngx_tolower (ngx_tolower c) = ngx_tolower c"
  using upper_or_0x20 [of c] by (auto simp: ngx_tolower_def)

lemma ngx_tolower_eq_0_iff [simp]: "ngx_tolower c = 0 \<longleftrightarrow> c = 0"
  by (auto simp: ngx_tolower_def or_eq_0_iff)

text \<open>Shifts and masks are division and remainder by a power of two.\<close>

lemma uint_drop_bit: "uint (drop_bit n w) = uint w div 2 ^ n" for w :: "'a::len word"
proof -
  have "uint (drop_bit n w) = drop_bit n (uint w)"
    using uint_lt2p [of w] by (simp add: unsigned_drop_bit_eq take_bit_int_eq_self)
  then show ?thesis by (simp add: drop_bit_eq_div)
qed

lemma uint_and_mask: "uint (w AND mask n) = uint w mod 2 ^ n" for w :: "'a::len word"
proof -
  have "uint (w AND mask n) = take_bit n (uint w)"
    by (simp add: unsigned_take_bit_eq flip: take_bit_eq_mask)
  then show ?thesis by (simp add: take_bit_eq_mod)
qed

text \<open>Equality and bounds of bytes bit by bit.\<close>

lemma byte_eqI:
  fixes a b :: u_char
  assumes "bit a 0 = bit b 0" "bit a 1 = bit b 1" "bit a 2 = bit b 2" "bit a 3 = bit b 3"
    "bit a 4 = bit b 4" "bit a 5 = bit b 5" "bit a 6 = bit b 6" "bit a 7 = bit b 7"
  shows "a = b"
proof (rule bit_word_eqI)
  fix n assume "n < LENGTH(8)"
  then have "n = 0 \<or> n = 1 \<or> n = 2 \<or> n = 3 \<or> n = 4 \<or> n = 5 \<or> n = 6 \<or> n = 7" by auto
  with assms show "bit a n = bit b n" by auto
qed

lemma byte_bit_high [simp]: "8 \<le> n \<Longrightarrow> \<not> bit b n" for b :: u_char
  using bit_imp_le_length [of b n] by auto

lemma byte_less_64I:
  fixes x :: u_char
  assumes "\<not> bit x 6" "\<not> bit x 7"
  shows "x < 64"
proof -
  have "take_bit 6 x = x" by (rule byte_eqI) (simp_all add: bit_simps assms)
  moreover have "uint (take_bit 6 x) = uint x mod 64"
    by (simp add: unsigned_take_bit_eq take_bit_eq_mod [where 'a = int])
  ultimately show ?thesis by (simp add: word_less_def)
qed

text \<open>The two halves of a byte.\<close>

lemma nibbles:
  fixes b :: u_char
  shows "drop_bit 4 b < 16" "b AND 0xf < 16" "uint (drop_bit 4 b) * 16 + uint (b AND 0xf) = uint b"
    "push_bit 4 (drop_bit 4 b) + (b AND 0xf) = b"
proof -
  have hi: "uint (drop_bit 4 b) = uint b div 16"
    by (simp add: uint_drop_bit)
  have lo: "uint (b AND 0xf) = uint b mod 16"
    using uint_and_mask [of b 4] by (simp add: mask_eq_exp_minus_1)
  have "uint b < 256" using uint_lt2p [of b] by simp
  then show "drop_bit 4 b < 16" by (simp add: word_less_def hi)
  show "b AND 0xf < 16" by (simp add: word_less_def lo)
  show split: "uint (drop_bit 4 b) * 16 + uint (b AND 0xf) = uint b" by (simp only: hi lo) simp
  have "push_bit 4 (drop_bit 4 b) + (b AND 0xf) = word_of_int (uint (drop_bit 4 b) * 16 + uint (b AND 0xf))"
    unfolding push_bit_eq_mult by (simp add: wi_hom_syms)
  then show "push_bit 4 (drop_bit 4 b) + (b AND 0xf) = b" by (simp only: split) simp
qed

definition hex_lower :: bytes where
  "hex_lower = str ''0123456789abcdef''"

definition hex_upper :: bytes where
  "hex_upper = str ''0123456789ABCDEF''"

lemma hex_chars:
  assumes "n < 16"
  shows "hex_digit (hex_lower ! unat n) = Some n \<and> hex_digit (hex_upper ! unat n) = Some n \<and>
    hex_upper ! unat n \<ge> chr_0 \<and> hex_upper ! unat n \<le> chr_F"
proof -
  have "0 \<le> n" "n \<le> 15" using assms by unat_arith+
  then show ?thesis
    by (rule byte_range_all [rotated])
      (simp add: upt_numeral_simps hex_digit_def hex_lower_def hex_upper_def str_def)
qed

subsection \<open>Byte scanners\<close>

text \<open>
  A parser of the program reads one byte at a time and, on each byte, goes on in a new state or
  returns.  When the buffer is used up it saves its state and returns \<^verbatim>\<open>NGX_AGAIN\<close>, and the next
  call goes on from there with the bytes that have arrived since.
\<close>

datatype ('s, 'r) outcome = Cont 's | Stop 'r

fun scan :: "('s \<Rightarrow> nat \<Rightarrow> u_char \<Rightarrow> ('s, 'r) outcome) \<Rightarrow> 's \<Rightarrow> nat \<Rightarrow> bytes \<Rightarrow> ('s, 'r) outcome" where
  "scan step s p [] = Cont s"
| "scan step s p (c # cs) =
     (case step s p c of Cont s' \<Rightarrow> scan step s' (Suc p) cs | Stop r \<Rightarrow> Stop r)"

lemma scan_append:
  "scan step s p (xs @ ys) =
     (case scan step s p xs of
        Cont s' \<Rightarrow> scan step s' (p + length xs) ys
      | Stop r \<Rightarrow> Stop r)"
  by (induction xs arbitrary: s p) (auto split: outcome.splits)

lemma scan_Stop_prefix: "scan step s p xs = Stop r \<Longrightarrow> scan step s p (xs @ ys) = Stop r"
  by (simp add: scan_append)

text \<open>
  The contract of a scanner step: an invariant that relates the state to the position, which a
  continuing byte moves on by one, and a postcondition of the byte that stops the scan.  Every
  parser is an interpretation.
\<close>

locale scan_contract =
  fixes step :: "'s \<Rightarrow> nat \<Rightarrow> u_char \<Rightarrow> ('s, 'r) outcome"
    and I :: "'s \<Rightarrow> nat \<Rightarrow> bool"
    and Q :: "'r \<Rightarrow> nat \<Rightarrow> bool"
  assumes step_Cont: "I s p \<Longrightarrow> step s p c = Cont s' \<Longrightarrow> I s' (Suc p)"
    and step_Stop: "I s p \<Longrightarrow> step s p c = Stop r \<Longrightarrow> Q r p"
begin

lemma scan_Cont: "I s p \<Longrightarrow> scan step s p xs = Cont s' \<Longrightarrow> I s' (p + length xs)"
proof (induction xs arbitrary: s p)
  case Nil
  then show ?case by simp
next
  case (Cons x xs)
  then obtain t where "step s p x = Cont t" and "scan step t (Suc p) xs = Cont s'"
    by (auto split: outcome.splits)
  with Cons.IH [of t "Suc p"] Cons.prems(1) step_Cont show ?case by fastforce
qed

lemma scan_Stop:
  "I s p \<Longrightarrow> scan step s p xs = Stop r \<Longrightarrow> \<exists>i < length xs. Q r (p + i)"
proof (induction xs arbitrary: s p)
  case Nil
  then show ?case by simp
next
  case (Cons x xs)
  show ?case
  proof (cases "step s p x")
    case (Cont t)
    with Cons.IH [of t "Suc p"] Cons.prems step_Cont
    obtain i where "i < length xs" "Q r (Suc p + i)" by fastforce
    then show ?thesis by (intro exI [of _ "Suc i"]) simp
  next
    case (Stop r')
    with Cons.prems step_Stop have "Q r p" by auto
    then show ?thesis by auto
  qed
qed

end

text \<open>
  The same contract for a scan of a given buffer, whose steps may rely on the bytes of the buffer up
  to the position.  A step that keeps its contract for every byte keeps it here.
\<close>

locale buffer_contract =
  fixes step :: "'s \<Rightarrow> nat \<Rightarrow> u_char \<Rightarrow> ('s, 'r) outcome"
    and I :: "'s \<Rightarrow> nat \<Rightarrow> bool"
    and Q :: "'r \<Rightarrow> nat \<Rightarrow> bool"
    and buf :: bytes
  assumes step_Cont: "I s p \<Longrightarrow> p < length buf \<Longrightarrow> step s p (buf ! p) = Cont s' \<Longrightarrow> I s' (Suc p)"
    and step_Stop: "I s p \<Longrightarrow> p < length buf \<Longrightarrow> step s p (buf ! p) = Stop r \<Longrightarrow> Q r p"
begin

lemma buffer_scan:
  "I s p \<Longrightarrow> p \<le> length buf \<Longrightarrow>
   case scan step s p (drop p buf) of Cont s' \<Rightarrow> I s' (length buf) | Stop r \<Rightarrow> \<exists>i < length buf. p \<le> i \<and> Q r i"
proof (induction "length buf - p" arbitrary: s p)
  case (Suc n)
  then have p: "p < length buf" and drop: "drop p buf = buf ! p # drop (Suc p) buf"
    by (simp_all add: Cons_nth_drop_Suc)
  show ?case
  proof (cases "step s p (buf ! p)")
    case (Cont s')
    have "n = length buf - Suc p" using Suc.hyps(2) by simp
    from Suc.hyps(1) [OF this step_Cont [OF Suc.prems(1) p Cont]] p Cont show ?thesis
      by (auto simp: drop split: outcome.splits dest: Suc_leD)
  next
    case (Stop r)
    with step_Stop [OF Suc.prems(1) p Stop] p show ?thesis by (auto simp: drop)
  qed
qed simp

end

sublocale scan_contract \<subseteq> buffered: buffer_contract step I Q for buf
  by unfold_locales (auto intro: step_Cont step_Stop)

text \<open>
  A parser call: it scans the buffer from \<open>pos\<close> (\<^verbatim>\<open>b->pos\<close>) to its end (\<^verbatim>\<open>b->last\<close>).  At the end of
  the buffer it saves its state and returns \<^verbatim>\<open>NGX_AGAIN\<close>; where a byte ends the scan, \<open>finish\<close> is what
  the code does on its way out (\<^verbatim>\<open>goto done\<close> or \<^verbatim>\<open>return\<close>).  The result is the return code, the new
  state and the new \<^verbatim>\<open>b->pos\<close>.
\<close>

definition run_parser ::
  "('s \<Rightarrow> nat \<Rightarrow> u_char \<Rightarrow> ('s, 'r) outcome) \<Rightarrow> ('s \<Rightarrow> nat \<Rightarrow> 'r \<Rightarrow> int \<times> 's \<times> nat) \<Rightarrow>
   's \<Rightarrow> bytes \<Rightarrow> nat \<Rightarrow> int \<times> 's \<times> nat" where
  "run_parser step finish r buf pos =
     (case scan step r pos (drop pos buf) of
        Cont r' \<Rightarrow> (NGX_AGAIN, r', max pos (length buf))
      | Stop res \<Rightarrow> finish r pos res)"

text \<open>
  Input that arrives in pieces: after each piece the parser is called again where it stopped, with
  the buffer grown by the piece, until it no longer asks for more.
\<close>

fun parse_chunks ::
  "('s \<Rightarrow> bytes \<Rightarrow> nat \<Rightarrow> int \<times> 's \<times> nat) \<Rightarrow> 's \<Rightarrow> bytes \<Rightarrow> nat \<Rightarrow> bytes list \<Rightarrow> int \<times> 's \<times> nat" where
  "parse_chunks parse r buf pos [] = (NGX_AGAIN, r, pos)"
| "parse_chunks parse r buf pos (c # cs) =
     (case parse r (buf @ c) pos of (code, r', pos') \<Rightarrow>
        if code = NGX_AGAIN then parse_chunks parse r' (buf @ c) pos' cs else (code, r', pos'))"

text \<open>
  Equal results, up to what \<open>clear\<close> forgets of the state (fields that are not used again after that
  return code), and with the same position where the code moves it.
\<close>

definition same_result ::
  "(int \<Rightarrow> 's \<Rightarrow> 's) \<Rightarrow> (int \<Rightarrow> bool) \<Rightarrow> int \<times> 's \<times> nat \<Rightarrow> int \<times> 's \<times> nat \<Rightarrow> bool" where
  "same_result clear moves x y \<longleftrightarrow>
     (case x of (c, r, q) \<Rightarrow> case y of (c', r', q') \<Rightarrow>
        c = c' \<and> clear c r = clear c r' \<and> (moves c \<longrightarrow> q = q'))"

lemma same_result_refl [simp]: "same_result clear moves x x"
  by (simp add: same_result_def split: prod.splits)

lemma same_result_trans:
  "same_result clear moves x y \<Longrightarrow> same_result clear moves y z \<Longrightarrow> same_result clear moves x z"
  by (auto simp: same_result_def split: prod.splits)

text \<open>
  A parser that can be interrupted anywhere: its step keeps the contract, looks only at bytes of
  the buffer that it has reached, and the way out depends on the state the call started from only
  in what \<open>clear\<close> forgets.
\<close>

locale resumable_parser =
  fixes step :: "bytes \<Rightarrow> 's \<Rightarrow> nat \<Rightarrow> u_char \<Rightarrow> ('s, 'r) outcome"
    and I :: "'s \<Rightarrow> nat \<Rightarrow> bool"
    and Q :: "'r \<Rightarrow> nat \<Rightarrow> bool"
    and finish :: "'s \<Rightarrow> nat \<Rightarrow> 'r \<Rightarrow> int \<times> 's \<times> nat"
    and clear :: "int \<Rightarrow> 's \<Rightarrow> 's" and moves :: "int \<Rightarrow> bool"
  assumes contract: "scan_contract (step buf) I Q"
    and step_buffer: "I s p \<Longrightarrow> p < length buf \<Longrightarrow> step (buf @ more_bytes) s p c = step buf s p c"
    and finish_code: "Q res p \<Longrightarrow> fst (finish r pos res) \<noteq> NGX_AGAIN"
    and finish_same: "Q res p \<Longrightarrow> same_result clear moves (finish r pos res) (finish r' pos' res)"
begin

abbreviation (input) parse where
  "parse r buf pos \<equiv> run_parser (step buf) finish r buf pos"

lemma scan_buffer:
  "I s p \<Longrightarrow> p + length xs \<le> length buf \<Longrightarrow> scan (step (buf @ more_bytes)) s p xs = scan (step buf) s p xs"
proof (induction xs arbitrary: s p)
  case (Cons x xs)
  then have "step (buf @ more_bytes) s p x = step buf s p x" by (intro step_buffer) auto
  moreover have "I s' (Suc p)" if "step buf s p x = Cont s'" for s'
    using contract Cons.prems(1) that by (rule scan_contract.step_Cont)
  ultimately show ?case using Cons by (auto split: outcome.splits)
qed simp

lemma again:
  assumes "I r (length buf)" "run_parser (step (buf @ c)) finish r (buf @ c) (length buf) = (NGX_AGAIN, r1, pos1)"
  shows "pos1 = length (buf @ c) \<and> I r1 (length (buf @ c)) \<and>
    scan (step (buf @ c)) r (length buf) c = Cont r1"
proof (cases "scan (step (buf @ c)) r (length buf) c")
  case (Cont s)
  with assms scan_contract.scan_Cont [OF contract assms(1) Cont] show ?thesis by (simp add: run_parser_def)
next
  case (Stop res)
  from scan_contract.scan_Stop [OF contract assms(1) Stop] obtain i where "Q res (length buf + i)" by blast
  from finish_code [OF this, of r "length buf"] assms(2) Stop show ?thesis by (simp add: run_parser_def)
qed

lemma any_chunks:
  "I r (length buf) \<Longrightarrow>
   same_result clear moves (parse r (buf @ concat cs) (length buf))
     (parse_chunks (\<lambda>r buf pos. run_parser (step buf) finish r buf pos) r buf (length buf) cs)"
proof (induction cs arbitrary: r buf)
  case Nil
  then show ?case by (simp add: run_parser_def)
next
  case (Cons c cs)
  have whole: "scan (step (buf @ c @ concat cs)) r (length buf) (c @ concat cs) =
      (case scan (step (buf @ c)) r (length buf) c of
         Cont s \<Rightarrow> scan (step (buf @ c @ concat cs)) s (length buf + length c) (concat cs) | Stop res \<Rightarrow> Stop res)"
    using scan_buffer [OF Cons.prems, of c "buf @ c" "concat cs"] by (simp add: scan_append)
  obtain code r1 pos1 where call: "parse r (buf @ c) (length buf) = (code, r1, pos1)"
    by (cases "parse r (buf @ c) (length buf)")
  show ?case
  proof (cases "code = NGX_AGAIN")
    case True
    note stopped = again [OF Cons.prems call [unfolded True]]
    then have scan: "scan (step (buf @ c)) r (length buf) c = Cont r1"
      and I: "I r1 (length (buf @ c))" and pos1: "pos1 = length (buf @ c)" by blast+
    have "same_result clear moves (parse r (buf @ concat (c # cs)) (length buf))
        (parse r1 ((buf @ c) @ concat cs) (length (buf @ c)))"
    proof (cases "scan (step (buf @ c @ concat cs)) r1 (length (buf @ c)) (concat cs)")
      case (Cont s)
      with whole scan show ?thesis by (simp add: run_parser_def)
    next
      case (Stop res)
      from scan_contract.scan_Stop [OF contract I Stop] obtain i where "Q res (length (buf @ c) + i)" by blast
      from finish_same [OF this] Stop whole scan show ?thesis by (simp add: run_parser_def)
    qed
    from same_result_trans [OF this Cons.IH [OF I]] True pos1 call show ?thesis by simp
  next
    case False
    with call obtain res where "scan (step (buf @ c)) r (length buf) c = Stop res"
      by (cases "scan (step (buf @ c)) r (length buf) c") (auto simp: run_parser_def)
    with whole call False show ?thesis by (auto simp: run_parser_def)
  qed
qed

end

subsection \<open>Lists\<close>

lemma list_all_iff_set: "list_all P xs \<longleftrightarrow> (\<forall>x \<in> set xs. P x)"
  by (rule list_all_iff)

lemma takeWhile_dropWhile_length:
  "length (takeWhile P xs) + length (dropWhile P xs) = length xs"
  by (metis length_append takeWhile_dropWhile_id)

lemma find_append: "find P (xs @ ys) = (case find P xs of None \<Rightarrow> find P ys | Some x \<Rightarrow> Some x)"
  by (induction xs) auto

lemma find_map: "find P (map f xs) = map_option f (find (\<lambda>x. P (f x)) xs)"
  by (induction xs) auto

lemma count_update:
  assumes "i < length xs"
  shows "int (length (filter P (xs[i := y]))) = int (length (filter P xs)) - of_bool (P (xs ! i)) + of_bool (P y)"
  using assms
proof (induction xs arbitrary: i)
  case (Cons x xs)
  then show ?case by (cases i) auto
qed simp

subsection \<open>Step relations\<close>

text \<open>The atomic operation all locks rest on: the word afterwards, and whether it was set.\<close>

definition ngx_atomic_cmp_set :: "uint64 \<Rightarrow> uint64 \<Rightarrow> uint64 \<Rightarrow> uint64 \<times> bool" where
  "ngx_atomic_cmp_set lock old new = (if lock = old then (new, True) else (lock, False))"

text \<open>
  The states a system of processes can be in: the initial ones, and those a step leads to.  An
  invariant of the initial states that every step keeps holds in all of them.
\<close>

inductive reachable :: "('s \<Rightarrow> bool) \<Rightarrow> ('s \<Rightarrow> 's \<Rightarrow> bool) \<Rightarrow> 's \<Rightarrow> bool"
  for init :: "'s \<Rightarrow> bool" and step :: "'s \<Rightarrow> 's \<Rightarrow> bool" where
  start: "init s \<Longrightarrow> reachable init step s"
| next_state: "reachable init step s \<Longrightarrow> step s s' \<Longrightarrow> reachable init step s'"

locale invariant_system =
  fixes init :: "'s \<Rightarrow> bool" and step :: "'s \<Rightarrow> 's \<Rightarrow> bool" and Inv :: "'s \<Rightarrow> bool"
  assumes init_Inv: "init s \<Longrightarrow> Inv s"
    and step_Inv: "Inv s \<Longrightarrow> step s s' \<Longrightarrow> Inv s'"
begin

lemma reachable_Inv: "reachable init step s \<Longrightarrow> Inv s"
  by (induction rule: reachable.induct) (auto intro: init_Inv step_Inv)

end

end
