(* ===== verification/Ngx_Number.thy ===== *)
theory Ngx_Number
  imports Ngx_Prelude
begin

text \<open>
  Number readers and the hexadecimal dump of \<^verbatim>\<open>src/core/ngx_string.c\<close>: \<^verbatim>\<open>ngx_atoi\<close>, \<^verbatim>\<open>ngx_atosz\<close>,
  \<^verbatim>\<open>ngx_atoof\<close>, \<^verbatim>\<open>ngx_atotm\<close> (the same loop at four result types), \<^verbatim>\<open>ngx_atofp\<close>, \<^verbatim>\<open>ngx_hextoi\<close> and
  \<^verbatim>\<open>ngx_hex_dump\<close>.  The lemmas give each reader its exact specification: the value of the
  numeral when it is well formed and fits the result type, \<^verbatim>\<open>NGX_ERROR\<close> otherwise.
\<close>

subsection \<open>Decimal readers\<close>

fun ato_loop :: "int \<Rightarrow> int \<Rightarrow> int \<Rightarrow> bytes \<Rightarrow> int" where
  "ato_loop cutoff cutlim value [] = value"
| "ato_loop cutoff cutlim value (c # line) =
     (if c < chr_0 \<or> c > chr_9 then NGX_ERROR
      else if value \<ge> cutoff \<and> (value > cutoff \<or> digit_val c > cutlim) then NGX_ERROR
      else ato_loop cutoff cutlim (value * 10 + digit_val c) line)"

definition ngx_atoi :: "bytes \<Rightarrow> int" where
  "ngx_atoi line =
     (if length line = 0 then NGX_ERROR
      else let cutoff = NGX_MAX_INT_T_VALUE div 10; cutlim = NGX_MAX_INT_T_VALUE mod 10
        in ato_loop cutoff cutlim 0 line)"

definition ngx_atosz :: "bytes \<Rightarrow> int" where
  "ngx_atosz line =
     (if length line = 0 then NGX_ERROR
      else let cutoff = NGX_MAX_SIZE_T_VALUE div 10; cutlim = NGX_MAX_SIZE_T_VALUE mod 10
        in ato_loop cutoff cutlim 0 line)"

definition ngx_atoof :: "bytes \<Rightarrow> int" where
  "ngx_atoof line =
     (if length line = 0 then NGX_ERROR
      else let cutoff = NGX_MAX_OFF_T_VALUE div 10; cutlim = NGX_MAX_OFF_T_VALUE mod 10
        in ato_loop cutoff cutlim 0 line)"

definition ngx_atotm :: "bytes \<Rightarrow> int" where
  "ngx_atotm line =
     (if length line = 0 then NGX_ERROR
      else let cutoff = NGX_MAX_TIME_T_VALUE div 10; cutlim = NGX_MAX_TIME_T_VALUE mod 10
        in ato_loop cutoff cutlim 0 line)"

subsection \<open>Fixed point\<close>

fun atofp_scale :: "int \<Rightarrow> nat \<Rightarrow> int \<Rightarrow> int" where
  "atofp_scale cutoff 0 value = value"
| "atofp_scale cutoff (Suc point) value =
     (if value > cutoff then NGX_ERROR else atofp_scale cutoff point (value * 10))"

fun atofp_loop :: "int \<Rightarrow> int \<Rightarrow> int \<Rightarrow> bool \<Rightarrow> nat \<Rightarrow> bytes \<Rightarrow> int" where
  "atofp_loop cutoff cutlim value dot point [] = atofp_scale cutoff point value"
| "atofp_loop cutoff cutlim value dot point (c # line) =
     (if point = 0 then NGX_ERROR
      else if c = chr_dot then
        (if dot then NGX_ERROR else atofp_loop cutoff cutlim value True point line)
      else if c < chr_0 \<or> c > chr_9 then NGX_ERROR
      else if value \<ge> cutoff \<and> (value > cutoff \<or> digit_val c > cutlim) then NGX_ERROR
      else atofp_loop cutoff cutlim (value * 10 + digit_val c) dot
             (point - (if dot then 1 else 0)) line)"

definition ngx_atofp :: "bytes \<Rightarrow> nat \<Rightarrow> int" where
  "ngx_atofp line point =
     (if length line = 0 then NGX_ERROR
      else let cutoff = NGX_MAX_INT_T_VALUE div 10; cutlim = NGX_MAX_INT_T_VALUE mod 10
        in atofp_loop cutoff cutlim 0 False point line)"

subsection \<open>Hexadecimal\<close>

fun hextoi_loop :: "int \<Rightarrow> int \<Rightarrow> bytes \<Rightarrow> int" where
  "hextoi_loop cutoff value [] = value"
| "hextoi_loop cutoff value (ch # line) =
     (if value > cutoff then NGX_ERROR
      else if ch \<ge> chr_0 \<and> ch \<le> chr_9 then hextoi_loop cutoff (value * 16 + uint (ch - chr_0)) line
      else let c = ch OR 0x20 in
        if c \<ge> chr_a \<and> c \<le> chr_f then hextoi_loop cutoff (value * 16 + uint (c - chr_a + 10)) line
        else NGX_ERROR)"

definition ngx_hextoi :: "bytes \<Rightarrow> int" where
  "ngx_hextoi line =
     (if length line = 0 then NGX_ERROR
      else let cutoff = NGX_MAX_INT_T_VALUE div 16 in hextoi_loop cutoff 0 line)"

fun ngx_hex_dump :: "bytes \<Rightarrow> bytes" where
  "ngx_hex_dump [] = []"
| "ngx_hex_dump (c # src) =
     hex_lower ! unat (drop_bit 4 c) # hex_lower ! unat (c AND 0xf) # ngx_hex_dump src"

subsection \<open>Reference values of numerals\<close>

definition dec_value :: "int \<Rightarrow> bytes \<Rightarrow> int" where
  "dec_value v line = foldl (\<lambda>v c. v * 10 + digit_val c) v line"

definition hex_value :: "int \<Rightarrow> bytes \<Rightarrow> int" where
  "hex_value v line = foldl (\<lambda>v c. v * 16 + uint (the (hex_digit c))) v line"

definition be_value :: "int \<Rightarrow> bytes \<Rightarrow> int" where
  "be_value v bs = foldl (\<lambda>v b. v * 256 + uint b) v bs"

lemma dec_value_Cons [simp]: "dec_value v (c # cs) = dec_value (v * 10 + digit_val c) cs"
  and dec_value_Nil [simp]: "dec_value v [] = v"
  by (simp_all add: dec_value_def)

lemma hex_value_Cons [simp]:
  "hex_value v (c # cs) = hex_value (v * 16 + uint (the (hex_digit c))) cs"
  and hex_value_Nil [simp]: "hex_value v [] = v"
  by (simp_all add: hex_value_def)

lemma be_value_Cons [simp]: "be_value v (b # bs) = be_value (v * 256 + uint b) bs"
  and be_value_Nil [simp]: "be_value v [] = v"
  by (simp_all add: be_value_def)

lemma dec_value_ge: "0 \<le> v \<Longrightarrow> \<forall>c \<in> set cs. is_digit c \<Longrightarrow> v \<le> dec_value v cs"
proof (induction cs arbitrary: v)
  case Nil
  then show ?case by simp
next
  case (Cons c cs)
  then have d: "0 \<le> digit_val c" by (simp add: digit_val_bounds)
  with Cons.prems have "v * 10 + digit_val c \<le> dec_value (v * 10 + digit_val c) cs"
    by (intro Cons.IH) auto
  moreover have "v \<le> v * 10 + digit_val c" using d Cons.prems(1) by simp
  ultimately show ?case by simp
qed

lemma hex_value_ge: "0 \<le> v \<Longrightarrow> v \<le> hex_value v cs"
proof (induction cs arbitrary: v)
  case Nil
  then show ?case by simp
next
  case (Cons c cs)
  have "v * 16 + uint (the (hex_digit c)) \<le> hex_value (v * 16 + uint (the (hex_digit c))) cs"
    using Cons.prems by (intro Cons.IH) simp
  moreover have "v \<le> v * 16 + uint (the (hex_digit c))" using Cons.prems by simp
  ultimately show ?case by simp
qed

subsection \<open>The decimal readers are exact\<close>

text \<open>
  The cut-off test of the loop: with \<open>cutoff = m div 10\<close> and \<open>cutlim = m mod 10\<close> it rejects
  exactly the next values above \<open>m\<close>.
\<close>

lemma cutoff_test:
  fixes v d m :: int
  assumes "0 \<le> d" "d \<le> 9"
  shows "(v \<ge> m div 10 \<and> (v > m div 10 \<or> d > m mod 10)) \<longleftrightarrow> v * 10 + d > m"
proof -
  have "m = 10 * (m div 10) + m mod 10" "0 \<le> m mod 10" "m mod 10 \<le> 9" by simp_all
  with assms show ?thesis by linarith
qed

lemma ato_loop_exact:
  assumes "0 \<le> v" "v \<le> m"
  shows "ato_loop (m div 10) (m mod 10) v cs =
    (if (\<forall>c \<in> set cs. is_digit c) \<and> dec_value v cs \<le> m then dec_value v cs else NGX_ERROR)"
  using assms
proof (induction cs arbitrary: v)
  case Nil
  then show ?case by simp
next
  case (Cons c cs)
  show ?case
  proof (cases "is_digit c")
    case False
    then show ?thesis by (auto simp: is_digit_iff)
  next
    case True
    then have d: "0 \<le> digit_val c" "digit_val c \<le> 9" and nd: "\<not> (c < chr_0 \<or> c > chr_9)"
      using digit_val_bounds by (auto simp: is_digit_iff)
    show ?thesis
    proof (cases "v * 10 + digit_val c \<le> m")
      case True
      with d Cons.prems have "ato_loop (m div 10) (m mod 10) v (c # cs) =
          ato_loop (m div 10) (m mod 10) (v * 10 + digit_val c) cs"
        by (simp add: nd cutoff_test)
      with True Cons.IH [of "v * 10 + digit_val c"] Cons.prems(1) d \<open>is_digit c\<close> show ?thesis
        by simp
    next
      case False
      have "\<forall>c \<in> set cs. is_digit c \<Longrightarrow> m < dec_value (v * 10 + digit_val c) cs"
        using False dec_value_ge [of "v * 10 + digit_val c" cs] Cons.prems(1) d by fastforce
      with False d show ?thesis by (auto simp: nd cutoff_test)
    qed
  qed
qed

text \<open>
  The contract shared by the decimal readers: a non-empty numeral goes through the loop with the
  cut-off of the reader's result type.
\<close>

locale decimal_reader =
  fixes read :: "bytes \<Rightarrow> int" and maxv :: int
  assumes read_eq:
    "read line = (if line = [] then NGX_ERROR else ato_loop (maxv div 10) (maxv mod 10) 0 line)"
    and maxv_nonneg: "0 \<le> maxv"
begin

lemma read_exact:
  "read line =
     (if line \<noteq> [] \<and> (\<forall>c \<in> set line. is_digit c) \<and> dec_value 0 line \<le> maxv
      then dec_value 0 line else NGX_ERROR)"
  by (simp add: read_eq ato_loop_exact maxv_nonneg)

lemma read_range: "read line = NGX_ERROR \<or> 0 \<le> read line \<and> read line \<le> maxv"
  using dec_value_ge [of 0 line] by (auto simp: read_exact)

end

interpretation atoi: decimal_reader ngx_atoi NGX_MAX_INT_T_VALUE
  by unfold_locales (simp_all add: ngx_atoi_def max_value_defs Let_def)

interpretation atosz: decimal_reader ngx_atosz NGX_MAX_SIZE_T_VALUE
  by unfold_locales (simp_all add: ngx_atosz_def max_value_defs Let_def)

interpretation atoof: decimal_reader ngx_atoof NGX_MAX_OFF_T_VALUE
  by unfold_locales (simp_all add: ngx_atoof_def max_value_defs Let_def)

interpretation atotm: decimal_reader ngx_atotm NGX_MAX_TIME_T_VALUE
  by unfold_locales (simp_all add: ngx_atotm_def max_value_defs Let_def)

subsection \<open>The hexadecimal reader is exact and inverts the dump\<close>

lemma hextoi_loop_step:
  "hextoi_loop cutoff v (ch # line) =
     (if v > cutoff then NGX_ERROR
      else case hex_digit ch of
        None \<Rightarrow> NGX_ERROR
      | Some d \<Rightarrow> hextoi_loop cutoff (v * 16 + uint d) line)"
  by (simp add: hex_digit_def Let_def)

lemma hextoi_loop_exact:
  assumes "0 \<le> v" "v \<le> 16 * cutoff + 15" "0 \<le> cutoff"
  shows "hextoi_loop cutoff v cs =
    (if (\<forall>c \<in> set cs. hex_digit c \<noteq> None) \<and> hex_value v cs \<le> 16 * cutoff + 15
     then hex_value v cs else NGX_ERROR)"
  using assms(1,2)
proof (induction cs arbitrary: v)
  case Nil
  then show ?case by simp
next
  case (Cons c cs)
  show ?case
  proof (cases "hex_digit c")
    case None
    then show ?thesis by (simp add: hextoi_loop_step del: hextoi_loop.simps)
  next
    case (Some d)
    have d: "0 \<le> uint d" "uint d \<le> 15"
      using hex_digit_bound [OF Some] by (simp_all add: word_less_def)
    show ?thesis
    proof (cases "v > cutoff")
      case True
      have "v * 16 + uint d \<le> hex_value (v * 16 + uint d) cs"
        using Cons.prems d by (intro hex_value_ge) simp
      with True d have "hex_value (v * 16 + uint d) cs > 16 * cutoff + 15" by linarith
      with True Some show ?thesis by (simp add: hextoi_loop_step del: hextoi_loop.simps)
    next
      case False
      with Cons.IH [of "v * 16 + uint d"] Cons.prems(1) d Some show ?thesis
        by (auto simp: hextoi_loop_step simp del: hextoi_loop.simps)
    qed
  qed
qed

lemma hextoi_exact:
  "ngx_hextoi line =
     (if line \<noteq> [] \<and> (\<forall>c \<in> set line. hex_digit c \<noteq> None) \<and> hex_value 0 line \<le> NGX_MAX_INT_T_VALUE
      then hex_value 0 line else NGX_ERROR)"
  by (auto simp: ngx_hextoi_def hextoi_loop_exact max_value_defs Let_def)

lemma hex_dump_byte:
  fixes b :: u_char
  shows "hex_digit (hex_lower ! unat (drop_bit 4 b)) = Some (drop_bit 4 b)"
    "hex_digit (hex_lower ! unat (b AND 0xf)) = Some (b AND 0xf)"
  by (simp_all add: hex_chars nibbles)

lemma hex_dump_digits: "c \<in> set (ngx_hex_dump bs) \<Longrightarrow> hex_digit c \<noteq> None"
  using hex_dump_byte by (induction bs) auto

lemma base_shift: "x * 16 + y = z \<Longrightarrow> (v * 16 + x) * 16 + y = v * 256 + z" for v x y z :: int
  by simp

lemma hex_value_hex_dump: "hex_value v (ngx_hex_dump bs) = be_value v bs"
proof (induction bs arbitrary: v)
  case Nil
  then show ?case by simp
next
  case (Cons b bs)
  have "uint (drop_bit 4 b) * 16 + uint (b AND 0xf) = uint b"
    by (rule nibbles)
  then have eq: "(v * 16 + uint (drop_bit 4 b)) * 16 + uint (b AND 0xf) = v * 256 + uint b"
    by (rule base_shift)
  show ?case by (simp only: ngx_hex_dump.simps hex_value_Cons hex_dump_byte option.sel eq Cons.IH be_value_Cons)
qed

lemma length_hex_dump [simp, list_bounds]: "length (ngx_hex_dump bs) = 2 * length bs"
  by (induction bs) auto

subsection \<open>The fixed-point reader is exact\<close>

text \<open>
  What a fixed-point numeral stands for: digits, optionally a dot and at most \<open>point\<close> further
  digits, scaled to \<open>point\<close> decimal places.
\<close>

definition fixed_point :: "bytes \<Rightarrow> nat \<Rightarrow> int option" where
  "fixed_point line point =
     (let ip = takeWhile is_digit line; rest = dropWhile is_digit line in
      case rest of
        [] \<Rightarrow> Some (dec_value 0 ip * 10 ^ point)
      | c # fp \<Rightarrow>
          if c = chr_dot \<and> list_all is_digit fp \<and> length fp \<le> point
          then Some (dec_value 0 (ip @ fp) * 10 ^ (point - length fp)) else None)"

lemma dec_value_append: "dec_value v (xs @ ys) = dec_value (dec_value v xs) ys"
  by (simp add: dec_value_def)

lemma dec_value_nonneg: "0 \<le> v \<Longrightarrow> \<forall>c \<in> set cs. is_digit c \<Longrightarrow> 0 \<le> dec_value v cs"
  using dec_value_ge [of v cs] by linarith

lemma pow10_mono: "0 \<le> v \<Longrightarrow> v \<le> v * 10 ^ k" for v :: int
  by (simp add: mult_le_cancel_left1)

lemma atofp_scale_exact:
  assumes "0 \<le> v" "v \<le> m"
  shows "atofp_scale (m div 10) k v = (if v * 10 ^ k \<le> m then v * 10 ^ k else NGX_ERROR)"
  using assms
proof (induction k arbitrary: v)
  case 0
  then show ?case by simp
next
  case (Suc k)
  show ?case
  proof (cases "v * 10 \<le> m")
    case True
    then have "\<not> v > m div 10" by linarith
    with True Suc.IH [of "v * 10"] Suc.prems show ?thesis by (simp add: ac_simps)
  next
    case False
    then have "v > m div 10" by linarith
    moreover have "v * 10 \<le> v * 10 * 10 ^ k" using Suc.prems by (intro pow10_mono) simp
    ultimately show ?thesis using False by (simp add: ac_simps)
  qed
qed

lemma atofp_loop_frac:
  assumes "0 \<le> v" "v \<le> m"
  shows "atofp_loop (m div 10) (m mod 10) v True k cs =
    (if list_all is_digit cs \<and> length cs \<le> k \<and> dec_value v cs * 10 ^ (k - length cs) \<le> m
     then dec_value v cs * 10 ^ (k - length cs) else NGX_ERROR)"
  using assms
proof (induction cs arbitrary: v k)
  case Nil
  then show ?case by (simp add: atofp_scale_exact)
next
  case (Cons c cs)
  show ?case
  proof (cases "is_digit c \<and> k \<noteq> 0")
    case False
    then show ?thesis by (auto simp: is_digit_iff)
  next
    case True
    then have d: "0 \<le> digit_val c" "digit_val c \<le> 9" and nd: "\<not> (c < chr_0 \<or> c > chr_9)"
      and dot: "c \<noteq> chr_dot" and k: "k = Suc (k - 1)"
      using digit_val_bounds by (auto simp: is_digit_iff)
    show ?thesis
    proof (cases "v * 10 + digit_val c \<le> m")
      case fits: True
      with d Cons.prems True dot have "atofp_loop (m div 10) (m mod 10) v True k (c # cs) =
          atofp_loop (m div 10) (m mod 10) (v * 10 + digit_val c) True (k - 1) cs"
        by (simp add: nd cutoff_test)
      with fits Cons.IH [of "v * 10 + digit_val c" "k - 1"] Cons.prems(1) d True k show ?thesis
        by (auto simp: Suc_diff_le)
    next
      case big: False
      have "\<not> dec_value (v * 10 + digit_val c) cs * 10 ^ j \<le> m" if "list_all is_digit cs" for j
        using big dec_value_ge [of "v * 10 + digit_val c" cs] that Cons.prems(1) d
          pow10_mono [of "dec_value (v * 10 + digit_val c) cs" j]
        by (simp add: list_all_iff)
      with big d True dot show ?thesis by (auto simp: nd cutoff_test)
    qed
  qed
qed

lemma atofp_loop_int:
  assumes "0 \<le> v" "v \<le> m" "0 < k"
  shows "atofp_loop (m div 10) (m mod 10) v False k cs =
    (case dropWhile is_digit cs of
        [] \<Rightarrow> let w = dec_value v cs * 10 ^ k in if w \<le> m then w else NGX_ERROR
      | c # fp \<Rightarrow>
          let w = dec_value v (takeWhile is_digit cs @ fp) * 10 ^ (k - length fp) in
          if c = chr_dot \<and> list_all is_digit fp \<and> length fp \<le> k \<and> w \<le> m then w else NGX_ERROR)"
  using assms
proof (induction cs arbitrary: v)
  case Nil
  then show ?case by (simp add: atofp_scale_exact)
next
  case (Cons c cs)
  show ?case
  proof (cases "is_digit c")
    case False
    then show ?thesis
      using Cons.prems by (auto simp: is_digit_iff atofp_loop_frac Let_def)
  next
    case True
    then have d: "0 \<le> digit_val c" "digit_val c \<le> 9" and nd: "\<not> (c < chr_0 \<or> c > chr_9)"
      and dot: "c \<noteq> chr_dot"
      using digit_val_bounds by (auto simp: is_digit_iff)
    show ?thesis
    proof (cases "v * 10 + digit_val c \<le> m")
      case fits: True
      with d Cons.prems dot have "atofp_loop (m div 10) (m mod 10) v False k (c # cs) =
          atofp_loop (m div 10) (m mod 10) (v * 10 + digit_val c) False k cs"
        by (simp add: nd cutoff_test)
      with fits Cons.IH [of "v * 10 + digit_val c"] Cons.prems d True show ?thesis
        by (simp cong: list.case_cong)
    next
      case big: False
      have gt: "m < dec_value (v * 10 + digit_val c) ds * 10 ^ j" if "list_all is_digit ds" for ds j
        using big dec_value_ge [of "v * 10 + digit_val c" ds] that Cons.prems(1) d
          pow10_mono [of "dec_value (v * 10 + digit_val c) ds" j]
        by (simp add: list_all_iff)
      have tw: "list_all is_digit (takeWhile is_digit cs)"
        by (auto simp: list_all_iff dest: set_takeWhileD)
      have all: "dropWhile is_digit cs = [] \<Longrightarrow> list_all is_digit cs"
        by (auto simp: list_all_iff dropWhile_eq_Nil_conv)
      have "atofp_loop (m div 10) (m mod 10) v False k (c # cs) = NGX_ERROR"
        using big d Cons.prems dot by (auto simp: nd cutoff_test)
      moreover have "\<not> dec_value (v * 10 + digit_val c) cs * 10 ^ k \<le> m"
        if "dropWhile is_digit cs = []" using gt [OF all [OF that]] by (simp add: not_le)
      moreover have "\<not> dec_value (v * 10 + digit_val c) (takeWhile is_digit cs @ fp) * 10 ^ j \<le> m"
        if "list_all is_digit fp" for fp j using gt that tw by (simp add: not_le)
      ultimately show ?thesis
        using True by (auto simp: Let_def simp del: atofp_loop.simps split: list.splits)
    qed
  qed
qed

subsection \<open>Properties\<close>

text \<open>
  Property C30: each decimal reader returns the value of its argument exactly when the
  argument is a non-empty string of digits whose value fits the result type, and \<^verbatim>\<open>NGX_ERROR\<close>
  otherwise; in particular no accepted numeral overflows.
\<close>

theorem decimal_readers_exact:
  "ngx_atoi line =
     (if line \<noteq> [] \<and> list_all is_digit line \<and> dec_value 0 line \<le> NGX_MAX_INT_T_VALUE
      then dec_value 0 line else NGX_ERROR) \<and>
   ngx_atosz line =
     (if line \<noteq> [] \<and> list_all is_digit line \<and> dec_value 0 line \<le> NGX_MAX_SIZE_T_VALUE
      then dec_value 0 line else NGX_ERROR) \<and>
   ngx_atoof line =
     (if line \<noteq> [] \<and> list_all is_digit line \<and> dec_value 0 line \<le> NGX_MAX_OFF_T_VALUE
      then dec_value 0 line else NGX_ERROR) \<and>
   ngx_atotm line =
     (if line \<noteq> [] \<and> list_all is_digit line \<and> dec_value 0 line \<le> NGX_MAX_TIME_T_VALUE
      then dec_value 0 line else NGX_ERROR)"
  unfolding list_all_iff
  by (intro conjI atoi.read_exact atosz.read_exact atoof.read_exact atotm.read_exact)

text \<open>
  \<^verbatim>\<open>ngx_atofp\<close> returns the scaled value of a fixed-point numeral with at most
  \<open>point\<close> decimals when it fits an \<^verbatim>\<open>ngx_int_t\<close>, and \<^verbatim>\<open>NGX_ERROR\<close> on every other input.
\<close>

theorem atofp_exact:
  "ngx_atofp line point =
     (if line = [] \<or> point = 0 then NGX_ERROR
      else case fixed_point line point of
        None \<Rightarrow> NGX_ERROR
      | Some v \<Rightarrow> if v \<le> NGX_MAX_INT_T_VALUE then v else NGX_ERROR)"
proof (cases "line = [] \<or> point = 0")
  case True
  then show ?thesis by (cases line) (auto simp: ngx_atofp_def Let_def)
next
  case False
  then have loop: "ngx_atofp line point = atofp_loop (NGX_MAX_INT_T_VALUE div 10)
      (NGX_MAX_INT_T_VALUE mod 10) 0 False point line"
    by (simp add: ngx_atofp_def Let_def)
  show ?thesis
  proof (cases "dropWhile is_digit line")
    case Nil
    then have "takeWhile is_digit line = line"
      using takeWhile_dropWhile_id [of is_digit line] by simp
    with Nil False show ?thesis
      by (simp add: loop atofp_loop_int fixed_point_def Let_def del: dropWhile_eq_Nil_conv takeWhile_eq_all_conv)
  next
    case (Cons c fp)
    with False show ?thesis
      by (simp add: loop atofp_loop_int fixed_point_def Let_def)
  qed
qed

text \<open>
  Reading back the hexadecimal dump of a byte string gives its big-endian value,
  unless the string is empty or the value does not fit an \<^verbatim>\<open>ngx_int_t\<close>, which are reported.
\<close>

theorem hextoi_hex_dump:
  "ngx_hextoi (ngx_hex_dump bs) =
     (if bs = [] \<or> be_value 0 bs > NGX_MAX_INT_T_VALUE then NGX_ERROR else be_value 0 bs)"
proof -
  have "ngx_hex_dump bs = [] \<longleftrightarrow> bs = []" by (cases bs) simp_all
  moreover have "\<forall>c \<in> set (ngx_hex_dump bs). hex_digit c \<noteq> None" using hex_dump_digits by blast
  ultimately show ?thesis by (simp add: hextoi_exact hex_value_hex_dump)
qed

end
