(* ===== verification/Ngx_Parse.thy ===== *)
theory Ngx_Parse
  imports Ngx_Number
begin

text \<open>
  The configuration value readers of \<^verbatim>\<open>src/core/ngx_parse.c\<close>: \<^verbatim>\<open>ngx_parse_size\<close> (suffixes K, M),
  \<^verbatim>\<open>ngx_parse_offset\<close> (K, M, G) and \<^verbatim>\<open>ngx_parse_time\<close> (a sum of terms with descending units, in
  seconds or in milliseconds).  The lemmas compare each reader, whose arithmetic is guarded step
  by step, with unbounded arithmetic followed by one range check.
\<close>

subsection \<open>Sizes and offsets\<close>

definition ngx_parse_size :: "bytes \<Rightarrow> int" where
  "ngx_parse_size line =
     (if line = [] then NGX_ERROR
      else let unit = last line;
          (digits, mx, scale) =
            (if unit = 0x4B \<or> unit = 0x6B then (butlast line, NGX_MAX_SIZE_T_VALUE div 1024, 1024)
             else if unit = 0x4D \<or> unit = 0x6D
               then (butlast line, NGX_MAX_SIZE_T_VALUE div (1024 * 1024), 1024 * 1024)
             else (line, NGX_MAX_SIZE_T_VALUE, 1));
          size = ngx_atosz digits
        in if size = NGX_ERROR \<or> size > mx then NGX_ERROR else size * scale)"

definition ngx_parse_offset :: "bytes \<Rightarrow> int" where
  "ngx_parse_offset line =
     (if line = [] then NGX_ERROR
      else let unit = last line;
          (digits, mx, scale) =
            (if unit = 0x4B \<or> unit = 0x6B then (butlast line, NGX_MAX_OFF_T_VALUE div 1024, 1024)
             else if unit = 0x4D \<or> unit = 0x6D
               then (butlast line, NGX_MAX_OFF_T_VALUE div (1024 * 1024), 1024 * 1024)
             else if unit = 0x47 \<or> unit = 0x67
               then (butlast line, NGX_MAX_OFF_T_VALUE div (1024 * 1024 * 1024), 1024 * 1024 * 1024)
             else (line, NGX_MAX_OFF_T_VALUE, 1));
          offset = ngx_atoof digits
        in if offset = NGX_ERROR \<or> offset > mx then NGX_ERROR else offset * scale)"

subsection \<open>Times\<close>

abbreviation (input) st_start :: nat where "st_start \<equiv> 0"
abbreviation (input) st_year :: nat where "st_year \<equiv> 1"
abbreviation (input) st_month :: nat where "st_month \<equiv> 2"
abbreviation (input) st_week :: nat where "st_week \<equiv> 3"
abbreviation (input) st_day :: nat where "st_day \<equiv> 4"
abbreviation (input) st_hour :: nat where "st_hour \<equiv> 5"
abbreviation (input) st_min :: nat where "st_min \<equiv> 6"
abbreviation (input) st_sec :: nat where "st_sec \<equiv> 7"
abbreviation (input) st_msec :: nat where "st_msec \<equiv> 8"
abbreviation (input) st_last :: nat where "st_last \<equiv> 9"

text \<open>
  The \<^verbatim>\<open>switch\<close> on a unit character: the next step, the bound and the scale of the unit, and the
  rest of the line (shorter by one for \<^verbatim>\<open>ms\<close>); \<open>None\<close> is the early return of \<^verbatim>\<open>NGX_ERROR\<close>.
\<close>

definition parse_time_unit :: "bool \<Rightarrow> nat \<Rightarrow> u_char \<Rightarrow> bytes \<Rightarrow> (nat \<times> int \<times> int \<times> bytes) option" where
  "parse_time_unit is_sec step c rest =
     (if c = 0x79 then
        (if step > st_start then None
         else Some (st_year, NGX_MAX_INT_T_VALUE div (60 * 60 * 24 * 365), 60 * 60 * 24 * 365, rest))
      else if c = 0x4D then
        (if step \<ge> st_month then None
         else Some (st_month, NGX_MAX_INT_T_VALUE div (60 * 60 * 24 * 30), 60 * 60 * 24 * 30, rest))
      else if c = 0x77 then
        (if step \<ge> st_week then None
         else Some (st_week, NGX_MAX_INT_T_VALUE div (60 * 60 * 24 * 7), 60 * 60 * 24 * 7, rest))
      else if c = 0x64 then
        (if step \<ge> st_day then None
         else Some (st_day, NGX_MAX_INT_T_VALUE div (60 * 60 * 24), 60 * 60 * 24, rest))
      else if c = 0x68 then
        (if step \<ge> st_hour then None
         else Some (st_hour, NGX_MAX_INT_T_VALUE div (60 * 60), 60 * 60, rest))
      else if c = 0x6D then
        (if rest \<noteq> [] \<and> hd rest = 0x73 then
           (if is_sec \<or> step \<ge> st_msec then None
            else Some (st_msec, NGX_MAX_INT_T_VALUE, 1, tl rest))
         else if step \<ge> st_min then None
         else Some (st_min, NGX_MAX_INT_T_VALUE div 60, 60, rest))
      else if c = 0x73 then
        (if step \<ge> st_sec then None else Some (st_sec, NGX_MAX_INT_T_VALUE, 1, rest))
      else if c = chr_space then
        (if step \<ge> st_sec then None else Some (st_last, NGX_MAX_INT_T_VALUE, 1, rest))
      else None)"

lemma parse_time_unit_length:
  "parse_time_unit is_sec step c rest = Some (step', mx, scale, rest') \<Longrightarrow> length rest' \<le> length rest"
  by (auto simp: parse_time_unit_def split: if_splits)

function parse_time_loop ::
  "bool \<Rightarrow> nat \<Rightarrow> int \<Rightarrow> int \<Rightarrow> bool \<Rightarrow> bytes \<Rightarrow> (int \<times> int \<times> bool) option" where
  "parse_time_loop is_sec step value tot valid [] = Some (tot, value, valid)"
| "parse_time_loop is_sec step value tot valid (c # line) =
     (if c \<ge> chr_0 \<and> c \<le> chr_9 then
        (if value \<ge> NGX_MAX_INT_T_VALUE div 10 \<and>
            (value > NGX_MAX_INT_T_VALUE div 10 \<or> digit_val c > NGX_MAX_INT_T_VALUE mod 10)
         then None
         else parse_time_loop is_sec step (value * 10 + digit_val c) tot True line)
      else case parse_time_unit is_sec step c line of
        None \<Rightarrow> None
      | Some (step', mx, scale, rest) \<Rightarrow>
          let (scale, mx) =
              (if step' \<noteq> st_msec \<and> \<not> is_sec then (scale * 1000, mx div 1000) else (scale, mx))
          in if value > mx then None
          else let value = value * scale in
            if tot > NGX_MAX_INT_T_VALUE - value then None
            else parse_time_loop is_sec step' 0 (tot + value) valid
                   (dropWhile (\<lambda>c. c = chr_space) rest))"
  by pat_completeness auto
termination
  by (relation "measure (\<lambda>(is_sec, step, value, tot, valid, line). length line)")
    (auto dest!: parse_time_unit_length simp: less_Suc_eq_le intro: order_trans [OF length_dropWhile_le])

definition ngx_parse_time :: "bytes \<Rightarrow> bool \<Rightarrow> int" where
  "ngx_parse_time line is_sec =
     (case parse_time_loop is_sec (if is_sec then st_start else st_month) 0 0 False line of
        None \<Rightarrow> NGX_ERROR
      | Some (tot, value, valid) \<Rightarrow>
          if \<not> valid then NGX_ERROR
          else if \<not> is_sec \<and> value > NGX_MAX_INT_T_VALUE div 1000 then NGX_ERROR
          else let value = (if is_sec then value else value * 1000) in
            if tot > NGX_MAX_INT_T_VALUE - value then NGX_ERROR else tot + value)"

subsection \<open>Reference: unbounded arithmetic\<close>

text \<open>
  The value of a size or an offset: the digits before the suffix, times its scale.
\<close>

definition scaled_value :: "(u_char \<rightharpoonup> int) \<Rightarrow> bytes \<Rightarrow> int option" where
  "scaled_value units line =
     (let (digits, scale) =
        (case units (last line) of None \<Rightarrow> (line, 1) | Some k \<Rightarrow> (butlast line, k))
      in if line \<noteq> [] \<and> digits \<noteq> [] \<and> list_all is_digit digits
         then Some (dec_value 0 digits * scale) else None)"

definition size_units :: "u_char \<rightharpoonup> int" where
  "size_units = [0x4B \<mapsto> 2 ^ 10, 0x6B \<mapsto> 2 ^ 10, 0x4D \<mapsto> 2 ^ 20, 0x6D \<mapsto> 2 ^ 20]"

definition offset_units :: "u_char \<rightharpoonup> int" where
  "offset_units = size_units(0x47 \<mapsto> 2 ^ 30, 0x67 \<mapsto> 2 ^ 30)"

text \<open>
  The scale of a time unit in the result's unit, and the sum of the terms of a time without any
  intermediate bound.
\<close>

definition time_scale :: "bool \<Rightarrow> nat \<Rightarrow> int" where
  "time_scale is_sec step =
     (let sec = (if step = st_year then 31536000 else if step = st_month then 2592000
        else if step = st_week then 604800 else if step = st_day then 86400
        else if step = st_hour then 3600 else if step = st_min then 60 else 1)
      in if step = st_msec \<or> is_sec then sec else sec * 1000)"

function time_terms :: "bool \<Rightarrow> nat \<Rightarrow> int \<Rightarrow> bool \<Rightarrow> bytes \<Rightarrow> ((int \<times> nat) list \<times> int \<times> bool) option" where
  "time_terms is_sec step value valid [] = Some ([], value, valid)"
| "time_terms is_sec step value valid (c # line) =
     (if is_digit c then time_terms is_sec step (value * 10 + digit_val c) True line
      else case parse_time_unit is_sec step c line of
        None \<Rightarrow> None
      | Some (step', _, _, rest) \<Rightarrow>
          map_option (\<lambda>(ts, r). ((value, step') # ts, r))
            (time_terms is_sec step' 0 valid (dropWhile (\<lambda>c. c = chr_space) rest)))"
  by pat_completeness auto
termination
  by (relation "measure (\<lambda>(is_sec, step, value, valid, line). length line)")
    (auto dest!: parse_time_unit_length simp: less_Suc_eq_le intro: order_trans [OF length_dropWhile_le])

definition terms_sum :: "bool \<Rightarrow> (int \<times> nat) list \<Rightarrow> int" where
  "terms_sum is_sec ts = (\<Sum>(v, st) \<leftarrow> ts. v * time_scale is_sec st)"

definition time_value :: "bytes \<Rightarrow> bool \<Rightarrow> int option" where
  "time_value line is_sec =
     (case time_terms is_sec (if is_sec then st_start else st_month) 0 False line of
        None \<Rightarrow> None
      | Some (ts, v, valid) \<Rightarrow>
          if valid then Some (terms_sum is_sec ts + v * (if is_sec then 1 else 1000)) else None)"

subsection \<open>Sizes and offsets are exact\<close>

lemma mult_le_iff_div:
  fixes v k m :: int
  assumes "0 < k"
  shows "v * k \<le> m \<longleftrightarrow> v \<le> m div k"
proof
  assume "v * k \<le> m"
  then have "v * k div k \<le> m div k" using assms by (rule zdiv_mono1)
  with assms show "v \<le> m div k" by simp
next
  assume "v \<le> m div k"
  then have "v * k \<le> m div k * k" using assms by simp
  also have "\<dots> \<le> m" using assms div_mult_mod_eq [of m k] pos_mod_sign [of k m] by linarith
  finally show "v * k \<le> m" .
qed

text \<open>
  The part the two readers share: digits scaled by a unit, with the bound moved in front of the
  multiplication.
\<close>

lemma scaled_read:
  assumes "decimal_reader read m" "0 < k"
  shows "(if read ds = NGX_ERROR \<or> read ds > m div k then NGX_ERROR else read ds * k) =
    (if ds \<noteq> [] \<and> list_all is_digit ds \<and> dec_value 0 ds * k \<le> m then dec_value 0 ds * k else NGX_ERROR)"
proof (cases "ds \<noteq> [] \<and> list_all is_digit ds")
  case True
  then have nonneg: "0 \<le> dec_value 0 ds" by (simp add: dec_value_nonneg list_all_iff)
  then have "dec_value 0 ds \<le> dec_value 0 ds * k" using assms(2) by (simp add: mult_le_cancel_left1)
  with True nonneg assms(2) mult_le_iff_div [of k "dec_value 0 ds" m] show ?thesis
    by (auto simp: decimal_reader.read_exact [OF assms(1)] list_all_iff)
next
  case False
  then show ?thesis by (auto simp: decimal_reader.read_exact [OF assms(1)] list_all_iff)
qed

lemmas scaled_readers =
  scaled_read [OF atosz.decimal_reader_axioms] scaled_read [OF atoof.decimal_reader_axioms]
  scaled_read [OF atosz.decimal_reader_axioms, of 1, simplified]
  scaled_read [OF atoof.decimal_reader_axioms, of 1, simplified]

subsection \<open>Times are exact\<close>

lemma time_scale_pos: "0 < time_scale is_sec st"
  by (simp add: time_scale_def Let_def)

text \<open>The bound the code computes for a unit is the largest count that fits.\<close>

lemma parse_time_unit_scale:
  assumes "parse_time_unit is_sec st c rest = Some (st', mx, sc, rest')"
  shows "(if st' \<noteq> st_msec \<and> \<not> is_sec then (sc * 1000, mx div 1000) else (sc, mx)) =
    (time_scale is_sec st', NGX_MAX_INT_T_VALUE div time_scale is_sec st')"
  using assms
  by (auto simp: parse_time_unit_def time_scale_def max_value_defs split: if_splits)

lemma terms_sum_simps [simp]:
  "terms_sum is_sec [] = 0"
  "terms_sum is_sec ((v, st) # ts) = v * time_scale is_sec st + terms_sum is_sec ts"
  by (simp_all add: terms_sum_def)

text \<open>A pending value never gets lost: it ends up in the sum or in the trailing seconds.\<close>

lemma time_terms_grow:
  assumes "time_terms is_sec st v valid line = Some (ts, r, vl)" "0 \<le> v"
  shows "0 \<le> r \<and> 0 \<le> terms_sum is_sec ts \<and> (v \<le> terms_sum is_sec ts \<or> v \<le> r)"
  using assms
proof (induction is_sec st v valid line arbitrary: ts r vl rule: time_terms.induct)
  case (1 is_sec st v valid)
  then show ?case by auto
next
  case (2 is_sec st v valid c line)
  show ?case
  proof (cases "is_digit c")
    case True
    with "2.prems" have step: "time_terms is_sec st (v * 10 + digit_val c) True line = Some (ts, r, vl)"
      by simp
    have d: "0 \<le> digit_val c" using digit_val_bounds [OF True] by simp
    with "2.prems"(2) have "0 \<le> v * 10 + digit_val c" by simp
    from "2.IH"(1) [OF True step this] d "2.prems"(2) show ?thesis by linarith
  next
    case False
    with "2.prems"(1) obtain st' mx sc rest ts' where
      u: "parse_time_unit is_sec st c line = Some (st', mx, sc, rest)"
      and t: "time_terms is_sec st' 0 valid (dropWhile (\<lambda>c. c = chr_space) rest) = Some (ts', r, vl)"
      and ts: "ts = (v, st') # ts'"
      by (auto split: option.splits)
    from "2.IH"(2) [OF False u refl refl refl t] have "0 \<le> r" "0 \<le> terms_sum is_sec ts'" by simp_all
    moreover have "v \<le> v * time_scale is_sec st'"
      using "2.prems"(2) time_scale_pos [of is_sec st'] by (simp add: mult_le_cancel_left1)
    ultimately show ?thesis using "2.prems"(2) by (simp add: ts)
  qed
qed

lemma parse_time_loop_exact:
  assumes "0 \<le> v" "v \<le> NGX_MAX_INT_T_VALUE" "0 \<le> t" "t \<le> NGX_MAX_INT_T_VALUE"
  shows "parse_time_loop is_sec st v t valid line =
    (case time_terms is_sec st v valid line of
       None \<Rightarrow> None
     | Some (ts, r, vl) \<Rightarrow>
         if t + terms_sum is_sec ts \<le> NGX_MAX_INT_T_VALUE \<and> r \<le> NGX_MAX_INT_T_VALUE
         then Some (t + terms_sum is_sec ts, r, vl) else None)"
  using assms
proof (induction is_sec st v t valid line rule: parse_time_loop.induct)
  case (1 is_sec st v t valid)
  then show ?case by simp
next
  case (2 is_sec st v t valid c line)
  let ?M = NGX_MAX_INT_T_VALUE
  show ?case
  proof (cases "is_digit c")
    case True
    then have d: "0 \<le> digit_val c" "digit_val c \<le> 9" and c: "c \<ge> chr_0 \<and> c \<le> chr_9"
      using digit_val_bounds by (auto simp: is_digit_def)
    show ?thesis
    proof (cases "v * 10 + digit_val c \<le> ?M")
      case fits: True
      then have "\<not> (v \<ge> ?M div 10 \<and> (v > ?M div 10 \<or> digit_val c > ?M mod 10))"
        using cutoff_test [OF d] by (simp add: not_less)
      with "2.IH"(1) [OF c this] fits "2.prems" d True c show ?thesis by auto
    next
      case big: False
      then have cut: "v \<ge> ?M div 10 \<and> (v > ?M div 10 \<or> digit_val c > ?M mod 10)"
        using cutoff_test [OF d] by (simp add: not_le)
      have "\<not> (t + terms_sum is_sec ts \<le> ?M \<and> r \<le> ?M)"
        if "time_terms is_sec st (v * 10 + digit_val c) True line = Some (ts, r, vl)" for ts r vl
        using time_terms_grow [OF that] big "2.prems"(1,3) d by linarith
      with cut c True show ?thesis by (auto split: option.splits)
    qed
  next
    case False
    then have nc: "\<not> (c \<ge> chr_0 \<and> c \<le> chr_9)" by (simp add: is_digit_def)
    show ?thesis
    proof (cases "parse_time_unit is_sec st c line")
      case None
      with False nc show ?thesis by auto
    next
      case (Some q)
      obtain st' mx sc rest where q: "q = (st', mx, sc, rest)" by (cases q)
      with Some have u: "parse_time_unit is_sec st c line = Some (st', mx, sc, rest)" by simp
      let ?k = "time_scale is_sec st'" and ?rest = "dropWhile (\<lambda>c. c = chr_space) rest"
      have grow: "0 \<le> terms_sum is_sec ts"
        if "time_terms is_sec st' 0 valid ?rest = Some (ts, r, vl)" for ts r vl
        using time_terms_grow [OF that] by simp
      have loop: "parse_time_loop is_sec st v t valid (c # line) =
          (if t + v * ?k \<le> ?M then parse_time_loop is_sec st' 0 (t + v * ?k) valid ?rest else None)"
        using nc u parse_time_unit_scale [OF u] "2.prems" time_scale_pos [of is_sec st']
          mult_le_iff_div [of ?k v ?M]
        by (auto simp: Let_def)
      show ?thesis
      proof (cases "t + v * ?k \<le> ?M")
        case True
        have "0 \<le> t + v * ?k" using "2.prems"(1,3) time_scale_pos [of is_sec st'] by simp
        note IH = "2.IH"(2) [OF nc u refl refl refl parse_time_unit_scale [OF u, symmetric]]
        from True "2.prems" time_scale_pos [of is_sec st'] mult_le_iff_div [of ?k v ?M]
        have "\<not> v > ?M div ?k" by (simp add: not_less)
        from IH [OF refl this refl] True \<open>0 \<le> t + v * ?k\<close>
        have "parse_time_loop is_sec st' 0 (t + v * ?k) valid ?rest =
           (case time_terms is_sec st' 0 valid ?rest of None \<Rightarrow> None
            | Some (ts, r, vl) \<Rightarrow>
                if t + v * ?k + terms_sum is_sec ts \<le> ?M \<and> r \<le> ?M
                then Some (t + v * ?k + terms_sum is_sec ts, r, vl) else None)"
          by simp
        with True False u show ?thesis
          by (auto simp: loop add.assoc simp del: parse_time_loop.simps split: option.splits)
      next
        case big: False
        have "\<not> t + (v * ?k + terms_sum is_sec ts) \<le> ?M"
          if "time_terms is_sec st' 0 valid ?rest = Some (ts, r, vl)" for ts r vl
          using grow [OF that] big by linarith
        with big False u show ?thesis
          by (auto simp: loop simp del: parse_time_loop.simps split: option.splits)
      qed
    qed
  qed
qed

subsection \<open>Properties\<close>

text \<open>
  \<^verbatim>\<open>ngx_parse_size\<close> and \<^verbatim>\<open>ngx_parse_offset\<close> return the scaled value of their argument
  when it is well formed and fits the result type, and \<^verbatim>\<open>NGX_ERROR\<close> otherwise: the bound tested
  before the multiplication is exact.
\<close>

theorem parse_size_offset_exact:
  "ngx_parse_size line =
     (case scaled_value size_units line of
        None \<Rightarrow> NGX_ERROR
      | Some v \<Rightarrow> if v \<le> NGX_MAX_SIZE_T_VALUE then v else NGX_ERROR) \<and>
   ngx_parse_offset line =
     (case scaled_value offset_units line of
        None \<Rightarrow> NGX_ERROR
      | Some v \<Rightarrow> if v \<le> NGX_MAX_OFF_T_VALUE then v else NGX_ERROR)"
proof (cases "line = []")
  case True
  then show ?thesis by (simp add: ngx_parse_size_def ngx_parse_offset_def scaled_value_def Let_def split: option.splits)
next
  case False
  from False show ?thesis
    by (auto simp: ngx_parse_size_def ngx_parse_offset_def scaled_value_def size_units_def
        offset_units_def scaled_readers Let_def)
qed

text \<open>
  \<^verbatim>\<open>ngx_parse_time\<close>, which checks every digit, every scaling and every addition for
  overflow, returns what unbounded arithmetic gives when the total fits an \<^verbatim>\<open>ngx_int_t\<close>, and
  \<^verbatim>\<open>NGX_ERROR\<close> when it does not or when the line is not a time.
\<close>

theorem parse_time_exact:
  "ngx_parse_time line is_sec =
     (case time_value line is_sec of
        None \<Rightarrow> NGX_ERROR
      | Some t \<Rightarrow> if t \<le> NGX_MAX_INT_T_VALUE then t else NGX_ERROR)"
proof (cases "time_terms is_sec (if is_sec then st_start else st_month) 0 False line")
  case None
  then show ?thesis by (simp add: ngx_parse_time_def time_value_def parse_time_loop_exact)
next
  case (Some q)
  obtain ts r vl where q: "q = (ts, r, vl)" by (cases q)
  from time_terms_grow [OF Some [unfolded q]] have "0 \<le> r" "0 \<le> terms_sum is_sec ts" by simp_all
  moreover have "r \<le> NGX_MAX_INT_T_VALUE div 1000 \<longleftrightarrow> r * 1000 \<le> NGX_MAX_INT_T_VALUE"
    by (simp add: mult_le_iff_div)
  ultimately show ?thesis
    using Some q
    by (auto simp: ngx_parse_time_def time_value_def parse_time_loop_exact Let_def not_le not_less)
qed

end
