(* ===== verification/Ngx_Base64.thy ===== *)
theory Ngx_Base64
  imports Ngx_Prelude
begin

text \<open>
  The base64 codecs of \<^verbatim>\<open>src/core/ngx_string.c\<close>, in the standard and in the URL alphabet, with the
  buffer sizes the callers allocate (\<^verbatim>\<open>ngx_base64_encoded_length\<close>, \<^verbatim>\<open>ngx_base64_decoded_length\<close>
  of \<^verbatim>\<open>src/core/ngx_string.h\<close>).  The lemmas show that decoding inverts encoding, which inputs are
  refused, and that the outputs fit the buffers.
\<close>

subsection \<open>Encoding\<close>

fun ngx_encode_base64_internal :: "bytes \<Rightarrow> bool \<Rightarrow> bytes \<Rightarrow> bytes" where
  "ngx_encode_base64_internal basis padding (s0 # s1 # s2 # s) =
     basis ! unat (drop_bit 2 s0 AND 0x3f) #
     basis ! unat (push_bit 4 (s0 AND 3) OR drop_bit 4 s1) #
     basis ! unat (push_bit 2 (s1 AND 0x0f) OR drop_bit 6 s2) #
     basis ! unat (s2 AND 0x3f) #
     ngx_encode_base64_internal basis padding s"
| "ngx_encode_base64_internal basis padding [s0] =
     [basis ! unat (drop_bit 2 s0 AND 0x3f), basis ! unat (push_bit 4 (s0 AND 3))]
     @ (if padding then [chr_eq] else []) @ (if padding then [chr_eq] else [])"
| "ngx_encode_base64_internal basis padding [s0, s1] =
     [basis ! unat (drop_bit 2 s0 AND 0x3f),
      basis ! unat (push_bit 4 (s0 AND 3) OR drop_bit 4 s1),
      basis ! unat (push_bit 2 (s1 AND 0x0f))]
     @ (if padding then [chr_eq] else [])"
| "ngx_encode_base64_internal basis padding [] = []"

definition basis64 :: bytes where
  "basis64 = str ''ABCDEFGHIJKLMNOPQRSTUVWXYZabcdefghijklmnopqrstuvwxyz0123456789+/''"

definition basis64url :: bytes where
  "basis64url = str ''ABCDEFGHIJKLMNOPQRSTUVWXYZabcdefghijklmnopqrstuvwxyz0123456789-_''"

definition ngx_encode_base64 :: "bytes \<Rightarrow> bytes" where
  "ngx_encode_base64 src = ngx_encode_base64_internal basis64 True src"

definition ngx_encode_base64url :: "bytes \<Rightarrow> bytes" where
  "ngx_encode_base64url src = ngx_encode_base64_internal basis64url False src"

subsection \<open>Decoding\<close>

text \<open>The first loop: the number of bytes before the padding; \<open>None\<close> is \<^verbatim>\<open>NGX_ERROR\<close>.\<close>

fun base64_data_len :: "bytes \<Rightarrow> nat \<Rightarrow> bytes \<Rightarrow> nat option" where
  "base64_data_len basis len [] = Some len"
| "base64_data_len basis len (c # src) =
     (if c = chr_eq then Some len
      else if basis ! unat c = 77 then None
      else base64_data_len basis (Suc len) src)"

fun base64_groups :: "bytes \<Rightarrow> bytes \<Rightarrow> bytes" where
  "base64_groups basis (s0 # s1 # s2 # s3 # s) =
     (push_bit 2 (basis ! unat s0) OR drop_bit 4 (basis ! unat s1)) #
     (push_bit 4 (basis ! unat s1) OR drop_bit 2 (basis ! unat s2)) #
     (push_bit 6 (basis ! unat s2) OR basis ! unat s3) #
     base64_groups basis s"
| "base64_groups basis [s0, s1, s2] =
     [push_bit 2 (basis ! unat s0) OR drop_bit 4 (basis ! unat s1),
      push_bit 4 (basis ! unat s1) OR drop_bit 2 (basis ! unat s2)]"
| "base64_groups basis [s0, s1] =
     [push_bit 2 (basis ! unat s0) OR drop_bit 4 (basis ! unat s1)]"
| "base64_groups basis [s0] = []"
| "base64_groups basis [] = []"

definition ngx_decode_base64_internal :: "bytes \<Rightarrow> bytes \<Rightarrow> bytes option" where
  "ngx_decode_base64_internal basis src =
     (case base64_data_len basis 0 src of
        None \<Rightarrow> None
      | Some len \<Rightarrow> if len mod 4 = 1 then None else Some (base64_groups basis (take len src)))"

definition basis64_decode :: bytes where
  "basis64_decode =
     [77, 77, 77, 77, 77, 77, 77, 77, 77, 77, 77, 77, 77, 77, 77, 77,
      77, 77, 77, 77, 77, 77, 77, 77, 77, 77, 77, 77, 77, 77, 77, 77,
      77, 77, 77, 77, 77, 77, 77, 77, 77, 77, 77, 62, 77, 77, 77, 63,
      52, 53, 54, 55, 56, 57, 58, 59, 60, 61, 77, 77, 77, 77, 77, 77,
      77,  0,  1,  2,  3,  4,  5,  6,  7,  8,  9, 10, 11, 12, 13, 14,
      15, 16, 17, 18, 19, 20, 21, 22, 23, 24, 25, 77, 77, 77, 77, 77,
      77, 26, 27, 28, 29, 30, 31, 32, 33, 34, 35, 36, 37, 38, 39, 40,
      41, 42, 43, 44, 45, 46, 47, 48, 49, 50, 51, 77, 77, 77, 77, 77]
     @ replicate 128 77"

definition basis64url_decode :: bytes where
  "basis64url_decode =
     [77, 77, 77, 77, 77, 77, 77, 77, 77, 77, 77, 77, 77, 77, 77, 77,
      77, 77, 77, 77, 77, 77, 77, 77, 77, 77, 77, 77, 77, 77, 77, 77,
      77, 77, 77, 77, 77, 77, 77, 77, 77, 77, 77, 77, 77, 62, 77, 77,
      52, 53, 54, 55, 56, 57, 58, 59, 60, 61, 77, 77, 77, 77, 77, 77,
      77,  0,  1,  2,  3,  4,  5,  6,  7,  8,  9, 10, 11, 12, 13, 14,
      15, 16, 17, 18, 19, 20, 21, 22, 23, 24, 25, 77, 77, 77, 77, 63,
      77, 26, 27, 28, 29, 30, 31, 32, 33, 34, 35, 36, 37, 38, 39, 40,
      41, 42, 43, 44, 45, 46, 47, 48, 49, 50, 51, 77, 77, 77, 77, 77]
     @ replicate 128 77"

definition ngx_decode_base64 :: "bytes \<Rightarrow> bytes option" where
  "ngx_decode_base64 src = ngx_decode_base64_internal basis64_decode src"

definition ngx_decode_base64url :: "bytes \<Rightarrow> bytes option" where
  "ngx_decode_base64url src = ngx_decode_base64_internal basis64url_decode src"

definition ngx_base64_encoded_length :: "nat \<Rightarrow> nat" where
  "ngx_base64_encoded_length len = ((len + 2) div 3) * 4"

definition ngx_base64_decoded_length :: "nat \<Rightarrow> nat" where
  "ngx_base64_decoded_length len = ((len + 3) div 4) * 3"

subsection \<open>Sextets\<close>

text \<open>The four indices of a group are sextets, and the three bytes come back from them.\<close>

lemma sextet_bounds:
  fixes a b :: u_char
  shows "drop_bit 2 a AND 0x3f < 64" "push_bit 4 (a AND 3) OR drop_bit 4 b < 64"
    "push_bit 2 (a AND 0x0f) OR drop_bit 6 b < 64" "a AND 0x3f < 64"
    "push_bit 4 (a AND 3) < 64" "push_bit 2 (a AND 0x0f) < 64"
  by (rule byte_less_64I; simp add: bit_simps)+

lemma sextets_join:
  fixes a b c :: u_char
  shows "push_bit 2 (drop_bit 2 a AND 0x3f) OR drop_bit 4 (push_bit 4 (a AND 3) OR drop_bit 4 b) = a"
    "push_bit 4 (push_bit 4 (a AND 3) OR drop_bit 4 b) OR
       drop_bit 2 (push_bit 2 (b AND 0x0f) OR drop_bit 6 c) = b"
    "push_bit 6 (push_bit 2 (b AND 0x0f) OR drop_bit 6 c) OR c AND 0x3f = c"
    "push_bit 2 (drop_bit 2 a AND 0x3f) OR drop_bit 4 (push_bit 4 (a AND 3)) = a"
    "push_bit 4 (push_bit 4 (a AND 3) OR drop_bit 4 b) OR drop_bit 2 (push_bit 2 (b AND 0x0f)) = b"
  by (rule byte_eqI; simp add: bit_simps)+

lemma triple_induct [case_names Nil One Two Three]:
  assumes "P []" "\<And>a. P [a]" "\<And>a b. P [a, b]" "\<And>a b c s. P s \<Longrightarrow> P (a # b # c # s)"
  shows "P (s :: 'a list)"
  using assms by induction_schema (pat_completeness, lexicographic_order)

subsection \<open>A pair of alphabets\<close>

text \<open>
  What the two tables of a codec owe each other: every sextet is encoded as a character that is
  not the padding and that the decoding table maps back.
\<close>

lemma data_len_shift:
  "base64_data_len basis (k + len) src = map_option ((+) k) (base64_data_len basis len src)"
  by (induction basis len src rule: base64_data_len.induct) (auto simp flip: add_Suc_right)

locale base64_alphabet =
  fixes enc dec :: bytes
  assumes dec_enc: "n < 64 \<Longrightarrow> dec ! unat (enc ! unat n) = n"
    and enc_not_pad: "n < 64 \<Longrightarrow> enc ! unat (n :: u_char) \<noteq> chr_eq"
begin

lemma not_invalid: "n < 64 \<Longrightarrow> n \<noteq> 77" for n :: u_char
  by auto

lemmas alphabet_simps = dec_enc enc_not_pad not_invalid

lemma encode_data:
  "\<exists>k. base64_data_len dec 0 (ngx_encode_base64_internal enc pad src) = Some k \<and> k mod 4 \<noteq> 1 \<and>
     base64_groups dec (take k (ngx_encode_base64_internal enc pad src)) = src"
proof (induction src rule: triple_induct)
  case (Three a b c s)
  then obtain k where k: "base64_data_len dec 0 (ngx_encode_base64_internal enc pad s) = Some k"
    "k mod 4 \<noteq> 1" "base64_groups dec (take k (ngx_encode_base64_internal enc pad s)) = s"
    by blast
  define i where "i = drop_bit 2 a AND 0x3f"
  define j where "j = push_bit 4 (a AND 3) OR drop_bit 4 b"
  define l where "l = push_bit 2 (b AND 0x0f) OR drop_bit 6 c"
  define m where "m = c AND 0x3f"
  have sextets: "ngx_encode_base64_internal enc pad (a # b # c # s) = enc ! unat i # enc ! unat j #
      enc ! unat l # enc ! unat m # ngx_encode_base64_internal enc pad s"
    by (simp only: ngx_encode_base64_internal.simps i_def j_def l_def m_def)
  have bounds: "i < 64" "j < 64" "l < 64" "m < 64"
    unfolding i_def j_def l_def m_def by (rule sextet_bounds)+
  have join: "push_bit 2 i OR drop_bit 4 j = a" "push_bit 4 j OR drop_bit 2 l = b" "push_bit 6 l OR m = c"
    unfolding i_def j_def l_def m_def by (rule sextets_join)+
  have "base64_data_len dec (Suc (Suc (Suc (Suc 0)))) (ngx_encode_base64_internal enc pad s) =
      Some (Suc (Suc (Suc (Suc k))))"
    using data_len_shift [of dec 4 0] k(1) by (simp add: numeral_eq_Suc)
  moreover have "Suc (Suc (Suc (Suc k))) mod 4 = k mod 4" by presburger
  ultimately show ?case using k
    by (intro exI [of _ "Suc (Suc (Suc (Suc k)))"], unfold sextets)
      (simp add: alphabet_simps bounds join)
next
  case (Two a b)
  define i where "i = drop_bit 2 a AND 0x3f"
  define j where "j = push_bit 4 (a AND 3) OR drop_bit 4 b"
  define l where "l = push_bit 2 (b AND 0x0f)"
  have sextets: "ngx_encode_base64_internal enc pad [a, b] =
      [enc ! unat i, enc ! unat j, enc ! unat l] @ (if pad then [chr_eq] else [])"
    by (simp only: ngx_encode_base64_internal.simps i_def j_def l_def)
  have bounds: "i < 64" "j < 64" "l < 64" unfolding i_def j_def l_def by (rule sextet_bounds)+
  have join: "push_bit 2 i OR drop_bit 4 j = a" "push_bit 4 j OR drop_bit 2 l = b"
    unfolding i_def j_def l_def by (rule sextets_join)+
  show ?case unfolding sextets by (simp add: alphabet_simps bounds join)
next
  case (One a)
  define i where "i = drop_bit 2 a AND 0x3f"
  define j where "j = push_bit 4 (a AND 3)"
  have sextets: "ngx_encode_base64_internal enc pad [a] =
      [enc ! unat i, enc ! unat j] @ (if pad then [chr_eq] else []) @ (if pad then [chr_eq] else [])"
    by (simp only: ngx_encode_base64_internal.simps i_def j_def)
  have bounds: "i < 64" "j < 64" unfolding i_def j_def by (rule sextet_bounds)+
  have join: "push_bit 2 i OR drop_bit 4 j = a" unfolding i_def j_def by (rule sextets_join)
  show ?case unfolding sextets by (simp add: alphabet_simps bounds join)
next
  case Nil
  show ?case by simp
qed

lemma decode_encode: "ngx_decode_base64_internal dec (ngx_encode_base64_internal enc pad src) = Some src"
  using encode_data [of pad src] by (auto simp: ngx_decode_base64_internal_def)

end

lemma nth_table: "list_all2 (\<lambda>n c. dec ! unat c = n \<and> c \<noteq> chr_eq) (map of_nat [0..<64]) enc \<Longrightarrow>
  base64_alphabet enc dec"
proof
  fix n :: u_char
  assume tab: "list_all2 (\<lambda>n c. dec ! unat c = n \<and> c \<noteq> chr_eq) (map of_nat [0..<64]) enc" and n: "n < 64"
  from n have "unat n < 64" by (simp add: word_less_nat_alt)
  with list_all2_nthD [OF tab, of "unat n"]
  show "dec ! unat (enc ! unat n) = n" "enc ! unat n \<noteq> chr_eq" by auto
qed

interpretation base64_std: base64_alphabet basis64 basis64_decode
  by (rule nth_table) (simp add: basis64_def basis64_decode_def str_def upt_numeral_simps)

interpretation base64_url: base64_alphabet basis64url basis64url_decode
  by (rule nth_table) (simp add: basis64url_def basis64url_decode_def str_def upt_numeral_simps)

subsection \<open>Lengths\<close>

lemma length_encode [list_bounds]:
  "length (ngx_encode_base64_internal basis pad src) =
     (if pad then ngx_base64_encoded_length (length src)
      else 4 * (length src div 3) + (if length src mod 3 = 0 then 0 else Suc (length src mod 3)))"
proof (induction src rule: triple_induct)
  case (Three a b c s)
  have "(length s + 3 + 2) div 3 = (length s + 2) div 3 + 1" "(length s + 3) div 3 = length s div 3 + 1"
    "(length s + 3) mod 3 = length s mod 3" by presburger+
  moreover have "length (a # b # c # s) = length s + 3" "length (ngx_encode_base64_internal basis pad (a # b # c # s)) =
      length (ngx_encode_base64_internal basis pad s) + 4" by simp_all
  ultimately show ?case by (simp only: Three ngx_base64_encoded_length_def) auto
qed (simp_all add: ngx_base64_encoded_length_def)

lemma length_groups: "length (base64_groups basis s) \<le> ngx_base64_decoded_length (length s)"
proof (induction basis s rule: base64_groups.induct)
  case (1 basis s0 s1 s2 s3 s)
  have "(length s + 7) div 4 = Suc ((length s + 3) div 4)" by presburger
  with "1.IH" show ?case by (simp add: ngx_base64_decoded_length_def ac_simps)
qed (simp_all add: ngx_base64_decoded_length_def)

lemma data_len_le: "base64_data_len basis len src = Some k \<Longrightarrow> k \<le> len + length src"
  by (induction basis len src rule: base64_data_len.induct) (auto split: if_splits)

lemma data_len_takeWhile:
  "base64_data_len basis len src =
     (let d = takeWhile (\<lambda>c. c \<noteq> chr_eq) src in
      if \<exists>c \<in> set d. basis ! unat c = 77 then None else Some (len + length d))"
  by (induction basis len src rule: base64_data_len.induct) (auto simp: Let_def)

subsection \<open>Properties\<close>

text \<open>
  Decoding inverts encoding, for the padded standard alphabet and for the
  unpadded URL alphabet, on every byte string.
\<close>

theorem base64_roundtrip:
  "ngx_decode_base64 (ngx_encode_base64 src) = Some src \<and>
   ngx_decode_base64url (ngx_encode_base64url src) = Some src"
  by (simp add: ngx_decode_base64_def ngx_encode_base64_def ngx_decode_base64url_def
      ngx_encode_base64url_def base64_std.decode_encode base64_url.decode_encode)

text \<open>
  Encoded text has exactly the length the callers allocate (at most, without
  padding), a decoded text never exceeds the length allocated from the encoded one, and
  decoding fails exactly when the data before the first \<^verbatim>\<open>=\<close> has a character outside the
  alphabet or a length of the form \<open>4 n + 1\<close>.
\<close>

theorem base64_buffers:
  "length (ngx_encode_base64 src) = ngx_base64_encoded_length (length src) \<and>
   length (ngx_encode_base64url src) \<le> ngx_base64_encoded_length (length src) \<and>
   pred_option (\<lambda>dst. length dst \<le> ngx_base64_decoded_length (length src)) (ngx_decode_base64 src) \<and>
   pred_option (\<lambda>dst. length dst \<le> ngx_base64_decoded_length (length src)) (ngx_decode_base64url src) \<and>
   (ngx_decode_base64 src = None \<longleftrightarrow>
      (let d = takeWhile (\<lambda>c. c \<noteq> chr_eq) src in
       list_ex (\<lambda>c. basis64_decode ! unat c = 77) d \<or> length d mod 4 = 1))"
proof (intro conjI)
  have mono: "m \<le> n \<Longrightarrow> ngx_base64_decoded_length m \<le> ngx_base64_decoded_length n" for m n
    by (simp add: ngx_base64_decoded_length_def div_le_mono)
  have dec: "pred_option (\<lambda>dst. length dst \<le> ngx_base64_decoded_length (length src))
      (ngx_decode_base64_internal basis src)" for basis
  proof (cases "base64_data_len basis 0 src")
    case (Some k)
    then have "k \<le> length src" using data_len_le by fastforce
    then have "length (base64_groups basis (take k src)) \<le> ngx_base64_decoded_length (length src)"
      using length_groups [of basis "take k src"] mono [of k "length src"] by simp
    with Some show ?thesis by (simp add: ngx_decode_base64_internal_def)
  qed (simp add: ngx_decode_base64_internal_def)
  show "length (ngx_encode_base64 src) = ngx_base64_encoded_length (length src)"
    by (simp add: ngx_encode_base64_def length_encode)
  show "length (ngx_encode_base64url src) \<le> ngx_base64_encoded_length (length src)"
    by (simp add: ngx_encode_base64url_def length_encode ngx_base64_encoded_length_def) presburger
  show "pred_option (\<lambda>dst. length dst \<le> ngx_base64_decoded_length (length src)) (ngx_decode_base64 src)"
    "pred_option (\<lambda>dst. length dst \<le> ngx_base64_decoded_length (length src)) (ngx_decode_base64url src)"
    using dec by (simp_all add: ngx_decode_base64_def ngx_decode_base64url_def)
  show "ngx_decode_base64 src = None \<longleftrightarrow>
      (let d = takeWhile (\<lambda>c. c \<noteq> chr_eq) src in
       list_ex (\<lambda>c. basis64_decode ! unat c = 77) d \<or> length d mod 4 = 1)"
    by (auto simp: ngx_decode_base64_def ngx_decode_base64_internal_def data_len_takeWhile
        list_ex_iff Let_def)
qed

end
