(* ===== verification/Ngx_Escape.thy ===== *)
theory Ngx_Escape
  imports Ngx_Prelude
begin

text \<open>
  Escaping in \<^verbatim>\<open>src/core/ngx_string.c\<close>: \<^verbatim>\<open>ngx_escape_uri\<close> with its seven tables, \<^verbatim>\<open>ngx_unescape_uri\<close>,
  \<^verbatim>\<open>ngx_escape_html\<close> and \<^verbatim>\<open>ngx_escape_json\<close>.  Each escaping function has two modes in the code, one
  that counts (\<^verbatim>\<open>dst == NULL\<close>) and one that writes; they are two definitions here, and the lemmas
  relate them, because the callers size the buffer with the first and fill it with the second.
\<close>

subsection \<open>URI escaping\<close>

definition escape_uri_table :: "uint32 list" where
  "escape_uri_table =
     [0xffffffff, 0xd000002d, 0x50000000, 0xb8000001, 0xffffffff, 0xffffffff, 0xffffffff, 0xffffffff]"

definition escape_args_table :: "uint32 list" where
  "escape_args_table =
     [0xffffffff, 0xd800086d, 0x50000000, 0xb8000001, 0xffffffff, 0xffffffff, 0xffffffff, 0xffffffff]"

definition escape_uri_component_table :: "uint32 list" where
  "escape_uri_component_table =
     [0xffffffff, 0xfc009fff, 0x78000001, 0xb8000001, 0xffffffff, 0xffffffff, 0xffffffff, 0xffffffff]"

definition escape_html_table :: "uint32 list" where
  "escape_html_table =
     [0xffffffff, 0x500000ad, 0x50000000, 0xb8000001, 0xffffffff, 0xffffffff, 0xffffffff, 0xffffffff]"

definition escape_refresh_table :: "uint32 list" where
  "escape_refresh_table =
     [0xffffffff, 0x50000085, 0x50000000, 0xd8000001, 0xffffffff, 0xffffffff, 0xffffffff, 0xffffffff]"

definition escape_memcached_table :: "uint32 list" where
  "escape_memcached_table =
     [0xffffffff, 0x00000021, 0x00000000, 0x00000000, 0x00000000, 0x00000000, 0x00000000, 0x00000000]"

abbreviation (input) NGX_ESCAPE_URI :: nat where "NGX_ESCAPE_URI \<equiv> 0"
abbreviation (input) NGX_ESCAPE_ARGS :: nat where "NGX_ESCAPE_ARGS \<equiv> 1"
abbreviation (input) NGX_ESCAPE_URI_COMPONENT :: nat where "NGX_ESCAPE_URI_COMPONENT \<equiv> 2"
abbreviation (input) NGX_ESCAPE_HTML :: nat where "NGX_ESCAPE_HTML \<equiv> 3"
abbreviation (input) NGX_ESCAPE_REFRESH :: nat where "NGX_ESCAPE_REFRESH \<equiv> 4"
abbreviation (input) NGX_ESCAPE_MEMCACHED :: nat where "NGX_ESCAPE_MEMCACHED \<equiv> 5"
abbreviation (input) NGX_ESCAPE_MAIL_AUTH :: nat where "NGX_ESCAPE_MAIL_AUTH \<equiv> 6"

definition escape_map :: "uint32 list list" where
  "escape_map =
     [escape_uri_table, escape_args_table, escape_uri_component_table, escape_html_table,
      escape_refresh_table, escape_memcached_table, escape_memcached_table]"

lemmas escape_tables = escape_map_def escape_uri_table_def escape_args_table_def
  escape_uri_component_table_def escape_html_table_def escape_refresh_table_def
  escape_memcached_table_def

definition must_escape :: "uint32 list \<Rightarrow> u_char \<Rightarrow> bool" where
  "must_escape escape c \<longleftrightarrow>
     (escape ! unat (drop_bit 5 c)) AND push_bit (unat (c AND 0x1f)) 1 \<noteq> 0"

fun escape_uri_count :: "uint32 list \<Rightarrow> nat \<Rightarrow> bytes \<Rightarrow> nat" where
  "escape_uri_count escape n [] = n"
| "escape_uri_count escape n (c # src) =
     escape_uri_count escape (if must_escape escape c then Suc n else n) src"

fun escape_uri_write :: "uint32 list \<Rightarrow> bytes \<Rightarrow> bytes" where
  "escape_uri_write escape [] = []"
| "escape_uri_write escape (c # src) =
     (if must_escape escape c
      then chr_percent # hex_upper ! unat (drop_bit 4 c) # hex_upper ! unat (c AND 0xf) #
           escape_uri_write escape src
      else c # escape_uri_write escape src)"

definition ngx_escape_uri_len :: "bytes \<Rightarrow> nat \<Rightarrow> nat" where
  "ngx_escape_uri_len src type = escape_uri_count (escape_map ! type) 0 src"

definition ngx_escape_uri :: "bytes \<Rightarrow> nat \<Rightarrow> bytes" where
  "ngx_escape_uri src type = escape_uri_write (escape_map ! type) src"

subsection \<open>URI unescaping\<close>

abbreviation (input) NGX_UNESCAPE_URI :: nat where "NGX_UNESCAPE_URI \<equiv> 1"
abbreviation (input) NGX_UNESCAPE_REDIRECT :: nat where "NGX_UNESCAPE_REDIRECT \<equiv> 2"

text \<open>
  The states of the loop.  The second quoted state keeps the decoded high half and the
  character it came from, which the code reads back as \<^verbatim>\<open>*(s - 2)\<close>.
\<close>

datatype unescape_state = sw_usual | sw_quoted | sw_quoted_second u_char u_char

text \<open>
  The loop returns the bytes written to \<^verbatim>\<open>dst\<close> and the bytes of \<^verbatim>\<open>src\<close> not read (after
  \<^verbatim>\<open>goto done\<close>).
\<close>

fun unescape_loop :: "nat \<Rightarrow> unescape_state \<Rightarrow> bytes \<Rightarrow> bytes \<times> bytes" where
  "unescape_loop type st [] = ([], [])"
| "unescape_loop type sw_usual (ch # s) =
     (if ch = chr_question \<and> type AND (NGX_UNESCAPE_URI OR NGX_UNESCAPE_REDIRECT) \<noteq> 0 then ([ch], s)
      else if ch = chr_percent then unescape_loop type sw_quoted s
      else apfst ((#) ch) (unescape_loop type sw_usual s))"
| "unescape_loop type sw_quoted (ch # s) =
     (if ch \<ge> chr_0 \<and> ch \<le> chr_9 then unescape_loop type (sw_quoted_second (ch - chr_0) ch) s
      else let c = ch OR 0x20 in
        if c \<ge> chr_a \<and> c \<le> chr_f then unescape_loop type (sw_quoted_second (c - chr_a + 10) ch) s
        else apfst ((#) ch) (unescape_loop type sw_usual s))"
| "unescape_loop type (sw_quoted_second decoded prev) (ch # s) =
     (if ch \<ge> chr_0 \<and> ch \<le> chr_9 then
        let d = push_bit 4 decoded + (ch - chr_0) in
        if type AND NGX_UNESCAPE_REDIRECT \<noteq> 0 then
          (if d > chr_percent \<and> d < 0x7f then apfst ((#) d) (unescape_loop type sw_usual s)
           else apfst ((@) [chr_percent, prev, ch]) (unescape_loop type sw_usual s))
        else apfst ((#) d) (unescape_loop type sw_usual s)
      else let c = ch OR 0x20 in
        if c \<ge> chr_a \<and> c \<le> chr_f then
          let d = push_bit 4 decoded + (c - chr_a) + 10 in
          if type AND NGX_UNESCAPE_URI \<noteq> 0 then
            (if d = chr_question then ([d], s)
             else apfst ((#) d) (unescape_loop type sw_usual s))
          else if type AND NGX_UNESCAPE_REDIRECT \<noteq> 0 then
            (if d = chr_question then ([d], s)
             else if d > chr_percent \<and> d < 0x7f then apfst ((#) d) (unescape_loop type sw_usual s)
             else apfst ((@) [chr_percent, prev, ch]) (unescape_loop type sw_usual s))
          else apfst ((#) d) (unescape_loop type sw_usual s)
        else unescape_loop type sw_usual s)"

definition ngx_unescape_uri :: "bytes \<Rightarrow> nat \<Rightarrow> bytes \<times> bytes" where
  "ngx_unescape_uri src type = unescape_loop type sw_usual src"

subsection \<open>HTML and JSON escaping\<close>

fun ngx_escape_html_len :: "bytes \<Rightarrow> nat" where
  "ngx_escape_html_len [] = 0"
| "ngx_escape_html_len (c # src) =
     (if c = chr_lt then length (str ''&lt;'') - 1
      else if c = chr_gt then length (str ''&gt;'') - 1
      else if c = chr_amp then length (str ''&amp;'') - 1
      else if c = chr_quot then length (str ''&quot;'') - 1
      else 0) + ngx_escape_html_len src"

fun ngx_escape_html :: "bytes \<Rightarrow> bytes" where
  "ngx_escape_html [] = []"
| "ngx_escape_html (ch # src) =
     (if ch = chr_lt then str ''&lt;''
      else if ch = chr_gt then str ''&gt;''
      else if ch = chr_amp then str ''&amp;''
      else if ch = chr_quot then str ''&quot;''
      else [ch]) @ ngx_escape_html src"

fun ngx_escape_json_len :: "bytes \<Rightarrow> nat" where
  "ngx_escape_json_len [] = 0"
| "ngx_escape_json_len (ch # src) =
     (if ch = chr_backslash \<or> ch = chr_quot then 1
      else if ch \<le> 0x1f then
        (if ch = 0x0A \<or> ch = 0x0D \<or> ch = 0x09 \<or> ch = 0x08 \<or> ch = 0x0C then 1 else 5)
      else 0) + ngx_escape_json_len src"

fun ngx_escape_json :: "bytes \<Rightarrow> bytes" where
  "ngx_escape_json [] = []"
| "ngx_escape_json (ch # src) =
     (if ch > 0x1f then
        (if ch = chr_backslash \<or> ch = chr_quot then [chr_backslash] else []) @ [ch]
      else chr_backslash #
        (if ch = 0x0A then [0x6E]
         else if ch = 0x0D then [0x72]
         else if ch = 0x09 then [0x74]
         else if ch = 0x08 then [0x62]
         else if ch = 0x0C then [0x66]
         else [0x75, chr_0, chr_0, chr_0 + drop_bit 4 ch,
               let d = ch AND 0xf in if d < 10 then chr_0 + d else chr_A + d - 10]))
     @ ngx_escape_json src"

subsection \<open>Counting and writing agree\<close>

lemma escape_uri_count_acc: "escape_uri_count escape n src = n + escape_uri_count escape 0 src"
proof (induction src arbitrary: n)
  case (Cons c src)
  from Cons.IH [of "Suc n"] Cons.IH [of "Suc 0"] Cons.IH [of n] show ?case by simp
qed simp

lemma length_escape_uri_write [list_bounds]:
  "length (escape_uri_write escape src) = length src + 2 * escape_uri_count escape 0 src"
proof (induction src)
  case (Cons c src)
  with escape_uri_count_acc [of escape "Suc 0" src] show ?case by simp
qed simp

lemma length_escape_html [list_bounds]:
  "length (ngx_escape_html src) = length src + ngx_escape_html_len src"
  by (induction src) (auto simp: str_def)

lemma length_escape_json [list_bounds]:
  "length (ngx_escape_json src) = length src + ngx_escape_json_len src"
proof (induction src)
  case (Cons c src)
  have "(0x1f::u_char) < chr_backslash" "(0x1f::u_char) < chr_quot" by simp_all
  with Cons show ?case by (auto simp: Let_def not_less)
qed simp

subsection \<open>Unescaping inverts escaping\<close>

lemma unescape_quoted:
  assumes "hex_digit h = Some x" "hex_digit l = Some y"
  shows "unescape_loop 0 sw_usual (chr_percent # h # l # s) =
    apfst ((#) (push_bit 4 x + y)) (unescape_loop 0 sw_usual s)"
proof -
  have first: "unescape_loop 0 sw_quoted (h # l # s) = unescape_loop 0 (sw_quoted_second x h) (l # s)"
    using assms(1) by (auto simp: hex_digit_def Let_def split: if_splits)
  have "unescape_loop 0 (sw_quoted_second x h) (l # s) =
      apfst ((#) (push_bit 4 x + y)) (unescape_loop 0 sw_usual s)"
    using assms(2) by (auto simp: hex_digit_def Let_def add.assoc split: if_splits)
  with first show ?thesis by simp
qed

lemma unescape_escape:
  assumes "must_escape escape chr_percent"
  shows "unescape_loop 0 sw_usual (escape_uri_write escape src) = (src, [])"
proof (induction src)
  case (Cons c src)
  show ?case
  proof (cases "must_escape escape c")
    case True
    have "hex_digit (hex_upper ! unat (drop_bit 4 c)) = Some (drop_bit 4 c)"
      "hex_digit (hex_upper ! unat (c AND 0xf)) = Some (c AND 0xf)"
      by (simp_all add: hex_chars nibbles)
    from unescape_quoted [OF this] True Cons.IH show ?thesis by (simp add: nibbles)
  next
    case False
    with assms have "c \<noteq> chr_percent" by auto
    with False Cons.IH show ?thesis by simp
  qed
qed simp

lemma unescape_length:
  "length (fst (unescape_loop type st s)) + length (snd (unescape_loop type st s)) \<le>
     length s + (case st of sw_usual \<Rightarrow> 0 | sw_quoted \<Rightarrow> 1 | sw_quoted_second _ _ \<Rightarrow> 2)"
proof (induction s arbitrary: st)
  case Nil
  then show ?case by simp
next
  case (Cons ch s)
  note IH = Cons.IH [of sw_usual] Cons.IH [of sw_quoted] Cons.IH [of "sw_quoted_second _ _"]
  show ?case
  proof (cases st)
    case sw_usual
    with IH show ?thesis by simp
  next
    case sw_quoted
    with IH(1) IH(3) [of "ch - chr_0" ch] IH(3) [of "(ch OR 0x20) - chr_a + 10" ch] show ?thesis
      by (simp add: Let_def)
  next
    case (sw_quoted_second decoded prev)
    with IH(1) show ?thesis by (simp add: Let_def)
  qed
qed

subsection \<open>JSON denotation\<close>

text \<open>
  The bytes a JSON string body stands for: an unescaped byte above 0x1f other than a quote and
  a backslash, or a backslash escape; \<open>None\<close> for an ill-formed body.
\<close>

fun json_denote :: "bytes \<Rightarrow> bytes option" where
  "json_denote [] = Some []"
| "json_denote (c # s) =
     (if c = chr_quot \<or> c \<le> 0x1f then None
      else if c \<noteq> chr_backslash then map_option ((#) c) (json_denote s)
      else case s of
        [] \<Rightarrow> None
      | e # s' \<Rightarrow>
          if e = chr_quot \<or> e = chr_backslash then map_option ((#) e) (json_denote s')
          else if e = 0x6E then map_option ((#) 0x0A) (json_denote s')
          else if e = 0x72 then map_option ((#) 0x0D) (json_denote s')
          else if e = 0x74 then map_option ((#) 0x09) (json_denote s')
          else if e = 0x62 then map_option ((#) 0x08) (json_denote s')
          else if e = 0x66 then map_option ((#) 0x0C) (json_denote s')
          else if e = 0x75 then
            (case s' of
               z1 # z2 # h # l # s'' \<Rightarrow>
                 if z1 = chr_0 \<and> z2 = chr_0 \<and> hex_digit h \<noteq> None \<and> hex_digit l \<noteq> None
                 then map_option ((#) (push_bit 4 (the (hex_digit h)) + the (hex_digit l))) (json_denote s'')
                 else None
             | _ \<Rightarrow> None)
          else None)"

lemma json_control:
  assumes "ch \<le> 0x1f"
  shows "hex_digit (chr_0 + drop_bit 4 ch) = Some (drop_bit 4 ch) \<and>
    hex_digit (if ch AND 0xf < 10 then chr_0 + (ch AND 0xf) else chr_A + (ch AND 0xf) - 10) =
      Some (ch AND 0xf)"
  by (rule byte_range_all [of _ 0 "0x1f", OF _ word_zero_le assms])
    (simp add: upt_numeral_simps hex_digit_def)

lemma json_denote_escape: "json_denote (ngx_escape_json src) = Some src"
proof (induction src)
  case (Cons ch src)
  show ?case
  proof (cases "ch > 0x1f")
    case True
    with Cons show ?thesis by auto
  next
    case False
    then have "ch \<le> 0x1f" by simp
    note ctl = json_control [OF this]
    from False Cons ctl show ?thesis by (simp add: Let_def nibbles)
  qed
qed simp

subsection \<open>HTML denotation\<close>

text \<open>
  The text an HTML parser reads: the four entities, every other character but the ones that
  end or open markup; \<open>None\<close> where markup would start.
\<close>

function html_denote :: "bytes \<Rightarrow> bytes option" where
  "html_denote [] = Some []"
| "html_denote (c # s) =
     (if c = chr_lt \<or> c = chr_gt \<or> c = chr_quot then None
      else if c \<noteq> chr_amp then map_option ((#) c) (html_denote s)
      else if take 3 s = str ''lt;'' then map_option ((#) chr_lt) (html_denote (drop 3 s))
      else if take 3 s = str ''gt;'' then map_option ((#) chr_gt) (html_denote (drop 3 s))
      else if take 4 s = str ''amp;'' then map_option ((#) chr_amp) (html_denote (drop 4 s))
      else if take 5 s = str ''quot;'' then map_option ((#) chr_quot) (html_denote (drop 5 s))
      else None)"
  by pat_completeness auto
termination
  by (relation "measure length") auto

lemma html_denote_escape: "html_denote (ngx_escape_html src) = Some src"
  by (induction src) (auto simp: str_def)

subsection \<open>Properties\<close>

text \<open>
  The counting mode of each escaping function returns exactly the growth of the
  writing mode (for URIs in units of two bytes), so a buffer sized by the first is filled
  exactly by the second.
\<close>

theorem escape_lengths:
  "length (ngx_escape_uri src type) = length src + 2 * ngx_escape_uri_len src type \<and>
   length (ngx_escape_html src) = length src + ngx_escape_html_len src \<and>
   length (ngx_escape_json src) = length src + ngx_escape_json_len src"
  by (simp add: ngx_escape_uri_def ngx_escape_uri_len_def list_bounds)

text \<open>
  Property C29: unescaping inverts URI escaping for every table that escapes the percent sign,
  that is for every type but \<^verbatim>\<open>NGX_ESCAPE_REFRESH\<close>, and reads the whole input.
\<close>

theorem unescape_escape_uri:
  "list_all (\<lambda>type. ngx_unescape_uri (ngx_escape_uri src type) 0 = (src, []))
     [NGX_ESCAPE_URI, NGX_ESCAPE_ARGS, NGX_ESCAPE_URI_COMPONENT, NGX_ESCAPE_HTML,
      NGX_ESCAPE_MEMCACHED, NGX_ESCAPE_MAIL_AUTH]"
proof -
  have "list_all (\<lambda>type. must_escape (escape_map ! type) chr_percent)
     [NGX_ESCAPE_URI, NGX_ESCAPE_ARGS, NGX_ESCAPE_URI_COMPONENT, NGX_ESCAPE_HTML,
      NGX_ESCAPE_MEMCACHED, NGX_ESCAPE_MAIL_AUTH]"
    by (simp add: must_escape_def escape_tables)
  then show ?thesis
    by (simp add: ngx_unescape_uri_def ngx_escape_uri_def unescape_escape)
qed

text \<open>
  Unescaping writes no more bytes than it has read, whatever the type and however
  malformed the quoting, so it can be done in place, as its callers do.
\<close>

theorem unescape_uri_in_place:
  "length (fst (ngx_unescape_uri src type)) + length (snd (ngx_unescape_uri src type)) \<le> length src"
  using unescape_length [of type sw_usual src] by (simp add: ngx_unescape_uri_def)

text \<open>
  The escaped forms are safe to embed and lose nothing: as a JSON string body and
  as HTML text they denote exactly the original bytes, and no byte of them ends the string or
  starts markup.
\<close>

theorem escape_json_html_denote:
  "json_denote (ngx_escape_json src) = Some src \<and> html_denote (ngx_escape_html src) = Some src"
  by (simp add: json_denote_escape html_denote_escape)

text \<open>
  The refresh table escapes the tilde and leaves the closing brace alone; the
  bit pattern in the comment beside it, like every other table, has it the other way round.
\<close>

theorem escape_refresh_tilde:
  "ngx_escape_uri [chr_tilde] NGX_ESCAPE_REFRESH = str ''%7E'' \<and>
   ngx_escape_uri [0x7D] NGX_ESCAPE_REFRESH = [0x7D] \<and>
   list_all (\<lambda>type. ngx_escape_uri [chr_tilde] type = [chr_tilde] \<and>
       ngx_escape_uri [0x7D] type = str ''%7D'')
     [NGX_ESCAPE_URI, NGX_ESCAPE_ARGS, NGX_ESCAPE_URI_COMPONENT, NGX_ESCAPE_HTML]"
  by (simp add: ngx_escape_uri_def must_escape_def escape_tables hex_upper_def str_def)

end
