(* ===== verification/Ngx_Http_Chars.thy ===== *)
theory Ngx_Http_Chars
  imports Ngx_Prelude
begin

text \<open>
  The table of \<^verbatim>\<open>src/http/ngx_http_parse.c\<close> shared by the URI parsers: the bytes that may stand anywhere
  in a URI and need no attention.
\<close>

definition usual :: "uint32 list" where
  "usual = [0x00000000, 0x7fff37d6, 0xffffffff, 0x7fffffff,
            0xffffffff, 0xffffffff, 0xffffffff, 0xffffffff]"

definition is_usual :: "u_char \<Rightarrow> bool" where
  "is_usual ch \<longleftrightarrow> (usual ! unat (drop_bit 5 ch)) AND push_bit (unat (ch AND 0x1f)) 1 \<noteq> 0"

lemma not_usual [simp]:
  "\<not> is_usual chr_slash" "\<not> is_usual chr_dot" "\<not> is_usual chr_percent" "\<not> is_usual chr_question"
  "\<not> is_usual chr_hash" "\<not> is_usual chr_plus" "\<not> is_usual chr_space" "\<not> is_usual CR" "\<not> is_usual LF"
  by (simp_all add: is_usual_def usual_def)

lemma usual_not: "is_usual ch \<Longrightarrow> ch \<notin> {chr_slash, chr_dot, chr_percent, chr_question, chr_hash, chr_plus}"
  by (auto simp del: not_usual simp: is_usual_def usual_def)

end
