(* ===== verification/Ngx_Http_Request_Line.thy ===== *)
theory Ngx_Http_Request_Line
  imports Ngx_Http_Chars
begin

text \<open>
  The request line parser \<^verbatim>\<open>ngx_http_parse_request_line\<close> of \<^verbatim>\<open>src/http/ngx_http_parse.c\<close>, a state
  machine that reads the client's buffer byte by byte, records pointers into it in the request and
  can stop at any byte to wait for more input.  One definition per state of the \<^verbatim>\<open>switch\<close>; the
  build is the Unix one (\<^verbatim>\<open>NGX_WIN32\<close> is not defined) and the method comparisons are the portable
  ones (the 32-bit loads of the little-endian build compare the same bytes and the space that the
  state has just read).  The lemmas show that the parser can be interrupted anywhere, that every
  pointer it leaves in the request lies in the bytes it has read and in order, which versions it
  accepts, and what it records for a well-formed line.
\<close>

subsection \<open>The request and the states\<close>

datatype request_line_state =
  sw_start | sw_method | sw_spaces_before_uri | sw_schema | sw_schema_slash
| sw_schema_slash_slash | sw_host_start | sw_host | sw_host_end | sw_host_ip_literal | sw_port
| sw_after_slash_in_uri | sw_check_uri | sw_uri | sw_http_09 | sw_http_H | sw_http_HT
| sw_http_HTT | sw_http_HTTP | sw_first_major_digit | sw_major_digit | sw_first_minor_digit
| sw_minor_digit | sw_spaces_after_digit | sw_almost_done

text \<open>The fields of \<^verbatim>\<open>ngx_http_request_t\<close> the parser uses; a pointer is an index or \<open>None\<close> (\<^verbatim>\<open>NULL\<close>).\<close>

record request_line =
  state :: request_line_state
  request_start :: "nat option"
  method_end :: "nat option"
  schema_start :: "nat option"
  schema_end :: "nat option"
  host_start :: "nat option"
  host_end :: "nat option"
  port_end :: "nat option"
  uri_start :: "nat option"
  uri_end :: "nat option"
  uri_ext :: "nat option"
  args_start :: "nat option"
  http_protocol_data :: "nat option"
  request_end :: "nat option"
  http_method :: nat
  http_major :: nat
  http_minor :: nat
  http_version :: nat
  complex_uri :: bool
  quoted_uri :: bool
  plus_in_uri :: bool
  empty_path_in_uri :: bool

abbreviation (input) NGX_HTTP_UNKNOWN :: nat where "NGX_HTTP_UNKNOWN \<equiv> 0x1"
abbreviation (input) NGX_HTTP_GET :: nat where "NGX_HTTP_GET \<equiv> 0x2"
abbreviation (input) NGX_HTTP_HEAD :: nat where "NGX_HTTP_HEAD \<equiv> 0x4"
abbreviation (input) NGX_HTTP_POST :: nat where "NGX_HTTP_POST \<equiv> 0x8"
abbreviation (input) NGX_HTTP_PUT :: nat where "NGX_HTTP_PUT \<equiv> 0x10"
abbreviation (input) NGX_HTTP_DELETE :: nat where "NGX_HTTP_DELETE \<equiv> 0x20"
abbreviation (input) NGX_HTTP_MKCOL :: nat where "NGX_HTTP_MKCOL \<equiv> 0x40"
abbreviation (input) NGX_HTTP_COPY :: nat where "NGX_HTTP_COPY \<equiv> 0x80"
abbreviation (input) NGX_HTTP_MOVE :: nat where "NGX_HTTP_MOVE \<equiv> 0x100"
abbreviation (input) NGX_HTTP_OPTIONS :: nat where "NGX_HTTP_OPTIONS \<equiv> 0x200"
abbreviation (input) NGX_HTTP_PROPFIND :: nat where "NGX_HTTP_PROPFIND \<equiv> 0x400"
abbreviation (input) NGX_HTTP_PROPPATCH :: nat where "NGX_HTTP_PROPPATCH \<equiv> 0x800"
abbreviation (input) NGX_HTTP_LOCK :: nat where "NGX_HTTP_LOCK \<equiv> 0x1000"
abbreviation (input) NGX_HTTP_UNLOCK :: nat where "NGX_HTTP_UNLOCK \<equiv> 0x2000"
abbreviation (input) NGX_HTTP_PATCH :: nat where "NGX_HTTP_PATCH \<equiv> 0x4000"
abbreviation (input) NGX_HTTP_TRACE :: nat where "NGX_HTTP_TRACE \<equiv> 0x8000"
abbreviation (input) NGX_HTTP_CONNECT :: nat where "NGX_HTTP_CONNECT \<equiv> 0x10000"

abbreviation (input) NGX_HTTP_PARSE_INVALID_METHOD :: int where "NGX_HTTP_PARSE_INVALID_METHOD \<equiv> 10"
abbreviation (input) NGX_HTTP_PARSE_INVALID_REQUEST :: int where "NGX_HTTP_PARSE_INVALID_REQUEST \<equiv> 11"
abbreviation (input) NGX_HTTP_PARSE_INVALID_VERSION :: int where "NGX_HTTP_PARSE_INVALID_VERSION \<equiv> 12"
abbreviation (input) NGX_HTTP_PARSE_INVALID_09_METHOD :: int where "NGX_HTTP_PARSE_INVALID_09_METHOD \<equiv> 13"

text \<open>A request as \<^verbatim>\<open>ngx_http_alloc_request\<close> leaves it: zeroed, with an unknown method.\<close>

definition request_init :: request_line where
  "request_init =
     \<lparr>state = sw_start, request_start = None, method_end = None, schema_start = None,
      schema_end = None, host_start = None, host_end = None, port_end = None, uri_start = None,
      uri_end = None, uri_ext = None, args_start = None, http_protocol_data = None,
      request_end = None, http_method = NGX_HTTP_UNKNOWN, http_major = 0, http_minor = 0,
      http_version = 1000, complex_uri = False, quoted_uri = False, plus_in_uri = False,
      empty_path_in_uri = False\<rparr>"

text \<open>
  The loop works on a local variable \<^verbatim>\<open>state\<close> that is loaded from \<^verbatim>\<open>r->state\<close> and stored there when
  the buffer is used up or the line is complete, but not when the line is refused.  The model keeps
  it in the field and \<open>request_line_return\<close> puts the old value back on a refusal.  A step stops with
  a return code, the request and the new \<^verbatim>\<open>b->pos\<close>, which is \<open>None\<close> where the code returns without
  moving it.
\<close>

type_synonym rl_outcome = "(request_line, int \<times> request_line \<times> nat option) outcome"

definition move_to :: "request_line_state \<Rightarrow> request_line \<Rightarrow> rl_outcome" where
  "move_to st r = Cont (r\<lparr>state := st\<rparr>)"

definition rl_fail :: "int \<Rightarrow> request_line \<Rightarrow> rl_outcome" where
  "rl_fail code r = Stop (code, r, None)"

definition request_line_done :: "request_line \<Rightarrow> nat \<Rightarrow> rl_outcome" where
  "request_line_done r p =
     (let r = (if request_end r = None then r\<lparr>request_end := Some p\<rparr> else r);
          r = r\<lparr>http_version := http_major r * 1000 + http_minor r, state := sw_start\<rparr>
      in Stop (if http_version r = 9 \<and> http_method r \<noteq> NGX_HTTP_GET
               then NGX_HTTP_PARSE_INVALID_09_METHOD else NGX_OK, r, Some (Suc p)))"

subsection \<open>The states\<close>

definition is_method_char :: "u_char \<Rightarrow> bool" where
  "is_method_char ch \<longleftrightarrow> \<not> ((ch < chr_A \<or> ch > chr_Z) \<and> ch \<noteq> chr_underscore \<and> ch \<noteq> chr_minus)"

definition is_letter :: "u_char \<Rightarrow> bool" where
  "is_letter ch \<longleftrightarrow> (let c = ch OR 0x20 in c \<ge> chr_a \<and> c \<le> chr_z)"

definition request_line_start :: "nat \<Rightarrow> u_char \<Rightarrow> request_line \<Rightarrow> rl_outcome" where
  "request_line_start p ch r =
     (let r = r\<lparr>request_start := Some p\<rparr> in
      if ch = CR \<or> ch = LF then move_to sw_start r
      else if \<not> is_method_char ch then rl_fail NGX_HTTP_PARSE_INVALID_METHOD r
      else move_to sw_method r)"

text \<open>The \<^verbatim>\<open>switch\<close> on the length of the method: \<open>old\<close> is kept where nothing matches.\<close>

definition method_code :: "bytes \<Rightarrow> nat \<Rightarrow> nat" where
  "method_code m old =
     (if length m = 3 then
        (if m = str ''GET'' then NGX_HTTP_GET
         else if m = str ''PUT'' then NGX_HTTP_PUT
         else old)
      else if length m = 4 then
        (if m ! 1 = 0x4F then
           (if m ! 0 = 0x50 \<and> m ! 2 = 0x53 \<and> m ! 3 = 0x54 then NGX_HTTP_POST
            else if m ! 0 = 0x43 \<and> m ! 2 = 0x50 \<and> m ! 3 = 0x59 then NGX_HTTP_COPY
            else if m ! 0 = 0x4D \<and> m ! 2 = 0x56 \<and> m ! 3 = 0x45 then NGX_HTTP_MOVE
            else if m ! 0 = 0x4C \<and> m ! 2 = 0x43 \<and> m ! 3 = 0x4B then NGX_HTTP_LOCK
            else old)
         else if m = str ''HEAD'' then NGX_HTTP_HEAD
         else old)
      else if length m = 5 then
        (if m = str ''MKCOL'' then NGX_HTTP_MKCOL
         else if m = str ''PATCH'' then NGX_HTTP_PATCH
         else if m = str ''TRACE'' then NGX_HTTP_TRACE
         else old)
      else if length m = 6 then
        (if m = str ''DELETE'' then NGX_HTTP_DELETE
         else if m = str ''UNLOCK'' then NGX_HTTP_UNLOCK
         else old)
      else if length m = 7 then
        (if m = str ''OPTIONS'' then NGX_HTTP_OPTIONS
         else if m = str ''CONNECT'' then NGX_HTTP_CONNECT
         else old)
      else if length m = 8 then
        (if m = str ''PROPFIND'' then NGX_HTTP_PROPFIND else old)
      else if length m = 9 then
        (if m = str ''PROPPATCH'' then NGX_HTTP_PROPPATCH else old)
      else old)"

definition request_line_method :: "bytes \<Rightarrow> nat \<Rightarrow> u_char \<Rightarrow> request_line \<Rightarrow> rl_outcome" where
  "request_line_method buf p ch r =
     (if ch = chr_space then
        let m = the (request_start r) in
        move_to sw_spaces_before_uri
          (r\<lparr>method_end := Some (p - 1), http_method := method_code (take (p - m) (drop m buf)) (http_method r)\<rparr>)
      else if \<not> is_method_char ch then rl_fail NGX_HTTP_PARSE_INVALID_METHOD r
      else move_to sw_method r)"

definition request_line_spaces_before_uri :: "nat \<Rightarrow> u_char \<Rightarrow> request_line \<Rightarrow> rl_outcome" where
  "request_line_spaces_before_uri p ch r =
     (if ch = chr_slash then move_to sw_after_slash_in_uri (r\<lparr>uri_start := Some p\<rparr>)
      else if is_letter ch then move_to sw_schema (r\<lparr>schema_start := Some p\<rparr>)
      else if ch = chr_space then move_to sw_spaces_before_uri r
      else rl_fail NGX_HTTP_PARSE_INVALID_REQUEST r)"

definition request_line_schema :: "nat \<Rightarrow> u_char \<Rightarrow> request_line \<Rightarrow> rl_outcome" where
  "request_line_schema p ch r =
     (if is_letter ch then move_to sw_schema r
      else if is_digit ch \<or> ch = chr_plus \<or> ch = chr_minus \<or> ch = chr_dot then move_to sw_schema r
      else if ch = chr_colon then move_to sw_schema_slash (r\<lparr>schema_end := Some p\<rparr>)
      else rl_fail NGX_HTTP_PARSE_INVALID_REQUEST r)"

definition request_line_schema_slash :: "u_char \<Rightarrow> request_line \<Rightarrow> rl_outcome" where
  "request_line_schema_slash ch r =
     (if ch = chr_slash then move_to sw_schema_slash_slash r
      else rl_fail NGX_HTTP_PARSE_INVALID_REQUEST r)"

definition request_line_schema_slash_slash :: "u_char \<Rightarrow> request_line \<Rightarrow> rl_outcome" where
  "request_line_schema_slash_slash ch r =
     (if ch = chr_slash then move_to sw_host_start r
      else rl_fail NGX_HTTP_PARSE_INVALID_REQUEST r)"

definition request_line_host_end :: "nat \<Rightarrow> u_char \<Rightarrow> request_line \<Rightarrow> rl_outcome" where
  "request_line_host_end p ch r =
     (let r = r\<lparr>host_end := Some p\<rparr> in
      if ch = chr_colon then move_to sw_port r
      else if ch = chr_slash then move_to sw_after_slash_in_uri (r\<lparr>uri_start := Some p\<rparr>)
      else if ch = chr_question then
        move_to sw_uri (r\<lparr>uri_start := Some p, args_start := Some (p + 1), empty_path_in_uri := True\<rparr>)
      else if ch = chr_space then
        move_to sw_http_09 (r\<lparr>uri_start := map_option (\<lambda>s. s + 1) (schema_end r),
                            uri_end := map_option (\<lambda>s. s + 2) (schema_end r)\<rparr>)
      else rl_fail NGX_HTTP_PARSE_INVALID_REQUEST r)"

definition request_line_host :: "nat \<Rightarrow> u_char \<Rightarrow> request_line \<Rightarrow> rl_outcome" where
  "request_line_host p ch r =
     (if is_letter ch then move_to sw_host r
      else if is_digit ch \<or> ch = chr_dot \<or> ch = chr_minus then move_to sw_host r
      else request_line_host_end p ch r)"

definition request_line_host_start :: "nat \<Rightarrow> u_char \<Rightarrow> request_line \<Rightarrow> rl_outcome" where
  "request_line_host_start p ch r =
     (let r = r\<lparr>host_start := Some p\<rparr> in
      if ch = chr_lbracket then move_to sw_host_ip_literal r
      else request_line_host p ch r)"

definition request_line_host_ip_literal :: "u_char \<Rightarrow> request_line \<Rightarrow> rl_outcome" where
  "request_line_host_ip_literal ch r =
     (if is_digit ch then move_to sw_host_ip_literal r
      else if is_letter ch then move_to sw_host_ip_literal r
      else if ch = chr_colon then move_to sw_host_ip_literal r
      else if ch = chr_rbracket then move_to sw_host_end r
      else if ch \<in> set (str ''-._~'') then move_to sw_host_ip_literal r
      else if ch \<in> set (str ''!$&'' @ [0x27] @ str ''()*+,;='') then move_to sw_host_ip_literal r
      else rl_fail NGX_HTTP_PARSE_INVALID_REQUEST r)"

definition request_line_port :: "nat \<Rightarrow> u_char \<Rightarrow> request_line \<Rightarrow> rl_outcome" where
  "request_line_port p ch r =
     (if is_digit ch then move_to sw_port r
      else if ch = chr_slash then
        move_to sw_after_slash_in_uri (r\<lparr>port_end := Some p, uri_start := Some p\<rparr>)
      else if ch = chr_question then
        move_to sw_uri (r\<lparr>port_end := Some p, uri_start := Some p, args_start := Some (p + 1),
                        empty_path_in_uri := True\<rparr>)
      else if ch = chr_space then
        move_to sw_http_09 (r\<lparr>port_end := Some p, uri_start := map_option (\<lambda>s. s + 1) (schema_end r),
                            uri_end := map_option (\<lambda>s. s + 2) (schema_end r)\<rparr>)
      else rl_fail NGX_HTTP_PARSE_INVALID_REQUEST r)"

definition request_line_after_slash_in_uri :: "nat \<Rightarrow> u_char \<Rightarrow> request_line \<Rightarrow> rl_outcome" where
  "request_line_after_slash_in_uri p ch r =
     (if is_usual ch then move_to sw_check_uri r
      else if ch = chr_space then move_to sw_http_09 (r\<lparr>uri_end := Some p\<rparr>)
      else if ch = CR then move_to sw_almost_done (r\<lparr>uri_end := Some p, http_minor := 9\<rparr>)
      else if ch = LF then request_line_done (r\<lparr>uri_end := Some p, http_minor := 9\<rparr>) p
      else if ch = chr_dot then move_to sw_uri (r\<lparr>complex_uri := True\<rparr>)
      else if ch = chr_percent then move_to sw_uri (r\<lparr>quoted_uri := True\<rparr>)
      else if ch = chr_slash then move_to sw_uri (r\<lparr>complex_uri := True\<rparr>)
      else if ch = chr_question then move_to sw_uri (r\<lparr>args_start := Some (p + 1)\<rparr>)
      else if ch = chr_hash then move_to sw_uri (r\<lparr>complex_uri := True\<rparr>)
      else if ch = chr_plus then move_to sw_after_slash_in_uri (r\<lparr>plus_in_uri := True\<rparr>)
      else if ch < 0x20 \<or> ch = 0x7f then rl_fail NGX_HTTP_PARSE_INVALID_REQUEST r
      else move_to sw_check_uri r)"

definition request_line_check_uri :: "nat \<Rightarrow> u_char \<Rightarrow> request_line \<Rightarrow> rl_outcome" where
  "request_line_check_uri p ch r =
     (if is_usual ch then move_to sw_check_uri r
      else if ch = chr_slash then move_to sw_after_slash_in_uri (r\<lparr>uri_ext := None\<rparr>)
      else if ch = chr_dot then move_to sw_check_uri (r\<lparr>uri_ext := Some (p + 1)\<rparr>)
      else if ch = chr_space then move_to sw_http_09 (r\<lparr>uri_end := Some p\<rparr>)
      else if ch = CR then move_to sw_almost_done (r\<lparr>uri_end := Some p, http_minor := 9\<rparr>)
      else if ch = LF then request_line_done (r\<lparr>uri_end := Some p, http_minor := 9\<rparr>) p
      else if ch = chr_percent then move_to sw_uri (r\<lparr>quoted_uri := True\<rparr>)
      else if ch = chr_question then move_to sw_uri (r\<lparr>args_start := Some (p + 1)\<rparr>)
      else if ch = chr_hash then move_to sw_uri (r\<lparr>complex_uri := True\<rparr>)
      else if ch = chr_plus then move_to sw_check_uri (r\<lparr>plus_in_uri := True\<rparr>)
      else if ch < 0x20 \<or> ch = 0x7f then rl_fail NGX_HTTP_PARSE_INVALID_REQUEST r
      else move_to sw_check_uri r)"

definition request_line_uri :: "nat \<Rightarrow> u_char \<Rightarrow> request_line \<Rightarrow> rl_outcome" where
  "request_line_uri p ch r =
     (if is_usual ch then move_to sw_uri r
      else if ch = chr_space then move_to sw_http_09 (r\<lparr>uri_end := Some p\<rparr>)
      else if ch = CR then move_to sw_almost_done (r\<lparr>uri_end := Some p, http_minor := 9\<rparr>)
      else if ch = LF then request_line_done (r\<lparr>uri_end := Some p, http_minor := 9\<rparr>) p
      else if ch = chr_hash then move_to sw_uri (r\<lparr>complex_uri := True\<rparr>)
      else if ch < 0x20 \<or> ch = 0x7f then rl_fail NGX_HTTP_PARSE_INVALID_REQUEST r
      else move_to sw_uri r)"

definition request_line_http_09 :: "nat \<Rightarrow> u_char \<Rightarrow> request_line \<Rightarrow> rl_outcome" where
  "request_line_http_09 p ch r =
     (if ch = chr_space then move_to sw_http_09 r
      else if ch = CR then move_to sw_almost_done (r\<lparr>http_minor := 9\<rparr>)
      else if ch = LF then request_line_done (r\<lparr>http_minor := 9\<rparr>) p
      else if ch = 0x48 then move_to sw_http_H (r\<lparr>http_protocol_data := Some p\<rparr>)
      else rl_fail NGX_HTTP_PARSE_INVALID_REQUEST r)"

text \<open>The four states that read the rest of \<^verbatim>\<open>HTTP/\<close>.\<close>

definition request_line_http_literal ::
  "u_char \<Rightarrow> request_line_state \<Rightarrow> u_char \<Rightarrow> request_line \<Rightarrow> rl_outcome" where
  "request_line_http_literal expected next ch r =
     (if ch = expected then move_to next r else rl_fail NGX_HTTP_PARSE_INVALID_REQUEST r)"

definition request_line_first_major_digit :: "u_char \<Rightarrow> request_line \<Rightarrow> rl_outcome" where
  "request_line_first_major_digit ch r =
     (if ch < 0x31 \<or> ch > chr_9 then rl_fail NGX_HTTP_PARSE_INVALID_REQUEST r
      else let r = r\<lparr>http_major := unat (ch - chr_0)\<rparr> in
        if http_major r > 1 then rl_fail NGX_HTTP_PARSE_INVALID_VERSION r
        else move_to sw_major_digit r)"

definition request_line_major_digit :: "u_char \<Rightarrow> request_line \<Rightarrow> rl_outcome" where
  "request_line_major_digit ch r =
     (if ch = chr_dot then move_to sw_first_minor_digit r
      else if ch < chr_0 \<or> ch > chr_9 then rl_fail NGX_HTTP_PARSE_INVALID_REQUEST r
      else let r = r\<lparr>http_major := http_major r * 10 + unat (ch - chr_0)\<rparr> in
        if http_major r > 1 then rl_fail NGX_HTTP_PARSE_INVALID_VERSION r
        else move_to sw_major_digit r)"

definition request_line_first_minor_digit :: "u_char \<Rightarrow> request_line \<Rightarrow> rl_outcome" where
  "request_line_first_minor_digit ch r =
     (if ch < chr_0 \<or> ch > chr_9 then rl_fail NGX_HTTP_PARSE_INVALID_REQUEST r
      else move_to sw_minor_digit (r\<lparr>http_minor := unat (ch - chr_0)\<rparr>))"

definition request_line_minor_digit :: "nat \<Rightarrow> u_char \<Rightarrow> request_line \<Rightarrow> rl_outcome" where
  "request_line_minor_digit p ch r =
     (if ch = CR then move_to sw_almost_done r
      else if ch = LF then request_line_done r p
      else if ch = chr_space then move_to sw_spaces_after_digit r
      else if ch < chr_0 \<or> ch > chr_9 then rl_fail NGX_HTTP_PARSE_INVALID_REQUEST r
      else if http_minor r > 99 then rl_fail NGX_HTTP_PARSE_INVALID_REQUEST r
      else move_to sw_minor_digit (r\<lparr>http_minor := http_minor r * 10 + unat (ch - chr_0)\<rparr>))"

definition request_line_spaces_after_digit :: "nat \<Rightarrow> u_char \<Rightarrow> request_line \<Rightarrow> rl_outcome" where
  "request_line_spaces_after_digit p ch r =
     (if ch = chr_space then move_to sw_spaces_after_digit r
      else if ch = CR then move_to sw_almost_done r
      else if ch = LF then request_line_done r p
      else rl_fail NGX_HTTP_PARSE_INVALID_REQUEST r)"

definition request_line_almost_done :: "nat \<Rightarrow> u_char \<Rightarrow> request_line \<Rightarrow> rl_outcome" where
  "request_line_almost_done p ch r =
     (let r = r\<lparr>request_end := Some (p - 1)\<rparr> in
      if ch = LF then request_line_done r p
      else rl_fail NGX_HTTP_PARSE_INVALID_REQUEST r)"

subsection \<open>The switch and the loop\<close>

definition request_line_step ::
  "bytes \<Rightarrow> request_line \<Rightarrow> nat \<Rightarrow> u_char \<Rightarrow> rl_outcome" where
  "request_line_step buf r p ch =
     (case state r of
        sw_start \<Rightarrow> request_line_start p ch r
      | sw_method \<Rightarrow> request_line_method buf p ch r
      | sw_spaces_before_uri \<Rightarrow> request_line_spaces_before_uri p ch r
      | sw_schema \<Rightarrow> request_line_schema p ch r
      | sw_schema_slash \<Rightarrow> request_line_schema_slash ch r
      | sw_schema_slash_slash \<Rightarrow> request_line_schema_slash_slash ch r
      | sw_host_start \<Rightarrow> request_line_host_start p ch r
      | sw_host \<Rightarrow> request_line_host p ch r
      | sw_host_end \<Rightarrow> request_line_host_end p ch r
      | sw_host_ip_literal \<Rightarrow> request_line_host_ip_literal ch r
      | sw_port \<Rightarrow> request_line_port p ch r
      | sw_after_slash_in_uri \<Rightarrow> request_line_after_slash_in_uri p ch r
      | sw_check_uri \<Rightarrow> request_line_check_uri p ch r
      | sw_uri \<Rightarrow> request_line_uri p ch r
      | sw_http_09 \<Rightarrow> request_line_http_09 p ch r
      | sw_http_H \<Rightarrow> request_line_http_literal 0x54 sw_http_HT ch r
      | sw_http_HT \<Rightarrow> request_line_http_literal 0x54 sw_http_HTT ch r
      | sw_http_HTT \<Rightarrow> request_line_http_literal 0x50 sw_http_HTTP ch r
      | sw_http_HTTP \<Rightarrow> request_line_http_literal chr_slash sw_first_major_digit ch r
      | sw_first_major_digit \<Rightarrow> request_line_first_major_digit ch r
      | sw_major_digit \<Rightarrow> request_line_major_digit ch r
      | sw_first_minor_digit \<Rightarrow> request_line_first_minor_digit ch r
      | sw_minor_digit \<Rightarrow> request_line_minor_digit p ch r
      | sw_spaces_after_digit \<Rightarrow> request_line_spaces_after_digit p ch r
      | sw_almost_done \<Rightarrow> request_line_almost_done p ch r)"

text \<open>
  The buffer holds the bytes \<open>buf\<close> read so far; \<open>pos\<close> is \<^verbatim>\<open>b->pos\<close> and the end of \<open>buf\<close> is
  \<^verbatim>\<open>b->last\<close>.  The result is the return code, the request and the new \<^verbatim>\<open>b->pos\<close>.
\<close>

definition request_line_return ::
  "request_line \<Rightarrow> nat \<Rightarrow> int \<times> request_line \<times> nat option \<Rightarrow> int \<times> request_line \<times> nat" where
  "request_line_return r pos res =
     (case res of
        (code, r', None) \<Rightarrow> (code, r'\<lparr>state := state r\<rparr>, pos)
      | (code, r', Some q) \<Rightarrow> (code, r', q))"

definition ngx_http_parse_request_line ::
  "request_line \<Rightarrow> bytes \<Rightarrow> nat \<Rightarrow> int \<times> request_line \<times> nat" where
  "ngx_http_parse_request_line r buf pos = run_parser (request_line_step buf) request_line_return r buf pos"

lemmas request_line_state_defs =
  request_line_start_def request_line_method_def request_line_spaces_before_uri_def
  request_line_schema_def request_line_schema_slash_def request_line_schema_slash_slash_def
  request_line_host_end_def request_line_host_def request_line_host_start_def
  request_line_host_ip_literal_def request_line_port_def request_line_after_slash_in_uri_def
  request_line_check_uri_def request_line_uri_def request_line_http_09_def
  request_line_http_literal_def request_line_first_major_digit_def request_line_major_digit_def
  request_line_first_minor_digit_def request_line_minor_digit_def
  request_line_spaces_after_digit_def request_line_almost_done_def

subsection \<open>The invariant\<close>

text \<open>
  What each state knows of the request: which pointers are set and how they are ordered below the
  position, and how much of the version has been read.
\<close>

definition method_read :: "request_line \<Rightarrow> nat \<Rightarrow> bool" where
  "method_read r p \<longleftrightarrow>
     (\<exists>a m. request_start r = Some a \<and> method_end r = Some m \<and> a \<le> m \<and> m < p)"

definition schema_read :: "request_line \<Rightarrow> nat \<Rightarrow> nat \<Rightarrow> bool" where
  "schema_read r k p \<longleftrightarrow>
     (\<exists>m e. method_end r = Some m \<and> schema_end r = Some e \<and> m < e \<and> e + k < p)"

definition uri_open :: "request_line \<Rightarrow> nat \<Rightarrow> bool" where
  "uri_open r p \<longleftrightarrow> (\<exists>m u. method_end r = Some m \<and> uri_start r = Some u \<and> m < u \<and> u < p)"

definition uri_read :: "request_line \<Rightarrow> nat \<Rightarrow> bool" where
  "uri_read r p \<longleftrightarrow>
     (\<exists>m u e. method_end r = Some m \<and> uri_start r = Some u \<and> uri_end r = Some e \<and>
        m < u \<and> u < e \<and> e < p)"

definition no_version :: "request_line \<Rightarrow> bool" where
  "no_version r \<longleftrightarrow> http_major r = 0 \<and> http_minor r = 0"

definition some_version :: "request_line \<Rightarrow> bool" where
  "some_version r \<longleftrightarrow> http_major r = 0 \<and> http_minor r = 9 \<or> http_major r = 1 \<and> http_minor r \<le> 999"

fun rl_state_inv :: "request_line_state \<Rightarrow> request_line \<Rightarrow> nat \<Rightarrow> bool" where
  "rl_state_inv sw_start r p = no_version r"
| "rl_state_inv sw_method r p = (no_version r \<and> (\<exists>a. request_start r = Some a \<and> a < p))"
| "rl_state_inv sw_spaces_before_uri r p = (no_version r \<and> method_read r p)"
| "rl_state_inv sw_schema r p = (no_version r \<and> method_read r p)"
| "rl_state_inv sw_schema_slash r p = (no_version r \<and> method_read r p \<and> schema_read r 0 p)"
| "rl_state_inv sw_schema_slash_slash r p = (no_version r \<and> method_read r p \<and> schema_read r 1 p)"
| "rl_state_inv sw_host_start r p = (no_version r \<and> method_read r p \<and> schema_read r 2 p)"
| "rl_state_inv sw_host r p = (no_version r \<and> method_read r p \<and> schema_read r 2 p)"
| "rl_state_inv sw_host_end r p = (no_version r \<and> method_read r p \<and> schema_read r 2 p)"
| "rl_state_inv sw_host_ip_literal r p = (no_version r \<and> method_read r p \<and> schema_read r 2 p)"
| "rl_state_inv sw_port r p = (no_version r \<and> method_read r p \<and> schema_read r 2 p)"
| "rl_state_inv sw_after_slash_in_uri r p = (no_version r \<and> method_read r p \<and> uri_open r p)"
| "rl_state_inv sw_check_uri r p = (no_version r \<and> method_read r p \<and> uri_open r p)"
| "rl_state_inv sw_uri r p = (no_version r \<and> method_read r p \<and> uri_open r p)"
| "rl_state_inv sw_http_09 r p = (no_version r \<and> method_read r p \<and> uri_read r p)"
| "rl_state_inv sw_http_H r p = (no_version r \<and> method_read r p \<and> uri_read r p)"
| "rl_state_inv sw_http_HT r p = (no_version r \<and> method_read r p \<and> uri_read r p)"
| "rl_state_inv sw_http_HTT r p = (no_version r \<and> method_read r p \<and> uri_read r p)"
| "rl_state_inv sw_http_HTTP r p = (no_version r \<and> method_read r p \<and> uri_read r p)"
| "rl_state_inv sw_first_major_digit r p = (no_version r \<and> method_read r p \<and> uri_read r p)"
| "rl_state_inv sw_major_digit r p = (http_major r = 1 \<and> http_minor r = 0 \<and> method_read r p \<and> uri_read r p)"
| "rl_state_inv sw_first_minor_digit r p = (http_major r = 1 \<and> method_read r p \<and> uri_read r p)"
| "rl_state_inv sw_minor_digit r p =
     (http_major r = 1 \<and> http_minor r \<le> 999 \<and> method_read r p \<and> uri_read r p)"
| "rl_state_inv sw_spaces_after_digit r p =
     (http_major r = 1 \<and> http_minor r \<le> 999 \<and> method_read r p \<and> uri_read r p)"
| "rl_state_inv sw_almost_done r p = (some_version r \<and> method_read r p \<and> uri_read r p)"

definition ptr_le :: "nat option \<Rightarrow> nat \<Rightarrow> bool" where
  "ptr_le x p \<longleftrightarrow> (case x of None \<Rightarrow> True | Some a \<Rightarrow> a \<le> p)"

definition pointers_le :: "request_line \<Rightarrow> nat \<Rightarrow> bool" where
  "pointers_le r p \<longleftrightarrow>
     ptr_le (request_start r) p \<and> ptr_le (method_end r) p \<and> ptr_le (schema_start r) p \<and>
     ptr_le (schema_end r) p \<and> ptr_le (host_start r) p \<and> ptr_le (host_end r) p \<and>
     ptr_le (port_end r) p \<and> ptr_le (uri_start r) p \<and> ptr_le (uri_end r) p \<and>
     ptr_le (uri_ext r) p \<and> ptr_le (args_start r) p \<and> ptr_le (http_protocol_data r) p \<and>
     ptr_le (request_end r) p"

definition rl_inv :: "request_line \<Rightarrow> nat \<Rightarrow> bool" where
  "rl_inv r p \<longleftrightarrow> request_end r = None \<and> pointers_le r p \<and> rl_state_inv (state r) r p"

text \<open>What holds when the parser returns at the byte \<open>p\<close>.\<close>

definition line_read :: "request_line \<Rightarrow> nat \<Rightarrow> bool" where
  "line_read r p \<longleftrightarrow>
     (\<exists>a m u e q. request_start r = Some a \<and> method_end r = Some m \<and> uri_start r = Some u \<and>
        uri_end r = Some e \<and> request_end r = Some q \<and>
        a \<le> m \<and> m < u \<and> u < e \<and> e \<le> q \<and> q \<le> p)"

definition rl_post :: "int \<times> request_line \<times> nat option \<Rightarrow> nat \<Rightarrow> bool" where
  "rl_post res p \<longleftrightarrow>
     (case res of (code, r, pos') \<Rightarrow>
        pointers_le r (Suc p) \<and>
        (code = NGX_OK \<or> code = NGX_HTTP_PARSE_INVALID_09_METHOD) \<and> pos' = Some (Suc p) \<and>
          line_read r p \<and> some_version r \<and> http_version r = http_major r * 1000 + http_minor r \<and>
          (code = NGX_OK \<longrightarrow> http_version r = 9 \<longrightarrow> http_method r = NGX_HTTP_GET)
        \<or> code \<in> {NGX_HTTP_PARSE_INVALID_METHOD, NGX_HTTP_PARSE_INVALID_REQUEST,
                  NGX_HTTP_PARSE_INVALID_VERSION} \<and> pos' = None)"

lemma ptr_le_simps [simp]:
  "ptr_le None p" "ptr_le (Some a) p \<longleftrightarrow> a \<le> p" "ptr_le x p \<Longrightarrow> ptr_le x (Suc p)"
  by (auto simp: ptr_le_def split: option.splits)

lemmas rl_facts = method_read_def schema_read_def uri_open_def uri_read_def no_version_def some_version_def

lemmas rl_step_defs = request_line_step_def move_to_def request_line_state_defs rl_fail_def request_line_done_def Let_def

lemma minor_bounds:
  fixes ch :: u_char
  assumes "\<not> ch < chr_0" "\<not> chr_9 < ch"
  shows "unat (ch - chr_0) \<le> 999" "m \<le> 99 \<Longrightarrow> m * 10 + unat (ch - chr_0) \<le> 999"
proof -
  have "unat (ch - chr_0) \<le> 9" using assms by unat_arith
  then show "unat (ch - chr_0) \<le> 999" "m \<le> 99 \<Longrightarrow> m * 10 + unat (ch - chr_0) \<le> 999" by simp_all
qed

lemma major_digit_1: "\<not> ch < 0x31 \<Longrightarrow> \<not> Suc 0 < unat (ch - chr_0) \<Longrightarrow> unat (ch - chr_0) = Suc 0"
  for ch :: u_char
  by unat_arith

lemma pointers_le_Suc [simp]: "pointers_le r p \<Longrightarrow> pointers_le r (Suc p)"
  by (simp add: pointers_le_def)

lemma pointers_le_ptr_upd:
  assumes "pointers_le r p"
  shows
    "pointers_le (r\<lparr>request_start := x\<rparr>) p \<longleftrightarrow> ptr_le x p"
    "pointers_le (r\<lparr>method_end := x\<rparr>) p \<longleftrightarrow> ptr_le x p"
    "pointers_le (r\<lparr>schema_start := x\<rparr>) p \<longleftrightarrow> ptr_le x p"
    "pointers_le (r\<lparr>schema_end := x\<rparr>) p \<longleftrightarrow> ptr_le x p"
    "pointers_le (r\<lparr>host_start := x\<rparr>) p \<longleftrightarrow> ptr_le x p"
    "pointers_le (r\<lparr>host_end := x\<rparr>) p \<longleftrightarrow> ptr_le x p"
    "pointers_le (r\<lparr>port_end := x\<rparr>) p \<longleftrightarrow> ptr_le x p"
    "pointers_le (r\<lparr>uri_start := x\<rparr>) p \<longleftrightarrow> ptr_le x p"
    "pointers_le (r\<lparr>uri_end := x\<rparr>) p \<longleftrightarrow> ptr_le x p"
    "pointers_le (r\<lparr>uri_ext := x\<rparr>) p \<longleftrightarrow> ptr_le x p"
    "pointers_le (r\<lparr>args_start := x\<rparr>) p \<longleftrightarrow> ptr_le x p"
    "pointers_le (r\<lparr>http_protocol_data := x\<rparr>) p \<longleftrightarrow> ptr_le x p"
    "pointers_le (r\<lparr>request_end := x\<rparr>) p \<longleftrightarrow> ptr_le x p"
  using assms by (simp_all add: pointers_le_def)

lemma pointers_le_flag_upd:
  "pointers_le (r\<lparr>state := st\<rparr>) p = pointers_le r p"
  "pointers_le (r\<lparr>http_method := k\<rparr>) p = pointers_le r p"
  "pointers_le (r\<lparr>http_major := k\<rparr>) p = pointers_le r p"
  "pointers_le (r\<lparr>http_minor := k\<rparr>) p = pointers_le r p"
  "pointers_le (r\<lparr>http_version := k\<rparr>) p = pointers_le r p"
  "pointers_le (r\<lparr>complex_uri := b\<rparr>) p = pointers_le r p"
  "pointers_le (r\<lparr>quoted_uri := b\<rparr>) p = pointers_le r p"
  "pointers_le (r\<lparr>plus_in_uri := b\<rparr>) p = pointers_le r p"
  "pointers_le (r\<lparr>empty_path_in_uri := b\<rparr>) p = pointers_le r p"
  by (simp_all add: pointers_le_def)

lemmas pointers_le_upd [simp] = pointers_le_ptr_upd pointers_le_flag_upd

lemma rl_state_inv_upd [simp]: "rl_state_inv st (r\<lparr>state := x\<rparr>) p = rl_state_inv st r p"
  by (cases st) (simp_all add: rl_facts)

lemma rl_step_pointers:
  assumes "pointers_le r p" "rl_state_inv (state r) r p" "request_line_step buf r p ch = Cont r'"
  shows "pointers_le r' (Suc p)"
proof -
  have "pointers_le r (Suc p)" using assms(1) by simp
  with assms(2,3) show ?thesis
    by (cases "state r") (auto simp: rl_step_defs schema_read_def split: if_splits)
qed

lemma rl_step_request_end:
  assumes "request_end r = None" "request_line_step buf r p ch = Cont r'"
  shows "request_end r' = None"
  using assms by (cases "state r") (auto simp: rl_step_defs split: if_splits)

lemma rl_step_state_inv:
  assumes "rl_state_inv (state r) r p" "request_line_step buf r p ch = Cont r'"
  shows "rl_state_inv (state r') r' (Suc p)"
proof (cases "state r = sw_first_major_digit")
  case True
  with assms major_digit_1 [of ch] show ?thesis by (auto simp: rl_step_defs rl_facts split: if_splits)
next
  case False
  with assms show ?thesis
    by (cases "state r") (auto simp: rl_step_defs rl_facts minor_bounds split: if_splits)
qed

text \<open>What is known of the request where the code jumps to \<^verbatim>\<open>done\<close>.\<close>

definition line_ready :: "request_line \<Rightarrow> nat \<Rightarrow> bool" where
  "line_ready r p \<longleftrightarrow> some_version r \<and>
     (\<exists>a m u e. request_start r = Some a \<and> method_end r = Some m \<and> uri_start r = Some u \<and>
        uri_end r = Some e \<and> a \<le> m \<and> m < u \<and> u < e \<and> e \<le> p \<and>
        (request_end r = None \<or> request_end r = Some (p - 1) \<and> e \<le> p - 1))"

lemma request_line_done_post:
  assumes "request_line_done r p = Stop res"
  shows "line_ready r p \<and> pointers_le r (Suc p) \<longrightarrow> rl_post res p"
proof (intro impI, elim conjE)
  assume ready: "line_ready r p" and ptrs: "pointers_le r (Suc p)"
  define r1 where "r1 = (if request_end r = None then r\<lparr>request_end := Some p\<rparr> else r)"
  have read: "line_read r1 p" "some_version r1"
    using ready by (auto simp: line_ready_def line_read_def some_version_def r1_def)
  have ptrs1: "pointers_le r1 (Suc p)" using ptrs by (simp add: r1_def)
  show "rl_post res p"
    using assms read ptrs1
    by (auto simp: request_line_done_def rl_post_def Let_def line_read_def some_version_def simp flip: r1_def
        split: if_splits)
qed

lemma rl_step_Stop:
  assumes "rl_inv r p" "request_line_step buf r p ch = Stop res"
  shows "rl_post res p"
proof -
  have inv: "request_end r = None" "pointers_le r p" "rl_state_inv (state r) r p"
    using assms(1) by (simp_all add: rl_inv_def)
  have fail: "rl_post (code, r', None) p"
    if "code \<in> {NGX_HTTP_PARSE_INVALID_METHOD, NGX_HTTP_PARSE_INVALID_REQUEST, NGX_HTTP_PARSE_INVALID_VERSION}"
      for code r' using that by (simp add: rl_post_def)
  show ?thesis
    using inv assms(2)
    by (cases "state r")
      (auto simp: request_line_step_def request_line_state_defs move_to_def rl_fail_def Let_def fail line_ready_def
         rl_facts split: if_splits dest!: request_line_done_post)
qed

text \<open>The parser as an instance of the scanner contract.\<close>

interpretation rl: scan_contract "request_line_step buf" rl_inv rl_post for buf
proof
  show "rl_inv s p \<Longrightarrow> request_line_step buf s p c = Cont s' \<Longrightarrow> rl_inv s' (Suc p)" for s p c s'
    using rl_step_pointers rl_step_request_end rl_step_state_inv by (auto simp: rl_inv_def)
  show "rl_inv s p \<Longrightarrow> request_line_step buf s p c = Stop r \<Longrightarrow> rl_post r p" for s p c r
    by (rule rl_step_Stop)
qed

lemma rl_inv_init: "rl_inv request_init p"
  by (simp add: rl_inv_def request_init_def pointers_le_def no_version_def)

text \<open>
  The parser can be interrupted: the only bytes behind it that it reads again are those of the
  method, and the state it started from is visible in the result only in \<^verbatim>\<open>r->state\<close> of a refused
  request, which is not used again.
\<close>

definition rl_clear :: "int \<Rightarrow> request_line \<Rightarrow> request_line" where
  "rl_clear code r =
     (if code \<in> {NGX_OK, NGX_AGAIN, NGX_HTTP_PARSE_INVALID_09_METHOD} then r else r\<lparr>state := sw_start\<rparr>)"

definition rl_moves :: "int \<Rightarrow> bool" where
  "rl_moves code \<longleftrightarrow> code \<in> {NGX_OK, NGX_AGAIN, NGX_HTTP_PARSE_INVALID_09_METHOD}"

interpretation rl: resumable_parser request_line_step rl_inv rl_post request_line_return rl_clear rl_moves
proof (rule resumable_parser.intro)
  show "scan_contract (request_line_step buf) rl_inv rl_post" for buf
    by (rule rl.scan_contract_axioms)
  show "rl_inv s p \<Longrightarrow> p < length buf \<Longrightarrow>
      request_line_step (buf @ more_bytes) s p c = request_line_step buf s p c" for s p c buf more_bytes
    by (cases "state s") (auto simp: request_line_step_def request_line_method_def Let_def rl_inv_def)
  show "rl_post res p \<Longrightarrow> fst (request_line_return r pos res) \<noteq> NGX_AGAIN" for res p r pos
    by (auto simp: rl_post_def request_line_return_def split: prod.splits)
  show "rl_post res p \<Longrightarrow>
      same_result rl_clear rl_moves (request_line_return r pos res) (request_line_return r' pos' res)"
    for res p r pos r' pos'
    by (auto simp: rl_post_def request_line_return_def same_result_def rl_clear_def rl_moves_def split: prod.splits)
qed

text \<open>Runs of bytes that leave the state unchanged.\<close>

lemma state_id: "state r = st \<Longrightarrow> r\<lparr>state := st\<rparr> = r"
  by (cases r) simp

lemma scan_method_run:
  "list_all is_method_char m \<Longrightarrow> state r = sw_method \<Longrightarrow> scan (request_line_step buf) r p m = Cont r"
proof (induction m arbitrary: p)
  case (Cons c m)
  then have "c \<noteq> chr_space" by (auto simp: is_method_char_def)
  with Cons show ?case by (simp add: request_line_step_def request_line_method_def move_to_def state_id)
qed simp

lemma scan_usual_run:
  "list_all is_usual path \<Longrightarrow> state r = sw_check_uri \<Longrightarrow> scan (request_line_step buf) r p path = Cont r"
  by (induction path arbitrary: p) (simp_all add: request_line_step_def request_line_check_uri_def move_to_def state_id)

lemma scan_path_run:
  assumes "list_all is_usual path" "state r = sw_after_slash_in_uri"
  shows "scan (request_line_step buf) r p (path @ chr_space # rest) =
    scan (request_line_step buf) (r\<lparr>uri_end := Some (p + length path), state := sw_http_09\<rparr>)
      (Suc (p + length path)) rest"
proof -
  from assms show ?thesis
    by (cases path)
      (simp_all add: scan_append scan_usual_run request_line_step_def request_line_check_uri_def
        request_line_after_slash_in_uri_def move_to_def)
qed

text \<open>A request line without frills: a method, an absolute path of usual characters, HTTP 1.\<open>d\<close>.\<close>

definition plain_line :: "bytes \<Rightarrow> bytes \<Rightarrow> u_char \<Rightarrow> bytes" where
  "plain_line m path d =
     m @ [chr_space, chr_slash] @ path @ chr_space # str ''HTTP/1.'' @ [d, CR, LF]"

lemma scan_version_run:
  assumes "is_digit d" "state r = sw_http_09" "http_major r = 0" "request_end r = None"
  shows "scan (request_line_step buf) r p (str ''HTTP/1.'' @ [d, CR, LF] @ rest) =
    Stop (NGX_OK, r\<lparr>http_protocol_data := Some p, http_major := 1, http_minor := unat (d - chr_0),
       request_end := Some (p + 8), http_version := 1000 + unat (d - chr_0), state := sw_start\<rparr>,
       Some (p + 10))"
  using assms
  by (simp add: str_def is_digit_def rl_step_defs not_less)

subsection \<open>Properties\<close>

text \<open>
  Property C2: a request line may arrive in any pieces.  The return code and everything the
  parser records are the same as if the bytes had arrived at once (on a parse error, up to the
  field \<^verbatim>\<open>r->state\<close>, which is then no longer used).
\<close>

theorem request_line_any_chunks:
  "same_result rl_clear rl_moves (ngx_http_parse_request_line request_init (concat cs) 0)
     (parse_chunks ngx_http_parse_request_line request_init [] 0 cs)"
  using rl.any_chunks [of request_init "[]" cs] rl_inv_init
  unfolding ngx_http_parse_request_line_def [abs_def] by simp

text \<open>
  Property C3: on a plain request line the parser answers \<^verbatim>\<open>NGX_OK\<close>, moves \<^verbatim>\<open>b->pos\<close> to the first
  byte behind the line, whatever follows it, and records exactly the method, the URI, the protocol
  and the version that the line has, and nothing else.
\<close>

theorem request_line_plain:
  assumes "m \<noteq> []" "list_all is_method_char m" "list_all is_usual path" "is_digit d"
  shows "ngx_http_parse_request_line request_init (plain_line m path d @ rest) 0 =
    (NGX_OK,
     request_init\<lparr>request_start := Some 0, method_end := Some (length m - 1),
       http_method := method_code m NGX_HTTP_UNKNOWN,
       uri_start := Some (length m + 1), uri_end := Some (length m + 2 + length path),
       http_protocol_data := Some (length m + 3 + length path),
       http_major := 1, http_minor := unat (d - chr_0), http_version := 1000 + unat (d - chr_0),
       request_end := Some (length m + 11 + length path)\<rparr>,
     length (plain_line m path d))"
proof -
  let ?buf = "plain_line m path d @ rest"
  obtain c m' where m: "m = c # m'" and c: "is_method_char c" and m': "list_all is_method_char m'"
    using assms by (cases m) auto
  have "c \<noteq> CR" "c \<noteq> LF" using c by (auto simp: is_method_char_def)
  then have start: "state r = sw_start \<Longrightarrow> scan (request_line_step ?buf) r 0 (m @ zs) =
      scan (request_line_step ?buf) (r\<lparr>request_start := Some 0, state := sw_method\<rparr>) (length m) zs" for r zs
    using c m' unfolding m
    by (simp add: scan_append scan_method_run request_line_step_def request_line_start_def move_to_def)
  have buf: "?buf = m @ chr_space # chr_slash # path @ chr_space # str ''HTTP/1.'' @ [d, CR, LF] @ rest"
    by (simp add: plain_line_def)
  have pre: "take (length m) ?buf = m" by (simp add: plain_line_def)
  define r1 where "r1 = request_init\<lparr>request_start := Some 0, method_end := Some (length m - 1),
       http_method := method_code m NGX_HTTP_UNKNOWN, uri_start := Some (length m + 1), state := sw_after_slash_in_uri\<rparr>"
  have "scan (request_line_step ?buf) request_init 0 ?buf =
      scan (request_line_step ?buf) r1 (length m + 2)
        (path @ chr_space # str ''HTTP/1.'' @ [d, CR, LF] @ rest)"
    by (subst (2) buf, subst start)
      (simp_all add: move_to_def request_line_step_def request_line_method_def request_line_spaces_before_uri_def
        pre r1_def request_init_def del: take_append)
  also have "\<dots> = scan (request_line_step ?buf)
      (r1\<lparr>uri_end := Some (length m + 2 + length path), state := sw_http_09\<rparr>) (length m + 3 + length path)
        (str ''HTTP/1.'' @ [d, CR, LF] @ rest)"
    by (subst scan_path_run [OF assms(3)]) (simp_all add: numeral_3_eq_3 r1_def)
  also have "\<dots> = Stop (NGX_OK, r1\<lparr>state := sw_start, uri_end := Some (length m + 2 + length path),
       http_protocol_data := Some (length m + 3 + length path), http_major := 1,
       http_minor := unat (d - chr_0), request_end := Some (length m + 11 + length path),
       http_version := 1000 + unat (d - chr_0)\<rparr>,
     Some (length (plain_line m path d)))"
    by (subst scan_version_run) (simp_all add: assms r1_def request_init_def plain_line_def str_def)
  finally show ?thesis
    by (simp add: ngx_http_parse_request_line_def run_parser_def request_line_return_def request_init_def r1_def)
qed

text \<open>The line \<^verbatim>\<open>GET /ab HTTP/1.1\<close>, used in the instances below.\<close>

lemma example_line_ok:
  "list_all is_method_char (str ''GET'')" "list_all is_usual (str ''ab'')" "is_digit 0x31"
  by (simp_all add: str_def is_method_char_def is_usual_def usual_def is_digit_def)

theorem request_line_plain_witness:
  "str ''GET'' \<noteq> [] \<and> list_all is_method_char (str ''GET'') \<and> list_all is_usual (str ''ab'') \<and> is_digit 0x31 \<and>
   fst (ngx_http_parse_request_line request_init (plain_line (str ''GET'') (str ''ab'') 0x31 @ []) 0) = NGX_OK"
proof -
  have "str ''GET'' \<noteq> []" by (simp add: str_def)
  with request_line_plain [OF this example_line_ok, of "[]"] example_line_ok show ?thesis by simp
qed

text \<open>
  Property C4: when the parser accepts a line, the pointers it has recorded are set, ordered
  (start of the request, end of the method, start and end of the URI, end of the line) and inside
  the bytes read, \<^verbatim>\<open>b->pos\<close> is just behind the line, and the version is 0.9, then only with GET,
  or between 1.0 and 1.999.
\<close>

theorem request_line_pointers:
  assumes "ngx_http_parse_request_line request_init buf 0 = (NGX_OK, r, pos)"
  shows "0 < pos \<and> pos \<le> length buf \<and> line_read r (pos - 1) \<and> pointers_le r pos \<and>
    (http_version r = 9 \<and> http_method r = NGX_HTTP_GET \<or> 1000 \<le> http_version r \<and> http_version r \<le> 1999)"
proof (cases "scan (request_line_step buf) request_init 0 buf")
  case (Cont s)
  with assms show ?thesis by (simp add: ngx_http_parse_request_line_def run_parser_def)
next
  case (Stop res)
  from rl.scan_Stop [OF rl_inv_init Stop] obtain i where "i < length buf" "rl_post res i" by auto
  with Stop assms show ?thesis
    by (auto simp: ngx_http_parse_request_line_def run_parser_def request_line_return_def rl_post_def some_version_def
        split: prod.splits)
qed

theorem request_line_pointers_witness:
  "\<exists>r. ngx_http_parse_request_line request_init (str ''GET /'' @ [CR, LF]) 0 = (NGX_OK, r, 7) \<and>
     line_read r 6 \<and> pointers_le r 7"
proof -
  obtain r where r: "ngx_http_parse_request_line request_init (str ''GET /'' @ [CR, LF]) 0 = (NGX_OK, r, 7)"
    by (simp add: ngx_http_parse_request_line_def run_parser_def request_line_return_def request_init_def str_def rl_step_defs is_method_char_def
        is_usual_def usual_def method_code_def)
  with request_line_pointers [OF r] show ?thesis by auto
qed

end
