(* ===== verification/Ngx_Http_Header_Line.thy ===== *)
theory Ngx_Http_Header_Line
  imports Ngx_Prelude
begin

text \<open>
  The header line parser \<^verbatim>\<open>ngx_http_parse_header_line\<close> of \<^verbatim>\<open>src/http/ngx_http_parse.c\<close>: it delimits the
  name and the value of a header, folds the name to lower case into a ring of
  \<^verbatim>\<open>NGX_HTTP_LC_HEADER_LEN\<close> bytes, and computes the hash that selects the header's handler.  One
  definition per state.  The lemmas show that it can be interrupted anywhere, that it never writes
  outside the ring, that the pointers it leaves are ordered, and what it records for a header.
\<close>

subsection \<open>The request and the states\<close>

definition lowcase :: bytes where
  "lowcase = replicate 45 0 @ [chr_minus] @ replicate 2 0 @ str ''0123456789'' @ replicate 6 0 @
     0 # str ''abcdefghijklmnopqrstuvwxyz'' @ replicate 5 0 @
     0 # str ''abcdefghijklmnopqrstuvwxyz'' @ replicate 5 0 @ replicate 128 0"

definition ngx_hash :: "uint64 \<Rightarrow> u_char \<Rightarrow> uint64" where
  "ngx_hash key c = key * 31 + ucast c"

abbreviation (input) NGX_HTTP_LC_HEADER_LEN :: nat where "NGX_HTTP_LC_HEADER_LEN \<equiv> 32"
abbreviation (input) NGX_HTTP_PARSE_HEADER_DONE :: int where "NGX_HTTP_PARSE_HEADER_DONE \<equiv> 1"
abbreviation (input) NGX_HTTP_PARSE_INVALID_HEADER :: int where "NGX_HTTP_PARSE_INVALID_HEADER \<equiv> 14"

datatype header_line_state =
  sw_start | sw_name | sw_space_before_value | sw_value | sw_space_after_value | sw_ignore_line
| sw_almost_done | sw_header_almost_done

text \<open>The fields of \<^verbatim>\<open>ngx_http_request_t\<close> the parser uses; \<open>upstream\<close> is \<^verbatim>\<open>r->upstream != NULL\<close>.\<close>

record header_line =
  state :: header_line_state
  header_hash :: uint64
  lowcase_index :: nat
  lowcase_header :: bytes
  header_name_start :: "nat option"
  header_name_end :: "nat option"
  header_start :: "nat option"
  header_end :: "nat option"
  invalid_header :: bool
  upstream :: bool

text \<open>
  The local variables \<^verbatim>\<open>state\<close>, \<^verbatim>\<open>hash\<close> and \<^verbatim>\<open>i\<close> are kept in the fields they are loaded from; the
  fields get their old values back where the code returns without storing the variables.
\<close>

type_synonym hl_outcome = "(header_line, int \<times> header_line \<times> nat option) outcome"

definition move_to :: "header_line_state \<Rightarrow> header_line \<Rightarrow> hl_outcome" where
  "move_to st r = Cont (r\<lparr>state := st\<rparr>)"

definition hl_fail :: "header_line \<Rightarrow> hl_outcome" where
  "hl_fail r = Stop (NGX_HTTP_PARSE_INVALID_HEADER, r, None)"

definition header_line_done :: "header_line \<Rightarrow> nat \<Rightarrow> hl_outcome" where
  "header_line_done r p = Stop (NGX_OK, r\<lparr>state := sw_start\<rparr>, Some (Suc p))"

definition header_line_header_done :: "header_line \<Rightarrow> nat \<Rightarrow> hl_outcome" where
  "header_line_header_done r p = Stop (NGX_HTTP_PARSE_HEADER_DONE, r\<lparr>state := sw_start\<rparr>, Some (Suc p))"

subsection \<open>The states\<close>

definition header_line_start :: "bool \<Rightarrow> nat \<Rightarrow> u_char \<Rightarrow> header_line \<Rightarrow> hl_outcome" where
  "header_line_start allow_underscores p ch r =
     (let r = r\<lparr>header_name_start := Some p, invalid_header := False\<rparr> in
      if ch = CR then move_to sw_header_almost_done (r\<lparr>header_end := Some p\<rparr>)
      else if ch = LF then header_line_header_done (r\<lparr>header_end := Some p\<rparr>) p
      else let c = lowcase ! unat ch in
        if c \<noteq> 0 then
          move_to sw_name (r\<lparr>header_hash := ngx_hash 0 c, lowcase_header := (lowcase_header r)[0 := c],
                             lowcase_index := 1\<rparr>)
        else if ch = chr_underscore then
          (if allow_underscores then
             move_to sw_name (r\<lparr>header_hash := ngx_hash 0 ch, lowcase_header := (lowcase_header r)[0 := ch],
                                lowcase_index := 1\<rparr>)
           else move_to sw_name (r\<lparr>header_hash := 0, lowcase_index := 0, invalid_header := True\<rparr>))
        else if ch \<le> 0x20 \<or> ch = 0x7f \<or> ch = chr_colon then hl_fail (r\<lparr>header_end := Some p\<rparr>)
        else move_to sw_name (r\<lparr>header_hash := 0, lowcase_index := 0, invalid_header := True\<rparr>))"

text \<open>Appending a byte of the name to the hash and to the ring.\<close>

definition push_lowcase :: "u_char \<Rightarrow> header_line \<Rightarrow> header_line" where
  "push_lowcase c r =
     r\<lparr>header_hash := ngx_hash (header_hash r) c,
       lowcase_header := (lowcase_header r)[lowcase_index r := c],
       lowcase_index := (lowcase_index r + 1) AND (NGX_HTTP_LC_HEADER_LEN - 1)\<rparr>"

definition header_line_name :: "bool \<Rightarrow> bytes \<Rightarrow> nat \<Rightarrow> u_char \<Rightarrow> header_line \<Rightarrow> hl_outcome" where
  "header_line_name allow_underscores buf p ch r =
     (let c = lowcase ! unat ch in
      if c \<noteq> 0 then move_to sw_name (push_lowcase c r)
      else if ch = chr_underscore then
        (if allow_underscores then move_to sw_name (push_lowcase ch r)
         else move_to sw_name (r\<lparr>invalid_header := True\<rparr>))
      else if ch = chr_colon then move_to sw_space_before_value (r\<lparr>header_name_end := Some p\<rparr>)
      else if ch = CR then
        move_to sw_almost_done (r\<lparr>header_name_end := Some p, header_start := Some p, header_end := Some p\<rparr>)
      else if ch = LF then
        header_line_done (r\<lparr>header_name_end := Some p, header_start := Some p, header_end := Some p\<rparr>) p
      else if ch = chr_slash \<and> upstream r \<and> p - the (header_name_start r) = 4 \<and>
        take 4 (drop (the (header_name_start r)) buf) = str ''HTTP'' then move_to sw_ignore_line r
      else if ch \<le> 0x20 \<or> ch = 0x7f then hl_fail (r\<lparr>header_end := Some p\<rparr>)
      else move_to sw_name (r\<lparr>invalid_header := True\<rparr>))"

definition header_line_space_before_value :: "nat \<Rightarrow> u_char \<Rightarrow> header_line \<Rightarrow> hl_outcome" where
  "header_line_space_before_value p ch r =
     (if ch = chr_space then move_to sw_space_before_value r
      else if ch = CR then move_to sw_almost_done (r\<lparr>header_start := Some p, header_end := Some p\<rparr>)
      else if ch = LF then header_line_done (r\<lparr>header_start := Some p, header_end := Some p\<rparr>) p
      else if ch = chr_nul then hl_fail (r\<lparr>header_end := Some p\<rparr>)
      else move_to sw_value (r\<lparr>header_start := Some p\<rparr>))"

definition header_line_value :: "nat \<Rightarrow> u_char \<Rightarrow> header_line \<Rightarrow> hl_outcome" where
  "header_line_value p ch r =
     (if ch = chr_space then move_to sw_space_after_value (r\<lparr>header_end := Some p\<rparr>)
      else if ch = CR then move_to sw_almost_done (r\<lparr>header_end := Some p\<rparr>)
      else if ch = LF then header_line_done (r\<lparr>header_end := Some p\<rparr>) p
      else if ch = chr_nul then hl_fail (r\<lparr>header_end := Some p\<rparr>)
      else move_to sw_value r)"

definition header_line_space_after_value :: "nat \<Rightarrow> u_char \<Rightarrow> header_line \<Rightarrow> hl_outcome" where
  "header_line_space_after_value p ch r =
     (if ch = chr_space then move_to sw_space_after_value r
      else if ch = CR then move_to sw_almost_done r
      else if ch = LF then header_line_done r p
      else if ch = chr_nul then hl_fail (r\<lparr>header_end := Some p\<rparr>)
      else move_to sw_value r)"

definition header_line_ignore_line :: "u_char \<Rightarrow> header_line \<Rightarrow> hl_outcome" where
  "header_line_ignore_line ch r = (if ch = LF then move_to sw_start r else move_to sw_ignore_line r)"

definition header_line_almost_done :: "nat \<Rightarrow> u_char \<Rightarrow> header_line \<Rightarrow> hl_outcome" where
  "header_line_almost_done p ch r =
     (if ch = LF then header_line_done r p
      else if ch = CR then move_to sw_almost_done r
      else hl_fail r)"

definition header_line_header_almost_done :: "nat \<Rightarrow> u_char \<Rightarrow> header_line \<Rightarrow> hl_outcome" where
  "header_line_header_almost_done p ch r =
     (if ch = LF then header_line_header_done r p else hl_fail r)"

definition header_line_step :: "bool \<Rightarrow> bytes \<Rightarrow> header_line \<Rightarrow> nat \<Rightarrow> u_char \<Rightarrow> hl_outcome" where
  "header_line_step allow_underscores buf r p ch =
     (case state r of
        sw_start \<Rightarrow> header_line_start allow_underscores p ch r
      | sw_name \<Rightarrow> header_line_name allow_underscores buf p ch r
      | sw_space_before_value \<Rightarrow> header_line_space_before_value p ch r
      | sw_value \<Rightarrow> header_line_value p ch r
      | sw_space_after_value \<Rightarrow> header_line_space_after_value p ch r
      | sw_ignore_line \<Rightarrow> header_line_ignore_line ch r
      | sw_almost_done \<Rightarrow> header_line_almost_done p ch r
      | sw_header_almost_done \<Rightarrow> header_line_header_almost_done p ch r)"

text \<open>On the way out: \<^verbatim>\<open>done\<close> stores all three variables, \<^verbatim>\<open>header_done\<close> only the state, a refusal none.\<close>

definition header_line_return ::
  "header_line \<Rightarrow> nat \<Rightarrow> int \<times> header_line \<times> nat option \<Rightarrow> int \<times> header_line \<times> nat" where
  "header_line_return r pos res =
     (case res of
        (code, r', None) \<Rightarrow>
          (code, r'\<lparr>state := state r, header_hash := header_hash r, lowcase_index := lowcase_index r\<rparr>, pos)
      | (code, r', Some q) \<Rightarrow>
          if code = NGX_OK then (code, r', q)
          else (code, r'\<lparr>header_hash := header_hash r, lowcase_index := lowcase_index r\<rparr>, q))"

definition ngx_http_parse_header_line ::
  "bool \<Rightarrow> header_line \<Rightarrow> bytes \<Rightarrow> nat \<Rightarrow> int \<times> header_line \<times> nat" where
  "ngx_http_parse_header_line allow_underscores r buf pos =
     run_parser (header_line_step allow_underscores buf) header_line_return r buf pos"

lemmas header_line_state_defs =
  header_line_start_def header_line_name_def header_line_space_before_value_def header_line_value_def
  header_line_space_after_value_def header_line_ignore_line_def header_line_almost_done_def
  header_line_header_almost_done_def

lemmas hl_step_defs = header_line_step_def header_line_state_defs move_to_def hl_fail_def
  header_line_done_def header_line_header_done_def push_lowcase_def Let_def

subsection \<open>The invariant\<close>

definition ring_ok :: "header_line \<Rightarrow> bool" where
  "ring_ok r \<longleftrightarrow> length (lowcase_header r) = NGX_HTTP_LC_HEADER_LEN \<and> lowcase_index r < NGX_HTTP_LC_HEADER_LEN"

definition name_read :: "header_line \<Rightarrow> nat \<Rightarrow> bool" where
  "name_read r p \<longleftrightarrow>
     (\<exists>a e. header_name_start r = Some a \<and> header_name_end r = Some e \<and> a < e \<and> e < p)"

definition value_open :: "header_line \<Rightarrow> nat \<Rightarrow> bool" where
  "value_open r p \<longleftrightarrow>
     (\<exists>a e h. header_name_start r = Some a \<and> header_name_end r = Some e \<and> header_start r = Some h \<and>
        a < e \<and> e < h \<and> h < p)"

definition value_read :: "header_line \<Rightarrow> nat \<Rightarrow> bool" where
  "value_read r p \<longleftrightarrow>
     (\<exists>a e h q. header_name_start r = Some a \<and> header_name_end r = Some e \<and> header_start r = Some h \<and>
        header_end r = Some q \<and> a < e \<and> e \<le> h \<and> h \<le> q \<and> q < p)"

fun hl_state_inv :: "header_line_state \<Rightarrow> header_line \<Rightarrow> nat \<Rightarrow> bool" where
  "hl_state_inv sw_start r p = True"
| "hl_state_inv sw_name r p = (\<exists>a. header_name_start r = Some a \<and> a < p)"
| "hl_state_inv sw_space_before_value r p = name_read r p"
| "hl_state_inv sw_value r p = value_open r p"
| "hl_state_inv sw_space_after_value r p = (value_open r p \<and> value_read r p)"
| "hl_state_inv sw_ignore_line r p = True"
| "hl_state_inv sw_almost_done r p = value_read r p"
| "hl_state_inv sw_header_almost_done r p = True"

definition hl_inv :: "header_line \<Rightarrow> nat \<Rightarrow> bool" where
  "hl_inv r p \<longleftrightarrow> ring_ok r \<and> hl_state_inv (state r) r p"

definition hl_post :: "int \<times> header_line \<times> nat option \<Rightarrow> nat \<Rightarrow> bool" where
  "hl_post res p \<longleftrightarrow>
     (case res of (code, r, q) \<Rightarrow>
        ring_ok r \<and>
        (code = NGX_OK \<and> q = Some (Suc p) \<and> state r = sw_start \<and> value_read r (Suc p) \<or>
         code = NGX_HTTP_PARSE_HEADER_DONE \<and> q = Some (Suc p) \<and> state r = sw_start \<or>
         code = NGX_HTTP_PARSE_INVALID_HEADER \<and> q = None))"

lemmas hl_facts = name_read_def value_open_def value_read_def

lemma and_31: "n AND 31 < (32::nat)"
proof -
  have "n AND 31 = take_bit 5 n" by (simp add: take_bit_eq_mask mask_eq_exp_minus_1)
  then show ?thesis by (simp add: take_bit_eq_mod)
qed

lemma hl_step_Cont:
  assumes "hl_inv r p" "header_line_step u buf r p ch = Cont r'"
  shows "hl_inv r' (Suc p)"
  using assms
  by (cases "state r") (auto simp: hl_inv_def hl_step_defs hl_facts ring_ok_def and_31 split: if_splits)

lemma hl_step_Stop:
  assumes "hl_inv r p" "header_line_step u buf r p ch = Stop res"
  shows "hl_post res p"
  using assms
  by (cases "state r") (auto simp: hl_inv_def hl_post_def hl_step_defs hl_facts ring_ok_def split: if_splits)

interpretation hl: scan_contract "header_line_step u buf" hl_inv hl_post for u buf
  by unfold_locales (auto intro: hl_step_Cont hl_step_Stop)

text \<open>
  What a return code leaves unused: after a refusal the three variables, after the last header the
  hash and the index.
\<close>

definition hl_clear :: "int \<Rightarrow> header_line \<Rightarrow> header_line" where
  "hl_clear code r =
     (if code = NGX_OK \<or> code = NGX_AGAIN then r
      else r\<lparr>state := sw_start, header_hash := 0, lowcase_index := 0\<rparr>)"

definition hl_moves :: "int \<Rightarrow> bool" where
  "hl_moves code \<longleftrightarrow> code \<in> {NGX_OK, NGX_AGAIN, NGX_HTTP_PARSE_HEADER_DONE}"

interpretation hl: resumable_parser "header_line_step u" hl_inv hl_post header_line_return hl_clear hl_moves for u
proof (rule resumable_parser.intro)
  show "scan_contract (header_line_step u buf) hl_inv hl_post" for buf
    by (rule hl.scan_contract_axioms)
  show "hl_inv s p \<Longrightarrow> p < length buf \<Longrightarrow>
      header_line_step u (buf @ more_bytes) s p c = header_line_step u buf s p c" for s p c buf more_bytes
    by (cases "state s") (auto simp: header_line_step_def header_line_name_def Let_def hl_inv_def)
  show "hl_post res p \<Longrightarrow> fst (header_line_return r pos res) \<noteq> NGX_AGAIN" for res p r pos
    by (auto simp: hl_post_def header_line_return_def split: prod.splits)
  show "hl_post res p \<Longrightarrow>
      same_result hl_clear hl_moves (header_line_return r pos res) (header_line_return r' pos' res)"
    for res p r pos r' pos'
    by (auto simp: hl_post_def header_line_return_def same_result_def hl_clear_def hl_moves_def split: prod.splits)
qed

subsection \<open>What is recorded for a header\<close>

definition is_name_char :: "u_char \<Rightarrow> bool" where
  "is_name_char ch \<longleftrightarrow> lowcase ! unat ch \<noteq> 0"

definition is_value_char :: "u_char \<Rightarrow> bool" where
  "is_value_char ch \<longleftrightarrow> ch \<noteq> chr_nul \<and> ch \<noteq> CR \<and> ch \<noteq> LF"

lemma header_line_step_state:
  "state r = sw_start \<Longrightarrow> header_line_step u buf r p ch = header_line_start u p ch r"
  "state r = sw_name \<Longrightarrow> header_line_step u buf r p ch = header_line_name u buf p ch r"
  "state r = sw_space_before_value \<Longrightarrow> header_line_step u buf r p ch = header_line_space_before_value p ch r"
  "state r = sw_value \<Longrightarrow> header_line_step u buf r p ch = header_line_value p ch r"
  "state r = sw_space_after_value \<Longrightarrow> header_line_step u buf r p ch = header_line_space_after_value p ch r"
  "state r = sw_almost_done \<Longrightarrow> header_line_step u buf r p ch = header_line_almost_done p ch r"
  by (simp_all add: header_line_step_def)

lemma move_to_same: "state r = st \<Longrightarrow> move_to st r = Cont r"
  by (cases r) (simp add: move_to_def)

lemma push_lowcase_fields [simp]:
  "state (push_lowcase c r) = state r" "header_name_start (push_lowcase c r) = header_name_start r"
  "invalid_header (push_lowcase c r) = invalid_header r" "upstream (push_lowcase c r) = upstream r"
  "header_hash (push_lowcase c r) = ngx_hash (header_hash r) c"
  by (simp_all add: push_lowcase_def)

lemma fold_push_fields [simp]:
  "state (fold push_lowcase cs r) = state r"
  "header_name_start (fold push_lowcase cs r) = header_name_start r"
  "invalid_header (fold push_lowcase cs r) = invalid_header r"
  "header_hash (fold push_lowcase cs r) = foldl ngx_hash (header_hash r) cs"
  by (induction cs arbitrary: r) simp_all

lemma and_31_mod: "n AND 31 = n mod (32::nat)"
  using take_bit_eq_mask [of 5 n] by (simp add: take_bit_eq_mod mask_eq_exp_minus_1)

lemma fold_push_ring:
  assumes "lowcase_index r + length cs < 32" "length (lowcase_header r) = 32"
  shows "take (lowcase_index r + length cs) (lowcase_header (fold push_lowcase cs r)) =
    take (lowcase_index r) (lowcase_header r) @ cs"
  using assms
proof (induction cs arbitrary: r)
  case (Cons c cs)
  let ?r = "push_lowcase c r"
  have idx: "lowcase_index ?r = Suc (lowcase_index r)"
    using Cons.prems by (simp add: push_lowcase_def and_31_mod)
  have "length (lowcase_header ?r) = 32" using Cons.prems by (simp add: push_lowcase_def)
  from Cons.IH [OF _ this] Cons.prems idx
  have "take (lowcase_index r + length (c # cs)) (lowcase_header (fold push_lowcase (c # cs) r)) =
      take (Suc (lowcase_index r)) (lowcase_header ?r) @ cs"
    by simp
  also have "take (Suc (lowcase_index r)) (lowcase_header ?r) = take (lowcase_index r) (lowcase_header r) @ [c]"
    using Cons.prems by (simp add: push_lowcase_def take_Suc_conv_app_nth)
  finally show ?case by simp
qed simp

lemma fold_push_index: "lowcase_index r < 32 \<Longrightarrow>
    lowcase_index (fold push_lowcase cs r) = (lowcase_index r + length cs) mod 32"
  by (induction cs arbitrary: r) (simp_all add: push_lowcase_def and_31_mod mod_simps)

lemma scan_name_run:
  "list_all is_name_char name \<Longrightarrow> state r = sw_name \<Longrightarrow>
   scan (header_line_step u buf) r p name = Cont (fold push_lowcase (map (\<lambda>c. lowcase ! unat c) name) r)"
  by (induction name arbitrary: r p)
    (simp_all add: header_line_step_state header_line_name_def is_name_char_def move_to_same Let_def)

lemma not_name_char: "\<not> is_name_char CR" "\<not> is_name_char LF" "\<not> is_name_char chr_colon"
  by (simp_all add: is_name_char_def lowcase_def str_def nth_append)

lemma scan_first_name:
  assumes "name \<noteq> []" "list_all is_name_char name" "state r = sw_start"
  shows "scan (header_line_step u buf) r p (name @ ys) =
    scan (header_line_step u buf)
      (fold push_lowcase (map (\<lambda>c. lowcase ! unat c) name)
        (r\<lparr>header_name_start := Some p, invalid_header := False, header_hash := 0, lowcase_index := 0, state := sw_name\<rparr>))
      (p + length name) ys"
proof -
  obtain c cs where name: "name = c # cs" and c: "is_name_char c" and cs: "list_all is_name_char cs"
    using assms by (cases name) auto
  have "c \<noteq> CR" "c \<noteq> LF" using c not_name_char by auto
  with c assms(3) have "header_line_step u buf r p c =
      Cont (push_lowcase (lowcase ! unat c)
        (r\<lparr>header_name_start := Some p, invalid_header := False, header_hash := 0, lowcase_index := 0, state := sw_name\<rparr>))"
    by (simp add: header_line_step_state header_line_start_def is_name_char_def move_to_def push_lowcase_def
        ngx_hash_def Let_def and_31_mod)
  with cs show ?thesis by (simp add: name scan_append scan_name_run)
qed

lemma scan_spaces_run:
  "state r \<in> {sw_space_before_value, sw_space_after_value} \<Longrightarrow>
   scan (header_line_step u buf) r p (replicate n chr_space) = Cont r"
  by (induction n arbitrary: p)
    (auto simp: header_line_step_state header_line_space_before_value_def header_line_space_after_value_def
      move_to_same)

text \<open>Inside a value only the end pointer and the state change.\<close>

lemma scan_value_run:
  assumes "list_all is_value_char v" "state r = sw_value"
  shows "\<exists>e st. scan (header_line_step u buf) r p v = Cont (r\<lparr>header_end := e, state := st\<rparr>) \<and>
    st \<in> {sw_value, sw_space_after_value} \<and> (v = [] \<or> last v \<noteq> chr_space \<longrightarrow> st = sw_value)"
  using assms
proof (induction v rule: rev_induct)
  case Nil
  then show ?case by (intro exI [of _ "header_end r"]) (cases r; auto)
next
  case (snoc c v)
  then obtain e st where "scan (header_line_step u buf) r p v = Cont (r\<lparr>header_end := e, state := st\<rparr>)"
    "st \<in> {sw_value, sw_space_after_value}" by auto
  with snoc.prems show ?case
    by (auto simp: scan_append header_line_step_state header_line_value_def header_line_space_after_value_def
        move_to_def is_value_char_def) blast+
qed

lemma scan_value_end:
  assumes "state r = sw_value"
  shows "scan (header_line_step u buf) r p (replicate k chr_space @ [CR, LF] @ rest) =
    Stop (NGX_OK, r\<lparr>header_end := Some p, state := sw_start\<rparr>, Some (p + k + 2))"
  using assms
  by (cases k)
    (simp_all add: scan_append scan_spaces_run header_line_step_state header_line_value_def
      header_line_space_after_value_def header_line_almost_done_def header_line_done_def move_to_def)

definition header_text :: "bytes \<Rightarrow> nat \<Rightarrow> bytes \<Rightarrow> nat \<Rightarrow> bytes" where
  "header_text name j v k =
     name @ chr_colon # replicate j chr_space @ v @ replicate k chr_space @ [CR, LF]"

lemma scan_header_text:
  assumes name: "name \<noteq> []" "list_all is_name_char name"
    and v: "v \<noteq> []" "list_all is_value_char v" "hd v \<noteq> chr_space" "last v \<noteq> chr_space"
    and r: "state r = sw_start"
  shows "scan (header_line_step u buf) r p (header_text name j v k @ rest) =
    Stop (NGX_OK, (fold push_lowcase (map (\<lambda>c. lowcase ! unat c) name)
        (r\<lparr>header_name_start := Some p, invalid_header := False, header_hash := 0, lowcase_index := 0, state := sw_name\<rparr>))
       \<lparr>header_name_end := Some (p + length name), header_start := Some (p + length name + 1 + j),
        header_end := Some (p + length name + 1 + j + length v), state := sw_start\<rparr>,
      Some (p + length (header_text name j v k)))"
proof -
  define r1 where "r1 = fold push_lowcase (map (\<lambda>c. lowcase ! unat c) name)
        (r\<lparr>header_name_start := Some p, invalid_header := False, header_hash := 0, lowcase_index := 0, state := sw_name\<rparr>)"
  have [simp]: "state r1 = sw_name" by (simp add: r1_def)
  obtain c v' where v': "v = c # v'" "list_all is_value_char v'" "is_value_char c" "c \<noteq> chr_space"
    using v by (cases v) auto
  define q where "q = p + length name + 1 + j"
  define r2 where "r2 = r1\<lparr>header_name_end := Some (p + length name), header_start := Some q, state := sw_value\<rparr>"
  have "state r2 = sw_value" by (simp add: r2_def)
  from scan_value_run [OF v'(2) this, of u buf "Suc q"]
  obtain e st where run: "scan (header_line_step u buf) r2 (Suc q) v' = Cont (r2\<lparr>header_end := e, state := st\<rparr>)"
    "v' = [] \<or> last v' \<noteq> chr_space \<longrightarrow> st = sw_value"
    by blast
  then have st: "st = sw_value" using v(4) v'(1) by (auto split: if_splits)
  have "scan (header_line_step u buf) r p (header_text name j v k @ rest) =
      scan (header_line_step u buf) r1 (p + length name)
        (chr_colon # replicate j chr_space @ v @ replicate k chr_space @ [CR, LF] @ rest)"
    using scan_first_name [OF name r] by (simp add: header_text_def r1_def)
  also have "\<dots> = scan (header_line_step u buf) r2 (Suc q) (v' @ replicate k chr_space @ [CR, LF] @ rest)"
    using not_name_char v'
    by (simp add: scan_append scan_spaces_run header_line_step_state header_line_name_def is_name_char_def
        header_line_space_before_value_def move_to_def is_value_char_def q_def r2_def)
  also have "\<dots> = scan (header_line_step u buf) (r2\<lparr>header_end := e, state := sw_value\<rparr>) (q + length v)
      (replicate k chr_space @ [CR, LF] @ rest)"
    using run(1) st v'(1) by (simp add: scan_append)
  also have "\<dots> = Stop (NGX_OK, r2\<lparr>header_end := Some (q + length v), state := sw_start\<rparr>, Some (q + length v + k + 2))"
    by (subst scan_value_end) simp_all
  finally show ?thesis by (simp add: r2_def q_def header_text_def flip: r1_def)
qed

subsection \<open>Properties\<close>

text \<open>
  A header line may arrive in any pieces.  From every state the parser can be in when
  it is called (in particular at the start of a line), the code and everything that is used
  afterwards is the same as if the bytes had arrived at once.
\<close>

theorem header_line_any_chunks:
  assumes "hl_inv r (length buf)"
  shows "same_result hl_clear hl_moves (ngx_http_parse_header_line u r (buf @ concat cs) (length buf))
     (parse_chunks (ngx_http_parse_header_line u) r buf (length buf) cs)"
  using hl.any_chunks [OF assms] unfolding ngx_http_parse_header_line_def [abs_def] by simp

text \<open>The request as it is when the first header is parsed.\<close>

definition header_init :: header_line where
  "header_init =
     \<lparr>state = sw_start, header_hash = 0, lowcase_index = 0,
      lowcase_header = replicate NGX_HTTP_LC_HEADER_LEN 0, header_name_start = None, header_name_end = None,
      header_start = None, header_end = None, invalid_header = False, upstream = False\<rparr>"

lemma hl_inv_init: "hl_inv header_init p"
  by (simp add: hl_inv_def header_init_def ring_ok_def)

theorem header_line_any_chunks_witness:
  "hl_inv header_init (length (str ''x'')) \<and>
   same_result hl_clear hl_moves
     (ngx_http_parse_header_line False header_init (str ''x'' @ concat [str ''A: b'', [CR], [LF]]) (length (str ''x'')))
     (parse_chunks (ngx_http_parse_header_line False) header_init (str ''x'') (length (str ''x'')) [str ''A: b'', [CR], [LF]])"
  by (rule conjI [OF hl_inv_init header_line_any_chunks [OF hl_inv_init]])

text \<open>
  Whatever bytes arrive, the ring of the lower-case name is never written outside its
  32 bytes, and when a header is accepted its name is not empty, the value lies behind the name and
  in front of the end of the line, and \<^verbatim>\<open>b->pos\<close> is behind the line and inside the buffer.
\<close>

theorem header_line_pointers:
  assumes "hl_inv r pos" "pos \<le> length buf" "ngx_http_parse_header_line u r buf pos = (code, r', pos')"
  shows "length (lowcase_header r') = NGX_HTTP_LC_HEADER_LEN \<and> lowcase_index r' < NGX_HTTP_LC_HEADER_LEN \<and>
    pos \<le> pos' \<and> pos' \<le> length buf \<and> (code = NGX_OK \<longrightarrow> value_read r' pos')"
proof (cases "scan (header_line_step u buf) r pos (drop pos buf)")
  case (Cont s)
  with hl.scan_Cont [OF assms(1) Cont] assms(2,3) show ?thesis
    by (auto simp: ngx_http_parse_header_line_def run_parser_def hl_inv_def ring_ok_def)
next
  case (Stop res)
  from hl.scan_Stop [OF assms(1) Stop] obtain i where "i < length buf - pos" "hl_post res (pos + i)" by auto
  with Stop assms show ?thesis
    by (auto simp: ngx_http_parse_header_line_def run_parser_def header_line_return_def hl_post_def hl_inv_def
        ring_ok_def split: prod.splits option.splits if_splits)
qed

theorem header_line_pointers_witness:
  "\<exists>r'. ngx_http_parse_header_line False header_init (str ''A:b'' @ [LF]) 0 = (NGX_OK, r', 4) \<and> value_read r' 4"
proof -
  obtain r' where r': "ngx_http_parse_header_line False header_init (str ''A:b'' @ [LF]) 0 = (NGX_OK, r', 4)"
    by (simp add: ngx_http_parse_header_line_def run_parser_def header_line_return_def header_init_def str_def
        hl_step_defs lowcase_def nth_append)
  with header_line_pointers [OF hl_inv_init _ r'] show ?thesis by simp
qed

text \<open>
  A header with a name of letters, digits and hyphens, any number of spaces around a
  value that has no NUL, CR or LF, is accepted from any position of the buffer, whatever follows;
  name and value are delimited exactly, without the spaces, the hash is that of the lower-case name
  and a name shorter than the ring is in it in lower case.
\<close>

theorem header_line_recorded:
  assumes "name \<noteq> []" "list_all is_name_char name" "v \<noteq> []" "list_all is_value_char v"
    "hd v \<noteq> chr_space" "last v \<noteq> chr_space" "state r = sw_start" "length (lowcase_header r) = NGX_HTTP_LC_HEADER_LEN"
  shows "\<exists>r'. ngx_http_parse_header_line u r (pre @ header_text name j v k @ rest) (length pre) =
      (NGX_OK, r', length pre + length (header_text name j v k)) \<and>
    header_name_start r' = Some (length pre) \<and> header_name_end r' = Some (length pre + length name) \<and>
    header_start r' = Some (length pre + length name + 1 + j) \<and>
    header_end r' = Some (length pre + length name + 1 + j + length v) \<and>
    \<not> invalid_header r' \<and> state r' = sw_start \<and>
    header_hash r' = foldl ngx_hash 0 (map (\<lambda>c. lowcase ! unat c) name) \<and>
    lowcase_index r' = length name mod NGX_HTTP_LC_HEADER_LEN \<and>
    (length name < NGX_HTTP_LC_HEADER_LEN \<longrightarrow>
      take (length name) (lowcase_header r') = map (\<lambda>c. lowcase ! unat c) name)"
proof -
  let ?r0 = "r\<lparr>header_name_start := Some (length pre), invalid_header := False, header_hash := 0,
    lowcase_index := 0, state := sw_name\<rparr>"
  let ?low = "map (\<lambda>c. lowcase ! unat c) name"
  note scanned = scan_header_text [OF assms(1-7), of u "pre @ header_text name j v k @ rest" "length pre" j k rest]
  show ?thesis
    using fold_push_ring [of ?r0 ?low] fold_push_index [of ?r0 ?low] assms(8)
    by (simp add: ngx_http_parse_header_line_def run_parser_def header_line_return_def scanned)
qed

theorem header_line_recorded_witness:
  "list_all is_name_char (str ''Ho'') \<and> list_all is_value_char (str ''a b'') \<and>
   (\<exists>r'. ngx_http_parse_header_line False header_init ([] @ header_text (str ''Ho'') 1 (str ''a b'') 2 @ []) (length ([] :: bytes)) =
      (NGX_OK, r', 11) \<and> take (length (str ''Ho'')) (lowcase_header r') = str ''ho'')"
proof -
  have h: "str ''Ho'' \<noteq> []" "list_all is_name_char (str ''Ho'')" "str ''a b'' \<noteq> []" "list_all is_value_char (str ''a b'')"
    "hd (str ''a b'') \<noteq> chr_space" "last (str ''a b'') \<noteq> chr_space" "state header_init = sw_start"
    "length (lowcase_header header_init) = NGX_HTTP_LC_HEADER_LEN"
    by (simp_all add: str_def is_name_char_def is_value_char_def lowcase_def nth_append header_init_def)
  from header_line_recorded [OF h, of False "[]" 1 2 "[]"] h show ?thesis
    by (auto simp: header_text_def str_def lowcase_def nth_append)
qed

end
