(* ===== verification/Ngx_Http_Complex_Uri.thy ===== *)
theory Ngx_Http_Complex_Uri
  imports Ngx_Http_Chars
begin

text \<open>
  \<^verbatim>\<open>ngx_http_parse_complex_uri\<close> of \<^verbatim>\<open>src/http/ngx_http_parse.c\<close>: one pass over the URI of a request that
  decodes \<^verbatim>\<open>%XX\<close>, removes the segments \<^verbatim>\<open>.\<close> and \<^verbatim>\<open>..\<close>, merges slashes, finds the extension and
  separates arguments and fragment.  One definition per state (Unix build).  The reference definition
  does the same in three separate steps (decode, split into segments, resolve the segments on a
  stack), and the main lemma is that the pass computes exactly the reference.
\<close>

subsection \<open>The pass\<close>

datatype complex_state = sw_usual | sw_slash | sw_dot | sw_dot_dot | sw_quoted | sw_quoted_second

text \<open>
  The local variables of the pass and the fields of the request it writes.  \<open>out\<close> holds the bytes
  written to \<^verbatim>\<open>r->uri.data\<close> below \<^verbatim>\<open>u\<close>, so \<^verbatim>\<open>*u++ = ch\<close> appends and \<^verbatim>\<open>u--\<close> removes the last byte;
  \<open>uri_ext\<close> is an index into it and \<open>args_start\<close> an index into the URI.  \<open>quoted_uri\<close> and \<open>plus_in_uri\<close> are
  flags of the request that the pass sets; no result or property here depends on them.
\<close>

record complex_uri =
  cstate :: complex_state
  quoted_state :: complex_state
  decoded :: u_char
  out :: bytes
  uri_ext :: "nat option"
  args_start :: "nat option"
  quoted_uri :: bool
  plus_in_uri :: bool

datatype complex_exit = goto_args | goto_done | invalid_request

type_synonym complex_outcome = "(complex_uri, complex_exit \<times> complex_uri) outcome"

definition put :: "u_char \<Rightarrow> complex_uri \<Rightarrow> complex_uri" where
  "put ch s = s\<lparr>out := out s @ [ch]\<rparr>"

definition put_usual :: "u_char \<Rightarrow> complex_uri \<Rightarrow> complex_outcome" where
  "put_usual ch s = Cont (put ch s\<lparr>cstate := sw_usual\<rparr>)"

definition start_quoted :: "complex_uri \<Rightarrow> complex_outcome" where
  "start_quoted s = Cont (s\<lparr>quoted_state := cstate s, cstate := sw_quoted\<rparr>)"

text \<open>The \<^verbatim>\<open>'+'\<close> case falls through to the default.\<close>

definition put_default :: "u_char \<Rightarrow> complex_uri \<Rightarrow> complex_outcome" where
  "put_default ch s =
     put_usual ch (if ch = chr_plus then s\<lparr>plus_in_uri := True\<rparr> else s)"

definition complex_usual :: "nat \<Rightarrow> u_char \<Rightarrow> complex_uri \<Rightarrow> complex_outcome" where
  "complex_usual p ch s =
     (if is_usual ch then Cont (put ch s)
      else if ch = chr_slash then Cont (put ch (s\<lparr>uri_ext := None, cstate := sw_slash\<rparr>))
      else if ch = chr_percent then start_quoted s
      else if ch = chr_question then Stop (goto_args, s\<lparr>args_start := Some (p + 1)\<rparr>)
      else if ch = chr_hash then Stop (goto_done, s)
      else if ch = chr_dot then Cont (put ch (s\<lparr>uri_ext := Some (length (out s) + 1)\<rparr>))
      else put_default ch s)"

definition complex_slash :: "bool \<Rightarrow> nat \<Rightarrow> u_char \<Rightarrow> complex_uri \<Rightarrow> complex_outcome" where
  "complex_slash merge_slashes p ch s =
     (if is_usual ch then put_usual ch s
      else if ch = chr_slash then Cont (if merge_slashes then s else put ch s)
      else if ch = chr_dot then Cont (put ch (s\<lparr>cstate := sw_dot\<rparr>))
      else if ch = chr_percent then start_quoted s
      else if ch = chr_question then Stop (goto_args, s\<lparr>args_start := Some (p + 1)\<rparr>)
      else if ch = chr_hash then Stop (goto_done, s)
      else put_default ch s)"

definition complex_dot :: "nat \<Rightarrow> u_char \<Rightarrow> complex_uri \<Rightarrow> complex_outcome" where
  "complex_dot p ch s =
     (if is_usual ch then put_usual ch s
      else if ch = chr_slash then Cont (s\<lparr>cstate := sw_slash, out := butlast (out s)\<rparr>)
      else if ch = chr_dot then Cont (put ch (s\<lparr>cstate := sw_dot_dot\<rparr>))
      else if ch = chr_percent then start_quoted s
      else if ch = chr_question then
        Stop (goto_args, s\<lparr>out := butlast (out s), args_start := Some (p + 1)\<rparr>)
      else if ch = chr_hash then Stop (goto_done, s\<lparr>out := butlast (out s)\<rparr>)
      else put_default ch s)"

text \<open>
  \<^verbatim>\<open>u -= 4\<close> and the search backwards for a slash; \<open>None\<close> is the return where \<^verbatim>\<open>u\<close> has left the buffer.
\<close>

fun back_to_slash :: "bytes \<Rightarrow> nat \<Rightarrow> bytes option" where
  "back_to_slash data 0 = None"
| "back_to_slash data (Suc u) =
     (if data ! u = chr_slash then Some (take (Suc u) data) else back_to_slash data u)"

definition parent_dir :: "bytes \<Rightarrow> bytes option" where
  "parent_dir data = back_to_slash data (length data - 3)"

definition complex_dot_dot :: "nat \<Rightarrow> u_char \<Rightarrow> complex_uri \<Rightarrow> complex_outcome" where
  "complex_dot_dot p ch s =
     (if is_usual ch then put_usual ch s
      else if ch = chr_slash \<or> ch = chr_question \<or> ch = chr_hash then
        (case parent_dir (out s) of
           None \<Rightarrow> Stop (invalid_request, s)
         | Some data \<Rightarrow>
             let s = s\<lparr>out := data\<rparr> in
             if ch = chr_question then Stop (goto_args, s\<lparr>args_start := Some (p + 1)\<rparr>)
             else if ch = chr_hash then Stop (goto_done, s)
             else Cont (s\<lparr>cstate := sw_slash\<rparr>))
      else if ch = chr_percent then start_quoted s
      else put_default ch s)"

definition complex_quoted :: "u_char \<Rightarrow> complex_uri \<Rightarrow> complex_outcome" where
  "complex_quoted ch s =
     (let s = s\<lparr>quoted_uri := True\<rparr> in
      case hex_digit ch of
        Some d \<Rightarrow> Cont (s\<lparr>decoded := d, cstate := sw_quoted_second\<rparr>)
      | None \<Rightarrow> Stop (invalid_request, s))"

text \<open>
  The four states outside of a quoted byte.  The second quoted byte is given to the state that the
  quoting interrupted without reading on.
\<close>

definition complex_plain :: "bool \<Rightarrow> nat \<Rightarrow> u_char \<Rightarrow> complex_uri \<Rightarrow> complex_outcome" where
  "complex_plain merge_slashes p ch s =
     (case cstate s of
        sw_slash \<Rightarrow> complex_slash merge_slashes p ch s
      | sw_dot \<Rightarrow> complex_dot p ch s
      | sw_dot_dot \<Rightarrow> complex_dot_dot p ch s
      | _ \<Rightarrow> complex_usual p ch s)"

definition complex_quoted_second :: "bool \<Rightarrow> nat \<Rightarrow> u_char \<Rightarrow> complex_uri \<Rightarrow> complex_outcome" where
  "complex_quoted_second merge_slashes p ch s =
     (if chr_0 \<le> ch \<and> ch \<le> chr_9 then
        let ch = push_bit 4 (decoded s) + (ch - chr_0) in
        if ch = chr_percent \<or> ch = chr_hash then put_usual ch s
        else if ch = chr_nul then Stop (invalid_request, s)
        else complex_plain merge_slashes p ch (s\<lparr>cstate := quoted_state s\<rparr>)
      else
        let c = ch OR 0x20 in
        if chr_a \<le> c \<and> c \<le> chr_f then
          let ch = push_bit 4 (decoded s) + (c - chr_a) + 10 in
          if ch = chr_question then put_usual ch s
          else
            let s = (if ch = chr_plus then s\<lparr>plus_in_uri := True\<rparr> else s) in
            complex_plain merge_slashes p ch (s\<lparr>cstate := quoted_state s\<rparr>)
        else Stop (invalid_request, s))"

definition complex_step :: "bool \<Rightarrow> complex_uri \<Rightarrow> nat \<Rightarrow> u_char \<Rightarrow> complex_outcome" where
  "complex_step merge_slashes s p ch =
     (case cstate s of
        sw_quoted \<Rightarrow> complex_quoted ch s
      | sw_quoted_second \<Rightarrow> complex_quoted_second merge_slashes p ch s
      | _ \<Rightarrow> complex_plain merge_slashes p ch s)"

text \<open>
  What the request holds afterwards: \<open>exten\<close> and \<open>args\<close> are \<open>None\<close> where the pass does not set
  \<^verbatim>\<open>r->exten\<close> and \<^verbatim>\<open>r->args\<close>.
\<close>

record complex_result =
  uri :: bytes
  exten :: "bytes option"
  args :: "bytes option"
  r_args_start :: "nat option"

definition complex_done :: "complex_uri \<Rightarrow> complex_result" where
  "complex_done s =
     \<lparr>uri = out s, exten = map_option (\<lambda>e. drop e (out s)) (uri_ext s), args = None,
      r_args_start = args_start s\<rparr>"

text \<open>The loop at \<^verbatim>\<open>args\<close>, from \<^verbatim>\<open>p\<close> on: a \<^verbatim>\<open>#\<close> ends the arguments.\<close>

definition complex_args :: "bytes \<Rightarrow> complex_uri \<Rightarrow> complex_result" where
  "complex_args rest s =
     (if chr_hash \<in> set rest
      then (complex_done s)\<lparr>args := Some (takeWhile (\<lambda>c. c \<noteq> chr_hash) rest), r_args_start := None\<rparr>
      else complex_done s)"

text \<open>The end of the URI inside the loop.\<close>

definition complex_end :: "complex_uri \<Rightarrow> complex_result option" where
  "complex_end s =
     (case cstate s of
        sw_quoted \<Rightarrow> None
      | sw_quoted_second \<Rightarrow> None
      | sw_dot \<Rightarrow> Some (complex_done (s\<lparr>out := butlast (out s)\<rparr>))
      | sw_dot_dot \<Rightarrow> map_option (\<lambda>data. complex_done (s\<lparr>out := data\<rparr>)) (parent_dir (out s))
      | _ \<Rightarrow> Some (complex_done s))"

definition complex_return :: "bytes \<Rightarrow> complex_outcome \<Rightarrow> complex_result option" where
  "complex_return u res =
     (case res of
        Cont s \<Rightarrow> complex_end s
      | Stop (goto_args, s) \<Rightarrow> Some (complex_args (drop (the (args_start s)) u) s)
      | Stop (goto_done, s) \<Rightarrow> Some (complex_done s)
      | Stop (invalid_request, s) \<Rightarrow> None)"

definition complex_init :: "bool \<Rightarrow> complex_uri" where
  "complex_init empty_path =
     \<lparr>cstate = sw_usual, quoted_state = sw_usual, decoded = 0, out = (if empty_path then [chr_slash] else []),
      uri_ext = None, args_start = None, quoted_uri = False, plus_in_uri = False\<rparr>"

text \<open>
  The call: \<open>u\<close> are the bytes from \<^verbatim>\<open>r->uri_start\<close> to \<^verbatim>\<open>r->uri_end\<close>, \<open>empty_path\<close> is
  \<^verbatim>\<open>r->empty_path_in_uri\<close>; \<open>None\<close> is \<^verbatim>\<open>NGX_HTTP_PARSE_INVALID_REQUEST\<close>.
\<close>

definition ngx_http_parse_complex_uri :: "bool \<Rightarrow> bool \<Rightarrow> bytes \<Rightarrow> complex_result option" where
  "ngx_http_parse_complex_uri merge_slashes empty_path u =
     complex_return u (scan (complex_step merge_slashes) (complex_init empty_path) 0 u)"

subsection \<open>The reference\<close>

text \<open>Step one: decode up to a raw \<^verbatim>\<open>?\<close> or \<^verbatim>\<open>#\<close>; what follows a \<^verbatim>\<open>?\<close> is kept.\<close>

datatype uri_tail = No_tail | Args bytes | Fragment

fun uri_decode :: "bytes \<Rightarrow> (bytes \<times> uri_tail) option" where
  "uri_decode [] = Some ([], No_tail)"
| "uri_decode (c # cs) =
     (if c = chr_percent then
        (case cs of
           a # b # ds \<Rightarrow>
             (case (hex_digit a, hex_digit b) of
                (Some x, Some y) \<Rightarrow>
                  if x = 0 \<and> y = 0 then None
                  else map_option (apfst (Cons (push_bit 4 x + y))) (uri_decode ds)
              | _ \<Rightarrow> None)
         | _ \<Rightarrow> None)
      else if c = chr_question then Some ([], Args cs)
      else if c = chr_hash then Some ([], Fragment)
      else map_option (apfst (Cons c)) (uri_decode cs))"

text \<open>Step two: the segments between the slashes.\<close>

fun segments :: "bytes \<Rightarrow> bytes list" where
  "segments [] = [[]]"
| "segments (c # cs) =
     (if c = chr_slash then [] # segments cs
      else (c # hd (segments cs)) # tl (segments cs))"

text \<open>
  Step three: resolve the segments on a stack of kept segments.  A segment in front of a slash is
  dropped, pops or is pushed; the last one leaves its name or, for \<^verbatim>\<open>.\<close> and \<^verbatim>\<open>..\<close>, nothing behind the
  last slash.
\<close>

definition pop_segment :: "bytes list \<Rightarrow> bytes list option" where
  "pop_segment st = (if st = [] then None else Some (butlast st))"

definition close_segment :: "bool \<Rightarrow> bytes list \<Rightarrow> bytes \<Rightarrow> bytes list option" where
  "close_segment merge_slashes st w =
     (if w = [] then Some (if merge_slashes then st else st @ [[]])
      else if w = str ''.'' then Some st
      else if w = str ''..'' then pop_segment st
      else Some (st @ [w]))"

definition last_segment :: "bytes list \<Rightarrow> bytes \<Rightarrow> (bytes list \<times> bytes) option" where
  "last_segment st w =
     (if w = str ''.'' then Some (st, [])
      else if w = str ''..'' then map_option (\<lambda>st. (st, [])) (pop_segment st)
      else Some (st, w))"

fun resolve :: "bool \<Rightarrow> bytes list \<Rightarrow> bytes list \<Rightarrow> (bytes list \<times> bytes) option" where
  "resolve merge_slashes st [] = Some (st, [])"
| "resolve merge_slashes st [w] = last_segment st w"
| "resolve merge_slashes st (w # v # ws) =
     Option.bind (close_segment merge_slashes st w) (\<lambda>st. resolve merge_slashes st (v # ws))"

definition render :: "bytes list \<Rightarrow> bytes \<Rightarrow> bytes" where
  "render st w = concat (map (Cons chr_slash) st) @ chr_slash # w"

text \<open>The extension: what follows the last dot of the last segment that is not one of its leading dots.\<close>

definition extension :: "bytes \<Rightarrow> nat option" where
  "extension w =
     (case filter (\<lambda>i. w ! i = chr_dot \<and> take i w \<notin> {[], str ''.'', str ''..''}) [0..<length w] of
        [] \<Rightarrow> None
      | i # is \<Rightarrow> Some (last (i # is) + 1))"

definition path_result :: "bytes list \<Rightarrow> bytes \<Rightarrow> complex_result" where
  "path_result st w =
     \<lparr>uri = render st w, exten = map_option (\<lambda>e. drop e w) (extension w), args = None, r_args_start = None\<rparr>"

text \<open>Arguments up to a \<^verbatim>\<open>#\<close> are set by the pass, arguments up to the end are left to the caller.\<close>

fun with_tail :: "bytes \<Rightarrow> uri_tail \<Rightarrow> complex_result \<Rightarrow> complex_result" where
  "with_tail u (Args rest) res =
     (if chr_hash \<in> set rest then res\<lparr>args := Some (takeWhile (\<lambda>c. c \<noteq> chr_hash) rest)\<rparr>
      else res\<lparr>r_args_start := Some (length u - length rest)\<rparr>)"
| "with_tail u _ res = res"

definition uri_reference :: "bool \<Rightarrow> bytes \<Rightarrow> complex_result option" where
  "uri_reference merge_slashes u =
     Option.bind (uri_decode u) (\<lambda>(path, tail).
       map_option (\<lambda>(st, w). with_tail u tail (path_result st w))
         (resolve merge_slashes [] (tl (segments path))))"

subsection \<open>The pass computes the reference\<close>

text \<open>The state of the pass in the middle of the segment \<open>w\<close>.\<close>

definition state_of :: "bytes \<Rightarrow> complex_state" where
  "state_of w =
     (if w = [] then sw_slash else if w = str ''.'' then sw_dot
      else if w = str ''..'' then sw_dot_dot else sw_usual)"

definition no_slash :: "bytes \<Rightarrow> bool" where
  "no_slash w \<longleftrightarrow> chr_slash \<notin> set w"

definition at_path :: "bytes list \<Rightarrow> bytes \<Rightarrow> complex_uri \<Rightarrow> bool" where
  "at_path st w s \<longleftrightarrow>
     out s = render st w \<and> uri_ext s = map_option (\<lambda>e. length (render st []) + e) (extension w)"

definition in_segment :: "bytes list \<Rightarrow> bytes \<Rightarrow> complex_uri \<Rightarrow> bool" where
  "in_segment st w s \<longleftrightarrow>
     cstate s = state_of w \<and> at_path st w s \<and> args_start s = None \<and> list_all no_slash st \<and> no_slash w"

definition path_step :: "bool \<Rightarrow> bytes list \<Rightarrow> bytes \<Rightarrow> u_char \<Rightarrow> (bytes list \<times> bytes) option" where
  "path_step merge_slashes st w c =
     (if c = chr_slash then map_option (\<lambda>st. (st, [])) (close_segment merge_slashes st w)
      else Some (st, w @ [c]))"

definition path_run :: "bool \<Rightarrow> bytes list \<Rightarrow> bytes \<Rightarrow> bytes \<Rightarrow> (bytes list \<times> bytes) option" where
  "path_run merge_slashes st w ds =
     resolve merge_slashes st ((w @ hd (segments ds)) # tl (segments ds))"

lemma segments_not_Nil [simp]: "segments ds \<noteq> []"
  by (cases ds) simp_all

lemma path_run_simps:
  "path_run m st w [] = last_segment st w"
  "path_run m st w (c # ds) = Option.bind (path_step m st w c) (\<lambda>(st, w). path_run m st w ds)"
proof -
  obtain h t where "segments ds = h # t" by (cases "segments ds") auto
  then show "path_run m st w (c # ds) = Option.bind (path_step m st w c) (\<lambda>(st, w). path_run m st w ds)"
    by (auto simp: path_run_def path_step_def bind_map_option comp_def)
qed (simp add: path_run_def)

lemma extension_snoc:
  "extension (w @ [c]) =
     (if c = chr_dot \<and> w \<notin> {[], str ''.'', str ''..''} then Some (length w + 1) else extension w)"
proof -
  let ?P = "\<lambda>v i. v ! i = chr_dot \<and> take i v \<notin> {[], str ''.'', str ''..''}"
  have "filter (?P (w @ [c])) [0..<length w] = filter (?P w) [0..<length w]"
    by (rule filter_cong) (auto simp: nth_append)
  then have "filter (?P (w @ [c])) [0..<length (w @ [c])] =
      filter (?P w) [0..<length w] @ (if c = chr_dot \<and> w \<notin> {[], str ''.'', str ''..''} then [length w] else [])"
    by (simp add: nth_append)
  then show ?thesis
    unfolding extension_def by (auto split: list.splits simp del: upt_Suc simp: append_eq_Cons_conv Cons_eq_append_conv)
qed

lemma dots_distinct [simp]:
  "str ''.'' \<noteq> []" "str ''..'' \<noteq> []" "[] \<noteq> str ''.''" "[] \<noteq> str ''..''" "str ''.'' \<noteq> str ''..''" "str ''..'' \<noteq> str ''.''"
  "str ''.'' = [c] \<longleftrightarrow> c = chr_dot" "[c] = str ''.'' \<longleftrightarrow> c = chr_dot" "[c] \<noteq> str ''..''"
  "str ''.'' @ [c] \<noteq> str ''.''" "str ''.'' @ [c] = str ''..'' \<longleftrightarrow> c = chr_dot"
  by (auto simp: str_def)

lemma extension_single [simp]: "extension [c] = None"
  using extension_snoc [of "[]" c] by (simp add: extension_def)

lemma extension_dots [simp]: "extension [] = None" "extension (str ''.'') = None" "extension (str ''..'') = None"
  by (simp_all add: extension_def str_def)

lemma render_snoc: "render st w @ [c] = render st (w @ [c])" "render st [] @ w = render st w"
  by (simp_all add: render_def)

lemma length_render: "length (render st w) = length (render st []) + length w"
  by (simp add: render_def)

lemma render_push: "no_slash w \<Longrightarrow> render st w @ [chr_slash] = render (st @ [w]) []"
  by (simp add: render_def)

lemma back_to_slash_skip:
  "no_slash w \<Longrightarrow> back_to_slash (xs @ chr_slash # w @ ys) (length xs + 1 + length w) = Some (xs @ [chr_slash])"
proof (induction w arbitrary: ys rule: rev_induct)
  case Nil
  then show ?case by (simp add: nth_append)
next
  case (snoc c w)
  then have "back_to_slash (xs @ chr_slash # w @ c # ys) (length xs + 1 + length w) = Some (xs @ [chr_slash])"
    by (simp add: no_slash_def)
  moreover have "(xs @ chr_slash # w @ c # ys) ! (length xs + 1 + length w) = c"
    by (simp add: nth_append)
  ultimately show ?case using snoc.prems by (simp add: no_slash_def)
qed

lemma parent_dir_render:
  assumes "list_all no_slash st"
  shows "parent_dir (render st (str ''..'')) = map_option (\<lambda>st. render st []) (pop_segment st)"
proof (cases st rule: rev_cases)
  case Nil
  then show ?thesis by (simp add: parent_dir_def render_def str_def pop_segment_def)
next
  case (snoc st' v)
  let ?xs = "concat (map (Cons chr_slash) st')"
  have "no_slash v" using assms snoc by simp
  from back_to_slash_skip [OF this, of ?xs "chr_slash # str ''..''"] snoc show ?thesis
    by (simp add: parent_dir_def render_def pop_segment_def str_def)
qed

lemma no_slash_simps [simp]:
  "no_slash []" "no_slash [c] \<longleftrightarrow> c \<noteq> chr_slash" "no_slash (w @ [c]) \<longleftrightarrow> no_slash w \<and> c \<noteq> chr_slash"
  by (auto simp: no_slash_def)

lemma list_all_butlast: "list_all P xs \<Longrightarrow> list_all P (butlast xs)"
  by (auto simp: list_all_iff dest: in_set_butlastD)

lemmas complex_plain_defs = complex_plain_def complex_usual_def complex_slash_def complex_dot_def
  complex_dot_dot_def put_usual_def put_default_def put_def

lemma state_of_simps:
  "state_of [] = sw_slash" "state_of (str ''.'') = sw_dot" "state_of (str ''..'') = sw_dot_dot"
  "w \<notin> {[], str ''.'', str ''..''} \<Longrightarrow> state_of w = sw_usual"
  by (simp_all add: state_of_def str_def)

lemma state_of_single: "state_of [c] = (if c = chr_dot then sw_dot else sw_usual)"
  by (simp add: state_of_def)

lemma state_of_snoc:
  "state_of (w @ [c]) =
     (if c = chr_dot \<and> w = [] then sw_dot else if c = chr_dot \<and> w = str ''.'' then sw_dot_dot else sw_usual)"
  by (cases w rule: rev_cases) (auto simp: state_of_def str_def)

text \<open>A byte of a segment, raw or decoded, that is not a slash.\<close>

lemma complex_plain_char:
  assumes s: "in_segment st w s" and c: "c \<notin> {chr_slash, chr_percent, chr_question, chr_hash}"
  shows "\<exists>t. complex_plain m p c s = Cont t \<and> in_segment st (w @ [c]) t"
proof -
  consider "w = []" | "w = str ''.''" | "w = str ''..''" | "w \<notin> {[], str ''.'', str ''..''}" by blast
  then show ?thesis
    using s c
    by cases
      (auto simp: complex_plain_defs in_segment_def at_path_def state_of_simps state_of_snoc state_of_single extension_snoc
        render_snoc length_render [of st w])
qed

text \<open>A slash closes the segment.\<close>

lemma complex_plain_slash:
  assumes s: "in_segment st w s"
  shows "case close_segment m st w of
      None \<Rightarrow> \<exists>t. complex_plain m p chr_slash s = Stop (invalid_request, t)
    | Some st' \<Rightarrow> \<exists>t. complex_plain m p chr_slash s = Cont t \<and> in_segment st' [] t"
proof -
  consider "w = []" | "w = str ''.''" | "w = str ''..''" | "w \<notin> {[], str ''.'', str ''..''}" by blast
  then show ?thesis
  proof cases
    case 2
    have "butlast (render st w) = render st []" by (simp add: 2 render_def str_def butlast_append)
    with s 2 show ?thesis
      by (simp add: complex_plain_defs in_segment_def at_path_def close_segment_def state_of_simps)
  next
    case 3
    with s parent_dir_render [of st] show ?thesis
      by (auto simp: complex_plain_defs in_segment_def at_path_def close_segment_def state_of_simps
          pop_segment_def list_all_butlast)
  qed (use s in \<open>auto simp: complex_plain_defs in_segment_def at_path_def close_segment_def state_of_simps
        render_push\<close>)
qed

text \<open>The end of the path.\<close>

lemma complex_done_at_path:
  assumes "at_path st w s"
  shows "complex_done s = (path_result st w)\<lparr>r_args_start := args_start s\<rparr>"
proof -
  have "drop (length (render st []) + e) (render st w) = drop e w" for e
    using render_snoc(2) [of st w, symmetric] by simp
  with assms show ?thesis
    by (auto simp: complex_done_def path_result_def at_path_def option.map_comp comp_def)
qed

lemma path_end:
  assumes s: "in_segment st w s"
  shows "case last_segment st w of
      None \<Rightarrow> complex_end s = None \<and> complex_plain m p chr_question s = Stop (invalid_request, s) \<and>
        complex_plain m p chr_hash s = Stop (invalid_request, s)
    | Some (st', w') \<Rightarrow> \<exists>t. at_path st' w' t \<and> args_start t = None \<and> complex_end s = Some (complex_done t) \<and>
        complex_plain m p chr_question s = Stop (goto_args, t\<lparr>args_start := Some (p + 1)\<rparr>) \<and>
        complex_plain m p chr_hash s = Stop (goto_done, t)"
proof -
  consider "w = []" | "w = str ''.''" | "w = str ''..''" | "w \<notin> {[], str ''.'', str ''..''}" by blast
  then show ?thesis
  proof cases
    case 2
    have "butlast (render st w) = render st []" by (simp add: 2 render_def str_def butlast_append)
    with s 2 show ?thesis
      by (auto simp: complex_plain_defs complex_end_def in_segment_def at_path_def last_segment_def state_of_simps
          intro!: exI [of _ "s\<lparr>out := render st []\<rparr>"])
  next
    case 3
    with s parent_dir_render [of st] show ?thesis
      by (auto simp: complex_plain_defs complex_end_def in_segment_def at_path_def last_segment_def state_of_simps
          pop_segment_def intro!: exI [of _ "s\<lparr>out := render (butlast st) []\<rparr>"])
  qed (use s in \<open>auto simp: complex_plain_defs complex_end_def in_segment_def last_segment_def state_of_simps
        intro!: exI [of _ s]\<close>)
qed

text \<open>A quoted byte.\<close>

lemma uint_quoted:
  fixes x y :: u_char
  assumes "x < 16" "y < 16"
  shows "uint (push_bit 4 x + y) = 16 * uint x + uint y"
proof -
  have "uint x < 16" "uint y < 16" using assms by (simp_all add: word_less_def)
  then have "(16 * uint x + uint y) mod 256 = 16 * uint x + uint y" by (intro mod_pos_pos_trivial) auto
  moreover have "uint (word_of_int k :: u_char) = k mod 256" for k
    by (simp add: unsigned_of_int take_bit_eq_mod)
  moreover have "push_bit 4 x + y = word_of_int (16 * uint x + uint y)"
    unfolding push_bit_eq_mult by (simp add: wi_hom_syms)
  ultimately show ?thesis by metis
qed

lemma hex_digit_cases:
  assumes "hex_digit b = Some y"
  obtains (digit) "chr_0 \<le> b" "b \<le> chr_9" "y = b - chr_0" "y \<le> 9"
  | (letter) "\<not> (chr_0 \<le> b \<and> b \<le> chr_9)" "chr_a \<le> b OR 0x20" "b OR 0x20 \<le> chr_f"
      "y = (b OR 0x20) - chr_a + 10" "10 \<le> y"
proof (cases "chr_0 \<le> b \<and> b \<le> chr_9")
  case True
  then have "b - chr_0 \<le> 9" by unat_arith
  with True assms digit show ?thesis by (simp add: hex_digit_def)
next
  case False
  define c where "c = b OR 0x20"
  have c: "chr_a \<le> c" "c \<le> chr_f" "y = c - chr_a + 10"
    using assms False by (auto simp: hex_digit_def Let_def c_def split: if_splits)
  have "10 \<le> c - chr_a + 10" using c(1,2) by unat_arith
  with c False letter show ?thesis by (simp add: c_def)
qed

lemma quoted_special:
  fixes x y :: u_char
  assumes "x < 16" "y < 16"
  defines "v \<equiv> push_bit 4 x + y"
  shows "v = 0 \<longleftrightarrow> x = 0 \<and> y = 0" "v = chr_percent \<Longrightarrow> y = 5" "v = chr_hash \<Longrightarrow> y = 3"
    "v = chr_question \<Longrightarrow> y = 15"
proof -
  have b: "uint y < 16" "0 \<le> uint x" "0 \<le> uint y" using assms(2) by (simp_all add: word_less_def)
  have u: "uint v = 16 * uint x + uint y" unfolding v_def using assms(1,2) by (rule uint_quoted)
  have eq: "z = of_int k \<longleftrightarrow> uint z = k" if "0 \<le> k" "k < 256" for z :: u_char and k
    using that by (auto simp: word_uint_eq_iff uint_word_of_int)
  have "16 * i + j = 0 \<longleftrightarrow> i = 0 \<and> j = 0" if "0 \<le> i" "0 \<le> j" for i j :: int using that by auto
  then show "v = 0 \<longleftrightarrow> x = 0 \<and> y = 0"
    using eq [of 0 v] eq [of 0 x] eq [of 0 y] u b by simp
  have low: "uint y = uint v mod 16" using u b by simp
  show "v = chr_percent \<Longrightarrow> y = 5" "v = chr_hash \<Longrightarrow> y = 3" "v = chr_question \<Longrightarrow> y = 15"
    using eq [of 5 y] eq [of 3 y] eq [of 15 y] low by simp_all
qed

lemma complex_quoted_second_value:
  assumes b: "hex_digit b = Some y" and x: "decoded s < 16"
  defines "v \<equiv> push_bit 4 (decoded s) + y"
  shows "\<exists>plus. complex_quoted_second m p b s =
    (if decoded s = 0 \<and> y = 0 then Stop (invalid_request, s)
     else if v \<in> {chr_percent, chr_hash, chr_question} then put_usual v s
     else complex_plain m p v (s\<lparr>plus_in_uri := plus, cstate := quoted_state s\<rparr>))"
proof -
  note special = quoted_special [OF x hex_digit_bound [OF b], folded v_def]
  from b show ?thesis
  proof (cases rule: hex_digit_cases)
    case digit
    then have "v \<noteq> chr_question" using special(4) by auto
    moreover have "push_bit 4 (decoded s) + (b - chr_0) = v" by (simp add: v_def digit)
    ultimately show ?thesis using digit(1,2) special(1)
      by (intro exI [of _ "plus_in_uri s"]) (auto simp: complex_quoted_second_def)
  next
    case letter
    then have "v \<noteq> chr_percent" "v \<noteq> chr_hash" "y \<noteq> 0" using special(2,3) by auto
    moreover have e: "push_bit 4 (decoded s) + ((b OR 0x20) - chr_a) + 10 = v"
      by (simp add: v_def letter add.assoc)
    have "complex_quoted_second m p b s =
        (if v = chr_question then put_usual v s
         else complex_plain m p v ((if v = chr_plus then s\<lparr>plus_in_uri := True\<rparr> else s)
           \<lparr>cstate := quoted_state (if v = chr_plus then s\<lparr>plus_in_uri := True\<rparr> else s)\<rparr>))"
      by (simp only: complex_quoted_second_def Let_def letter(1-3) e simp_thms if_True if_False)
    ultimately show ?thesis
      by (intro exI [of _ "v = chr_plus \<or> plus_in_uri s"]) (cases "v = chr_plus"; simp)
  qed
qed

lemma in_segment_step: "in_segment st w s \<Longrightarrow> complex_step m s p c = complex_plain m p c s"
  by (auto simp: complex_step_def in_segment_def state_of_def)

lemma path_char:
  assumes "in_segment st w s" "c \<notin> {chr_percent, chr_question, chr_hash}"
  shows "case path_step m st w c of
      None \<Rightarrow> \<exists>t. complex_plain m p c s = Stop (invalid_request, t)
    | Some (st', w') \<Rightarrow> \<exists>t. complex_plain m p c s = Cont t \<and> in_segment st' w' t"
  using assms complex_plain_char [of st w s c m p] complex_plain_slash [of st w s m p]
  by (auto simp: path_step_def split: option.splits)

lemma path_quoted:
  assumes s: "in_segment st w s" and a: "hex_digit a = Some x" and b: "hex_digit b = Some y"
    and nz: "\<not> (x = 0 \<and> y = 0)"
  shows "case path_step m st w (push_bit 4 x + y) of
      None \<Rightarrow> \<exists>t. scan (complex_step m) s p (chr_percent # a # b # ds) = Stop (invalid_request, t)
    | Some (st', w') \<Rightarrow> \<exists>t. scan (complex_step m) s p (chr_percent # a # b # ds) =
        scan (complex_step m) t (Suc (p + 2)) ds \<and> in_segment st' w' t"
proof -
  let ?v = "push_bit 4 x + y"
  define s2 where "s2 = s\<lparr>quoted_state := cstate s, quoted_uri := True, decoded := x, cstate := sw_quoted_second\<rparr>"
  have fields: "decoded s2 = x" "cstate s2 = sw_quoted_second" by (simp_all add: s2_def)
  have percent: "complex_plain m p chr_percent s = start_quoted s"
    by (cases "cstate s") (simp_all add: complex_plain_defs)
  have two: "scan (complex_step m) s p (chr_percent # a # b # ds) =
      scan (complex_step m) s2 (p + 2) (b # ds)"
    using in_segment_step [OF s, of m p chr_percent] a
    by (simp add: percent start_quoted_def complex_step_def complex_quoted_def s2_def)
  have "decoded s2 < 16" using hex_digit_bound [OF a] by (simp add: s2_def)
  from complex_quoted_second_value [OF b this, of m "p + 2", unfolded fields if_not_P [OF nz]] obtain plus where
    "complex_quoted_second m (p + 2) b s2 =
      (if ?v \<in> {chr_percent, chr_hash, chr_question} then put_usual ?v s2
       else complex_plain m (p + 2) ?v (s2\<lparr>plus_in_uri := plus, cstate := quoted_state s2\<rparr>))"
    by blast
  then have third: "complex_step m s2 (p + 2) b =
      (if ?v \<in> {chr_percent, chr_hash, chr_question} then put_usual ?v s2
       else complex_plain m (p + 2) ?v (s2\<lparr>plus_in_uri := plus, cstate := quoted_state s2\<rparr>))"
    by (simp add: complex_step_def fields)
  have s3: "in_segment st w (s2\<lparr>plus_in_uri := plus, cstate := quoted_state s2\<rparr>)"
    using s by (simp add: in_segment_def at_path_def s2_def)
  show ?thesis
  proof (cases "?v \<in> {chr_percent, chr_hash, chr_question}")
    case True
    then have "?v \<noteq> chr_slash" "?v \<noteq> chr_dot" by auto
    with s have "in_segment st (w @ [?v]) (put ?v s2\<lparr>cstate := sw_usual\<rparr>)"
      by (auto simp: in_segment_def at_path_def put_def s2_def state_of_snoc extension_snoc render_snoc)
    with True two third \<open>?v \<noteq> chr_slash\<close> show ?thesis
      by (auto simp: path_step_def put_usual_def)
  next
    case False
    have "scan (complex_step m) s2 (p + 2) (b # ds) =
        (case complex_plain m (p + 2) ?v (s2\<lparr>plus_in_uri := plus, cstate := quoted_state s2\<rparr>) of
           Cont t \<Rightarrow> scan (complex_step m) t (Suc (p + 2)) ds | Stop r \<Rightarrow> Stop r)"
      using third False by (simp split: outcome.splits)
    moreover have "?v \<notin> {chr_percent, chr_question, chr_hash}" using False by auto
    from path_char [OF s3 this, of m "p + 2"]
    have "case path_step m st w ?v of
        None \<Rightarrow> \<exists>t. complex_plain m (p + 2) ?v (s2\<lparr>plus_in_uri := plus, cstate := quoted_state s2\<rparr>) = Stop (invalid_request, t)
      | Some (st', w') \<Rightarrow>
          \<exists>t. complex_plain m (p + 2) ?v (s2\<lparr>plus_in_uri := plus, cstate := quoted_state s2\<rparr>) = Cont t \<and> in_segment st' w' t" .
    ultimately show ?thesis unfolding two by (cases "path_step m st w ?v") auto
  qed
qed

lemma path_end_results:
  assumes s: "in_segment st w s" and p: "p < length u"
  shows "complex_end s = map_option (\<lambda>(st, w). path_result st w) (last_segment st w)"
    "complex_return u (complex_plain m p chr_hash s) =
       map_option (\<lambda>(st, w). path_result st w) (last_segment st w)"
    "complex_return u (complex_plain m p chr_question s) =
       map_option (\<lambda>(st, w). with_tail u (Args (drop (Suc p) u)) (path_result st w)) (last_segment st w)"
proof -
  have done_none: "complex_done t = path_result st' w'" if "at_path st' w' t" "args_start t = None" for st' w' t
    using complex_done_at_path [OF that(1)] that(2) by (simp add: path_result_def)
  have done_args: "complex_done (t\<lparr>args_start := Some q\<rparr>) = (path_result st' w')\<lparr>r_args_start := Some q\<rparr>"
    if "at_path st' w' t" for st' w' t q
    using complex_done_at_path [of st' w' "t\<lparr>args_start := Some q\<rparr>"] that by (simp add: at_path_def)
  show "complex_end s = map_option (\<lambda>(st, w). path_result st w) (last_segment st w)"
    using path_end [OF s, of m p] done_none by (auto split: option.splits)
  show "complex_return u (complex_plain m p chr_hash s) =
       map_option (\<lambda>(st, w). path_result st w) (last_segment st w)"
    using path_end [OF s, of m p] done_none by (auto simp: complex_return_def split: option.splits)
  show "complex_return u (complex_plain m p chr_question s) =
       map_option (\<lambda>(st, w). with_tail u (Args (drop (Suc p) u)) (path_result st w)) (last_segment st w)"
    using path_end [OF s, of m p] done_args p
    by (auto simp: complex_return_def complex_args_def path_result_def split: option.splits)
qed

text \<open>A malformed quote: no two hexadecimal digits, or \<^verbatim>\<open>%00\<close>.\<close>

definition good_quote :: "bytes \<Rightarrow> bool" where
  "good_quote cs \<longleftrightarrow>
     (\<exists>a b ds x y. cs = a # b # ds \<and> hex_digit a = Some x \<and> hex_digit b = Some y \<and> \<not> (x = 0 \<and> y = 0))"

lemma bad_second:
  assumes "cstate s = sw_quoted_second" "decoded s = x" "x < 16"
    and "\<And>y. hex_digit b = Some y \<Longrightarrow> x = 0 \<and> y = 0"
  shows "complex_step m s p b = Stop (invalid_request, s)"
proof (cases "hex_digit b")
  case None
  with assms(1) show ?thesis
    by (auto simp: complex_step_def complex_quoted_second_def hex_digit_def Let_def split: if_splits)
next
  case (Some y)
  with complex_quoted_second_value [OF Some, of s m p] assms show ?thesis by (auto simp: complex_step_def)
qed

lemma malformed_quote:
  assumes s: "in_segment st w s" and bad: "\<not> good_quote cs"
  shows "complex_return u (scan (complex_step m) s p (chr_percent # cs)) = None"
    "uri_decode (chr_percent # cs) = None"
proof -
  define s1 where "s1 = s\<lparr>quoted_state := cstate s, cstate := sw_quoted\<rparr>"
  have "complex_plain m p chr_percent s = Cont s1"
    by (cases "cstate s") (simp_all add: complex_plain_defs start_quoted_def s1_def)
  then have one: "scan (complex_step m) s p (chr_percent # cs) = scan (complex_step m) s1 (Suc p) cs"
    using in_segment_step [OF s] by simp
  have quoted: "complex_step m s1 (Suc p) a =
      (case hex_digit a of None \<Rightarrow> Stop (invalid_request, s1\<lparr>quoted_uri := True\<rparr>)
       | Some x \<Rightarrow> Cont (s1\<lparr>quoted_uri := True, decoded := x, cstate := sw_quoted_second\<rparr>))" for a
    by (simp add: complex_step_def complex_quoted_def s1_def split: option.splits)
  show "complex_return u (scan (complex_step m) s p (chr_percent # cs)) = None"
  proof (cases cs)
    case Nil
    then show ?thesis unfolding one by (simp add: complex_return_def complex_end_def s1_def)
  next
    case (Cons a cs')
    show ?thesis
    proof (cases "hex_digit a")
      case None
      with Cons quoted [of a] show ?thesis unfolding one by (simp add: complex_return_def)
    next
      case (Some x)
      let ?s2 = "s1\<lparr>quoted_uri := True, decoded := x, cstate := sw_quoted_second\<rparr>"
      have two: "scan (complex_step m) s p (chr_percent # cs) = scan (complex_step m) ?s2 (Suc (Suc p)) cs'"
        using one Cons quoted [of a] Some by simp
      show ?thesis
      proof (cases cs')
        case Nil
        then show ?thesis unfolding two by (simp add: complex_return_def complex_end_def)
      next
        case (Cons b ds)
        have "x = 0 \<and> y = 0" if "hex_digit b = Some y" for y
          using bad that Some \<open>cs = a # cs'\<close> Cons by (auto simp: good_quote_def)
        from bad_second [of ?s2 x b m "Suc (Suc p)", OF _ _ hex_digit_bound [OF Some] this] Cons
        show ?thesis unfolding two by (simp add: complex_return_def)
      qed
    qed
  qed
  show "uri_decode (chr_percent # cs) = None"
    using bad by (auto simp: good_quote_def split: list.splits option.splits)
qed

lemma complex_return_invalid [simp]: "complex_return u (Stop (invalid_request, t)) = None"
  by (simp add: complex_return_def)

lemma reference_Cons:
  "Option.bind (map_option (apfst (Cons c)) d) (\<lambda>(ds, tail). map_option (F tail) (path_run m st w ds)) =
     Option.bind (path_step m st w c) (\<lambda>(st, w).
       Option.bind d (\<lambda>(ds, tail). map_option (F tail) (path_run m st w ds)))"
  by (cases d; cases "path_step m st w c") (auto simp: path_run_simps)

lemma complex_scan_reference:
  "in_segment st w s \<Longrightarrow> drop p u = xs \<Longrightarrow> p \<le> length u \<Longrightarrow>
   complex_return u (scan (complex_step m) s p xs) =
     Option.bind (uri_decode xs) (\<lambda>(ds, tail).
       map_option (\<lambda>(st, w). with_tail u tail (path_result st w)) (path_run m st w ds))"
proof (induction xs arbitrary: st w s p rule: measure_induct_rule [where f = length])
  case (less xs)
  show ?case
  proof (cases xs)
    case Nil
    then show ?thesis
      using path_end_results(1) [OF less.prems(1), of 0 "[0]"] by (simp add: complex_return_def path_run_simps)
  next
    case (Cons c cs)
    have p: "p < length u" using less.prems(2) Cons by (auto simp: not_less intro: ccontr)
    have cs: "drop (Suc p) u = cs" using less.prems(2) Cons by (metis drop_Suc tl_drop list.sel(3))
    note step = in_segment_step [OF less.prems(1), of m p c]
    note ends = path_end [OF less.prems(1), of m p] path_end_results(2,3) [OF less.prems(1) p, of m]
    consider "c = chr_percent" "good_quote cs" | "c = chr_percent" "\<not> good_quote cs"
      | "c = chr_question" | "c = chr_hash" | "c \<notin> {chr_percent, chr_question, chr_hash}" by auto
    then show ?thesis
    proof cases
      case 1
      then obtain a b ds x y where q: "cs = a # b # ds" "hex_digit a = Some x" "hex_digit b = Some y"
        "\<not> (x = 0 \<and> y = 0)" unfolding good_quote_def by blast
      have "drop (Suc (p + 2)) u = drop 2 (drop (Suc p) u)" by (simp add: add.commute)
      then have ds: "drop (Suc (p + 2)) u = ds" using cs q(1) by simp
      have "length (drop (Suc p) u) = Suc (Suc (length ds))" using cs q(1) by simp
      then have len: "Suc (p + 2) \<le> length u" by simp
      from path_quoted [OF less.prems(1) q(2-4), of m p ds] less.IH [OF _ _ ds len] q Cons 1(1)
      show ?thesis by (auto simp: reference_Cons split: option.splits)
    next
      case 2
      from malformed_quote [OF less.prems(1) 2(2)] 2(1) Cons show ?thesis by simp
    next
      case 3
      with step ends cs Cons show ?thesis by (auto simp: path_run_simps split: option.splits)
    next
      case 4
      with step ends cs Cons show ?thesis by (auto simp: path_run_simps split: option.splits)
    next
      case 5
      from path_char [OF less.prems(1) 5, of m p] less.IH [of cs _ _ _ "Suc p"] cs p Cons 5 step
      show ?thesis by (auto simp: reference_Cons complex_return_def split: option.splits)
    qed
  qed
qed

subsection \<open>What the reference yields\<close>

definition dot_segment :: "bytes \<Rightarrow> bool" where
  "dot_segment w \<longleftrightarrow> w = str ''.'' \<or> w = str ''..''"

lemma segments_no_slash: "list_all no_slash (segments ds)"
proof (induction ds)
  case (Cons c ds)
  then show ?case by (cases "segments ds") (auto simp: no_slash_def)
qed simp

lemma segments_append_slash: "no_slash w \<Longrightarrow> segments (w @ chr_slash # ds) = w # segments ds"
  by (induction w) (auto simp: no_slash_def)

lemma segments_render:
  "list_all no_slash st \<Longrightarrow> no_slash w \<Longrightarrow> segments (render st w) = [] # st @ [w]"
proof (induction st)
  case Nil
  then have "segments w = [w]" by (induction w) (auto simp: no_slash_def)
  then show ?case by (simp add: render_def)
next
  case (Cons v st)
  then have "segments (v @ render st w) = v # st @ [w]"
    using segments_append_slash [of v "concat (map (Cons chr_slash) st) @ chr_slash # w"]
    by (cases st) (simp_all add: render_def segments_append_slash)
  then show ?case by (simp add: render_def)
qed

definition kept_segment :: "bool \<Rightarrow> bytes \<Rightarrow> bool" where
  "kept_segment merge_slashes w \<longleftrightarrow> no_slash w \<and> \<not> dot_segment w \<and> (merge_slashes \<longrightarrow> w \<noteq> [])"

lemma resolve_kept:
  "list_all (kept_segment m) st \<Longrightarrow> list_all no_slash ws \<Longrightarrow> resolve m st ws = Some (st', w) \<Longrightarrow>
   list_all (kept_segment m) st' \<and> no_slash w \<and> \<not> dot_segment w"
proof (induction m st ws rule: resolve.induct)
  case (2 m st w)
  then show ?case
    by (auto simp: last_segment_def pop_segment_def dot_segment_def list_all_butlast split: if_splits)
next
  case (3 m st v v' ws)
  from "3.prems"(3) obtain st1 where close: "close_segment m st v = Some st1"
    and rest: "resolve m st1 (v' # ws) = Some (st', w)"
    by (auto simp: bind_eq_Some_conv)
  have "kept_segment m v" if "v \<noteq> str ''.''" "v \<noteq> str ''..''" "m \<longrightarrow> v \<noteq> []"
    using that "3.prems"(2) by (simp add: kept_segment_def dot_segment_def)
  then have "list_all (kept_segment m) st1"
    using "3.prems"(1) close
    by (auto simp: close_segment_def pop_segment_def list_all_butlast split: if_splits)
  with "3.IH" [OF close _ _ rest] "3.prems"(2) show ?case by simp
qed (simp add: dot_segment_def)

lemma kept_no_slash: "list_all (kept_segment m) st \<Longrightarrow> list_all no_slash st"
  by (auto simp: list_all_iff kept_segment_def)

lemma uri_decode_slash:
  "uri_decode (chr_slash # cs) = map_option (apfst (Cons chr_slash)) (uri_decode cs)"
  by simp

lemma reference_normal:
  assumes "uri_reference m (chr_slash # cs) = Some res"
  obtains st w where "uri res = render st w" "segments (uri res) = [] # st @ [w]"
    "list_all (kept_segment m) st" "\<not> dot_segment w"
proof -
  from assms obtain ds tail st w where "resolve m [] (segments ds) = Some (st, w)"
    and res: "res = with_tail (chr_slash # cs) tail (path_result st w)"
    by (auto simp: uri_reference_def bind_eq_Some_conv)
  from resolve_kept [OF _ segments_no_slash this(1)] have
    kept: "list_all (kept_segment m) st" "no_slash w" "\<not> dot_segment w" by auto
  have "uri res = render st w" unfolding res by (cases tail) (auto simp: path_result_def)
  with kept segments_render [OF kept_no_slash [OF kept(1)] kept(2)] show ?thesis by (intro that) auto
qed

text \<open>The size of the output: the pass stops at the first question mark and never writes more than it has read.\<close>

lemma back_to_slash_length: "back_to_slash data n = Some data' \<Longrightarrow> length data' \<le> length data"
  by (induction data n rule: back_to_slash.induct) (auto split: if_splits)

lemma parent_dir_length: "parent_dir data = Some data' \<Longrightarrow> length data' \<le> length data"
  unfolding parent_dir_def by (rule back_to_slash_length)

definition out_bounded :: "nat \<Rightarrow> complex_uri \<Rightarrow> nat \<Rightarrow> bool" where
  "out_bounded e s p \<longleftrightarrow> length (out s) \<le> p + e"

definition stop_bounded :: "nat \<Rightarrow> complex_exit \<times> complex_uri \<Rightarrow> nat \<Rightarrow> bool" where
  "stop_bounded e res p \<longleftrightarrow> length (out (snd res)) \<le> p + e"

lemma complex_plain_bounded:
  assumes "length (out s) \<le> k"
  shows "case complex_plain m p c s of Cont t \<Rightarrow> length (out t) \<le> Suc k | Stop (x, t) \<Rightarrow> length (out t) \<le> k"
  using assms parent_dir_length [of "out s"]
  by (cases "cstate s") (auto simp: complex_plain_defs start_quoted_def Let_def split: option.splits)

interpretation cu: scan_contract "complex_step m" "out_bounded e" "stop_bounded e" for m e
proof
  have step: "case complex_step m s p c of Cont t \<Rightarrow> length (out t) \<le> Suc k | Stop (x, t) \<Rightarrow> length (out t) \<le> k"
    if "length (out s) \<le> k" for s p c k
  proof (cases "cstate s")
    case sw_quoted
    with that show ?thesis by (auto simp: complex_step_def complex_quoted_def Let_def split: option.splits)
  next
    case sw_quoted_second
    with that complex_plain_bounded show ?thesis
      by (simp add: complex_step_def complex_quoted_second_def put_usual_def put_def Let_def)
  qed (use that complex_plain_bounded in \<open>simp_all add: complex_step_def\<close>)
  show "out_bounded e s p \<Longrightarrow> complex_step m s p c = Cont s' \<Longrightarrow> out_bounded e s' (Suc p)" for s p c s'
    using step [of s "p + e" p c] by (simp add: out_bounded_def)
  show "out_bounded e s p \<Longrightarrow> complex_step m s p c = Stop r \<Longrightarrow> stop_bounded e r p" for s p c r
    using step [of s "p + e" p c] by (cases r) (simp add: out_bounded_def stop_bounded_def)
qed

lemma complex_step_question: "\<exists>r. complex_step m s p chr_question = Stop r"
  by (cases "cstate s")
    (auto simp: complex_step_def complex_plain_defs complex_quoted_def complex_quoted_second_def hex_digit_def Let_def
      split: option.splits)

lemma complex_return_bounded:
  assumes "case res of Cont s \<Rightarrow> length (out s) \<le> k | Stop (x, s) \<Rightarrow> length (out s) \<le> k"
  shows "pred_option (\<lambda>r. length (uri r) \<le> k) (complex_return u res)"
proof (cases res)
  case (Cont s)
  with assms parent_dir_length [of "out s"] show ?thesis
    by (cases "cstate s")
      (auto simp: complex_return_def complex_end_def complex_done_def pred_option_def dest: parent_dir_length)
next
  case (Stop xs)
  with assms show ?thesis
    by (cases xs; cases "fst xs") (auto simp: complex_return_def complex_args_def complex_done_def)
qed

lemma complex_uri_slash:
  "ngx_http_parse_complex_uri merge_slashes False (chr_slash # cs) = uri_reference merge_slashes (chr_slash # cs)"
proof -
  define s where "s = (complex_init False)\<lparr>cstate := sw_slash, out := [chr_slash]\<rparr>"
  have "complex_step merge_slashes (complex_init False) 0 chr_slash = Cont s"
    by (simp add: complex_step_def complex_init_def complex_plain_defs s_def)
  moreover have "in_segment [] [] s"
    by (simp add: in_segment_def at_path_def s_def complex_init_def render_def state_of_def)
  ultimately have "ngx_http_parse_complex_uri merge_slashes False (chr_slash # cs) =
      Option.bind (uri_decode cs) (\<lambda>(ds, tail).
        map_option (\<lambda>(st, w). with_tail (chr_slash # cs) tail (path_result st w)) (path_run merge_slashes [] [] ds))"
    using complex_scan_reference [of "[]" "[]" s 1 "chr_slash # cs" cs merge_slashes]
    by (simp add: ngx_http_parse_complex_uri_def)
  also have "\<dots> = uri_reference merge_slashes (chr_slash # cs)"
    by (simp add: uri_reference_def path_run_def Option.bind_map_option comp_def apfst_def map_prod_def
        case_prod_unfold cong: bind_option_cong)
  finally show ?thesis .
qed

lemma complex_uri_no_path:
  "ngx_http_parse_complex_uri merge_slashes True (chr_question # cs) =
     Some (with_tail (chr_question # cs) (Args cs) (path_result [] []))"
  by (simp add: ngx_http_parse_complex_uri_def complex_step_def complex_init_def complex_plain_defs
        complex_return_def complex_args_def complex_done_def path_result_def render_def)

text \<open>A path below the root without dot segments.\<close>

definition normal_path :: "bytes \<Rightarrow> bool" where
  "normal_path path \<longleftrightarrow> path \<noteq> [] \<and> hd path = chr_slash \<and> list_all (\<lambda>w. \<not> dot_segment w) (segments path)"

lemma render_hd: "render st w \<noteq> [] \<and> hd (render st w) = chr_slash"
  by (cases st) (simp_all add: render_def)

lemma uri_reference_normal_path:
  assumes "uri_reference m (chr_slash # cs) = Some res"
  shows "normal_path (uri res)"
proof -
  from reference_normal [OF assms] obtain st w where
    "uri res = render st w" "segments (uri res) = [] # st @ [w]" "list_all (kept_segment m) st" "\<not> dot_segment w" .
  with render_hd [of st w] show ?thesis
    by (auto simp: normal_path_def list_all_iff kept_segment_def dot_segment_def)
qed

subsection \<open>Properties\<close>

text \<open>
  Property C5: the pass over a URI that begins with a slash gives exactly the reference result:
  decoding, splitting into segments and resolving them, with the same extension, arguments and
  errors.  A URI without a path (a question mark right behind the host) has the path \<^verbatim>\<open>/\<close>.
\<close>

theorem complex_uri_reference:
  "ngx_http_parse_complex_uri merge_slashes False (chr_slash # cs) = uri_reference merge_slashes (chr_slash # cs) \<and>
   ngx_http_parse_complex_uri merge_slashes True (chr_question # cs) =
     Some (with_tail (chr_question # cs) (Args cs) (path_result [] []))"
  by (rule conjI [OF complex_uri_slash complex_uri_no_path])

text \<open>
  Property C6: no request path leaves the root.  Whatever the URI, encoded or not, the path the pass
  accepts begins with a slash, none of its segments is \<^verbatim>\<open>.\<close> or \<^verbatim>\<open>..\<close>, and with merging no segment but
  the last is empty.
\<close>

theorem complex_uri_no_dot_segments:
  "pred_option (\<lambda>res. \<exists>st w. uri res = render st w \<and> segments (uri res) = [] # st @ [w] \<and>
      list_all (\<lambda>v. \<not> dot_segment v) (segments (uri res)) \<and>
      (if merge_slashes then [] \<notin> set st else True))
    (ngx_http_parse_complex_uri merge_slashes False (chr_slash # cs))"
proof (cases "ngx_http_parse_complex_uri merge_slashes False (chr_slash # cs)")
  case (Some res)
  then have "uri_reference merge_slashes (chr_slash # cs) = Some res"
    by (simp add: complex_uri_slash)
  from reference_normal [OF this] obtain st w where "uri res = render st w" "segments (uri res) = [] # st @ [w]"
    "list_all (kept_segment merge_slashes) st" "\<not> dot_segment w" .
  with Some show ?thesis by (auto simp: list_all_iff kept_segment_def dot_segment_def)
qed simp

text \<open>
  The pass never writes more bytes than the caller has allocated: the part of the URI in
  front of the first question mark, and one more where the path is missing.
\<close>

theorem complex_uri_fits:
  "pred_option (\<lambda>res. length (uri res) \<le> length (takeWhile (\<lambda>c. c \<noteq> chr_question) u) + of_bool empty_path)
     (ngx_http_parse_complex_uri merge_slashes empty_path u)"
proof -
  let ?e = "of_bool empty_path :: nat"
  let ?pre = "takeWhile (\<lambda>c. c \<noteq> chr_question) u"
  let ?scan = "scan (complex_step merge_slashes) (complex_init empty_path) 0"
  have init: "out_bounded ?e (complex_init empty_path) 0"
    by (simp add: out_bounded_def complex_init_def)
  have "case ?scan u of Cont s \<Rightarrow> length (out s) \<le> length ?pre + ?e | Stop (x, s) \<Rightarrow> length (out s) \<le> length ?pre + ?e"
  proof (cases "?scan ?pre")
    case (Stop r)
    from cu.scan_Stop [OF init Stop] scan_Stop_prefix [OF Stop, of "dropWhile (\<lambda>c. c \<noteq> chr_question) u"]
    show ?thesis by (cases r) (auto simp: stop_bounded_def)
  next
    case (Cont s)
    note bound = cu.scan_Cont [OF init Cont]
    show ?thesis
    proof (cases "dropWhile (\<lambda>c. c \<noteq> chr_question) u")
      case Nil
      then have pre: "?pre = u" by (metis append_Nil2 takeWhile_dropWhile_id)
      from Cont bound show ?thesis unfolding pre by (simp add: out_bounded_def)
    next
      case (Cons c cs)
      then have c: "c = chr_question" using hd_dropWhile [of "\<lambda>c. c \<noteq> chr_question" u] by auto
      obtain r where r: "complex_step merge_slashes s (length ?pre) chr_question = Stop r"
        using complex_step_question by blast
      have "?scan (?pre @ c # cs) = Stop r" using Cont r c by (simp add: scan_append)
      then have "?scan u = Stop r" using Cons by (metis takeWhile_dropWhile_id)
      moreover have "stop_bounded ?e r (0 + length ?pre)" using bound r by (intro cu.step_Stop) simp_all
      ultimately show ?thesis by (cases r) (simp add: stop_bounded_def)
    qed
  qed
  then show ?thesis unfolding ngx_http_parse_complex_uri_def by (rule complex_return_bounded)
qed

end
