(* ===== verification/Ngx_Http_Request_Uri.thy ===== *)
theory Ngx_Http_Request_Uri
  imports Ngx_Http_Request_Line Ngx_Http_Complex_Uri
begin

text \<open>
  From the request line to the path that selects a location: \<^verbatim>\<open>ngx_http_process_request_uri\<close> of
  \<^verbatim>\<open>src/http/ngx_http_request.c\<close> (Unix build), which takes the URI as the parser delimited it, or runs the
  normalisation pass when the parser has seen something that needs it.  The lemmas show that the
  parser's flags are set whenever they must be, so that on both ways no accepted request has a path
  with dot segments.
\<close>

subsection \<open>The handler\<close>

definition slice :: "bytes \<Rightarrow> nat \<Rightarrow> nat \<Rightarrow> bytes" where
  "slice buf a b = take (b - a) (drop a buf)"

text \<open>The strings of the request after the call; \<open>None\<close> for those it does not set.\<close>

record request_uri =
  r_uri :: bytes
  r_unparsed_uri :: bytes
  r_exten :: "bytes option"
  r_args :: "bytes option"
  r_valid_unparsed_uri :: bool

text \<open>
  \<open>None\<close> is the answer 400.  The result of the pass replaces \<^verbatim>\<open>r->args_start\<close> (an index into the
  buffer again) and clears \<^verbatim>\<open>r->uri_ext\<close>.
\<close>

definition ngx_http_process_request_uri :: "bool \<Rightarrow> bytes \<Rightarrow> request_line \<Rightarrow> request_uri option" where
  "ngx_http_process_request_uri merge_slashes buf r =
     (let u = the (uri_start r); e = the (uri_end r);
          simple_len = (case request_line.args_start r of Some a \<Rightarrow> a - 1 - u | None \<Rightarrow> e - u);
          pass = ngx_http_parse_complex_uri merge_slashes (empty_path_in_uri r) (slice buf u e);
          found = (if complex_uri r \<or> request_line.quoted_uri r \<or> empty_path_in_uri r then
                     map_option (\<lambda>c. (uri c, None, exten c, args c, map_option ((+) u) (r_args_start c))) pass
                   else Some (take simple_len (drop u buf), request_line.uri_ext r, None, None,
                              request_line.args_start r))
      in case found of
           None \<Rightarrow> None
         | Some (path, ext, ex, ar, a_start) \<Rightarrow>
             Some \<lparr>r_uri = path, r_unparsed_uri = slice buf u e,
                   r_exten = (case ext of
                                Some x \<Rightarrow> Some (slice buf x (case a_start of Some a \<Rightarrow> a - 1 | None \<Rightarrow> e))
                              | None \<Rightarrow> ex),
                   r_args = (case a_start of
                               Some a \<Rightarrow> if e > a then Some (slice buf a e) else ar
                             | None \<Rightarrow> ar),
                   r_valid_unparsed_uri = \<not> empty_path_in_uri r\<rparr>)"

subsection \<open>Paths that need no normalisation\<close>

fun safe_path :: "bytes \<Rightarrow> bool" where
  "safe_path (a # b # cs) \<longleftrightarrow> \<not> (a = chr_slash \<and> (b = chr_dot \<or> b = chr_slash)) \<and> safe_path (b # cs)"
| "safe_path _ \<longleftrightarrow> True"

lemma safe_path_snoc:
  "safe_path (xs @ [c]) \<longleftrightarrow>
     safe_path xs \<and> (xs = [] \<or> \<not> (last xs = chr_slash \<and> (c = chr_dot \<or> c = chr_slash)))"
  by (induction xs rule: safe_path.induct) auto

definition no_dot_start :: "bytes \<Rightarrow> bool" where
  "no_dot_start w \<longleftrightarrow> w = [] \<or> hd w \<noteq> chr_dot"

lemma safe_path_segments:
  "safe_path (a # xs) \<Longrightarrow>
   list_all no_dot_start (tl (segments xs)) \<and> (a = chr_slash \<longrightarrow> no_dot_start (hd (segments xs)))"
proof (induction xs arbitrary: a)
  case (Cons x xs)
  obtain h t where "segments xs = h # t" by (cases "segments xs") auto
  with Cons.IH [of x] Cons.prems show ?case by (auto simp: no_dot_start_def)
qed (simp add: no_dot_start_def)

lemma safe_path_no_dot_segments:
  assumes "safe_path (chr_slash # xs)"
  shows "list_all (\<lambda>w. \<not> dot_segment w) (segments (chr_slash # xs))"
proof -
  obtain h t where "segments xs = h # t" by (cases "segments xs") auto
  moreover have "\<not> dot_segment w" if "no_dot_start w" for w
    using that by (auto simp: dot_segment_def no_dot_start_def str_def)
  ultimately show ?thesis
    using safe_path_segments [OF assms] by (auto simp: list_all_iff dot_segment_def)
qed

lemma slice_Suc: "a \<le> p \<Longrightarrow> p < length buf \<Longrightarrow> slice buf a (Suc p) = slice buf a p @ [buf ! p]"
  by (simp add: slice_def Suc_diff_le take_Suc_conv_app_nth)

lemma slice_first: "a < p \<Longrightarrow> p \<le> length buf \<Longrightarrow> slice buf a p = buf ! a # slice buf (Suc a) p"
proof -
  assume "a < p" "p \<le> length buf"
  then have "drop a buf = buf ! a # drop (Suc a) buf" "p - a = Suc (p - Suc a)" by (simp_all add: Cons_nth_drop_Suc)
  then show ?thesis by (simp add: slice_def)
qed

lemma last_slice: "a < p \<Longrightarrow> p \<le> length buf \<Longrightarrow> last (slice buf a p) = buf ! (p - 1)"
  by (simp add: slice_def last_conv_nth)

subsection \<open>What the parser knows of the bytes of the URI\<close>

text \<open>The path read so far, from \<open>u\<close> up to \<open>q\<close>, is safe unless a flag is set.\<close>

definition path_flagged :: "bytes \<Rightarrow> request_line \<Rightarrow> nat \<Rightarrow> nat \<Rightarrow> bool" where
  "path_flagged buf r u q \<longleftrightarrow> complex_uri r \<or> request_line.quoted_uri r \<or> safe_path (slice buf u q)"

definition no_uri :: "request_line \<Rightarrow> bool" where
  "no_uri r \<longleftrightarrow> request_line.args_start r = None \<and> \<not> empty_path_in_uri r"

definition schema_slash :: "bytes \<Rightarrow> request_line \<Rightarrow> nat \<Rightarrow> bool" where
  "schema_slash buf r p \<longleftrightarrow> no_uri r \<and> (\<exists>e. schema_end r = Some e \<and> e + 1 < p \<and> buf ! (e + 1) = chr_slash)"

definition path_open :: "bytes \<Rightarrow> request_line \<Rightarrow> nat \<Rightarrow> bool" where
  "path_open buf r p \<longleftrightarrow> no_uri r \<and>
     (\<exists>u. uri_start r = Some u \<and> u < p \<and> buf ! u = chr_slash \<and> path_flagged buf r u p)"

text \<open>The path is complete: it ends in front of the arguments, or at \<open>q\<close>.\<close>

definition path_closed :: "bytes \<Rightarrow> request_line \<Rightarrow> nat \<Rightarrow> bool" where
  "path_closed buf r q \<longleftrightarrow>
     (\<exists>u. uri_start r = Some u \<and> u < q \<and>
        (if empty_path_in_uri r then buf ! u = chr_question
         else buf ! u = chr_slash \<and>
           (case request_line.args_start r of
              Some a \<Rightarrow> u + 1 < a \<and> a \<le> q \<and> path_flagged buf r u (a - 1)
            | None \<Rightarrow> path_flagged buf r u q)))"

fun uri_known :: "request_line_state \<Rightarrow> bytes \<Rightarrow> request_line \<Rightarrow> nat \<Rightarrow> bool" where
  "uri_known sw_start buf r p = no_uri r"
| "uri_known sw_method buf r p = no_uri r"
| "uri_known sw_spaces_before_uri buf r p = no_uri r"
| "uri_known sw_schema buf r p = no_uri r"
| "uri_known sw_schema_slash buf r p = (no_uri r \<and> (\<exists>e. schema_end r = Some e \<and> p = e + 1))"
| "uri_known sw_schema_slash_slash buf r p = schema_slash buf r p"
| "uri_known sw_host_start buf r p = schema_slash buf r p"
| "uri_known sw_host buf r p = schema_slash buf r p"
| "uri_known sw_host_end buf r p = schema_slash buf r p"
| "uri_known sw_host_ip_literal buf r p = schema_slash buf r p"
| "uri_known sw_port buf r p = schema_slash buf r p"
| "uri_known sw_after_slash_in_uri buf r p = path_open buf r p"
| "uri_known sw_check_uri buf r p = (path_open buf r p \<and> buf ! (p - 1) \<noteq> chr_slash)"
| "uri_known sw_uri buf r p =
     (path_closed buf r p \<and> (request_line.args_start r = None \<longrightarrow> complex_uri r \<or> request_line.quoted_uri r))"
| "uri_known _ buf r p = (\<exists>e. uri_end r = Some e \<and> e \<le> p \<and> path_closed buf r e)"

lemmas uri_facts = no_uri_def schema_slash_def path_open_def path_closed_def path_flagged_def

definition uri_inv :: "bytes \<Rightarrow> request_line \<Rightarrow> nat \<Rightarrow> bool" where
  "uri_inv buf r p \<longleftrightarrow> uri_known (state r) buf r p"

definition uri_post :: "bytes \<Rightarrow> int \<times> request_line \<times> nat option \<Rightarrow> nat \<Rightarrow> bool" where
  "uri_post buf res p \<longleftrightarrow>
     (case res of (code, r, q) \<Rightarrow>
        code = NGX_OK \<longrightarrow> (\<exists>e. uri_end r = Some e \<and> e \<le> p \<and> path_closed buf r e))"

lemma safe_slice_step:
  assumes "safe_path (slice buf u p)" "u < p" "p < length buf"
    "\<not> (buf ! (p - 1) = chr_slash \<and> (buf ! p = chr_dot \<or> buf ! p = chr_slash))"
  shows "safe_path (slice buf u (Suc p))"
  using assms last_slice [of u p buf] by (auto simp: slice_Suc safe_path_snoc)

lemma slice_single: "p < length buf \<Longrightarrow> slice buf p (Suc p) = [buf ! p]"
  using slice_Suc [of p p buf] by (simp add: slice_def)

lemma uri_step_host:
  assumes "schema_slash buf r p" "p < length buf" "request_line_host_end p (buf ! p) r = Cont r'"
  shows "uri_inv buf r' (Suc p)"
proof -
  from assms(1) obtain e where e: "schema_end r = Some e" "e + 1 < p" "buf ! (e + 1) = chr_slash"
    and "no_uri r" by (auto simp: schema_slash_def)
  moreover have "slice buf (Suc e) (Suc (Suc e)) = [chr_slash]" using e assms(2) slice_single [of "Suc e" buf] by simp
  ultimately show ?thesis
    using assms(2,3) slice_single [of p buf]
    by (auto simp: request_line_host_end_def rl_fail_def move_to_def Let_def uri_inv_def uri_facts split: if_splits)
qed

lemma uri_step_early:
  assumes "uri_inv buf r p" "p < length buf" "request_line_step buf r p (buf ! p) = Cont r'"
    "state r \<in> {sw_start, sw_method, sw_spaces_before_uri, sw_schema, sw_schema_slash, sw_schema_slash_slash}"
  shows "uri_inv buf r' (Suc p)"
  using assms slice_single [of p buf]
  by (auto simp: rl_step_defs uri_inv_def uri_facts split: if_splits)

lemma schema_slash_more: "schema_slash buf r p \<Longrightarrow> schema_slash buf r (Suc p)"
  by (auto simp: schema_slash_def)

lemma schema_slash_upd [simp]:
  "schema_slash buf (r\<lparr>state := x\<rparr>) p = schema_slash buf r p"
  "schema_slash buf (r\<lparr>host_start := y\<rparr>) p = schema_slash buf r p"
  by (simp_all add: schema_slash_def no_uri_def)

lemma uri_step_host_char:
  assumes "schema_slash buf r p" "p < length buf" "request_line_host p (buf ! p) r = Cont r'"
  shows "uri_inv buf r' (Suc p)"
  using assms uri_step_host schema_slash_more
  by (auto simp: request_line_host_def move_to_def uri_inv_def split: if_splits)

lemma uri_step_port:
  assumes "schema_slash buf r p" "p < length buf" "request_line_port p (buf ! p) r = Cont r'"
  shows "uri_inv buf r' (Suc p)"
proof -
  from assms(1) obtain e where e: "schema_end r = Some e" "e + 1 < p" "buf ! (e + 1) = chr_slash"
    and "no_uri r" by (auto simp: schema_slash_def)
  moreover have "slice buf (Suc e) (Suc (Suc e)) = [chr_slash]" using e assms(2) slice_single [of "Suc e" buf] by simp
  ultimately show ?thesis
    using assms(2,3) slice_single [of p buf]
    by (auto simp: request_line_port_def rl_fail_def move_to_def Let_def uri_inv_def uri_facts split: if_splits)
qed

lemma uri_step_authority:
  assumes "uri_inv buf r p" "p < length buf" "request_line_step buf r p (buf ! p) = Cont r'"
    "state r \<in> {sw_host_start, sw_host, sw_host_end, sw_host_ip_literal, sw_port}"
  shows "uri_inv buf r' (Suc p)"
proof -
  have known: "schema_slash buf r p" using assms(1,4) by (auto simp: uri_inv_def)
  consider "state r = sw_host_start" | "state r = sw_host" | "state r = sw_host_end" | "state r = sw_host_ip_literal"
    | "state r = sw_port" using assms(4) by auto
  then show ?thesis
  proof cases
    case 1
    have "schema_slash buf (r\<lparr>host_start := Some p\<rparr>) p" using known by simp
    with uri_step_host_char [OF this assms(2), of r'] schema_slash_more [OF known] assms(3) 1 show ?thesis
      by (auto simp: request_line_step_def request_line_host_start_def move_to_def Let_def uri_inv_def split: if_splits)
  next
    case 2
    with uri_step_host_char [OF known assms(2)] assms(3) show ?thesis by (simp add: request_line_step_def)
  next
    case 3
    with uri_step_host [OF known assms(2)] assms(3) show ?thesis by (simp add: request_line_step_def)
  next
    case 4
    with schema_slash_more [OF known] assms(3) show ?thesis
      by (auto simp: request_line_step_def request_line_host_ip_literal_def move_to_def rl_fail_def uri_inv_def
          split: if_splits)
  next
    case 5
    with uri_step_port [OF known assms(2)] assms(3) show ?thesis by (simp add: request_line_step_def)
  qed
qed

text \<open>Inside the path.\<close>

lemma path_open_step:
  assumes "path_open buf r p" "p < length buf"
    "\<not> (buf ! (p - 1) = chr_slash \<and> (buf ! p = chr_dot \<or> buf ! p = chr_slash))"
  shows "path_open buf r (Suc p)"
  using assms safe_slice_step [of buf _ p] by (auto simp: path_open_def path_flagged_def)

lemma path_open_upd [simp]:
  "path_open buf (r\<lparr>state := x\<rparr>) p = path_open buf r p"
  "path_open buf (r\<lparr>request_line.plus_in_uri := y\<rparr>) p = path_open buf r p"
  "path_open buf (r\<lparr>request_line.uri_ext := z\<rparr>) p = path_open buf r p"
  by (simp_all add: path_open_def no_uri_def path_flagged_def)

lemma path_open_close:
  assumes "path_open buf r p" "request_line.args_start r = None" "\<not> empty_path_in_uri r"
  shows "path_closed buf r p"
  using assms by (auto simp: path_open_def path_closed_def)

lemma path_closed_upd [simp]:
  "path_closed buf (r\<lparr>state := x\<rparr>) q = path_closed buf r q"
  "path_closed buf (r\<lparr>uri_end := y\<rparr>) q = path_closed buf r q"
  "path_closed buf (r\<lparr>http_protocol_data := y\<rparr>) q = path_closed buf r q"
  "path_closed buf (r\<lparr>request_end := y\<rparr>) q = path_closed buf r q"
  "path_closed buf (r\<lparr>http_major := n\<rparr>) q = path_closed buf r q"
  "path_closed buf (r\<lparr>http_minor := n\<rparr>) q = path_closed buf r q"
  "path_closed buf (r\<lparr>http_version := n\<rparr>) q = path_closed buf r q"
  by (simp_all add: path_closed_def path_flagged_def cong: option.case_cong)

lemma path_open_flag:
  assumes "path_open buf r p"
  shows "path_closed buf (r\<lparr>complex_uri := True\<rparr>) (Suc p)" "path_closed buf (r\<lparr>request_line.quoted_uri := True\<rparr>) (Suc p)"
    "path_closed buf (r\<lparr>request_line.args_start := Some (Suc p)\<rparr>) (Suc p)" "path_closed buf r p"
  using assms by (auto simp: path_open_def path_closed_def path_flagged_def no_uri_def)

lemma path_closed_more:
  assumes "path_closed buf r p" "request_line.args_start r = None \<longrightarrow> complex_uri r \<or> request_line.quoted_uri r"
  shows "path_closed buf r (Suc p)" "path_closed buf (r\<lparr>complex_uri := True\<rparr>) (Suc p)"
  using assms by (auto simp: path_closed_def path_flagged_def split: option.splits)

lemma uri_step_path:
  assumes "uri_inv buf r p" "p < length buf" "request_line_step buf r p (buf ! p) = Cont r'"
    "state r \<in> {sw_after_slash_in_uri, sw_check_uri, sw_uri}"
  shows "uri_inv buf r' (Suc p)"
proof -
  consider "state r = sw_after_slash_in_uri" | "state r = sw_check_uri" | "state r = sw_uri" using assms(4) by auto
  then show ?thesis
  proof cases
    case 1
    then have opened: "path_open buf r p" using assms(1) by (simp add: uri_inv_def)
    have "path_open buf r (Suc p)" if "buf ! p \<noteq> chr_dot" "buf ! p \<noteq> chr_slash"
      using path_open_step [OF opened assms(2)] that by simp
    with 1 assms(3) path_open_flag [OF opened] usual_not [of "buf ! p"] show ?thesis
      by (auto simp: rl_step_defs uri_inv_def split: if_splits)
  next
    case 2
    then have opened: "path_open buf r p" and prev: "buf ! (p - 1) \<noteq> chr_slash" using assms(1) by (simp_all add: uri_inv_def)
    have "path_open buf r (Suc p)" using path_open_step [OF opened assms(2)] prev by simp
    with 2 assms(3) path_open_flag [OF opened] usual_not [of "buf ! p"] show ?thesis
      by (auto simp: rl_step_defs uri_inv_def split: if_splits)
  next
    case 3
    then have "path_closed buf r p" "request_line.args_start r = None \<longrightarrow> complex_uri r \<or> request_line.quoted_uri r"
      using assms(1) by (simp_all add: uri_inv_def)
    with 3 assms(3) path_closed_more [OF this] show ?thesis
      by (auto simp: rl_step_defs uri_inv_def split: if_splits)
  qed
qed

lemma uri_step_Cont:
  assumes "uri_inv buf r p" "p < length buf" "request_line_step buf r p (buf ! p) = Cont r'"
  shows "uri_inv buf r' (Suc p)"
proof (cases "state r \<in> {sw_start, sw_method, sw_spaces_before_uri, sw_schema, sw_schema_slash, sw_schema_slash_slash,
    sw_host_start, sw_host, sw_host_end, sw_host_ip_literal, sw_port, sw_after_slash_in_uri, sw_check_uri, sw_uri}")
  case True
  then show ?thesis
    using uri_step_early [OF assms] uri_step_authority [OF assms] uri_step_path [OF assms] by blast
next
  case False
  with assms(1,3) show ?thesis
    by (cases "state r") (auto simp: rl_step_defs uri_inv_def split: if_splits intro: le_SucI)
qed

lemma uri_step_Stop:
  assumes "uri_inv buf r p" "p < length buf" "request_line_step buf r p (buf ! p) = Stop res"
  shows "uri_post buf res p"
proof -
  have "path_open buf r p \<Longrightarrow> path_closed buf r p" by (rule path_open_flag)
  with assms(1,3) show ?thesis
    by (cases "state r") (auto simp: rl_step_defs uri_inv_def uri_post_def split: if_splits)
qed

interpretation uri: buffer_contract "request_line_step buf" "uri_inv buf" "uri_post buf" buf for buf
  by unfold_locales (auto intro: uri_step_Cont uri_step_Stop)

lemma accepted_path_closed:
  assumes "ngx_http_parse_request_line request_init buf 0 = (NGX_OK, r, pos)"
  obtains e where "uri_end r = Some e" "e < length buf" "path_closed buf r e"
proof -
  have "uri_inv buf request_init 0" by (simp add: uri_inv_def request_init_def no_uri_def)
  from uri.buffer_scan [OF this] assms show ?thesis
    by (auto simp: ngx_http_parse_request_line_def run_parser_def request_line_return_def uri_post_def intro: that
        split: outcome.splits prod.splits option.splits)
qed

lemma pass_normal_path:
  assumes "ngx_http_parse_complex_uri m e (c # cs) = Some res" "if e then c = chr_question else c = chr_slash"
  shows "normal_path (uri res)"
proof (cases e)
  case True
  with assms have "uri res = [chr_slash]" by (auto simp: complex_uri_no_path path_result_def render_def split: if_splits)
  then show ?thesis by (simp add: normal_path_def dot_segment_def)
next
  case False
  with assms show ?thesis by (intro uri_reference_normal_path) (simp add: complex_uri_slash)
qed

lemma safe_slice_normal:
  assumes "buf ! u = chr_slash" "safe_path (slice buf u q)" "u < q" "q \<le> length buf"
  shows "normal_path (slice buf u q)"
  using assms slice_first [of u q buf] safe_path_no_dot_segments [of "slice buf (Suc u) q"]
  by (simp add: normal_path_def del: segments.simps)

lemma closed_path_normal:
  assumes e: "uri_end r = Some e" "e \<le> length buf" "path_closed buf r e"
  shows "pred_option (\<lambda>q. normal_path (r_uri q)) (ngx_http_process_request_uri merge_slashes buf r)"
proof -
  from e(3) obtain u where u: "uri_start r = Some u" "u < e" by (auto simp: path_closed_def)
  have first: "slice buf u e = buf ! u # slice buf (Suc u) e" using u e by (simp add: slice_first)
  show ?thesis
  proof (cases "complex_uri r \<or> request_line.quoted_uri r \<or> empty_path_in_uri r")
    case True
    then have "ngx_http_process_request_uri merge_slashes buf r = None \<or>
        (\<exists>c q. ngx_http_parse_complex_uri merge_slashes (empty_path_in_uri r) (slice buf u e) = Some c \<and>
           ngx_http_process_request_uri merge_slashes buf r = Some q \<and> r_uri q = uri c)"
      by (cases "ngx_http_parse_complex_uri merge_slashes (empty_path_in_uri r) (slice buf u e)")
        (auto simp: ngx_http_process_request_uri_def u e)
    with e(3) u first pass_normal_path show ?thesis by (auto simp: path_closed_def split: if_splits)
  next
    case False
    then have closed: "buf ! u = chr_slash"
      "safe_path (slice buf u (case request_line.args_start r of Some a \<Rightarrow> a - 1 | None \<Rightarrow> e))"
      "case request_line.args_start r of Some a \<Rightarrow> u + 1 < a \<and> a \<le> e | None \<Rightarrow> True"
      using e(3) u by (auto simp: path_closed_def path_flagged_def split: option.splits)
    have "normal_path (slice buf u (case request_line.args_start r of Some a \<Rightarrow> a - 1 | None \<Rightarrow> e))"
      by (rule safe_slice_normal) (use closed u e in \<open>auto split: option.splits\<close>)
    with False show ?thesis
      by (auto simp: ngx_http_process_request_uri_def u e slice_def split: option.splits)
  qed
qed

subsection \<open>Properties\<close>

text \<open>
  Property C1: whatever bytes a client sends, when the request line is accepted and its URI is not
  answered with 400, the path that is used to select a location begins with a slash and has no \<^verbatim>\<open>.\<close>
  or \<^verbatim>\<open>..\<close> segment, whether or not the URI went through the normalisation.
\<close>

theorem request_path_normalised:
  assumes "ngx_http_parse_request_line request_init buf 0 = (NGX_OK, r, pos)"
  shows "pred_option (\<lambda>q. normal_path (r_uri q)) (ngx_http_process_request_uri merge_slashes buf r)"
proof -
  obtain e where "uri_end r = Some e" "e < length buf" "path_closed buf r e"
    using accepted_path_closed [OF assms] .
  then show ?thesis by (intro closed_path_normal) auto
qed

theorem request_path_normalised_witness:
  "\<exists>r. ngx_http_parse_request_line request_init (str ''GET /../'' @ [CR, LF]) 0 = (NGX_OK, r, 10) \<and>
     pred_option (\<lambda>q. normal_path (r_uri q)) (ngx_http_process_request_uri True (str ''GET /../'' @ [CR, LF]) r)"
proof -
  obtain r where r: "ngx_http_parse_request_line request_init (str ''GET /../'' @ [CR, LF]) 0 = (NGX_OK, r, 10)"
    by (simp add: ngx_http_parse_request_line_def run_parser_def request_line_return_def request_init_def str_def
        rl_step_defs is_method_char_def is_usual_def usual_def method_code_def)
  with request_path_normalised [OF r] show ?thesis by blast
qed

end
