(* ===== verification/Ngx_Http_Parse_Uri.thy ===== *)
theory Ngx_Http_Parse_Uri
  imports Ngx_Http_Request_Uri
begin

text \<open>
  \<^verbatim>\<open>ngx_http_parse_uri\<close> of \<^verbatim>\<open>src/http/ngx_http_parse.c\<close>: the check of a URI that did not come in a request
  line (the \<^verbatim>\<open>:path\<close> of HTTP/2 and HTTP/3).  It sets the same flags as the request line parser, and the
  lemmas show the same of them.
\<close>

datatype parse_uri_state = pu_start | pu_after_slash_in_uri | pu_check_uri | pu_uri

type_synonym pu_outcome = "(parse_uri_state \<times> request_line, request_line) outcome"

text \<open>A scan stops only to return \<^verbatim>\<open>NGX_ERROR\<close>; it starts at \<^verbatim>\<open>r->uri_start\<close>.\<close>

definition parse_uri_after_slash :: "nat \<Rightarrow> u_char \<Rightarrow> request_line \<Rightarrow> pu_outcome" where
  "parse_uri_after_slash p ch r =
     (if is_usual ch then Cont (pu_check_uri, r)
      else if ch = chr_dot then Cont (pu_uri, r\<lparr>complex_uri := True\<rparr>)
      else if ch = chr_percent then Cont (pu_uri, r\<lparr>request_line.quoted_uri := True\<rparr>)
      else if ch = chr_slash then Cont (pu_uri, r\<lparr>complex_uri := True\<rparr>)
      else if ch = chr_question then Cont (pu_uri, r\<lparr>request_line.args_start := Some (p + 1)\<rparr>)
      else if ch = chr_hash then Cont (pu_uri, r\<lparr>complex_uri := True\<rparr>)
      else if ch = chr_plus then Cont (pu_after_slash_in_uri, r\<lparr>request_line.plus_in_uri := True\<rparr>)
      else if ch \<le> 0x20 \<or> ch = 0x7f then Stop r
      else Cont (pu_check_uri, r))"

definition parse_uri_check :: "nat \<Rightarrow> u_char \<Rightarrow> request_line \<Rightarrow> pu_outcome" where
  "parse_uri_check p ch r =
     (if is_usual ch then Cont (pu_check_uri, r)
      else if ch = chr_slash then Cont (pu_after_slash_in_uri, r\<lparr>request_line.uri_ext := None\<rparr>)
      else if ch = chr_dot then Cont (pu_check_uri, r\<lparr>request_line.uri_ext := Some (p + 1)\<rparr>)
      else if ch = chr_percent then Cont (pu_uri, r\<lparr>request_line.quoted_uri := True\<rparr>)
      else if ch = chr_question then Cont (pu_uri, r\<lparr>request_line.args_start := Some (p + 1)\<rparr>)
      else if ch = chr_hash then Cont (pu_uri, r\<lparr>complex_uri := True\<rparr>)
      else if ch = chr_plus then Cont (pu_check_uri, r\<lparr>request_line.plus_in_uri := True\<rparr>)
      else if ch \<le> 0x20 \<or> ch = 0x7f then Stop r
      else Cont (pu_check_uri, r))"

definition parse_uri_rest :: "u_char \<Rightarrow> request_line \<Rightarrow> pu_outcome" where
  "parse_uri_rest ch r =
     (if is_usual ch then Cont (pu_uri, r)
      else if ch = chr_hash then Cont (pu_uri, r\<lparr>complex_uri := True\<rparr>)
      else if ch \<le> 0x20 \<or> ch = 0x7f then Stop r
      else Cont (pu_uri, r))"

definition parse_uri_step :: "parse_uri_state \<times> request_line \<Rightarrow> nat \<Rightarrow> u_char \<Rightarrow> pu_outcome" where
  "parse_uri_step sr p ch =
     (case sr of (st, r) \<Rightarrow>
      case st of
        pu_start \<Rightarrow> if ch \<noteq> chr_slash then Stop r else Cont (pu_after_slash_in_uri, r)
      | pu_after_slash_in_uri \<Rightarrow> parse_uri_after_slash p ch r
      | pu_check_uri \<Rightarrow> parse_uri_check p ch r
      | pu_uri \<Rightarrow> parse_uri_rest ch r)"

definition ngx_http_parse_uri :: "bytes \<Rightarrow> request_line \<Rightarrow> int \<times> request_line" where
  "ngx_http_parse_uri buf r =
     (let u = the (uri_start r); e = the (uri_end r) in
      case scan parse_uri_step (pu_start, r) u (slice buf u e) of
        Cont (st, r') \<Rightarrow> (NGX_OK, r')
      | Stop r' \<Rightarrow> (NGX_ERROR, r'))"

subsection \<open>What the check knows of the bytes\<close>

text \<open>The request with the whole of \<open>buf\<close> as its URI, before the check.\<close>

definition uri_request :: "bytes \<Rightarrow> request_line" where
  "uri_request buf = request_init\<lparr>uri_start := Some 0, uri_end := Some (length buf)\<rparr>"

definition pu_inv :: "bytes \<Rightarrow> parse_uri_state \<times> request_line \<Rightarrow> nat \<Rightarrow> bool" where
  "pu_inv buf sr p \<longleftrightarrow>
     (case sr of (st, r) \<Rightarrow> uri_end r = Some (length buf) \<and>
      (case st of
        pu_start \<Rightarrow> p = 0 \<and> no_uri r \<and> uri_start r = Some 0
      | pu_after_slash_in_uri \<Rightarrow> path_open buf r p
      | pu_check_uri \<Rightarrow> path_open buf r p \<and> buf ! (p - 1) \<noteq> chr_slash
      | pu_uri \<Rightarrow> path_closed buf r p \<and>
          (request_line.args_start r = None \<longrightarrow> complex_uri r \<or> request_line.quoted_uri r)))"

lemmas pu_step_defs = parse_uri_step_def parse_uri_after_slash_def parse_uri_check_def parse_uri_rest_def

lemma pu_step_Cont:
  assumes inv: "pu_inv buf (st, r) p" and p: "p < length buf" and step: "parse_uri_step (st, r) p (buf ! p) = Cont (st', r')"
  shows "pu_inv buf (st', r') (Suc p)"
proof (cases st)
  case pu_start
  with inv p step slice_single [OF p] show ?thesis
    by (auto simp: pu_inv_def parse_uri_step_def path_open_def path_flagged_def split: if_splits)
next
  case pu_after_slash_in_uri
  then have opened: "path_open buf r p" "uri_end r = Some (length buf)" using inv by (simp_all add: pu_inv_def)
  have "path_open buf r (Suc p)" if "buf ! p \<noteq> chr_dot" "buf ! p \<noteq> chr_slash"
    using path_open_step [OF opened(1) p] that by simp
  with pu_after_slash_in_uri step path_open_flag [OF opened(1)] opened(2) usual_not [of "buf ! p"] show ?thesis
    by (auto simp: pu_inv_def pu_step_defs split: if_splits)
next
  case pu_check_uri
  then have opened: "path_open buf r p" "buf ! (p - 1) \<noteq> chr_slash" "uri_end r = Some (length buf)"
    using inv by (simp_all add: pu_inv_def)
  have "path_open buf r (Suc p)" using path_open_step [OF opened(1) p] opened(2) by simp
  with pu_check_uri step path_open_flag [OF opened(1)] opened(3) usual_not [of "buf ! p"] show ?thesis
    by (auto simp: pu_inv_def pu_step_defs split: if_splits)
next
  case pu_uri
  then have closed: "path_closed buf r p" "request_line.args_start r = None \<longrightarrow> complex_uri r \<or> request_line.quoted_uri r"
    and "uri_end r = Some (length buf)"
    using inv by (simp_all add: pu_inv_def)
  with pu_uri step path_closed_more [OF closed] show ?thesis
    by (auto simp: pu_inv_def pu_step_defs split: if_splits)
qed

interpretation pu: buffer_contract parse_uri_step "pu_inv buf" "\<lambda>r p. True" buf for buf
  by unfold_locales (auto intro: pu_step_Cont)

lemma parse_uri_closed:
  assumes "ngx_http_parse_uri buf (uri_request buf) = (NGX_OK, r)" "buf \<noteq> []"
  shows "uri_end r = Some (length buf) \<and> path_closed buf r (length buf)"
proof -
  have "pu_inv buf (pu_start, uri_request buf) 0"
    by (simp add: pu_inv_def uri_request_def request_init_def no_uri_def)
  from pu.buffer_scan [OF this] assms obtain st where "pu_inv buf (st, r) (length buf)"
    by (auto simp: ngx_http_parse_uri_def uri_request_def slice_def split: outcome.splits prod.splits)
  with assms(2) path_open_flag(4) [of buf r "length buf"] show ?thesis
    by (cases st) (auto simp: pu_inv_def)
qed

subsection \<open>Properties\<close>

text \<open>
  A path that came without a request line and passed the check leads, like the one of a
  request line, to a path below the root without dot segments or to the answer 400.
\<close>

theorem parse_uri_path_normalised:
  assumes "ngx_http_parse_uri buf (uri_request buf) = (NGX_OK, r)" "buf \<noteq> []"
  shows "pred_option (\<lambda>q. normal_path (r_uri q)) (ngx_http_process_request_uri merge_slashes buf r)"
  using parse_uri_closed [OF assms] by (intro closed_path_normal) auto

theorem parse_uri_path_normalised_witness:
  "\<exists>r. ngx_http_parse_uri (str ''/a/%2e./b'') (uri_request (str ''/a/%2e./b'')) = (NGX_OK, r) \<and>
     pred_option (\<lambda>q. normal_path (r_uri q)) (ngx_http_process_request_uri True (str ''/a/%2e./b'') r)"
proof -
  obtain r where r: "ngx_http_parse_uri (str ''/a/%2e./b'') (uri_request (str ''/a/%2e./b'')) = (NGX_OK, r)"
    by (simp add: ngx_http_parse_uri_def uri_request_def request_init_def slice_def str_def pu_step_defs
        is_usual_def usual_def)
  moreover have "str ''/a/%2e./b'' \<noteq> []" by (simp add: str_def)
  ultimately show ?thesis using parse_uri_path_normalised [OF r] by blast
qed

end
