(* ===== verification/Ngx_Http_Status_Line.thy ===== *)
theory Ngx_Http_Status_Line
  imports Ngx_Prelude
begin

text \<open>
  The status line of an upstream response: \<^verbatim>\<open>ngx_http_parse_status_line\<close> of
  \<^verbatim>\<open>src/http/ngx_http_parse.c\<close>, one definition per state.  The lemmas show that it can be interrupted
  anywhere, that version and status code stay in the range of three digits, and what it records for
  a status line.
\<close>

subsection \<open>The parser\<close>

datatype status_line_state =
  sw_start | sw_H | sw_HT | sw_HTT | sw_HTTP | sw_first_major_digit | sw_major_digit
| sw_first_minor_digit | sw_minor_digit | sw_status | sw_space_after_status | sw_status_text
| sw_almost_done

text \<open>The fields of the request and of \<^verbatim>\<open>ngx_http_status_t\<close> the parser uses.\<close>

record status_line =
  state :: status_line_state
  http_major :: nat
  http_minor :: nat
  status_http_version :: nat
  code :: nat
  count :: nat
  start :: "nat option"
  status_end :: "nat option"

type_synonym sl_outcome = "(status_line, int \<times> status_line \<times> nat option) outcome"

definition move_to :: "status_line_state \<Rightarrow> status_line \<Rightarrow> sl_outcome" where
  "move_to st r = Cont (r\<lparr>state := st\<rparr>)"

definition sl_fail :: "status_line \<Rightarrow> sl_outcome" where
  "sl_fail r = Stop (NGX_ERROR, r, None)"

definition status_line_done :: "status_line \<Rightarrow> nat \<Rightarrow> sl_outcome" where
  "status_line_done r p =
     (let r = (if status_end r = None then r\<lparr>status_end := Some p\<rparr> else r) in
      Stop (NGX_OK, r\<lparr>status_http_version := http_major r * 1000 + http_minor r, state := sw_start\<rparr>, Some (Suc p)))"

text \<open>The five states that read \<^verbatim>\<open>HTTP/\<close>.\<close>

definition status_line_literal :: "u_char \<Rightarrow> status_line_state \<Rightarrow> u_char \<Rightarrow> status_line \<Rightarrow> sl_outcome" where
  "status_line_literal expected next ch r = (if ch = expected then move_to next r else sl_fail r)"

definition status_line_first_major_digit :: "u_char \<Rightarrow> status_line \<Rightarrow> sl_outcome" where
  "status_line_first_major_digit ch r =
     (if ch < 0x31 \<or> ch > chr_9 then sl_fail r
      else move_to sw_major_digit (r\<lparr>http_major := unat (ch - chr_0)\<rparr>))"

definition status_line_major_digit :: "u_char \<Rightarrow> status_line \<Rightarrow> sl_outcome" where
  "status_line_major_digit ch r =
     (if ch = chr_dot then move_to sw_first_minor_digit r
      else if ch < chr_0 \<or> ch > chr_9 then sl_fail r
      else if http_major r > 99 then sl_fail r
      else Cont (r\<lparr>http_major := http_major r * 10 + unat (ch - chr_0)\<rparr>))"

definition status_line_first_minor_digit :: "u_char \<Rightarrow> status_line \<Rightarrow> sl_outcome" where
  "status_line_first_minor_digit ch r =
     (if ch < chr_0 \<or> ch > chr_9 then sl_fail r
      else move_to sw_minor_digit (r\<lparr>http_minor := unat (ch - chr_0)\<rparr>))"

definition status_line_minor_digit :: "u_char \<Rightarrow> status_line \<Rightarrow> sl_outcome" where
  "status_line_minor_digit ch r =
     (if ch = chr_space then move_to sw_status r
      else if ch < chr_0 \<or> ch > chr_9 then sl_fail r
      else if http_minor r > 99 then sl_fail r
      else Cont (r\<lparr>http_minor := http_minor r * 10 + unat (ch - chr_0)\<rparr>))"

definition status_line_status :: "nat \<Rightarrow> u_char \<Rightarrow> status_line \<Rightarrow> sl_outcome" where
  "status_line_status p ch r =
     (if ch = chr_space then Cont r
      else if ch < chr_0 \<or> ch > chr_9 then sl_fail r
      else
        let r = r\<lparr>code := code r * 10 + unat (ch - chr_0), count := count r + 1\<rparr> in
        if count r = 3 then move_to sw_space_after_status (r\<lparr>start := Some (p - 2)\<rparr>) else Cont r)"

definition status_line_space_after_status :: "nat \<Rightarrow> u_char \<Rightarrow> status_line \<Rightarrow> sl_outcome" where
  "status_line_space_after_status p ch r =
     (if ch = chr_space then move_to sw_status_text r
      else if ch = chr_dot then move_to sw_status_text r
      else if ch = CR then move_to sw_almost_done r
      else if ch = LF then status_line_done r p
      else sl_fail r)"

definition status_line_status_text :: "nat \<Rightarrow> u_char \<Rightarrow> status_line \<Rightarrow> sl_outcome" where
  "status_line_status_text p ch r =
     (if ch = CR then move_to sw_almost_done r
      else if ch = LF then status_line_done r p
      else Cont r)"

definition status_line_almost_done :: "nat \<Rightarrow> u_char \<Rightarrow> status_line \<Rightarrow> sl_outcome" where
  "status_line_almost_done p ch r =
     (let r = r\<lparr>status_end := Some (p - 1)\<rparr> in
      if ch = LF then status_line_done r p else sl_fail r)"

definition status_line_step :: "status_line \<Rightarrow> nat \<Rightarrow> u_char \<Rightarrow> sl_outcome" where
  "status_line_step r p ch =
     (case state r of
        sw_start \<Rightarrow> status_line_literal 0x48 sw_H ch r
      | sw_H \<Rightarrow> status_line_literal 0x54 sw_HT ch r
      | sw_HT \<Rightarrow> status_line_literal 0x54 sw_HTT ch r
      | sw_HTT \<Rightarrow> status_line_literal 0x50 sw_HTTP ch r
      | sw_HTTP \<Rightarrow> status_line_literal chr_slash sw_first_major_digit ch r
      | sw_first_major_digit \<Rightarrow> status_line_first_major_digit ch r
      | sw_major_digit \<Rightarrow> status_line_major_digit ch r
      | sw_first_minor_digit \<Rightarrow> status_line_first_minor_digit ch r
      | sw_minor_digit \<Rightarrow> status_line_minor_digit ch r
      | sw_status \<Rightarrow> status_line_status p ch r
      | sw_space_after_status \<Rightarrow> status_line_space_after_status p ch r
      | sw_status_text \<Rightarrow> status_line_status_text p ch r
      | sw_almost_done \<Rightarrow> status_line_almost_done p ch r)"

text \<open>As in the request line, \<^verbatim>\<open>r->state\<close> is not stored on a refusal.\<close>

definition status_line_return ::
  "status_line \<Rightarrow> nat \<Rightarrow> int \<times> status_line \<times> nat option \<Rightarrow> int \<times> status_line \<times> nat" where
  "status_line_return r pos res =
     (case res of
        (rc, r', None) \<Rightarrow> (rc, r'\<lparr>state := state r\<rparr>, pos)
      | (rc, r', Some q) \<Rightarrow> (rc, r', q))"

definition ngx_http_parse_status_line :: "status_line \<Rightarrow> bytes \<Rightarrow> nat \<Rightarrow> int \<times> status_line \<times> nat" where
  "ngx_http_parse_status_line r buf pos = run_parser status_line_step status_line_return r buf pos"

text \<open>The state in front of a response: the request has been reset and the status zeroed.\<close>

definition status_init :: status_line where
  "status_init = \<lparr>state = sw_start, http_major = 0, http_minor = 0, status_http_version = 0, code = 0,
     count = 0, start = None, status_end = None\<rparr>"

lemmas sl_step_defs = status_line_step_def status_line_literal_def status_line_first_major_digit_def
  status_line_major_digit_def status_line_first_minor_digit_def status_line_minor_digit_def
  status_line_status_def status_line_space_after_status_def status_line_status_text_def
  status_line_almost_done_def status_line_done_def move_to_def sl_fail_def Let_def

subsection \<open>The invariant\<close>

definition numbers_ok :: "status_line \<Rightarrow> bool" where
  "numbers_ok r \<longleftrightarrow> http_major r \<le> 999 \<and> http_minor r \<le> 999 \<and> count r \<le> 3 \<and> code r < 10 ^ count r"

text \<open>How far each state is from the start of the line, at least, and where the status code begins.\<close>

definition status_read :: "status_line \<Rightarrow> nat \<Rightarrow> bool" where
  "status_read r p \<longleftrightarrow> count r = 3 \<and> (\<exists>s. start r = Some s \<and> 9 \<le> s \<and> s + 3 \<le> p)"

fun sl_state_inv :: "status_line_state \<Rightarrow> status_line \<Rightarrow> nat \<Rightarrow> bool" where
  "sl_state_inv sw_start r p = (count r = 0)"
| "sl_state_inv sw_H r p = (count r = 0 \<and> 1 \<le> p)"
| "sl_state_inv sw_HT r p = (count r = 0 \<and> 2 \<le> p)"
| "sl_state_inv sw_HTT r p = (count r = 0 \<and> 3 \<le> p)"
| "sl_state_inv sw_HTTP r p = (count r = 0 \<and> 4 \<le> p)"
| "sl_state_inv sw_first_major_digit r p = (count r = 0 \<and> 5 \<le> p)"
| "sl_state_inv sw_major_digit r p = (count r = 0 \<and> 6 \<le> p)"
| "sl_state_inv sw_first_minor_digit r p = (count r = 0 \<and> 7 \<le> p)"
| "sl_state_inv sw_minor_digit r p = (count r = 0 \<and> 8 \<le> p)"
| "sl_state_inv sw_status r p = (count r < 3 \<and> 9 + count r \<le> p)"
| "sl_state_inv sw_space_after_status r p = status_read r p"
| "sl_state_inv sw_status_text r p = status_read r p"
| "sl_state_inv sw_almost_done r p = (0 < p \<and> status_read r (p - 1))"

definition sl_inv :: "status_line \<Rightarrow> nat \<Rightarrow> bool" where
  "sl_inv r p \<longleftrightarrow> numbers_ok r \<and> sl_state_inv (state r) r p \<and> status_end r = None"

definition sl_post :: "int \<times> status_line \<times> nat option \<Rightarrow> nat \<Rightarrow> bool" where
  "sl_post res p \<longleftrightarrow>
     (case res of (rc, r, q) \<Rightarrow>
        numbers_ok r \<and>
        (rc = NGX_OK \<and> q = Some (Suc p) \<and> state r = sw_start \<and> status_read r p \<and>
           status_http_version r = http_major r * 1000 + http_minor r \<and>
           (\<exists>e. status_end r = Some e \<and> the (start r) + 3 \<le> e \<and> e \<le> p) \<or>
         rc = NGX_ERROR \<and> q = None))"

lemma digit_steps:
  fixes ch :: u_char
  assumes "\<not> chr_9 < ch"
  shows "\<not> ch < 0x31 \<Longrightarrow> unat (ch - chr_0) \<le> 999" "\<not> ch < chr_0 \<Longrightarrow> unat (ch - chr_0) \<le> 999"
    "\<not> ch < chr_0 \<Longrightarrow> m \<le> 99 \<Longrightarrow> m * 10 + unat (ch - chr_0) \<le> 999"
    "\<not> ch < chr_0 \<Longrightarrow> c < 100 \<Longrightarrow> c * 10 + unat (ch - chr_0) < 1000"
    "\<not> ch < chr_0 \<Longrightarrow> c < 10 ^ k \<Longrightarrow> c * 10 + unat (ch - chr_0) < 10 * 10 ^ k"
proof -
  have "\<not> ch < chr_0 \<Longrightarrow> unat (ch - chr_0) \<le> 9" "\<not> ch < 0x31 \<Longrightarrow> unat (ch - chr_0) \<le> 9"
    using assms by unat_arith+
  then show "\<not> ch < 0x31 \<Longrightarrow> unat (ch - chr_0) \<le> 999" "\<not> ch < chr_0 \<Longrightarrow> unat (ch - chr_0) \<le> 999"
    "\<not> ch < chr_0 \<Longrightarrow> m \<le> 99 \<Longrightarrow> m * 10 + unat (ch - chr_0) \<le> 999"
    "\<not> ch < chr_0 \<Longrightarrow> c < 100 \<Longrightarrow> c * 10 + unat (ch - chr_0) < 1000"
    "\<not> ch < chr_0 \<Longrightarrow> c < 10 ^ k \<Longrightarrow> c * 10 + unat (ch - chr_0) < 10 * 10 ^ k"
    by auto
qed

lemma sl_step_Cont:
  assumes "sl_inv r p" "status_line_step r p ch = Cont r'"
  shows "sl_inv r' (Suc p)"
  using assms
  by (cases "state r")
    (auto simp: sl_inv_def numbers_ok_def status_read_def sl_step_defs digit_steps split: if_splits)

lemma sl_step_Stop:
  assumes "sl_inv r p" "status_line_step r p ch = Stop res"
  shows "sl_post res p"
  using assms
  by (cases "state r")
    (auto simp: sl_inv_def sl_post_def numbers_ok_def status_read_def sl_step_defs split: if_splits)

interpretation sl: scan_contract status_line_step sl_inv sl_post
  by unfold_locales (auto intro: sl_step_Cont sl_step_Stop)

definition sl_clear :: "int \<Rightarrow> status_line \<Rightarrow> status_line" where
  "sl_clear rc r = (if rc = NGX_ERROR then r\<lparr>state := sw_start\<rparr> else r)"

definition sl_moves :: "int \<Rightarrow> bool" where
  "sl_moves rc \<longleftrightarrow> rc \<noteq> NGX_ERROR"

interpretation sl: resumable_parser "\<lambda>buf. status_line_step" sl_inv sl_post status_line_return sl_clear sl_moves
proof (rule resumable_parser.intro)
  show "scan_contract status_line_step sl_inv sl_post" by (rule sl.scan_contract_axioms)
  show "sl_post res p \<Longrightarrow> fst (status_line_return r pos res) \<noteq> NGX_AGAIN" for res p r pos
    by (auto simp: sl_post_def status_line_return_def split: prod.splits)
  show "sl_post res p \<Longrightarrow>
      same_result sl_clear sl_moves (status_line_return r pos res) (status_line_return r' pos' res)"
    for res p r pos r' pos'
    by (auto simp: sl_post_def status_line_return_def same_result_def sl_clear_def sl_moves_def split: prod.splits)
qed simp

lemma sl_inv_init: "sl_inv status_init p"
  by (simp add: sl_inv_def status_init_def numbers_ok_def)

subsection \<open>Properties\<close>

text \<open>
  A status line may arrive in any pieces; the code and everything the parser records are
  the same as if the bytes had arrived at once.
\<close>

theorem status_line_any_chunks:
  "same_result sl_clear sl_moves (ngx_http_parse_status_line status_init (concat cs) 0)
     (parse_chunks ngx_http_parse_status_line status_init [] 0 cs)"
  using sl.any_chunks [of status_init "[]" cs] sl_inv_init
  unfolding ngx_http_parse_status_line_def [abs_def] by simp

text \<open>
  The status line of a response with a version of one digit each, a code of three digits
  and any text is accepted with exactly these numbers, and the delimited text begins with the code
  and ends in front of the line end.
\<close>

theorem status_line_recorded:
  assumes "is_digit a" "is_digit b" "is_digit c" "list_all (\<lambda>x. x \<noteq> CR \<and> x \<noteq> LF) reason"
  shows "ngx_http_parse_status_line status_init
      (str ''HTTP/1.1 '' @ [a, b, c] @ chr_space # reason @ [CR, LF] @ rest) 0 =
    (NGX_OK,
     \<lparr>state = sw_start, http_major = 1, http_minor = 1, status_http_version = 1001,
      code = unat (a - chr_0) * 100 + unat (b - chr_0) * 10 + unat (c - chr_0), count = 3,
      start = Some 9, status_end = Some (13 + length reason)\<rparr>, 15 + length reason)"
proof -
  have run: "scan status_line_step r p reason = Cont r" if "state r = sw_status_text" for r p
    using assms(4) that
    by (induction reason arbitrary: p) (simp_all add: status_line_step_def status_line_status_text_def)
  have "a \<noteq> chr_space" "b \<noteq> chr_space" "c \<noteq> chr_space" using assms by (auto simp: is_digit_def)
  moreover have "\<not> (a < chr_0 \<or> chr_9 < a)" "\<not> (b < chr_0 \<or> chr_9 < b)" "\<not> (c < chr_0 \<or> chr_9 < c)"
    using assms(1-3) unfolding is_digit_iff .
  ultimately show ?thesis
    by (simp add: ngx_http_parse_status_line_def run_parser_def status_line_return_def status_init_def str_def
        scan_append run sl_step_defs)
qed

theorem status_line_recorded_witness:
  "is_digit 0x32 \<and> is_digit 0x30 \<and> list_all (\<lambda>x. x \<noteq> CR \<and> x \<noteq> LF) (str ''OK'') \<and>
   (case ngx_http_parse_status_line status_init
      (str ''HTTP/1.1 '' @ [0x32, 0x30, 0x30] @ chr_space # str ''OK'' @ [CR, LF] @ []) 0 of
      (rc, r, pos) \<Rightarrow> rc = NGX_OK \<and> code r = 200 \<and> start r = Some 9 \<and> status_end r = Some 15)"
proof -
  have h: "is_digit 0x32" "is_digit 0x30" "list_all (\<lambda>x. x \<noteq> CR \<and> x \<noteq> LF) (str ''OK'')"
    by (simp_all add: is_digit_def str_def)
  from status_line_recorded [OF h(1,2,2,3), of "[]"] h show ?thesis by (simp add: str_def)
qed

text \<open>
  On every input, the code has at most three digits, the version numbers stay below 1000
  (so they fit the 16-bit fields), the position stays in the buffer, and the text of an accepted line
  is delimited inside the bytes read.
\<close>

theorem status_line_bounds:
  "case ngx_http_parse_status_line status_init buf 0 of (rc, r, pos) \<Rightarrow>
     code r < 1000 \<and> http_major r < 1000 \<and> http_minor r < 1000 \<and> pos \<le> length buf \<and>
     (if rc = NGX_OK then \<exists>s e. start r = Some s \<and> status_end r = Some e \<and> s + 3 \<le> e \<and> e < pos else True)"
proof -
  have code: "code r < 1000" if "numbers_ok r" for r
    using that power_increasing [of "count r" 3 "10 :: nat"] by (simp add: numbers_ok_def)
  show ?thesis
  proof (cases "scan status_line_step status_init 0 buf")
    case (Cont s)
    with sl.scan_Cont [OF sl_inv_init Cont] code [of s] show ?thesis
      by (auto simp: ngx_http_parse_status_line_def run_parser_def sl_inv_def numbers_ok_def)
  next
    case (Stop res)
    obtain rc r q where res: "res = (rc, r, q)" by (cases res)
    from sl.scan_Stop [OF sl_inv_init Stop] obtain i where "i < length buf" "sl_post res i" by auto
    with Stop res code [of r] show ?thesis
      by (auto simp: ngx_http_parse_status_line_def run_parser_def status_line_return_def sl_post_def numbers_ok_def
          status_read_def)
  qed
qed

text \<open>
  Spaces are skipped between the digits of the code too, and the start of the code is
  taken to be two bytes in front of its last digit: for \<^verbatim>\<open>2 00\<close> the line is accepted with the code 200
  but its text is delimited from the space on, without the first digit.
\<close>

theorem status_line_spaced_code:
  "case ngx_http_parse_status_line status_init (str ''HTTP/1.1 2 00'' @ [LF]) 0 of
     (rc, r, pos) \<Rightarrow> rc = NGX_OK \<and> code r = 200 \<and> start r = Some 10"
  by (simp add: ngx_http_parse_status_line_def run_parser_def status_line_return_def status_init_def str_def sl_step_defs)

end
