(* ===== verification/Ngx_Http_Chunked.thy ===== *)
theory Ngx_Http_Chunked
  imports Ngx_Number
begin

text \<open>
  Request and response bodies in chunked transfer coding: the parser \<^verbatim>\<open>ngx_http_parse_chunked\<close>
  (\<^verbatim>\<open>src/http/ngx_http_parse.c\<close>), which reads everything between the data of the chunks, and the loop of the filter
  \<^verbatim>\<open>ngx_http_request_body_chunked_filter\<close> (\<^verbatim>\<open>src/http/ngx_http_request_body.c\<close>), which calls it on each buffer
  and takes the data out of the buffers.  The lemmas relate both to a machine that reads the body
  byte by byte: any division into buffers gives the same data, a body that was encoded in chunks is
  decoded, the promised number of missing bytes is a lower bound and no size overflows.
\<close>

subsection \<open>The parser\<close>

datatype chunked_state =
  sw_chunk_start | sw_chunk_size | sw_chunk_extension | sw_chunk_extension_almost_done | sw_chunk_data
| sw_after_data | sw_after_data_almost_done | sw_last_chunk_extension
| sw_last_chunk_extension_almost_done | sw_trailer | sw_trailer_almost_done | sw_trailer_header
| sw_trailer_header_almost_done

text \<open>\<^verbatim>\<open>ngx_http_chunked_t\<close>.\<close>

record chunked =
  cstate :: chunked_state
  csize :: int
  clength :: int

datatype chunked_exit = goto_data | goto_done | goto_invalid

type_synonym chunked_outcome = "(chunked, chunked_exit \<times> chunked \<times> nat) outcome"

definition move_to :: "chunked_state \<Rightarrow> chunked \<Rightarrow> chunked_outcome" where
  "move_to st s = Cont (s\<lparr>cstate := st\<rparr>)"

definition is_ext_char :: "u_char \<Rightarrow> bool" where
  "is_ext_char ch \<longleftrightarrow> ch = chr_semicolon \<or> ch = chr_space \<or> ch = chr_tab"

definition chunked_start :: "nat \<Rightarrow> u_char \<Rightarrow> chunked \<Rightarrow> chunked_outcome" where
  "chunked_start p ch s =
     (case hex_digit ch of
        Some d \<Rightarrow> move_to sw_chunk_size (s\<lparr>csize := uint d\<rparr>)
      | None \<Rightarrow> Stop (goto_invalid, s, p))"

definition chunked_size :: "nat \<Rightarrow> u_char \<Rightarrow> chunked \<Rightarrow> chunked_outcome" where
  "chunked_size p ch s =
     (if csize s > NGX_MAX_OFF_T_VALUE div 16 then Stop (goto_invalid, s, p)
      else case hex_digit ch of
        Some d \<Rightarrow> Cont (s\<lparr>csize := csize s * 16 + uint d\<rparr>)
      | None \<Rightarrow>
          if csize s = 0 then
            (if ch = CR then move_to sw_last_chunk_extension_almost_done s
             else if ch = LF then move_to sw_trailer s
             else if is_ext_char ch then move_to sw_last_chunk_extension s
             else Stop (goto_invalid, s, p))
          else
            (if ch = CR then move_to sw_chunk_extension_almost_done s
             else if ch = LF then move_to sw_chunk_data s
             else if is_ext_char ch then move_to sw_chunk_extension s
             else Stop (goto_invalid, s, p)))"

text \<open>The states that skip to the end of the line, and those that expect its LF.\<close>

definition chunked_skip :: "chunked_state \<Rightarrow> chunked_state \<Rightarrow> u_char \<Rightarrow> chunked \<Rightarrow> chunked_outcome" where
  "chunked_skip on_cr on_lf ch s =
     (if ch = CR then move_to on_cr s else if ch = LF then move_to on_lf s else Cont s)"

definition chunked_expect_lf :: "chunked_state \<Rightarrow> nat \<Rightarrow> u_char \<Rightarrow> chunked \<Rightarrow> chunked_outcome" where
  "chunked_expect_lf on_lf p ch s = (if ch = LF then move_to on_lf s else Stop (goto_invalid, s, p))"

definition chunked_after_data :: "nat \<Rightarrow> u_char \<Rightarrow> chunked \<Rightarrow> chunked_outcome" where
  "chunked_after_data p ch s =
     (if ch = CR then move_to sw_after_data_almost_done s
      else if ch = LF then move_to sw_chunk_start s
      else Stop (goto_invalid, s, p))"

definition chunked_trailer :: "nat \<Rightarrow> u_char \<Rightarrow> chunked \<Rightarrow> chunked_outcome" where
  "chunked_trailer p ch s =
     (if ch = CR then move_to sw_trailer_almost_done s
      else if ch = LF then Stop (goto_done, s, p)
      else move_to sw_trailer_header s)"

definition chunked_trailer_almost_done :: "nat \<Rightarrow> u_char \<Rightarrow> chunked \<Rightarrow> chunked_outcome" where
  "chunked_trailer_almost_done p ch s =
     (if ch = LF then Stop (goto_done, s, p) else Stop (goto_invalid, s, p))"

definition chunked_step :: "chunked \<Rightarrow> nat \<Rightarrow> u_char \<Rightarrow> chunked_outcome" where
  "chunked_step s p ch =
     (case cstate s of
        sw_chunk_start \<Rightarrow> chunked_start p ch s
      | sw_chunk_size \<Rightarrow> chunked_size p ch s
      | sw_chunk_extension \<Rightarrow> chunked_skip sw_chunk_extension_almost_done sw_chunk_data ch s
      | sw_chunk_extension_almost_done \<Rightarrow> chunked_expect_lf sw_chunk_data p ch s
      | sw_chunk_data \<Rightarrow> Stop (goto_data, s, p)
      | sw_after_data \<Rightarrow> chunked_after_data p ch s
      | sw_after_data_almost_done \<Rightarrow> chunked_expect_lf sw_chunk_start p ch s
      | sw_last_chunk_extension \<Rightarrow> chunked_skip sw_last_chunk_extension_almost_done sw_trailer ch s
      | sw_last_chunk_extension_almost_done \<Rightarrow> chunked_expect_lf sw_trailer p ch s
      | sw_trailer \<Rightarrow> chunked_trailer p ch s
      | sw_trailer_almost_done \<Rightarrow> chunked_trailer_almost_done p ch s
      | sw_trailer_header \<Rightarrow> chunked_skip sw_trailer_header_almost_done sw_trailer ch s
      | sw_trailer_header_almost_done \<Rightarrow> chunked_expect_lf sw_trailer p ch s)"

text \<open>The number of bytes that are missing at least.\<close>

fun chunked_length :: "chunked_state \<Rightarrow> int \<Rightarrow> int" where
  "chunked_length sw_chunk_start sz = 3"
| "chunked_length sw_chunk_size sz = 1 + (if sz \<noteq> 0 then sz + 4 else 1)"
| "chunked_length sw_chunk_extension sz = 1 + sz + 4"
| "chunked_length sw_chunk_extension_almost_done sz = 1 + sz + 4"
| "chunked_length sw_chunk_data sz = sz + 4"
| "chunked_length sw_after_data sz = 4"
| "chunked_length sw_after_data_almost_done sz = 4"
| "chunked_length sw_last_chunk_extension sz = 2"
| "chunked_length sw_last_chunk_extension_almost_done sz = 2"
| "chunked_length sw_trailer sz = 1"
| "chunked_length sw_trailer_almost_done sz = 1"
| "chunked_length sw_trailer_header sz = 2"
| "chunked_length sw_trailer_header_almost_done sz = 2"

definition chunked_data :: "int \<Rightarrow> chunked \<Rightarrow> nat \<Rightarrow> int \<times> chunked \<times> nat" where
  "chunked_data rc s pos =
     (if csize s > NGX_MAX_OFF_T_VALUE - 5 then (NGX_ERROR, s, pos)
      else (rc, s\<lparr>clength := chunked_length (cstate s) (csize s)\<rparr>, pos))"

definition chunked_resume :: "chunked \<Rightarrow> chunked" where
  "chunked_resume s = (if cstate s = sw_chunk_data \<and> csize s = 0 then s\<lparr>cstate := sw_after_data\<rparr> else s)"

definition ngx_http_parse_chunked :: "chunked \<Rightarrow> bytes \<Rightarrow> nat \<Rightarrow> int \<times> chunked \<times> nat" where
  "ngx_http_parse_chunked ctx buf pos =
     (case scan chunked_step (chunked_resume ctx) pos (drop pos buf) of
        Cont s \<Rightarrow> chunked_data NGX_AGAIN s (max pos (length buf))
      | Stop (goto_data, s, p) \<Rightarrow> chunked_data NGX_OK s p
      | Stop (goto_done, s, p) \<Rightarrow> (NGX_DONE, s\<lparr>cstate := sw_chunk_start\<rparr>, Suc p)
      | Stop (goto_invalid, s, p) \<Rightarrow> (NGX_ERROR, s\<lparr>cstate := cstate ctx\<rparr>, pos))"

subsection \<open>The filter\<close>

text \<open>
  The request body while it is read: the parser's context, the number of bytes received
  (\<^verbatim>\<open>r->headers_in.content_length_n\<close>), the contents of the buffers passed on, whether the local \<^verbatim>\<open>b\<close>
  is set (the last of them was made in this call for the same input buffer), and what is to be read
  next (\<^verbatim>\<open>rb->rest\<close>).
\<close>

record chunked_body =
  ctx :: chunked
  content_length :: int
  out_bufs :: "bytes list"
  b_set :: bool
  rb_rest :: int

datatype filter_result =
  Filter_again chunked_body nat | Filter_done chunked_body nat | Entity_too_large | Bad_request

definition append_last :: "bytes list \<Rightarrow> bytes \<Rightarrow> bytes list" where
  "append_last bufs xs = butlast bufs @ [last bufs @ xs]"

text \<open>A chunk has been parsed: take its data, as far as the buffer holds it.\<close>

definition take_chunk :: "bytes \<Rightarrow> nat \<Rightarrow> chunked_body \<Rightarrow> chunked_body \<times> nat" where
  "take_chunk buf pos rb =
     (let sz = csize (ctx rb); avail = int (length buf - pos) in
      if b_set rb \<and> sz \<le> 128 \<and> avail \<ge> sz then
        (rb\<lparr>content_length := content_length rb + sz,
            out_bufs := append_last (out_bufs rb) (take (nat sz) (drop pos buf)),
            ctx := (ctx rb)\<lparr>csize := 0\<rparr>\<rparr>, pos + nat sz)
      else if avail > sz then
        (rb\<lparr>content_length := content_length rb + sz,
            out_bufs := out_bufs rb @ [take (nat sz) (drop pos buf)], b_set := True,
            ctx := (ctx rb)\<lparr>csize := 0\<rparr>\<rparr>, pos + nat sz)
      else
        (rb\<lparr>content_length := content_length rb + avail,
            out_bufs := out_bufs rb @ [drop pos buf], b_set := True,
            ctx := (ctx rb)\<lparr>csize := sz - avail\<rparr>\<rparr>, length buf))"

text \<open>
  The loop over one buffer; \<open>max_size\<close> is \<^verbatim>\<open>client_max_body_size\<close>, \<open>hdr\<close> the size of a header buffer.
  The fuel bounds the number of calls of the parser.
\<close>

fun chunked_filter_loop :: "nat \<Rightarrow> int \<Rightarrow> int \<Rightarrow> bytes \<Rightarrow> nat \<Rightarrow> chunked_body \<Rightarrow> filter_result option" where
  "chunked_filter_loop 0 max_size hdr buf pos rb = None"
| "chunked_filter_loop (Suc fuel) max_size hdr buf pos rb =
     (case ngx_http_parse_chunked (ctx rb) buf pos of (rc, c, pos') \<Rightarrow>
        let rb = rb\<lparr>ctx := c\<rparr> in
        if rc = NGX_OK then
          (if max_size \<noteq> 0 \<and> max_size - content_length rb < csize c then Some Entity_too_large
           else case take_chunk buf pos' rb of (rb', pos'') \<Rightarrow>
             chunked_filter_loop fuel max_size hdr buf pos'' rb')
        else if rc = NGX_DONE then Some (Filter_done (rb\<lparr>rb_rest := 0\<rparr>) pos')
        else if rc = NGX_AGAIN then Some (Filter_again (rb\<lparr>rb_rest := max (clength c) hdr\<rparr>) pos')
        else Some Bad_request)"

text \<open>
  The inner loop of the filter on one buffer: \<^verbatim>\<open>b\<close> starts as \<^verbatim>\<open>NULL\<close>.  The C function has a chain of buffers and does this for
  each of them, also for the ones behind the end of the body; a chain is \<open>filter_calls\<close> below, which stops at the end
  of the body instead.  The exits for memory that cannot be allocated and the call of the next filter with the collected
  buffers are left out.
\<close>

definition ngx_http_request_body_chunked_filter ::
  "int \<Rightarrow> int \<Rightarrow> bytes \<Rightarrow> chunked_body \<Rightarrow> filter_result option" where
  "ngx_http_request_body_chunked_filter max_size hdr buf rb =
     chunked_filter_loop (Suc (length buf)) max_size hdr buf 0 (rb\<lparr>b_set := False\<rparr>)"

text \<open>The state in front of the first byte of the body.\<close>

definition chunked_body_init :: "int \<Rightarrow> chunked_body" where
  "chunked_body_init hdr =
     \<lparr>ctx = \<lparr>cstate = sw_chunk_start, csize = 0, clength = 0\<rparr>, content_length = 0, out_bufs = [],
      b_set = False, rb_rest = hdr\<rparr>"

subsection \<open>The body byte by byte\<close>

text \<open>
  The reference: outside the data of a chunk a byte is a step of the parser; inside it is passed on
  and counted.  The state is the context, with the count of missing bytes blanked, and the data so far.
\<close>

datatype body_exit = Body_done bytes nat | Body_too_large | Body_invalid

definition body_step ::
  "int \<Rightarrow> chunked \<times> bytes \<Rightarrow> nat \<Rightarrow> u_char \<Rightarrow> (chunked \<times> bytes, body_exit) outcome" where
  "body_step max_size so p ch =
     (case so of (s, dat) \<Rightarrow>
        if cstate s = sw_chunk_data then
          (if csize s > NGX_MAX_OFF_T_VALUE - 5 then Stop Body_invalid
           else if max_size \<noteq> 0 \<and> max_size - int (length dat) < csize s then Stop Body_too_large
           else Cont (chunked_resume (s\<lparr>csize := csize s - 1\<rparr>), dat @ [ch]))
        else case chunked_step s p ch of
          Cont s' \<Rightarrow> Cont (s', dat)
        | Stop (goto_done, s', q) \<Rightarrow> Stop (Body_done dat (Suc q))
        | Stop _ \<Rightarrow> Stop Body_invalid)"

lemma body_step_pair:
  "body_step max_size (s, dat) p ch =
     (if cstate s = sw_chunk_data then
        (if csize s > NGX_MAX_OFF_T_VALUE - 5 then Stop Body_invalid
         else if max_size \<noteq> 0 \<and> max_size - int (length dat) < csize s then Stop Body_too_large
         else Cont (chunked_resume (s\<lparr>csize := csize s - 1\<rparr>), dat @ [ch]))
      else case chunked_step s p ch of
        Cont s' \<Rightarrow> Cont (s', dat)
      | Stop (goto_done, s', q) \<Rightarrow> Stop (Body_done dat (Suc q))
      | Stop _ \<Rightarrow> Stop Body_invalid)"
  by (simp add: body_step_def)

definition blank :: "chunked \<Rightarrow> chunked" where
  "blank s = (chunked_resume s)\<lparr>clength := 0\<rparr>"

lemmas chunked_state_defs =
  chunked_start_def chunked_size_def chunked_skip_def chunked_expect_lf_def chunked_after_data_def
  chunked_trailer_def chunked_trailer_almost_done_def move_to_def

text \<open>What is known of the size in each state, between two bytes.\<close>

definition size_inv :: "chunked \<Rightarrow> bool" where
  "size_inv s \<longleftrightarrow>
     (case cstate s of
        sw_chunk_size \<Rightarrow> 0 \<le> csize s \<and> csize s \<le> NGX_MAX_OFF_T_VALUE
      | sw_chunk_extension \<Rightarrow> 0 < csize s \<and> csize s \<le> NGX_MAX_OFF_T_VALUE
      | sw_chunk_extension_almost_done \<Rightarrow> 0 < csize s \<and> csize s \<le> NGX_MAX_OFF_T_VALUE
      | sw_chunk_data \<Rightarrow> 0 < csize s \<and> csize s \<le> NGX_MAX_OFF_T_VALUE
      | _ \<Rightarrow> csize s = 0)"

definition chunked_post :: "chunked_exit \<times> chunked \<times> nat \<Rightarrow> nat \<Rightarrow> bool" where
  "chunked_post res p \<longleftrightarrow>
     (case res of (x, s, q) \<Rightarrow> q = p \<and> (x = goto_data \<longrightarrow> cstate s = sw_chunk_data \<and> size_inv s))"

lemma hex_size_bounds:
  assumes "hex_digit ch = Some d"
  shows "0 \<le> uint d" "uint d \<le> 15" "uint d \<le> NGX_MAX_OFF_T_VALUE"
    "z \<le> NGX_MAX_OFF_T_VALUE div 16 \<Longrightarrow> z * 16 + uint d \<le> NGX_MAX_OFF_T_VALUE"
  using hex_digit_bound [OF assms] by (simp_all add: word_less_def NGX_MAX_OFF_T_VALUE_def)

lemma chunked_step_Cont:
  assumes "size_inv s" "chunked_step s p ch = Cont s'"
  shows "size_inv s'"
  using assms hex_size_bounds [of ch]
  by (cases "cstate s")
    (auto simp: size_inv_def chunked_step_def chunked_state_defs split: if_splits option.splits)

lemma chunked_step_Stop:
  assumes "size_inv s" "chunked_step s p ch = Stop res"
  shows "chunked_post res p"
  using assms
  by (cases "cstate s")
    (auto simp: chunked_post_def chunked_step_def chunked_state_defs split: if_splits option.splits)

interpretation ck: scan_contract chunked_step "\<lambda>s p. size_inv s" chunked_post
  by unfold_locales (auto intro: chunked_step_Cont chunked_step_Stop)

lemma chunked_step_blank:
  "chunked_step (s\<lparr>clength := n\<rparr>) p ch =
     map_outcome (\<lambda>s. s\<lparr>clength := n\<rparr>) (\<lambda>(x, s, q). (x, s\<lparr>clength := n\<rparr>, q)) (chunked_step s p ch)"
  by (cases "cstate s") (auto simp: chunked_step_def chunked_state_defs split: option.splits)

lemma size_inv_simps [simp]: "size_inv (s\<lparr>clength := n\<rparr>) = size_inv s"
  by (cases "cstate s") (simp_all add: size_inv_def)

text \<open>The parser and the reference up to the next data.\<close>

lemma scan_to_data:
  assumes "size_inv s"
  shows "case scan chunked_step s p xs of
      Cont s' \<Rightarrow> scan (body_step mx) (s\<lparr>clength := 0\<rparr>, dat) p xs = Cont (s'\<lparr>clength := 0\<rparr>, dat)
    | Stop (goto_data, s', q) \<Rightarrow> p \<le> q \<and> q < p + length xs \<and> cstate s' = sw_chunk_data \<and> size_inv s' \<and>
        scan (body_step mx) (s\<lparr>clength := 0\<rparr>, dat) p xs =
          scan (body_step mx) (s'\<lparr>clength := 0\<rparr>, dat) q (drop (q - p) xs)
    | Stop (goto_done, s', q) \<Rightarrow> scan (body_step mx) (s\<lparr>clength := 0\<rparr>, dat) p xs = Stop (Body_done dat (Suc q))
    | Stop (goto_invalid, s', q) \<Rightarrow> scan (body_step mx) (s\<lparr>clength := 0\<rparr>, dat) p xs = Stop Body_invalid"
  using assms
proof (induction xs arbitrary: s p)
  case (Cons c xs)
  show ?case
  proof (cases "cstate s = sw_chunk_data")
    case True
    with Cons.prems show ?thesis by (simp add: chunked_step_def)
  next
    case False
    show ?thesis
    proof (cases "chunked_step s p c")
      case (Cont s')
      with Cons.IH [of s' "Suc p"] chunked_step_Cont [OF Cons.prems Cont] chunked_step_blank [of 0 s p c] False
      show ?thesis
        by (auto simp: body_step_pair drop_Cons' split: outcome.splits prod.splits chunked_exit.splits)
    next
      case (Stop res)
      obtain x s' q where res: "res = (x, s', q)" by (cases res)
      have "x \<noteq> goto_data"
        using False Stop res by (cases "cstate s") (auto simp: chunked_step_def chunked_state_defs split: option.splits if_splits)
      with Stop chunked_step_blank [of 0 s p c] False res chunked_step_Stop [OF Cons.prems Stop] show ?thesis
        by (cases x) (auto simp: body_step_pair)
    qed
  qed
qed simp

text \<open>Inside the data.\<close>

lemma scan_data:
  assumes "cstate s = sw_chunk_data" "int (length xs) \<le> csize s" "0 < csize s" "csize s \<le> NGX_MAX_OFF_T_VALUE - 5"
    "\<not> (mx \<noteq> 0 \<and> mx - int (length dat) < csize s)"
  shows "scan (body_step mx) (s, dat) p xs = Cont (chunked_resume (s\<lparr>csize := csize s - int (length xs)\<rparr>), dat @ xs)"
  using assms
proof (induction xs arbitrary: s p dat)
  case Nil
  then show ?case by (simp add: chunked_resume_def)
next
  case (Cons c xs)
  let ?s = "s\<lparr>csize := csize s - 1\<rparr>"
  have step: "body_step mx (s, dat) p c = Cont (chunked_resume ?s, dat @ [c])"
    using Cons.prems by (simp add: body_step_pair)
  show ?case
  proof (cases xs)
    case Nil
    with step show ?thesis by simp
  next
    case (Cons d ys)
    with \<open>int (length (c # xs)) \<le> csize s\<close> have "csize ?s > 0" by simp
    then have "chunked_resume ?s = ?s" by (simp add: chunked_resume_def)
    with Cons.IH [of ?s "dat @ [c]" "Suc p"] Cons.prems step \<open>csize ?s > 0\<close> show ?thesis by (simp add: diff_diff_eq)
  qed
qed

subsection \<open>The filter refines the byte machine\<close>

definition chunk_data_of :: "chunked_body \<Rightarrow> bytes" where
  "chunk_data_of rb = concat (out_bufs rb)"

definition body_ok :: "chunked_body \<Rightarrow> bool" where
  "body_ok rb \<longleftrightarrow>
     size_inv (chunked_resume (ctx rb)) \<and> content_length rb = int (length (chunk_data_of rb)) \<and>
     (b_set rb \<longrightarrow> out_bufs rb \<noteq> [])"

text \<open>A size that no body can have; the parser notices it at the latest at the first byte of data.\<close>

definition doomed :: "chunked \<Rightarrow> bool" where
  "doomed s \<longleftrightarrow> size_inv s \<and> csize s > NGX_MAX_OFF_T_VALUE - 5"

lemma doomed_step:
  assumes "doomed s"
  shows "body_step mx (s, dat) p c = Stop Body_invalid \<or> (\<exists>s'. body_step mx (s, dat) p c = Cont (s', dat) \<and> doomed s')"
  using assms
  by (cases "cstate s")
    (auto simp: doomed_def size_inv_def body_step_pair chunked_step_def chunked_state_defs NGX_MAX_OFF_T_VALUE_def
      split: option.splits)

definition doomed_outcome :: "(chunked \<times> bytes, body_exit) outcome \<Rightarrow> bool" where
  "doomed_outcome res \<longleftrightarrow>
     (case res of Stop x \<Rightarrow> x = Body_invalid | Cont (s, dat) \<Rightarrow> doomed s)"

lemma doomed_scan: "doomed s \<Longrightarrow> doomed_outcome (scan (body_step mx) (s, dat) p xs)"
proof (induction xs arbitrary: s p)
  case (Cons c xs)
  from doomed_step [OF Cons.prems, of mx dat p c] Cons.IH show ?case
    by (auto simp: doomed_outcome_def)
qed (simp add: doomed_outcome_def)

fun filter_agrees :: "nat \<Rightarrow> filter_result \<Rightarrow> (chunked \<times> bytes, body_exit) outcome \<Rightarrow> bool" where
  "filter_agrees n (Filter_again rb pos) res \<longleftrightarrow>
     res = Cont (blank (ctx rb), chunk_data_of rb) \<and> body_ok rb \<and> pos = n"
| "filter_agrees n (Filter_done rb pos) res \<longleftrightarrow>
     res = Stop (Body_done (chunk_data_of rb) pos) \<and> content_length rb = int (length (chunk_data_of rb))"
| "filter_agrees n Entity_too_large res \<longleftrightarrow> res = Stop Body_too_large"
| "filter_agrees n Bad_request res \<longleftrightarrow> doomed_outcome res"

lemma size_inv_resumed: "size_inv s \<Longrightarrow> chunked_resume s = s"
  by (auto simp: size_inv_def chunked_resume_def)

lemma concat_append_last: "bufs \<noteq> [] \<Longrightarrow> concat (butlast bufs) @ last bufs @ xs = concat bufs @ xs"
  by (cases bufs rule: rev_cases) simp_all

lemma take_chunk_fields:
  assumes take: "take_chunk buf pos rb = (rb', pos')" and sz: "0 < csize (ctx rb)" and pos: "pos < length buf"
    and b: "b_set rb \<longrightarrow> out_bufs rb \<noteq> []"
  defines "k \<equiv> min (nat (csize (ctx rb))) (length buf - pos)"
  shows "pos' = pos + k \<and> chunk_data_of rb' = chunk_data_of rb @ take k (drop pos buf) \<and>
    ctx rb' = (ctx rb)\<lparr>csize := csize (ctx rb) - int k\<rparr> \<and> content_length rb' = content_length rb + int k \<and>
    out_bufs rb' \<noteq> []"
proof (cases "csize (ctx rb) \<le> int (length buf - pos)")
  case True
  then have k: "k = nat (csize (ctx rb))" "int (nat (csize (ctx rb))) = csize (ctx rb)" using sz by (simp_all add: k_def)
  have full: "take k (drop pos buf) = drop pos buf" "pos + k = length buf" if "\<not> csize (ctx rb) < int (length buf - pos)"
    using that True k pos by simp_all
  from True k take b full show ?thesis
    by (auto simp: take_chunk_def Let_def chunk_data_of_def append_last_def concat_append_last split: if_splits)
next
  case False
  then have k: "k = length buf - pos" by (simp add: k_def)
  from False k take pos show ?thesis by (auto simp: take_chunk_def Let_def chunk_data_of_def)
qed

lemma take_chunk_scan:
  assumes ok: "body_ok rb" and st: "cstate (ctx rb) = sw_chunk_data" "size_inv (ctx rb)"
    and sz: "csize (ctx rb) \<le> NGX_MAX_OFF_T_VALUE - 5"
    and mx: "\<not> (mx \<noteq> 0 \<and> mx - content_length rb < csize (ctx rb))"
    and pos: "pos < length buf" and take: "take_chunk buf pos rb = (rb', pos')"
  shows "pos < pos' \<and> pos' \<le> length buf \<and> body_ok rb' \<and>
    scan (body_step mx) ((ctx rb)\<lparr>clength := 0\<rparr>, chunk_data_of rb) pos (drop pos buf) =
      scan (body_step mx) (blank (ctx rb'), chunk_data_of rb') pos' (drop pos' buf)"
proof -
  let ?s = "(ctx rb)\<lparr>clength := 0\<rparr>"
  define k where "k = min (nat (csize (ctx rb))) (length buf - pos)"
  define xs where "xs = take k (drop pos buf)"
  have size_pos: "0 < csize (ctx rb)" using st by (simp add: size_inv_def)
  have k: "0 < k" "k \<le> length buf - pos" "int k \<le> csize (ctx rb)" "length xs = k"
    using size_pos pos by (auto simp: k_def xs_def)
  have rb': "pos' = pos + k" "chunk_data_of rb' = chunk_data_of rb @ xs" "ctx rb' = (ctx rb)\<lparr>csize := csize (ctx rb) - int k\<rparr>"
      "content_length rb' = content_length rb + int k" "out_bufs rb' \<noteq> []"
    using take_chunk_fields [OF take size_pos pos] ok unfolding k_def [symmetric] xs_def [symmetric]
    by (simp_all add: body_ok_def)
  have "scan (body_step mx) (?s, chunk_data_of rb) pos xs =
      Cont (chunked_resume (?s\<lparr>csize := csize ?s - int (length xs)\<rparr>), chunk_data_of rb @ xs)"
    by (rule scan_data) (use ok st sz mx k size_pos in \<open>auto simp: body_ok_def\<close>)
  then have run: "scan (body_step mx) (?s, chunk_data_of rb) pos xs = Cont (blank (ctx rb'), chunk_data_of rb')"
    using k(4) by (simp add: rb' blank_def chunked_resume_def)
  have "drop pos buf = xs @ drop pos' buf" by (metis xs_def rb'(1) append_take_drop_id drop_drop add.commute)
  with run k(4) have "scan (body_step mx) (?s, chunk_data_of rb) pos (drop pos buf) =
      scan (body_step mx) (blank (ctx rb'), chunk_data_of rb') pos' (drop pos' buf)"
    by (simp add: scan_append rb'(1))
  moreover have "size_inv (chunked_resume (ctx rb'))"
    using st k(3) by (auto simp: rb' chunked_resume_def size_inv_def)
  ultimately show ?thesis using rb' k pos ok by (simp add: body_ok_def)
qed

lemma parse_chunked_cases:
  assumes ok: "size_inv (chunked_resume c)" and pos: "pos \<le> length buf"
  shows "case ngx_http_parse_chunked c buf pos of (rc, c', q) \<Rightarrow>
      rc = NGX_AGAIN \<and> size_inv c' \<and> csize c' \<le> NGX_MAX_OFF_T_VALUE - 5 \<and> q = length buf \<and>
        clength c' = chunked_length (cstate c') (csize c') \<and>
        scan (body_step mx) (blank c, dat) pos (drop pos buf) = Cont (blank c', dat)
    \<or> rc = NGX_OK \<and> cstate c' = sw_chunk_data \<and> size_inv c' \<and> csize c' \<le> NGX_MAX_OFF_T_VALUE - 5 \<and>
        pos \<le> q \<and> q < length buf \<and>
        scan (body_step mx) (blank c, dat) pos (drop pos buf) =
          scan (body_step mx) (c'\<lparr>clength := 0\<rparr>, dat) q (drop q buf)
    \<or> rc = NGX_DONE \<and> scan (body_step mx) (blank c, dat) pos (drop pos buf) = Stop (Body_done dat q)
    \<or> rc = NGX_ERROR \<and> doomed_outcome (scan (body_step mx) (blank c, dat) pos (drop pos buf))"
proof -
  let ?s = "chunked_resume c"
  note to_data = scan_to_data [OF ok, where p = pos and xs = "drop pos buf" and mx = mx and dat = dat, folded blank_def]
  show ?thesis
  proof (cases "scan chunked_step ?s pos (drop pos buf)")
    case (Cont s')
    have inv: "size_inv s'" using ck.scan_Cont [OF ok Cont] .
    with Cont to_data pos show ?thesis
      by (auto simp: ngx_http_parse_chunked_def chunked_data_def doomed_outcome_def doomed_def blank_def size_inv_resumed)
  next
    case (Stop res)
    obtain x s' q where res: "res = (x, s', q)" by (cases res)
    show ?thesis
    proof (cases x)
      case goto_data
      with Stop res to_data have d: "pos \<le> q" "q < length buf" "cstate s' = sw_chunk_data" "size_inv s'"
        "scan (body_step mx) (blank c, dat) pos (drop pos buf) =
          scan (body_step mx) (s'\<lparr>clength := 0\<rparr>, dat) q (drop q buf)"
        by auto
      moreover have "doomed_outcome (scan (body_step mx) (s'\<lparr>clength := 0\<rparr>, dat) q (drop q buf))"
        if "csize s' > NGX_MAX_OFF_T_VALUE - 5"
        using that d(4) by (intro doomed_scan) (simp add: doomed_def)
      ultimately show ?thesis using Stop res goto_data
        by (auto simp: ngx_http_parse_chunked_def chunked_data_def)
    next
      case goto_done
      with Stop res to_data show ?thesis by (simp add: ngx_http_parse_chunked_def)
    next
      case goto_invalid
      with Stop res to_data show ?thesis by (simp add: ngx_http_parse_chunked_def doomed_outcome_def)
    qed
  qed
qed

lemma filter_loop_agrees:
  assumes "body_ok rb" "pos \<le> length buf" "length buf - pos < fuel"
  shows "\<exists>res. chunked_filter_loop fuel mx hdr buf pos rb = Some res \<and>
    filter_agrees (length buf) res (scan (body_step mx) (blank (ctx rb), chunk_data_of rb) pos (drop pos buf))"
  using assms
proof (induction fuel arbitrary: pos rb)
  case (Suc fuel)
  obtain rc c q where call: "ngx_http_parse_chunked (ctx rb) buf pos = (rc, c, q)"
    by (cases "ngx_http_parse_chunked (ctx rb) buf pos")
  have "size_inv (chunked_resume (ctx rb))" using Suc.prems(1) by (simp add: body_ok_def)
  note cases = parse_chunked_cases [OF this Suc.prems(2), of mx "chunk_data_of rb", unfolded call prod.case]
  let ?rb = "rb\<lparr>ctx := c\<rparr>"
  have data: "chunk_data_of ?rb = chunk_data_of rb" "content_length ?rb = int (length (chunk_data_of rb))"
    using Suc.prems(1) by (simp_all add: chunk_data_of_def body_ok_def)
  show ?case
  proof (cases "rc = NGX_OK")
    case True
    with cases have d: "cstate c = sw_chunk_data" "size_inv c" "csize c \<le> NGX_MAX_OFF_T_VALUE - 5" "pos \<le> q" "q < length buf"
      and run: "scan (body_step mx) (blank (ctx rb), chunk_data_of rb) pos (drop pos buf) =
        scan (body_step mx) (c\<lparr>clength := 0\<rparr>, chunk_data_of rb) q (drop q buf)"
      by auto
    have ok: "body_ok ?rb" using Suc.prems(1) d(2) by (simp add: body_ok_def chunk_data_of_def size_inv_resumed)
    show ?thesis
    proof (cases "mx \<noteq> 0 \<and> mx - content_length ?rb < csize c")
      case True
      moreover have "scan (body_step mx) (c\<lparr>clength := 0\<rparr>, chunk_data_of rb) q (drop q buf) = Stop Body_too_large"
        using d True data by (simp add: body_step_pair flip: Cons_nth_drop_Suc)
      ultimately show ?thesis using call run \<open>rc = NGX_OK\<close> by simp
    next
      case False
      obtain rb' q' where take: "take_chunk buf q ?rb = (rb', q')" by (cases "take_chunk buf q ?rb")
      from take_chunk_scan [of ?rb mx q buf rb' q', OF ok] d False take
      have "q < q'" "q' \<le> length buf" "body_ok rb'"
        and run': "scan (body_step mx) (c\<lparr>clength := 0\<rparr>, chunk_data_of rb) q (drop q buf) =
          scan (body_step mx) (blank (ctx rb'), chunk_data_of rb') q' (drop q' buf)"
        by (simp_all add: data)
      with Suc.IH [of rb' q'] Suc.prems(3) d(4) call run False take \<open>rc = NGX_OK\<close> show ?thesis by auto
    qed
  next
    case False
    with cases call data Suc.prems(1) show ?thesis
      by (auto simp: body_ok_def chunk_data_of_def size_inv_resumed blank_def)
  qed
qed simp

subsection \<open>A body in several buffers\<close>

text \<open>
  The buffers one after another, in one chain or in several calls, until the body is complete or refused.  What the C loop
  does with buffers behind a complete body is not modelled.
\<close>

fun filter_calls :: "int \<Rightarrow> int \<Rightarrow> bytes list \<Rightarrow> chunked_body \<Rightarrow> filter_result option" where
  "filter_calls max_size hdr [] rb = Some (Filter_again rb 0)"
| "filter_calls max_size hdr (buf # bufs) rb =
     (case ngx_http_request_body_chunked_filter max_size hdr buf rb of
        Some (Filter_again rb' pos) \<Rightarrow> filter_calls max_size hdr bufs rb'
      | res \<Rightarrow> res)"

definition body_agrees :: "filter_result option \<Rightarrow> (chunked \<times> bytes, body_exit) outcome \<Rightarrow> bool" where
  "body_agrees res out \<longleftrightarrow>
     (case res of
        None \<Rightarrow> False
      | Some (Filter_again rb pos) \<Rightarrow> out = Cont (blank (ctx rb), chunk_data_of rb)
      | Some (Filter_done rb pos) \<Rightarrow> \<exists>q. out = Stop (Body_done (chunk_data_of rb) q)
      | Some Entity_too_large \<Rightarrow> out = Stop Body_too_large
      | Some Bad_request \<Rightarrow> doomed_outcome out)"

text \<open>The byte machine does not depend on where the scan started.\<close>

definition shift_exit :: "nat \<Rightarrow> body_exit \<Rightarrow> body_exit" where
  "shift_exit k x = (case x of Body_done dat q \<Rightarrow> Body_done dat (q + k) | _ \<Rightarrow> x)"

lemma chunked_step_shift:
  "chunked_step s (p + k) ch = map_outcome id (\<lambda>(x, s, q). (x, s, q + k)) (chunked_step s p ch)"
  by (cases "cstate s") (auto simp: chunked_step_def chunked_state_defs split: option.splits)

lemma body_step_shift: "body_step mx (s, dat) (p + k) ch = map_outcome id (shift_exit k) (body_step mx (s, dat) p ch)"
  using chunked_step_shift [of s p k ch]
  by (auto simp: body_step_pair shift_exit_def split: outcome.splits prod.splits chunked_exit.splits)

lemma scan_body_shift:
  "scan (body_step mx) so (p + k) xs = map_outcome id (shift_exit k) (scan (body_step mx) so p xs)"
proof (induction xs arbitrary: so p)
  case (Cons c xs)
  obtain s dat where so: "so = (s, dat)" by (cases so)
  show ?case
    using Cons.IH [of _ "Suc p"] body_step_shift [of mx s dat p k c]
    by (cases "body_step mx (s, dat) p c") (auto simp: so)
qed simp

lemma doomed_append: "doomed_outcome (scan (body_step mx) so p xs) \<Longrightarrow> doomed_outcome (scan (body_step mx) so p (xs @ ys))"
proof (cases "scan (body_step mx) so p xs")
  case (Cont t)
  moreover assume "doomed_outcome (scan (body_step mx) so p xs)"
  ultimately show ?thesis
    using doomed_scan [of "fst t" mx "snd t" "p + length xs" ys]
    by (cases t) (simp add: scan_append doomed_outcome_def)
qed (simp add: scan_append)

lemma body_agrees_shift: "body_agrees res out \<Longrightarrow> body_agrees res (map_outcome id (shift_exit k) out)"
  by (auto simp: body_agrees_def shift_exit_def doomed_outcome_def
      split: option.splits filter_result.splits outcome.splits)

lemma filter_calls_agree:
  "body_ok rb \<Longrightarrow>
   body_agrees (filter_calls mx hdr bufs rb) (scan (body_step mx) (blank (ctx rb), chunk_data_of rb) p (concat bufs))"
proof (induction bufs arbitrary: rb p)
  case Nil
  then show ?case by (simp add: body_agrees_def)
next
  case (Cons buf bufs)
  let ?rb = "rb\<lparr>b_set := False\<rparr>"
  have "body_ok ?rb" and rb: "ctx ?rb = ctx rb" "chunk_data_of ?rb = chunk_data_of rb"
    using Cons.prems by (simp_all add: body_ok_def chunk_data_of_def)
  from filter_loop_agrees [OF this(1), of 0 buf "Suc (length buf)" mx hdr] obtain res where
    call: "ngx_http_request_body_chunked_filter mx hdr buf rb = Some res"
    and agrees: "filter_agrees (length buf) res (scan (body_step mx) (blank (ctx rb), chunk_data_of rb) 0 buf)"
    by (auto simp: ngx_http_request_body_chunked_filter_def rb)
  note shift = scan_body_shift [of mx "(blank (ctx rb), chunk_data_of rb)" 0 p buf, simplified]
  show ?case
  proof (cases res)
    case (Filter_again rb' pos)
    with agrees shift Cons.IH [of rb' "p + length buf"] call show ?thesis
      by (simp add: scan_append)
  next
    case (Filter_done rb' pos)
    with agrees shift call show ?thesis
      by (auto simp: scan_append body_agrees_def shift_exit_def)
  next
    case Entity_too_large
    with agrees shift call show ?thesis by (simp add: scan_append body_agrees_def shift_exit_def)
  next
    case Bad_request
    with agrees have "doomed_outcome (scan (body_step mx) (blank (ctx rb), chunk_data_of rb) p buf)"
      unfolding shift by (auto simp: doomed_outcome_def shift_exit_def split: outcome.splits)
    from doomed_append [OF this, of "concat bufs"] call Bad_request show ?thesis by (simp add: body_agrees_def)
  qed
qed

lemma body_init: "body_ok (chunked_body_init hdr)"
    "blank (ctx (chunked_body_init hdr)) = \<lparr>cstate = sw_chunk_start, csize = 0, clength = 0\<rparr>"
    "chunk_data_of (chunked_body_init hdr) = []"
  by (simp_all add: body_ok_def chunked_body_init_def size_inv_def chunked_resume_def chunk_data_of_def blank_def)

subsection \<open>Encoded bodies\<close>

text \<open>
  A chunk as it is sent: the size in hexadecimal, an optional extension, the data.  The parser wants
  a size of at most a sixteenth of the range.
\<close>

record chunk =
  size_text :: bytes
  ext_text :: bytes
  chunk_bytes :: bytes

definition is_hex :: "u_char \<Rightarrow> bool" where
  "is_hex c \<longleftrightarrow> hex_digit c \<noteq> None"

definition ext_ok :: "bytes \<Rightarrow> bool" where
  "ext_ok e \<longleftrightarrow> (e \<noteq> [] \<longrightarrow> is_ext_char (hd e)) \<and> list_all (\<lambda>c. c \<noteq> CR \<and> c \<noteq> LF) e"

definition chunk_ok :: "chunk \<Rightarrow> bool" where
  "chunk_ok c \<longleftrightarrow>
     size_text c \<noteq> [] \<and> list_all is_hex (size_text c) \<and> hex_value 0 (size_text c) = int (length (chunk_bytes c)) \<and>
     chunk_bytes c \<noteq> [] \<and> int (length (chunk_bytes c)) \<le> NGX_MAX_OFF_T_VALUE div 16 \<and> ext_ok (ext_text c)"

definition encode_chunk :: "chunk \<Rightarrow> bytes" where
  "encode_chunk c = size_text c @ ext_text c @ [CR, LF] @ chunk_bytes c @ [CR, LF]"

definition encode_body :: "chunk list \<Rightarrow> bytes" where
  "encode_body cs = concat (map encode_chunk cs) @ [chr_0, CR, LF, CR, LF]"

abbreviation (input) ctx_at :: "chunked_state \<Rightarrow> int \<Rightarrow> chunked" where
  "ctx_at st z \<equiv> \<lparr>cstate = st, csize = z, clength = 0\<rparr>"

lemma scan_hex_run:
  "list_all is_hex h \<Longrightarrow> 0 \<le> z \<Longrightarrow> hex_value z h \<le> NGX_MAX_OFF_T_VALUE div 16 \<Longrightarrow>
   scan (body_step mx) (ctx_at sw_chunk_size z, dat) p h = Cont (ctx_at sw_chunk_size (hex_value z h), dat)"
proof (induction h arbitrary: z p)
  case (Cons c h)
  then obtain d where d: "hex_digit c = Some d" by (auto simp: is_hex_def)
  have "z * 16 + uint d \<le> hex_value (z * 16 + uint d) h" using Cons.prems(2) by (intro hex_value_ge) simp
  moreover have "hex_value (z * 16 + uint d) h \<le> NGX_MAX_OFF_T_VALUE div 16" using Cons.prems(3) d by simp
  ultimately have "z \<le> NGX_MAX_OFF_T_VALUE div 16"
    using hex_size_bounds(1) [OF d] Cons.prems(2) by linarith
  with d Cons show ?case by (simp add: body_step_pair chunked_step_def chunked_size_def)
qed simp

lemma scan_ext_run:
  "list_all (\<lambda>c. c \<noteq> CR \<and> c \<noteq> LF) e \<Longrightarrow>
   scan (body_step mx) (ctx_at sw_chunk_extension z, dat) p e = Cont (ctx_at sw_chunk_extension z, dat)"
  by (induction e arbitrary: p) (simp_all add: body_step_pair chunked_step_def chunked_skip_def)

lemma ext_char_not_hex: "is_ext_char c \<Longrightarrow> hex_digit c = None" "hex_digit CR = None" "hex_digit LF = None"
  by (auto simp: is_ext_char_def hex_digit_def)

lemma scan_size_line:
  assumes "ext_ok e" "0 < z" "z \<le> NGX_MAX_OFF_T_VALUE div 16"
  shows "scan (body_step mx) (ctx_at sw_chunk_size z, dat) p (e @ [CR, LF]) = Cont (ctx_at sw_chunk_data z, dat)"
proof (cases e)
  case Nil
  with assms show ?thesis
    by (simp add: body_step_pair chunked_step_def chunked_size_def ext_char_not_hex move_to_def chunked_expect_lf_def)
next
  case (Cons c cs)
  then have "is_ext_char c" "c \<noteq> CR" "c \<noteq> LF" "list_all (\<lambda>c. c \<noteq> CR \<and> c \<noteq> LF) cs" using assms(1) by (auto simp: ext_ok_def)
  with Cons assms show ?thesis
    by (simp add: scan_append scan_ext_run body_step_pair chunked_step_def chunked_size_def ext_char_not_hex move_to_def
        chunked_skip_def chunked_expect_lf_def)
qed

lemma scan_chunk:
  assumes c: "chunk_ok c" and mx: "mx = 0 \<or> int (length dat) + int (length (chunk_bytes c)) \<le> mx"
  shows "scan (body_step mx) (ctx_at sw_chunk_start 0, dat) p (encode_chunk c) =
    Cont (ctx_at sw_chunk_start 0, dat @ chunk_bytes c)"
proof -
  let ?z = "int (length (chunk_bytes c))"
  obtain h hs where h: "size_text c = h # hs" "list_all is_hex hs" "is_hex h"
    using c by (cases "size_text c") (auto simp: chunk_ok_def)
  then obtain d where d: "hex_digit h = Some d" by (auto simp: is_hex_def)
  have z: "hex_value (uint d) hs = ?z" "0 < ?z" "?z \<le> NGX_MAX_OFF_T_VALUE div 16" "ext_ok (ext_text c)"
    using c h d by (simp_all add: chunk_ok_def)
  have start: "scan (body_step mx) (ctx_at sw_chunk_start 0, dat) q (size_text c) = Cont (ctx_at sw_chunk_size ?z, dat)" for q
    using scan_hex_run [OF h(2), of "uint d" mx dat "Suc q"] z d h(1)
    by (simp add: body_step_pair chunked_step_def chunked_start_def move_to_def)
  have data: "scan (body_step mx) (ctx_at sw_chunk_data ?z, dat) q (chunk_bytes c) =
      Cont (ctx_at sw_after_data 0, dat @ chunk_bytes c)" for q
    using scan_data [of "ctx_at sw_chunk_data ?z" "chunk_bytes c" mx dat q] z(2,3) mx
    by (auto simp: chunked_resume_def NGX_MAX_OFF_T_VALUE_def)
  define line where "line = ext_text c @ [CR, LF]"
  have "encode_chunk c = size_text c @ line @ chunk_bytes c @ [CR, LF]"
    by (simp add: encode_chunk_def line_def)
  then show ?thesis
    using scan_size_line [OF z(4,2,3), folded line_def]
    by (simp add: scan_append start data body_step_pair chunked_step_def chunked_after_data_def chunked_expect_lf_def
        move_to_def)
qed

lemma scan_body:
  assumes "list_all chunk_ok cs" "mx = 0 \<or> int (length dat) + int (length (concat (map chunk_bytes cs))) \<le> mx"
  shows "\<exists>q. scan (body_step mx) (ctx_at sw_chunk_start 0, dat) p (encode_body cs @ rest) =
    Stop (Body_done (dat @ concat (map chunk_bytes cs)) q)"
  using assms
proof (induction cs arbitrary: dat p)
  case Nil
  then show ?case
    by (simp add: encode_body_def body_step_pair chunked_step_def chunked_start_def chunked_size_def chunked_expect_lf_def
        chunked_trailer_def chunked_trailer_almost_done_def move_to_def hex_digit_def NGX_MAX_OFF_T_VALUE_def)
next
  case (Cons c cs)
  have "scan (body_step mx) (ctx_at sw_chunk_start 0, dat) p (encode_chunk c) =
      Cont (ctx_at sw_chunk_start 0, dat @ chunk_bytes c)"
    using Cons.prems by (intro scan_chunk) auto
  moreover have "encode_body (c # cs) @ rest = encode_chunk c @ encode_body cs @ rest" by (simp add: encode_body_def)
  ultimately show ?case using Cons.IH [of "dat @ chunk_bytes c" "p + length (encode_chunk c)"] Cons.prems
    by (simp add: scan_append add.assoc)
qed

text \<open>The promised number of missing bytes shrinks by at most one per byte.\<close>

definition missing :: "chunked \<Rightarrow> int" where
  "missing s = chunked_length (cstate s) (csize s)"

lemma missing_resume: "missing (chunked_resume s) = missing s"
  by (simp add: missing_def chunked_resume_def)

lemma more_digits_not_0: "0 \<le> z \<Longrightarrow> z \<noteq> 0 \<Longrightarrow> z * 16 + uint d \<noteq> 0" for d :: u_char
  using uint_ge_0 [of d] by linarith

lemma missing_step:
  assumes "size_inv s"
  shows "case body_step mx (s, dat) p c of
      Cont (s', dat') \<Rightarrow> size_inv s' \<and> missing s \<le> missing s' + 1
    | Stop (Body_done dat' q) \<Rightarrow> q = Suc p \<and> missing s \<le> 1
    | Stop _ \<Rightarrow> True"
proof (cases "cstate s = sw_chunk_data")
  case True
  with assms show ?thesis
    by (auto simp: body_step_pair missing_def chunked_resume_def size_inv_def)
next
  case False
  show ?thesis
  proof (cases "chunked_step s p c")
    case (Cont s')
    have "missing s \<le> missing s' + 1"
      using assms Cont hex_size_bounds(1) [of c] False
      by (cases "cstate s")
        (auto simp: missing_def size_inv_def chunked_step_def chunked_state_defs more_digits_not_0
          split: option.splits if_splits)
    with Cont False chunked_step_Cont [OF assms Cont] show ?thesis by (simp add: body_step_pair)
  next
    case (Stop res)
    then have "fst res = goto_done \<longrightarrow> missing s = 1"
      by (cases "cstate s") (auto simp: missing_def chunked_step_def chunked_state_defs split: option.splits if_splits)
    with Stop False chunked_step_Stop [OF assms Stop] show ?thesis
      by (cases res; cases "fst res") (auto simp: body_step_pair chunked_post_def)
  qed
qed

lemma missing_scan:
  "size_inv s \<Longrightarrow> scan (body_step mx) (s, dat) p xs = Stop (Body_done dat' q) \<Longrightarrow> missing s \<le> int q - int p"
proof (induction xs arbitrary: s dat p)
  case (Cons c xs)
  show ?case
  proof (cases "body_step mx (s, dat) p c")
    case (Cont t)
    with missing_step [OF Cons.prems(1), where mx = mx and dat = dat and p = p and c = c] Cons.IH [of "fst t" "snd t" "Suc p"] Cons.prems(2)
    show ?thesis by (cases t) auto
  next
    case (Stop x)
    with missing_step [OF Cons.prems(1), where mx = mx and dat = dat and p = p and c = c] Cons.prems(2) show ?thesis by simp
  qed
qed simp

subsection \<open>Properties\<close>

text \<open>
  Property C13: however a chunked body is divided into buffers, the loop in the filter ends and the
  outcome is that of reading the body byte by byte: the same data, the same refusals, the same state
  when more is needed.
\<close>

theorem chunked_any_buffers:
  "body_agrees (filter_calls max_size hdr bufs (chunked_body_init hdr))
     (scan (body_step max_size) (\<lparr>cstate = sw_chunk_start, csize = 0, clength = 0\<rparr>, []) 0 (concat bufs))"
  using filter_calls_agree [OF body_init(1), of max_size hdr bufs hdr 0] by (simp add: body_init)

text \<open>
  Property C14: a body that was encoded in chunks, with any extensions and any division into buffers,
  and with anything behind it, is decoded to its data, when it is not larger than allowed.
\<close>

theorem chunked_roundtrip:
  assumes "list_all chunk_ok cs" "concat bufs = encode_body cs @ rest"
    "max_size = 0 \<or> int (length (concat (map chunk_bytes cs))) \<le> max_size"
  shows "\<exists>rb pos. filter_calls max_size hdr bufs (chunked_body_init hdr) = Some (Filter_done rb pos) \<and>
    chunk_data_of rb = concat (map chunk_bytes cs)"
proof -
  obtain q where "scan (body_step max_size) (ctx_at sw_chunk_start 0, []) 0 (concat bufs) =
      Stop (Body_done (concat (map chunk_bytes cs)) q)"
    using scan_body [OF assms(1), of max_size "[]" 0 rest] assms(2,3) by auto
  with filter_calls_agree [OF body_init(1), of max_size hdr bufs hdr 0] show ?thesis
    by (auto simp: body_init body_agrees_def doomed_outcome_def split: option.splits filter_result.splits)
qed

definition chunk_example :: chunk where
  "chunk_example = \<lparr>size_text = str ''3'', ext_text = str '';x'', chunk_bytes = str ''abc''\<rparr>"

theorem chunked_roundtrip_witness:
  "list_all chunk_ok [chunk_example] \<and>
   (\<exists>rb pos. filter_calls 5 1024 [encode_body [chunk_example] @ []] (chunked_body_init 1024) =
     Some (Filter_done rb pos) \<and> chunk_data_of rb = str ''abc'')"
proof -
  have ok: "list_all chunk_ok [chunk_example]"
    by (simp add: chunk_ok_def chunk_example_def is_hex_def hex_digit_def str_def ext_ok_def is_ext_char_def
        NGX_MAX_OFF_T_VALUE_def)
  moreover have "concat [encode_body [chunk_example] @ []] = encode_body [chunk_example] @ []" by simp
  moreover have "int (length (concat (map chunk_bytes [chunk_example]))) \<le> 5"
    by (simp add: chunk_example_def str_def)
  ultimately show ?thesis
    using chunked_roundtrip [OF ok, of "[encode_body [chunk_example] @ []]" "[]" 5 1024]
    by (simp add: chunk_example_def)
qed

text \<open>
  When the parser asks for more, the number of missing bytes it reports is positive, fits
  in \<^verbatim>\<open>off_t\<close> and never exceeds what a complete body still needs, so reading that many bytes never
  reads into the next request.
\<close>

theorem chunked_length_bound:
  assumes "size_inv (chunked_resume c)" "pos \<le> length buf"
    "ngx_http_parse_chunked c buf pos = (NGX_AGAIN, c', pos')"
  shows "0 < clength c' \<and> clength c' \<le> NGX_MAX_OFF_T_VALUE \<and>
    (\<forall>dat xs dat' n. scan (body_step max_size) (blank c', dat) 0 xs = Stop (Body_done dat' n) \<longrightarrow> clength c' \<le> int n)"
proof -
  from parse_chunked_cases [OF assms(1,2), where mx = max_size and dat = "[]"] assms(3)
  have inv: "size_inv c'" and sz: "csize c' \<le> NGX_MAX_OFF_T_VALUE - 5" and len: "clength c' = missing c'"
    by (auto simp: missing_def)
  have "0 < missing c'" "missing c' \<le> NGX_MAX_OFF_T_VALUE"
    using inv sz by (cases "cstate c'"; simp add: missing_def size_inv_def NGX_MAX_OFF_T_VALUE_def)+
  moreover have "missing c' \<le> int n" if "scan (body_step max_size) (blank c', dat) 0 xs = Stop (Body_done dat' n)" for dat xs dat' n
    using missing_scan [OF _ that] inv by (simp add: blank_def size_inv_resumed missing_def)
  ultimately show ?thesis by (auto simp: len)
qed

theorem chunked_length_bound_witness:
  "\<exists>c'. ngx_http_parse_chunked \<lparr>cstate = sw_chunk_start, csize = 0, clength = 0\<rparr> (str ''3'') 0 = (NGX_AGAIN, c', 1) \<and>
     clength c' = 8 \<and> 0 < clength c' \<and> clength c' \<le> NGX_MAX_OFF_T_VALUE"
proof -
  let ?c = "\<lparr>cstate = sw_chunk_start, csize = 0, clength = 0\<rparr>"
  let ?c' = "\<lparr>cstate = sw_chunk_size, csize = 3, clength = 8\<rparr>"
  have "size_inv (chunked_resume ?c)" by (simp add: size_inv_def chunked_resume_def)
  moreover have call: "ngx_http_parse_chunked ?c (str ''3'') 0 = (NGX_AGAIN, ?c', 1)"
    by (simp add: ngx_http_parse_chunked_def chunked_resume_def chunked_step_def chunked_start_def move_to_def str_def
        hex_digit_def chunked_data_def NGX_MAX_OFF_T_VALUE_def)
  ultimately show ?thesis using chunked_length_bound [of ?c 0 "str ''3''" ?c' 1] by auto
qed

end
