(* ===== verification/Ngx_Upstream_Round_Robin.thy ===== *)
theory Ngx_Upstream_Round_Robin
  imports Ngx_Prelude
begin

text \<open>
  The balancer of \<^verbatim>\<open>src/http/ngx_http_upstream_round_robin.c\<close>: the choice of a peer by smooth weighted
  round robin, the fallback to backup peers, and the bookkeeping when a peer is released.  The lemmas
  show which peers can be chosen, that effective weights stay in their bounds, and that a cycle of requests to healthy
  peers is distributed exactly by weight.  The attempts of one request are in \<open>Ngx_Upstream_Next\<close>.
\<close>

subsection \<open>Peers\<close>

text \<open>
  Weights, counters and times are unbounded integers, where the code has 64-bit types.  This is an assumption of the model: the
  configuration does not limit a weight, and sums of weights near the limits of \<^verbatim>\<open>ngx_int_t\<close> would overflow in the code and do
  not here; likewise \<^verbatim>\<open>conns--\<close> on an unused peer would wrap and here goes below zero.  The fields that
  only describe the connection (addresses, names, sessions, slow start) are left out.
\<close>

record peer =
  current_weight :: int
  effective_weight :: int
  weight :: int
  conns :: int
  max_conns :: int
  fails :: int
  accessed :: int
  checked :: int
  max_fails :: int
  fail_timeout :: int
  down :: bool

text \<open>A group of peers; the groups behind the first (\<^verbatim>\<open>peers->next\<close>) are the backup servers.\<close>

record peers =
  peer_list :: "peer list"
  single :: bool

text \<open>The bitmap of the peers a request has tried, in words of \<^verbatim>\<open>uintptr_t\<close>.\<close>

definition tried_bit :: "uint64 list \<Rightarrow> nat \<Rightarrow> bool" where
  "tried_bit tried i \<longleftrightarrow> (tried ! (i div 64)) AND push_bit (i mod 64) 1 \<noteq> 0"

definition set_tried :: "uint64 list \<Rightarrow> nat \<Rightarrow> uint64 list" where
  "set_tried tried i = tried[i div 64 := (tried ! (i div 64)) OR push_bit (i mod 64) 1]"

definition tried_words :: "nat \<Rightarrow> nat" where
  "tried_words number = (number + 63) div 64"

subsection \<open>The choice of a peer\<close>

text \<open>The tests that skip a peer, in the order of the loop.\<close>

definition skip_peer :: "int \<Rightarrow> uint64 list \<Rightarrow> nat \<Rightarrow> peer \<Rightarrow> bool" where
  "skip_peer now tried i p \<longleftrightarrow>
     tried_bit tried i \<or> down p \<or>
     (max_fails p \<noteq> 0 \<and> fails p \<ge> max_fails p \<and> now - checked p \<le> fail_timeout p) \<or>
     (max_conns p \<noteq> 0 \<and> conns p \<ge> max_conns p)"

definition weigh_peer :: "peer \<Rightarrow> peer" where
  "weigh_peer p =
     p\<lparr>current_weight := current_weight p + effective_weight p,
       effective_weight := (if effective_weight p < weight p then effective_weight p + 1 else effective_weight p)\<rparr>"

text \<open>The loop from the peer \<open>i\<close> on: \<open>best\<close> is the index and the current weight of the best so far.\<close>

fun get_peer_loop ::
  "int \<Rightarrow> uint64 list \<Rightarrow> nat \<Rightarrow> (nat \<times> int) option \<Rightarrow> int \<Rightarrow> peer list \<Rightarrow> peer list \<times> (nat \<times> int) option \<times> int" where
  "get_peer_loop now tried i best tot [] = ([], best, tot)"
| "get_peer_loop now tried i best tot (p # ps) =
     (if skip_peer now tried i p then
        (case get_peer_loop now tried (Suc i) best tot ps of (qs, r) \<Rightarrow> (p # qs, r))
      else
        let q = weigh_peer p;
            best' = (case best of
                       None \<Rightarrow> Some (i, current_weight q)
                     | Some (j, w) \<Rightarrow> if current_weight q > w then Some (i, current_weight q) else best)
        in case get_peer_loop now tried (Suc i) best' (tot + effective_weight p) ps of (qs, r) \<Rightarrow> (q # qs, r))"

definition pick_peer :: "int \<Rightarrow> int \<Rightarrow> peer \<Rightarrow> peer" where
  "pick_peer now tot p =
     p\<lparr>current_weight := current_weight p - tot,
       checked := (if now - checked p > fail_timeout p then now else checked p)\<rparr>"

definition ngx_http_upstream_get_peer ::
  "int \<Rightarrow> uint64 list \<Rightarrow> peer list \<Rightarrow> (nat \<times> uint64 list \<times> peer list) option" where
  "ngx_http_upstream_get_peer now tried ps =
     (case get_peer_loop now tried 0 None 0 ps of
        (qs, None, tot) \<Rightarrow> None
      | (qs, Some (k, w), tot) \<Rightarrow> Some (k, set_tried tried k, qs[k := pick_peer now tot (qs ! k)]))"

text \<open>
  The entry point.  \<open>groups\<close> are the group in use (\<^verbatim>\<open>rrp->peers\<close>) and the ones behind it.  The result is
  the return code, how many groups \<^verbatim>\<open>rrp->peers\<close> has moved, the groups, the bitmap and the index of
  \<^verbatim>\<open>rrp->current\<close> in its group.
\<close>

definition use_peer :: "nat \<Rightarrow> peers \<Rightarrow> peers" where
  "use_peer k g = g\<lparr>peer_list := (peer_list g)[k := (peer_list g ! k)\<lparr>conns := conns (peer_list g ! k) + 1\<rparr>]\<rparr>"

definition choose_peer :: "int \<Rightarrow> uint64 list \<Rightarrow> peers \<Rightarrow> (nat \<times> uint64 list \<times> peers) option" where
  "choose_peer now tried g =
     (if single g then
        let p = hd (peer_list g) in
        if down p then None
        else if max_conns p \<noteq> 0 \<and> conns p \<ge> max_conns p then None
        else Some (0, tried, g)
      else
        map_option (\<lambda>(k, tried', ps). (k, tried', g\<lparr>peer_list := ps\<rparr>))
          (ngx_http_upstream_get_peer now tried (peer_list g)))"

definition reset_tried :: "uint64 list \<Rightarrow> nat \<Rightarrow> uint64 list" where
  "reset_tried tried number = replicate (tried_words number) 0 @ drop (tried_words number) tried"

fun ngx_http_upstream_get_round_robin_peer ::
  "int \<Rightarrow> uint64 list \<Rightarrow> peers list \<Rightarrow> int \<times> nat \<times> peers list \<times> uint64 list \<times> nat option" where
  "ngx_http_upstream_get_round_robin_peer now tried [] = (NGX_BUSY, 0, [], tried, None)"
| "ngx_http_upstream_get_round_robin_peer now tried (g # gs) =
     (case choose_peer now tried g of
        Some (k, tried', g') \<Rightarrow> (NGX_OK, 0, use_peer k g' # gs, tried', Some k)
      | None \<Rightarrow>
          if gs = [] then (NGX_BUSY, 0, g # gs, tried, None)
          else
            case ngx_http_upstream_get_round_robin_peer now
                   (reset_tried tried (length (peer_list (hd gs)))) gs of
              (rc, n, gs', tried', k) \<Rightarrow> (rc, Suc n, g # gs', tried', k))"

subsection \<open>The release of a peer\<close>

definition peer_failed :: "int \<Rightarrow> peer \<Rightarrow> peer" where
  "peer_failed now p =
     (let p = p\<lparr>fails := fails p + 1, accessed := now, checked := now\<rparr>;
          p = (if max_fails p \<noteq> 0
               then p\<lparr>effective_weight := effective_weight p - weight p div max_fails p\<rparr> else p)
      in if effective_weight p < 0 then p\<lparr>effective_weight := 0\<rparr> else p)"

text \<open>The result is the peer and \<^verbatim>\<open>pc->tries\<close>; \<open>failed\<close> is \<^verbatim>\<open>state & NGX_PEER_FAILED\<close>.\<close>

definition ngx_http_upstream_free_round_robin_peer :: "bool \<Rightarrow> int \<Rightarrow> bool \<Rightarrow> nat \<Rightarrow> peer \<Rightarrow> peer \<times> nat" where
  "ngx_http_upstream_free_round_robin_peer is_single now failed tries p =
     (if is_single then (p\<lparr>conns := conns p - 1\<rparr>, 0)
      else
        let p = (if failed then peer_failed now p
                 else if accessed p < checked p then p\<lparr>fails := 0\<rparr> else p)
        in (p\<lparr>conns := conns p - 1\<rparr>, tries - 1))"

subsection \<open>The bitmap\<close>

lemma tried_bit_iff: "tried_bit tried i \<longleftrightarrow> bit (tried ! (i div 64)) (i mod 64)"
  by (simp add: tried_bit_def and_exp_eq_0_iff_not_bit push_bit_eq_mult)

lemma tried_bit_set:
  assumes "i div 64 < length tried"
  shows "tried_bit (set_tried tried i) j \<longleftrightarrow> j = i \<or> tried_bit tried j"
proof (cases "j div 64 = i div 64")
  case True
  have "bit ((tried ! (i div 64)) OR push_bit (i mod 64) 1) (j mod 64) \<longleftrightarrow>
      bit (tried ! (i div 64)) (j mod 64) \<or> j mod 64 = i mod 64"
    by (auto simp: bit_or_iff push_bit_eq_mult bit_exp_iff)
  moreover have "j mod 64 = i mod 64 \<longleftrightarrow> j = i" using True by (metis div_mult_mod_eq)
  ultimately show ?thesis using True assms by (auto simp: tried_bit_iff set_tried_def)
next
  case False
  then show ?thesis by (auto simp: tried_bit_iff set_tried_def)
qed

subsection \<open>The loop\<close>

text \<open>What the loop makes of a peer, and what it adds to the total.\<close>

definition visit :: "int \<Rightarrow> uint64 list \<Rightarrow> nat \<Rightarrow> peer \<Rightarrow> peer" where
  "visit now tried i p = (if skip_peer now tried i p then p else weigh_peer p)"

definition share :: "int \<Rightarrow> uint64 list \<Rightarrow> nat \<Rightarrow> peer \<Rightarrow> int" where
  "share now tried i p = (if skip_peer now tried i p then 0 else effective_weight p)"

text \<open>The candidate \<open>best\<close> is at least as good as every usable peer of \<open>qs\<close>, which start at index \<open>i\<close>.\<close>

definition best_of ::
  "int \<Rightarrow> uint64 list \<Rightarrow> nat \<Rightarrow> (nat \<times> int) option \<Rightarrow> (nat \<times> int) option \<Rightarrow> peer list \<Rightarrow> bool" where
  "best_of now tried i before best ps \<longleftrightarrow>
     (case best of
        None \<Rightarrow> before = None \<and> (\<forall>j < length ps. skip_peer now tried (i + j) (ps ! j))
      | Some (k, w) \<Rightarrow>
          (before = Some (k, w) \<or>
            (\<exists>j < length ps. k = i + j \<and> \<not> skip_peer now tried k (ps ! j) \<and> w = current_weight (weigh_peer (ps ! j)))) \<and>
          (\<forall>k' w'. before = Some (k', w') \<longrightarrow> w' \<le> w) \<and>
          (\<forall>j < length ps. \<not> skip_peer now tried (i + j) (ps ! j) \<longrightarrow> current_weight (weigh_peer (ps ! j)) \<le> w))"

lemma loop_peers:
  "get_peer_loop now tried i before tot ps = (qs, r) \<Longrightarrow>
   length qs = length ps \<and> (\<forall>j < length ps. qs ! j = visit now tried (i + j) (ps ! j))"
proof (induction ps arbitrary: i before tot qs)
  case (Cons p ps)
  obtain before' tot' qs' where rec: "get_peer_loop now tried (Suc i) before' tot' ps = (qs', r)"
    and qs: "qs = visit now tried i p # qs'"
    using Cons.prems by (auto simp: visit_def Let_def split: if_splits prod.splits)
  from Cons.IH [OF rec] show ?case by (auto simp: qs nth_Cons split: nat.splits)
qed simp

lemma loop_total:
  "get_peer_loop now tried i before tot ps = (qs, best, tot') \<Longrightarrow>
   tot' = tot + (\<Sum>j < length ps. share now tried (i + j) (ps ! j))"
proof (induction ps arbitrary: i before tot qs)
  case (Cons p ps)
  obtain before' qs' where rec: "get_peer_loop now tried (Suc i) before' (tot + share now tried i p) ps = (qs', best, tot')"
    using Cons.prems by (auto simp: share_def Let_def split: if_splits prod.splits)
  from Cons.IH [OF rec] show ?case by (simp add: sum.lessThan_Suc_shift del: sum.lessThan_Suc)
qed simp

lemma loop_best:
  "get_peer_loop now tried i before tot ps = (qs, best, tot') \<Longrightarrow> best_of now tried i before best ps"
proof (induction ps arbitrary: i before tot qs)
  case Nil
  then show ?case by (auto simp: best_of_def split: option.splits)
next
  case (Cons p ps)
  let ?w = "current_weight (weigh_peer p)"
  define before' where "before' =
    (if skip_peer now tried i p then before
     else case before of None \<Rightarrow> Some (i, ?w) | Some (j, w) \<Rightarrow> if ?w > w then Some (i, ?w) else before)"
  obtain t qs' where "get_peer_loop now tried (Suc i) before' t ps = (qs', best, tot')"
    using Cons.prems by (auto simp: before'_def Let_def split: if_splits prod.splits)
  from Cons.IH [OF this] have rest: "best_of now tried (Suc i) before' best ps" .
  show ?case
  proof (cases best)
    case None
    with rest show ?thesis
      by (auto simp: best_of_def before'_def nth_Cons split: if_splits option.splits nat.splits prod.splits)
  next
    case (Some kw)
    obtain k w where kw: "kw = (k, w)" by (cases kw)
    have "w' \<le> w" if "before = Some (k', w')" for k' w'
      using rest that by (auto simp: best_of_def Some kw before'_def split: if_splits)
    moreover have "?w \<le> w" if "\<not> skip_peer now tried i p"
      using rest that by (auto simp: best_of_def Some kw before'_def split: if_splits option.splits)
    moreover have "before = Some (k, w) \<or> (\<exists>j < length (p # ps). k = i + j \<and>
        \<not> skip_peer now tried k ((p # ps) ! j) \<and> w = current_weight (weigh_peer ((p # ps) ! j)))"
    proof -
      have "before' = Some (k, w) \<or> (\<exists>j < length ps. k = Suc i + j \<and>
          \<not> skip_peer now tried k (ps ! j) \<and> w = current_weight (weigh_peer (ps ! j)))"
        using rest by (auto simp: best_of_def Some kw)
      then show ?thesis
      proof
        assume "before' = Some (k, w)"
        then show ?thesis by (auto simp: before'_def split: if_splits option.splits)
      next
        assume "\<exists>j < length ps. k = Suc i + j \<and> \<not> skip_peer now tried k (ps ! j) \<and> w = current_weight (weigh_peer (ps ! j))"
        then obtain j where "j < length ps" "k = Suc i + j" "\<not> skip_peer now tried k (ps ! j)"
          "w = current_weight (weigh_peer (ps ! j))" by blast
        then show ?thesis by (intro disjI2 exI [of _ "Suc j"]) simp
      qed
    qed
    moreover have "current_weight (weigh_peer (ps ! j)) \<le> w"
      if "j < length ps" "\<not> skip_peer now tried (Suc i + j) (ps ! j)" for j
      using rest that by (auto simp: best_of_def Some kw)
    ultimately show ?thesis
      by (auto simp: best_of_def Some kw nth_Cons split: nat.splits)
  qed
qed

text \<open>The chosen peer, the best of the usable ones, and what happens to the others.\<close>

definition all_shares :: "int \<Rightarrow> uint64 list \<Rightarrow> peer list \<Rightarrow> int" where
  "all_shares now tried ps = (\<Sum>j < length ps. share now tried j (ps ! j))"

lemma get_peer_None:
  "ngx_http_upstream_get_peer now tried ps = None \<Longrightarrow> \<forall>j < length ps. skip_peer now tried j (ps ! j)"
  using loop_best [of now tried 0 None 0 ps]
  by (auto simp: ngx_http_upstream_get_peer_def best_of_def split: prod.splits option.splits)

lemma get_peer_Some:
  assumes "ngx_http_upstream_get_peer now tried ps = Some (k, tried', qs)"
  shows "k < length ps" "\<not> skip_peer now tried k (ps ! k)" "tried' = set_tried tried k" "length qs = length ps"
    "j < length ps \<Longrightarrow> \<not> skip_peer now tried j (ps ! j) \<Longrightarrow>
       current_weight (weigh_peer (ps ! j)) \<le> current_weight (weigh_peer (ps ! k))"
    "j < length ps \<Longrightarrow> qs ! j =
       (if j = k then pick_peer now (all_shares now tried ps) (weigh_peer (ps ! k)) else visit now tried j (ps ! j))"
proof -
  obtain rs w tot where loop: "get_peer_loop now tried 0 None 0 ps = (rs, Some (k, w), tot)"
    and res: "tried' = set_tried tried k" "qs = rs[k := pick_peer now tot (rs ! k)]"
    using assms by (auto simp: ngx_http_upstream_get_peer_def split: prod.splits option.splits)
  note peers = loop_peers [OF loop] and best = loop_best [OF loop, unfolded best_of_def, simplified]
  show k: "k < length ps" "\<not> skip_peer now tried k (ps ! k)" using best by auto
  show "tried' = set_tried tried k" "length qs = length ps" using res peers by simp_all
  show "current_weight (weigh_peer (ps ! j)) \<le> current_weight (weigh_peer (ps ! k))"
    if "j < length ps" "\<not> skip_peer now tried j (ps ! j)"
    using best that by auto
  have "tot = all_shares now tried ps" using loop_total [OF loop] by (simp add: all_shares_def)
  moreover have "rs ! k = weigh_peer (ps ! k)" using peers k by (simp add: visit_def)
  ultimately show "qs ! j =
      (if j = k then pick_peer now (all_shares now tried ps) (weigh_peer (ps ! k)) else visit now tried j (ps ! j))"
    if "j < length ps"
    using that res(2) peers k by auto
qed

subsection \<open>Healthy peers\<close>

definition healthy :: "peer \<Rightarrow> bool" where
  "healthy p \<longleftrightarrow> \<not> down p \<and> (max_fails p = 0 \<or> fails p < max_fails p) \<and> max_conns p = 0 \<and>
     effective_weight p = weight p \<and> 0 < weight p"

definition fresh_tried :: "peers \<Rightarrow> uint64 list" where
  "fresh_tried g = replicate (tried_words (length (peer_list g))) 0"

definition weight_sum :: "peer list \<Rightarrow> int" where
  "weight_sum ps = (\<Sum>j < length ps. weight (ps ! j))"

text \<open>Requests at the given times, each served by the first peer it gets.\<close>

fun serve :: "int list \<Rightarrow> peers \<Rightarrow> nat list \<times> peers" where
  "serve [] g = ([], g)"
| "serve (now # nows) g =
     (case ngx_http_upstream_get_round_robin_peer now (fresh_tried g) [g] of
        (rc, n, gs, tried, k) \<Rightarrow> case serve nows (hd gs) of (ks, g') \<Rightarrow> (the k # ks, g'))"

lemma fresh_not_tried: "j < length (peer_list g) \<Longrightarrow> \<not> tried_bit (fresh_tried g) j"
proof -
  assume "j < length (peer_list g)"
  then have "j div 64 < tried_words (length (peer_list g))" by (simp add: tried_words_def)
  then show ?thesis by (simp add: tried_bit_def fresh_tried_def)
qed

lemma healthy_usable: "j < length (peer_list g) \<Longrightarrow> healthy p \<Longrightarrow> \<not> skip_peer now (fresh_tried g) j p"
  using fresh_not_tried [of j g] by (auto simp: skip_peer_def healthy_def)

definition group_healthy :: "peers \<Rightarrow> bool" where
  "group_healthy g \<longleftrightarrow> \<not> single g \<and> peer_list g \<noteq> [] \<and> list_all healthy (peer_list g)"

text \<open>One request: the peer with the largest sum of current weight and weight gives up the total.\<close>

lemma serve_step:
  assumes g: "group_healthy g"
  obtains k g' where "ngx_http_upstream_get_round_robin_peer now (fresh_tried g) [g] =
      (NGX_OK, 0, [g'], set_tried (fresh_tried g) k, Some k)"
    "k < length (peer_list g)" "length (peer_list g') = length (peer_list g)" "group_healthy g'"
    "\<And>j. j < length (peer_list g) \<Longrightarrow> weight (peer_list g' ! j) = weight (peer_list g ! j) \<and>
       current_weight (peer_list g' ! j) = current_weight (peer_list g ! j) + weight (peer_list g ! j) -
         (if j = k then weight_sum (peer_list g) else 0) \<and>
       current_weight (peer_list g ! j) + weight (peer_list g ! j) \<le>
         current_weight (peer_list g ! k) + weight (peer_list g ! k)"
proof -
  let ?ps = "peer_list g" and ?t = "fresh_tried g"
  have h: "healthy (?ps ! j)" "\<not> skip_peer now ?t j (?ps ! j)" if "j < length ?ps" for j
    using g that healthy_usable [OF that] by (auto simp: group_healthy_def list_all_length)
  have "0 < length ?ps" using g by (simp add: group_healthy_def)
  with h(2) have "ngx_http_upstream_get_peer now ?t ?ps \<noteq> None"
    using get_peer_None [of now ?t ?ps] by blast
  then obtain k t' qs where pick: "ngx_http_upstream_get_peer now ?t ?ps = Some (k, t', qs)" by auto
  note spec = get_peer_Some [OF pick]
  have total: "all_shares now ?t ?ps = weight_sum ?ps"
    using h by (auto simp: all_shares_def weight_sum_def share_def healthy_def intro!: sum.cong)
  define g' where "g' = use_peer k (g\<lparr>peer_list := qs\<rparr>)"
  have call: "ngx_http_upstream_get_round_robin_peer now ?t [g] = (NGX_OK, 0, [g'], set_tried ?t k, Some k)"
    using g pick spec(3) by (simp add: choose_peer_def group_healthy_def g'_def)
  have len: "length (peer_list g') = length ?ps" by (simp add: g'_def use_peer_def spec(4))
  have nth: "peer_list g' ! j = (if j = k then (qs ! k)\<lparr>conns := conns (qs ! k) + 1\<rparr> else qs ! j)" if "j < length ?ps" for j
    using that spec(1,4) by (auto simp: g'_def use_peer_def)
  have facts: "healthy (peer_list g' ! j) \<and> weight (peer_list g' ! j) = weight (?ps ! j) \<and>
       current_weight (peer_list g' ! j) = current_weight (?ps ! j) + weight (?ps ! j) -
         (if j = k then weight_sum ?ps else 0)" if "j < length ?ps" for j
    using h [OF that] spec(6) [OF that] h [OF spec(1)]
    by (auto simp: nth [OF that] healthy_def visit_def weigh_peer_def pick_peer_def total)
  have "group_healthy g'" using g len facts
    by (auto simp: group_healthy_def list_all_length g'_def use_peer_def)
  moreover have "current_weight (?ps ! j) + weight (?ps ! j) \<le> current_weight (?ps ! k) + weight (?ps ! k)"
    if "j < length ?ps" for j
    using spec(5) [OF that] h [OF that] h [OF spec(1)] by (simp add: weigh_peer_def healthy_def)
  ultimately show ?thesis using that call spec(1) len facts by blast
qed

text \<open>The sum of the current weights is zero between requests and none of them falls to minus the total.\<close>

definition balanced :: "peers \<Rightarrow> bool" where
  "balanced g \<longleftrightarrow> (\<Sum>j < length (peer_list g). current_weight (peer_list g ! j)) = 0 \<and>
     (\<forall>j < length (peer_list g). - weight_sum (peer_list g) < current_weight (peer_list g ! j))"

lemma serve_run:
  assumes "group_healthy g" "balanced g" "serve nows g = (ks, g')"
  shows "length ks = length nows \<and> set ks \<subseteq> {..<length (peer_list g)} \<and> balanced g' \<and>
    (\<forall>j < length (peer_list g). current_weight (peer_list g' ! j) = current_weight (peer_list g ! j) +
       int (length nows) * weight (peer_list g ! j) - weight_sum (peer_list g) * int (count_list ks j)) \<and>
    length (peer_list g') = length (peer_list g) \<and> weight_sum (peer_list g') = weight_sum (peer_list g)"
  using assms
proof (induction nows arbitrary: g ks)
  case (Cons now nows)
  let ?ps = "peer_list g" and ?W = "weight_sum (peer_list g)"
  obtain k g1 where call: "ngx_http_upstream_get_round_robin_peer now (fresh_tried g) [g] =
      (NGX_OK, 0, [g1], set_tried (fresh_tried g) k, Some k)"
    and k: "k < length ?ps" and len: "length (peer_list g1) = length ?ps" and h1: "group_healthy g1"
    and step: "\<And>j. j < length ?ps \<Longrightarrow> weight (peer_list g1 ! j) = weight (?ps ! j) \<and>
       current_weight (peer_list g1 ! j) = current_weight (?ps ! j) + weight (?ps ! j) - (if j = k then ?W else 0) \<and>
       current_weight (?ps ! j) + weight (?ps ! j) \<le> current_weight (?ps ! k) + weight (?ps ! k)"
    using serve_step [OF Cons.prems(1), of now] by blast
  have W: "weight_sum (peer_list g1) = ?W" using step by (simp add: weight_sum_def len)
  have pos: "0 < weight (?ps ! j)" if "j < length ?ps" for j
    using Cons.prems(1) that by (auto simp: group_healthy_def list_all_length healthy_def)
  have sum: "(\<Sum>j < length ?ps. current_weight (?ps ! j) + weight (?ps ! j)) = ?W"
    using Cons.prems(2) by (simp add: balanced_def sum.distrib weight_sum_def)
  have "0 < ?W" unfolding weight_sum_def using k pos by (intro sum_pos) auto
  have best: "0 < current_weight (?ps ! k) + weight (?ps ! k)"
  proof (rule ccontr)
    assume "\<not> ?thesis"
    then have "current_weight (?ps ! j) + weight (?ps ! j) \<le> 0" if "j < length ?ps" for j
      using step [OF that] by linarith
    then have "(\<Sum>j < length ?ps. current_weight (?ps ! j) + weight (?ps ! j)) \<le> 0" by (intro sum_nonpos) simp
    with sum \<open>0 < ?W\<close> show False by simp
  qed
  have "(\<Sum>j < length ?ps. current_weight (peer_list g1 ! j)) = ?W - (\<Sum>j < length ?ps. if j = k then ?W else 0)"
    using step sum by (simp add: sum_subtractf flip: sum)
  moreover have "- ?W < current_weight (peer_list g1 ! j)" if "j < length ?ps" for j
  proof -
    have "- ?W < current_weight (?ps ! j)" using Cons.prems(2) that by (simp add: balanced_def)
    with step [OF that] pos [OF that] best show ?thesis by (cases "j = k") simp_all
  qed
  ultimately have "balanced g1" using k by (simp add: balanced_def len W)
  obtain ks1 where rest: "serve nows g1 = (ks1, g')" and ks: "ks = k # ks1"
    using Cons.prems(3) call by (auto split: prod.splits)
  from Cons.IH [OF h1 \<open>balanced g1\<close> rest] show ?case
    using k step by (auto simp: ks len W algebra_simps)
qed simp

subsection \<open>Invariants of the bookkeeping\<close>

definition weights_ok :: "peer \<Rightarrow> bool" where
  "weights_ok p \<longleftrightarrow> 0 \<le> effective_weight p \<and> effective_weight p \<le> weight p \<and> 0 \<le> max_fails p"

definition group_ok :: "peers \<Rightarrow> bool" where
  "group_ok g \<longleftrightarrow> list_all weights_ok (peer_list g)"

lemma weigh_peer_ok: "weights_ok p \<Longrightarrow> weights_ok (weigh_peer p)"
  by (auto simp: weights_ok_def weigh_peer_def)

lemma get_peer_ok:
  assumes "list_all weights_ok ps" "ngx_http_upstream_get_peer now tried ps = Some (k, tried', qs)"
  shows "list_all weights_ok qs"
proof -
  note spec = get_peer_Some [OF assms(2)]
  have "weights_ok (qs ! j)" if "j < length ps" for j
  proof -
    have "weights_ok (ps ! j)" "weights_ok (ps ! k)" using assms(1) that spec(1) by (simp_all add: list_all_length)
    with weigh_peer_ok show ?thesis
      unfolding spec(6) [OF that] visit_def pick_peer_def
      by (auto simp: weights_ok_def weigh_peer_def)
  qed
  with spec(4) show ?thesis by (simp add: list_all_length)
qed

lemma choose_peer_ok:
  assumes "group_ok g" "choose_peer now tried g = Some (k, tried', g')"
  shows "group_ok g'"
  using assms get_peer_ok by (auto simp: choose_peer_def group_ok_def Let_def split: if_splits)

lemma use_peer_ok: "group_ok g \<Longrightarrow> group_ok (use_peer k g)"
  by (cases "k < length (peer_list g)")
    (auto simp: group_ok_def use_peer_def list_all_length weights_ok_def nth_list_update)

lemma get_round_robin_ok:
  assumes "list_all group_ok gs" "ngx_http_upstream_get_round_robin_peer now tried gs = (rc, n, gs', tried', k)"
  shows "list_all group_ok gs'"
  using assms
proof (induction now tried gs arbitrary: n gs' rule: ngx_http_upstream_get_round_robin_peer.induct)
  case (2 now tried g gs)
  show ?case
  proof (cases "choose_peer now tried g")
    case None
    with 2 show ?thesis by (auto split: if_splits prod.splits)
  next
    case (Some r)
    with 2 choose_peer_ok [of g now tried] use_peer_ok show ?thesis by (cases r) auto
  qed
qed simp

lemma free_peer_ok:
  assumes "weights_ok p"
  shows "weights_ok (fst (ngx_http_upstream_free_round_robin_peer is_single now failed tries p))"
proof -
  have "0 \<le> weight p div max_fails p" if "0 < max_fails p"
    using assms that by (intro div_int_pos_iff [THEN iffD2]) (auto simp: weights_ok_def)
  with assms show ?thesis
    by (auto simp: ngx_http_upstream_free_round_robin_peer_def peer_failed_def weights_ok_def Let_def)
qed

subsection \<open>Properties\<close>

text \<open>
  Property C15: the balancer is fair.  While all peers of a group are healthy, as many requests as the
  weights sum up to are distributed so that every peer gets exactly as many as its weight, at
  whatever times they come, and afterwards the balancer is where it started.
\<close>

theorem round_robin_fair:
  assumes "group_healthy g" "list_all (\<lambda>p. current_weight p = 0) (peer_list g)"
    "int (length nows) = weight_sum (peer_list g)" "serve nows g = (ks, g')" "j < length (peer_list g)"
  shows "int (count_list ks j) = weight (peer_list g ! j) \<and> current_weight (peer_list g' ! j) = 0"
proof -
  let ?ps = "peer_list g" and ?W = "weight_sum (peer_list g)"
  have zero: "current_weight (?ps ! i) = 0" if "i < length ?ps" for i using assms(2) that by (simp add: list_all_length)
  have pos: "0 < weight (?ps ! i)" if "i < length ?ps" for i
    using assms(1) that by (auto simp: group_healthy_def list_all_length healthy_def)
  have W: "0 < ?W" unfolding weight_sum_def using assms(5) pos by (intro sum_pos) auto
  then have "balanced g" using zero by (simp add: balanced_def)
  note run = serve_run [OF assms(1) this assms(4)]
  have final: "current_weight (peer_list g' ! i) = ?W * (weight (?ps ! i) - int (count_list ks i))" if "i < length ?ps" for i
    using run that zero assms(3) by (simp add: algebra_simps)
  have le: "int (count_list ks i) \<le> weight (?ps ! i)" if "i < length ?ps" for i
  proof -
    have "- ?W < current_weight (peer_list g' ! i)" using run that unfolding balanced_def by metis
    then have "?W * (weight (?ps ! i) - int (count_list ks i)) > ?W * (- 1)" unfolding final [OF that] by simp
    then have "weight (?ps ! i) - int (count_list ks i) > - 1" using W by (simp only: mult_less_cancel_left_pos)
    then show ?thesis by simp
  qed
  have "(\<Sum>i < length ?ps. int (count_list ks i)) = ?W"
    using run assms(3) sum_count_set [of ks "{..<length ?ps}"] by (simp flip: of_nat_sum)
  then have "(\<Sum>i < length ?ps. weight (?ps ! i) - int (count_list ks i)) = 0"
    by (simp add: sum_subtractf weight_sum_def)
  then have "weight (?ps ! j) - int (count_list ks j) = 0"
    using sum_nonneg_eq_0_iff [of "{..<length ?ps}" "\<lambda>i. weight (?ps ! i) - int (count_list ks i)"] le assms(5) by simp
  with final [OF assms(5)] show ?thesis by simp
qed

definition example_peer :: "int \<Rightarrow> peer" where
  "example_peer w = \<lparr>current_weight = 0, effective_weight = w, weight = w, conns = 0, max_conns = 0, fails = 0,
     accessed = 0, checked = 0, max_fails = 1, fail_timeout = 10, down = False\<rparr>"

theorem round_robin_fair_witness:
  "\<exists>ks g'. serve [5, 6, 7] \<lparr>peer_list = [example_peer 2, example_peer 1], single = False\<rparr> = (ks, g') \<and>
     count_list ks 0 = 2 \<and> current_weight (peer_list g' ! 0) = 0"
proof -
  let ?g = "\<lparr>peer_list = [example_peer 2, example_peer 1], single = False\<rparr>"
  obtain ks g' where run: "serve [5, 6, 7] ?g = (ks, g')" by (cases "serve [5, 6, 7] ?g")
  have "int (count_list ks 0) = weight (peer_list ?g ! 0) \<and> current_weight (peer_list g' ! 0) = 0"
    by (rule round_robin_fair [OF _ _ _ run])
      (simp_all add: group_healthy_def healthy_def example_peer_def weight_sum_def lessThan_Suc)
  with run show ?thesis by (simp add: example_peer_def)
qed

text \<open>
  The peer that is chosen is not down, was not tried before by the request, is not
  temporarily disabled and has a connection left, no other such peer has a larger current weight, it
  is marked as tried; and when no peer is chosen there is no such peer.
\<close>

theorem round_robin_choice:
  "case ngx_http_upstream_get_peer now tried ps of
     None \<Rightarrow> list_all (\<lambda>j. skip_peer now tried j (ps ! j)) [0..<length ps]
   | Some (k, tried', qs) \<Rightarrow>
       k < length ps \<and> \<not> skip_peer now tried k (ps ! k) \<and> tried' = set_tried tried k \<and> length qs = length ps \<and>
       list_all (\<lambda>j. skip_peer now tried j (ps ! j) \<or>
         current_weight (weigh_peer (ps ! j)) \<le> current_weight (weigh_peer (ps ! k))) [0..<length ps]"
proof (cases "ngx_http_upstream_get_peer now tried ps")
  case None
  with get_peer_None [OF None] show ?thesis by (simp add: list_all_iff)
next
  case (Some r)
  obtain k tried' qs where r: "r = (k, tried', qs)" by (cases r)
  note spec = get_peer_Some [OF Some [unfolded r]]
  from spec(5) have "list_all (\<lambda>j. skip_peer now tried j (ps ! j) \<or>
      current_weight (weigh_peer (ps ! j)) \<le> current_weight (weigh_peer (ps ! k))) [0..<length ps]"
    unfolding list_all_iff by (metis atLeastLessThan_iff set_upt)
  with spec(1-4) Some r show ?thesis by simp
qed

text \<open>
  Effective weights stay between zero and the configured weight, whatever peers are
  chosen and released, with success or failure.
\<close>

theorem round_robin_weights:
  assumes "list_all group_ok gs" "weights_ok p"
  shows "(case ngx_http_upstream_get_round_robin_peer now tried gs of (rc, n, gs', tried', k) \<Rightarrow> list_all group_ok gs') \<and>
    weights_ok (fst (ngx_http_upstream_free_round_robin_peer is_single now failed tries p))"
  using get_round_robin_ok [OF assms(1)] free_peer_ok [OF assms(2)] by (auto split: prod.splits)

theorem round_robin_weights_witness:
  "weights_ok (fst (ngx_http_upstream_free_round_robin_peer False 7 True 3 (example_peer 2)))"
proof -
  have "list_all group_ok []" "weights_ok (example_peer 2)" by (simp_all add: weights_ok_def example_peer_def)
  from round_robin_weights [OF this] show ?thesis by blast
qed

end
