(* ===== verification/Ngx_Upstream_Next.thy ===== *)
theory Ngx_Upstream_Next
  imports Ngx_Upstream_Round_Robin
begin

text \<open>
  The attempts of one request: \<^verbatim>\<open>ngx_http_upstream_connect\<close> and \<^verbatim>\<open>ngx_http_upstream_next\<close> of
  \<^verbatim>\<open>src/http/ngx_http_upstream.c\<close> around the round robin balancer.  After a failed attempt the peer is released and the
  request goes on to another peer, until there are no tries left, the failure is not one the configuration passes
  on, or the time for it is over.  The lemmas show that a request moves through the groups of
  peers in one direction, gets no peer of a group with several peers twice, and which exception there is.
\<close>

subsection \<open>The next upstream\<close>

abbreviation NGX_HTTP_UPSTREAM_FT_ERROR :: uint64 where "NGX_HTTP_UPSTREAM_FT_ERROR \<equiv> 0x00000002"
abbreviation NGX_HTTP_UPSTREAM_FT_TIMEOUT :: uint64 where "NGX_HTTP_UPSTREAM_FT_TIMEOUT \<equiv> 0x00000004"
abbreviation NGX_HTTP_UPSTREAM_FT_HTTP_500 :: uint64 where "NGX_HTTP_UPSTREAM_FT_HTTP_500 \<equiv> 0x00000010"
abbreviation NGX_HTTP_UPSTREAM_FT_HTTP_503 :: uint64 where "NGX_HTTP_UPSTREAM_FT_HTTP_503 \<equiv> 0x00000040"
abbreviation NGX_HTTP_UPSTREAM_FT_HTTP_504 :: uint64 where "NGX_HTTP_UPSTREAM_FT_HTTP_504 \<equiv> 0x00000080"
abbreviation NGX_HTTP_UPSTREAM_FT_HTTP_403 :: uint64 where "NGX_HTTP_UPSTREAM_FT_HTTP_403 \<equiv> 0x00000100"
abbreviation NGX_HTTP_UPSTREAM_FT_HTTP_404 :: uint64 where "NGX_HTTP_UPSTREAM_FT_HTTP_404 \<equiv> 0x00000200"
abbreviation NGX_HTTP_UPSTREAM_FT_HTTP_429 :: uint64 where "NGX_HTTP_UPSTREAM_FT_HTTP_429 \<equiv> 0x00000400"
abbreviation NGX_HTTP_UPSTREAM_FT_NON_IDEMPOTENT :: uint64 where "NGX_HTTP_UPSTREAM_FT_NON_IDEMPOTENT \<equiv> 0x00004000"
abbreviation NGX_HTTP_UPSTREAM_FT_NOLIVE :: uint64 where "NGX_HTTP_UPSTREAM_FT_NOLIVE \<equiv> 0x40000000"

abbreviation NGX_HTTP_CLIENT_CLOSED_REQUEST :: nat where "NGX_HTTP_CLIENT_CLOSED_REQUEST \<equiv> 499"

record upstream_conf =
  next_upstream :: uint64
  next_upstream_timeout :: uint64

text \<open>
  What \<^verbatim>\<open>ngx_http_upstream_next\<close> finds when it is called: the kind of failure, the second in which the peer is released, whether the
  connection was a cached one of a keepalive cache (\<^verbatim>\<open>u->peer.cached\<close>), whether the client has gone
  (\<^verbatim>\<open>r->connection->error\<close>), whether the request has been sent, whether its method is \<^verbatim>\<open>POST\<close>, \<^verbatim>\<open>LOCK\<close> or \<^verbatim>\<open>PATCH\<close>, whether its body is
  not buffered, and the time in milliseconds.
\<close>

record upstream_failure =
  ft_type :: uint64
  release_time :: int
  cached :: bool
  client_error :: bool
  request_sent :: bool
  method_unsafe :: bool
  request_body_no_buffering :: bool
  current_msec :: uint64

definition next_status :: "uint64 \<Rightarrow> nat" where
  "next_status ft =
     (if ft = NGX_HTTP_UPSTREAM_FT_TIMEOUT \<or> ft = NGX_HTTP_UPSTREAM_FT_HTTP_504 then 504
      else if ft = NGX_HTTP_UPSTREAM_FT_HTTP_500 then 500
      else if ft = NGX_HTTP_UPSTREAM_FT_HTTP_503 then 503
      else if ft = NGX_HTTP_UPSTREAM_FT_HTTP_403 then 403
      else if ft = NGX_HTTP_UPSTREAM_FT_HTTP_404 then 404
      else if ft = NGX_HTTP_UPSTREAM_FT_HTTP_429 then 429
      else 502)"

text \<open>
  \<open>current\<close> is the peer in use, if there is one (\<^verbatim>\<open>u->peer.sockaddr\<close>), with the flag \<^verbatim>\<open>single\<close> of its group.  The results are
  the released peer, \<^verbatim>\<open>u->peer.tries\<close>, and the status with which the request is finalised, or \<open>None\<close> if the next
  upstream is connected.  Without a cached response (\<^verbatim>\<open>NGX_HTTP_CACHE\<close>) there is no other end.
\<close>

definition ngx_http_upstream_next ::
  "upstream_conf \<Rightarrow> uint64 \<Rightarrow> upstream_failure \<Rightarrow> (bool \<times> peer) option \<Rightarrow> nat \<Rightarrow> peer option \<times> nat \<times> nat option" where
  "ngx_http_upstream_next conf start_time f current tries =
     (let ft = ft_type f;
          (released, tries) =
            (case current of
               None \<Rightarrow> (None, tries)
             | Some (is_single, p) \<Rightarrow>
                 (case ngx_http_upstream_free_round_robin_peer is_single (release_time f)
                     (\<not> (ft = NGX_HTTP_UPSTREAM_FT_HTTP_403 \<or> ft = NGX_HTTP_UPSTREAM_FT_HTTP_404)) tries p of
                    (p', tries') \<Rightarrow> (Some p', tries')));
          tries = (if cached f \<and> ft = NGX_HTTP_UPSTREAM_FT_ERROR then tries + 1 else tries);
          status = next_status ft;
          ft = (if request_sent f \<and> method_unsafe f then ft OR NGX_HTTP_UPSTREAM_FT_NON_IDEMPOTENT else ft)
      in (released, tries,
          if client_error f then Some NGX_HTTP_CLIENT_CLOSED_REQUEST
          else if tries = 0 \<or> next_upstream conf AND ft \<noteq> ft \<or> (request_sent f \<and> request_body_no_buffering f) \<or>
            (next_upstream_timeout conf \<noteq> 0 \<and> current_msec f - start_time \<ge> next_upstream_timeout conf)
          then Some status
          else None))"

text \<open>
  The bitmap of a new request (\<^verbatim>\<open>ngx_http_upstream_init_round_robin_peer\<close>): it has a bit for every peer of the first group and of the
  backup group.
\<close>

definition init_tried :: "peers list \<Rightarrow> uint64 list" where
  "init_tried gs =
     (let n = length (peer_list (hd gs));
          n = (if tl gs \<noteq> [] \<and> length (peer_list (hd (tl gs))) > n then length (peer_list (hd (tl gs))) else n)
      in if n \<le> 64 then [0] else replicate (tried_words n) 0)"

text \<open>
  The attempts of a request.  In each, the balancer is asked at some time and finds the groups as all other requests have left
  them, and then the response comes (\<open>answered\<close>) or the attempt fails in the way that is seen.
\<close>

record attempt =
  get_time :: int
  get_groups :: "peers list"
  answered :: bool
  seen :: upstream_failure

text \<open>
  \<open>gi\<close> is the position of \<^verbatim>\<open>rrp->peers\<close> in the list of groups.  The result is the list of the peers the request gets, each by
  the position of its group and its own in the group.  Without a usable peer \<^verbatim>\<open>ngx_http_upstream_connect\<close> passes
  \<^verbatim>\<open>NGX_HTTP_UPSTREAM_FT_NOLIVE\<close> on.
\<close>

fun request_peers ::
  "upstream_conf \<Rightarrow> uint64 \<Rightarrow> nat \<Rightarrow> uint64 list \<Rightarrow> nat \<Rightarrow> attempt list \<Rightarrow> (nat \<times> nat) list" where
  "request_peers conf start_time gi tried tries [] = []"
| "request_peers conf start_time gi tried tries (x # xs) =
     (case ngx_http_upstream_get_round_robin_peer (get_time x) tried (drop gi (get_groups x)) of
        (rc, n, gs, tried', None) \<Rightarrow>
          (case ngx_http_upstream_next conf start_time
                  ((seen x)\<lparr>ft_type := NGX_HTTP_UPSTREAM_FT_NOLIVE, cached := False\<rparr>) None tries of
             (released, tries', None) \<Rightarrow> request_peers conf start_time (gi + n) tried' tries' xs
           | (released, tries', Some status) \<Rightarrow> [])
      | (rc, n, gs, tried', Some k) \<Rightarrow>
          (gi + n, k) #
          (if answered x then []
           else
             case ngx_http_upstream_next conf start_time (seen x)
                    (Some (single (gs ! n), peer_list (gs ! n) ! k)) tries of
               (released, tries', None) \<Rightarrow> request_peers conf start_time (gi + n) tried' tries' xs
             | (released, tries', Some status) \<Rightarrow> []))"

subsection \<open>The groups\<close>

text \<open>What other requests do not change of a group.\<close>

definition group_shape :: "peers \<Rightarrow> nat \<times> bool" where
  "group_shape g = (length (peer_list g), single g)"

text \<open>The groups of an upstream: one, or one and its backup; a group that is marked as single has one peer.\<close>

definition groups_ok :: "peers list \<Rightarrow> bool" where
  "groups_ok gs \<longleftrightarrow> (length gs = 1 \<or> length gs = 2) \<and> list_all (\<lambda>g. single g \<longrightarrow> length (peer_list g) = 1) gs"

text \<open>The bitmap has a bit for every peer.\<close>

definition room_for :: "uint64 list \<Rightarrow> peers list \<Rightarrow> bool" where
  "room_for tried gs \<longleftrightarrow> list_all (\<lambda>g. length (peer_list g) \<le> 64 * length tried) gs"

lemma tried_words_le: "n \<le> 64 * m \<Longrightarrow> tried_words n \<le> m"
  unfolding tried_words_def by linarith

lemma tried_words_ge: "n \<le> m \<Longrightarrow> n \<le> 64 * tried_words m"
  unfolding tried_words_def by linarith

lemma init_tried_room:
  assumes "groups_ok gs"
  shows "room_for (init_tried gs) gs"
proof -
  from assms consider g where "gs = [g]" | g b where "gs = [g, b]"
    by (auto simp: groups_ok_def length_Suc_conv numeral_2_eq_2)
  then show ?thesis by cases (auto simp: room_for_def init_tried_def Let_def intro!: tried_words_ge)
qed

lemma room_for_shape: "map group_shape gs = map group_shape hs \<Longrightarrow> room_for tried gs = room_for tried hs"
proof -
  have "room_for tried gs \<longleftrightarrow> list_all (\<lambda>(n, b). n \<le> 64 * length tried) (map group_shape gs)" for gs
    by (simp add: room_for_def group_shape_def list.pred_map comp_def)
  then show "map group_shape gs = map group_shape hs \<Longrightarrow> ?thesis" by metis
qed

lemma reset_tried_length:
  "n \<le> 64 * length tried \<Longrightarrow> length (reset_tried tried n) = length tried"
  using tried_words_le [of n "length tried"] by (simp add: reset_tried_def)

subsection \<open>One call of the balancer\<close>

lemma choose_peer_Some:
  assumes "choose_peer now tried g = Some (k, tried', g')" "length (peer_list g) \<le> 64 * length tried"
    "single g \<longrightarrow> length (peer_list g) = 1"
  shows "k < length (peer_list g)" "length tried' = length tried" "group_shape g' = group_shape g"
    "\<And>j. tried_bit tried j \<Longrightarrow> tried_bit tried' j"
    "\<not> single g \<Longrightarrow> \<not> tried_bit tried k \<and> tried_bit tried' k"
proof -
  have "k < length (peer_list g) \<and> length tried' = length tried \<and> group_shape g' = group_shape g \<and>
    (\<forall>j. tried_bit tried j \<longrightarrow> tried_bit tried' j) \<and> (\<not> single g \<longrightarrow> \<not> tried_bit tried k \<and> tried_bit tried' k)"
  proof (cases "single g")
    case True
    with assms show ?thesis by (auto simp: choose_peer_def Let_def split: if_splits)
  next
    case False
    then obtain qs where pick: "ngx_http_upstream_get_peer now tried (peer_list g) = Some (k, tried', qs)"
      and g': "g' = g\<lparr>peer_list := qs\<rparr>"
      using assms(1) by (auto simp: choose_peer_def)
    note spec = get_peer_Some [OF pick]
    have "k < 64 * length tried" using spec(1) assms(2) by simp
    then have "k div 64 < length tried" by (simp add: less_mult_imp_div_less mult.commute)
    from tried_bit_set [OF this] spec(1-4) show ?thesis
      by (auto simp: g' group_shape_def skip_peer_def set_tried_def [of tried k])
  qed
  then show "k < length (peer_list g)" "length tried' = length tried" "group_shape g' = group_shape g"
    "\<And>j. tried_bit tried j \<Longrightarrow> tried_bit tried' j"
    "\<not> single g \<Longrightarrow> \<not> tried_bit tried k \<and> tried_bit tried' k" by auto
qed

text \<open>
  The contract of the entry point: \<open>n\<close> groups are passed over; the peer comes from the group that is reached; in a group
  with several peers it had not been tried and is marked, and the marks of a group stay while it is in use.
\<close>

definition balancer_step ::
  "uint64 list \<Rightarrow> peers list \<Rightarrow> nat \<Rightarrow> peers list \<Rightarrow> uint64 list \<Rightarrow> nat option \<Rightarrow> bool" where
  "balancer_step tried gs n gs' tried' pick \<longleftrightarrow>
     n < length gs \<and> length tried' = length tried \<and>
     (n = 0 \<longrightarrow> (\<forall>j. tried_bit tried j \<longrightarrow> tried_bit tried' j)) \<and>
     (case pick of
        None \<Rightarrow> True
      | Some k \<Rightarrow> k < length (peer_list (gs ! n)) \<and> single (gs' ! n) = single (gs ! n) \<and>
          (\<not> single (gs ! n) \<longrightarrow> (n = 0 \<longrightarrow> \<not> tried_bit tried k) \<and> tried_bit tried' k))"

lemma get_round_robin_step:
  assumes "ngx_http_upstream_get_round_robin_peer now tried gs = (rc, n, gs', tried', pick)" "gs \<noteq> []"
    "room_for tried gs" "list_all (\<lambda>g. single g \<longrightarrow> length (peer_list g) = 1) gs"
  shows "balancer_step tried gs n gs' tried' pick"
  using assms
proof (induction now tried gs arbitrary: rc n gs' tried' pick rule: ngx_http_upstream_get_round_robin_peer.induct)
  case (2 now tried g gs)
  have g: "length (peer_list g) \<le> 64 * length tried" "single g \<longrightarrow> length (peer_list g) = 1"
    using 2 by (simp_all add: room_for_def)
  show ?case
  proof (cases "choose_peer now tried g")
    case (Some r)
    obtain k t' g' where r: "r = (k, t', g')" by (cases r)
    note c = choose_peer_Some [OF Some [unfolded r] g]
    have "single (use_peer k g') = single g" using c(3) by (simp add: use_peer_def group_shape_def)
    with 2 c Some r show ?thesis by (auto simp: balancer_step_def)
  next
    case None
    show ?thesis
    proof (cases "gs = []")
      case True
      with None 2 show ?thesis by (auto simp: balancer_step_def)
    next
      case False
      let ?t = "reset_tried tried (length (peer_list (hd gs)))"
      have len: "length ?t = length tried"
        using "2.prems"(3) False by (intro reset_tried_length) (cases gs; simp add: room_for_def)
      obtain m hs where rec: "ngx_http_upstream_get_round_robin_peer now ?t gs = (rc, m, hs, tried', pick)"
        and res: "n = Suc m" "gs' = g # hs"
        using "2.prems"(1) None False by (auto split: prod.splits)
      have "balancer_step ?t gs m hs tried' pick"
        by (rule "2.IH" [OF None False rec False]) (use "2.prems" len in \<open>simp_all add: room_for_def\<close>)
      with res len show ?thesis by (auto simp: balancer_step_def split: option.splits)
    qed
  qed
qed simp

subsection \<open>All attempts of a request\<close>

lemma next_tries:
  assumes "ngx_http_upstream_next conf start_time f current tries = (released, tries', fin)"
  shows "tries' = (case current of None \<Rightarrow> tries | Some (is_single, p) \<Rightarrow> if is_single then 0 else tries - 1) +
      (if cached f \<and> ft_type f = NGX_HTTP_UPSTREAM_FT_ERROR then 1 else 0)"
    "fin = None \<Longrightarrow> tries' \<noteq> 0"
  using assms
  by (auto simp: ngx_http_upstream_next_def ngx_http_upstream_free_round_robin_peer_def Let_def split: option.splits if_splits prod.splits)

definition cached_error :: "attempt \<Rightarrow> bool" where
  "cached_error x \<longleftrightarrow> cached (seen x) \<and> ft_type (seen x) = NGX_HTTP_UPSTREAM_FT_ERROR"

text \<open>The peers a request can still get in the group \<open>gi\<close> with the bitmap \<open>tried\<close>.\<close>

definition still_free :: "peers list \<Rightarrow> nat \<Rightarrow> uint64 list \<Rightarrow> nat \<times> nat \<Rightarrow> bool" where
  "still_free gs gi tried p \<longleftrightarrow>
     gi \<le> fst p \<and> fst p < length gs \<and> snd p < length (peer_list (gs ! fst p)) \<and>
     (fst p = gi \<and> \<not> single (gs ! gi) \<longrightarrow> \<not> tried_bit tried (snd p))"

definition picks_ok :: "peers list \<Rightarrow> nat \<Rightarrow> uint64 list \<Rightarrow> (nat \<times> nat) list \<Rightarrow> bool" where
  "picks_ok gs gi tried ps \<longleftrightarrow>
     list_all (still_free gs gi tried) ps \<and> sorted (map fst ps) \<and> distinct (filter (\<lambda>p. \<not> single (gs ! fst p)) ps)"

text \<open>A peer of a later call was not marked before, and is none of the peers of the call itself.\<close>

lemma still_free_step:
  assumes "balancer_step tried (drop gi gs) n hs tried' pick" "still_free gs (gi + n) tried' p"
  shows "still_free gs gi tried p"
    and "pick = Some k \<Longrightarrow> \<not> single (gs ! (gi + n)) \<Longrightarrow> p \<noteq> (gi + n, k)"
  using assms by (auto simp: balancer_step_def still_free_def split: option.splits)

lemma pick_free:
  assumes "balancer_step tried (drop gi gs) n hs tried' (Some k)"
  shows "still_free gs gi tried (gi + n, k)"
  using assms by (auto simp: balancer_step_def still_free_def)

lemma picks_ok_later:
  assumes "balancer_step tried (drop gi gs) n hs tried' pick" "picks_ok gs (gi + n) tried' ps"
  shows "picks_ok gs gi tried ps"
  using assms(2) still_free_step(1) [OF assms(1)] by (auto simp: picks_ok_def list_all_iff)

lemma picks_ok_Cons:
  assumes step: "balancer_step tried (drop gi gs) n hs tried' (Some k)" and rest: "picks_ok gs (gi + n) tried' ps"
  shows "picks_ok gs gi tried ((gi + n, k) # ps)"
    and "\<not> single (gs ! (gi + n)) \<Longrightarrow> (gi + n, k) \<notin> set ps"
proof -
  have free: "still_free gs (gi + n) tried' p" if "p \<in> set ps" for p using rest that by (simp add: picks_ok_def list_all_iff)
  show new: "(gi + n, k) \<notin> set ps" if "\<not> single (gs ! (gi + n))"
    using still_free_step(2) [OF step free _ that] by blast
  have "gi + n \<le> fst p" if "p \<in> set ps" for p using free [OF that] by (simp add: still_free_def)
  with picks_ok_later [OF step rest] pick_free [OF step] new show "picks_ok gs gi tried ((gi + n, k) # ps)"
    by (auto simp: picks_ok_def)
qed

lemma balancer_step_shape:
  assumes "map group_shape gs = map group_shape hs" "balancer_step tried gs n gs' tried' pick"
  shows "balancer_step tried hs n gs' tried' pick"
proof -
  have len: "length hs = length gs" using assms(1) map_eq_imp_length_eq by metis
  have "n < length gs" using assms(2) by (simp add: balancer_step_def)
  then have "group_shape (hs ! n) = group_shape (gs ! n)" using assms(1) len by (metis nth_map)
  with assms(2) len show ?thesis by (auto simp: balancer_step_def group_shape_def split: option.splits)
qed

text \<open>One attempt, with the groups as it finds them: the contract holds for the groups of the upstream.\<close>

lemma attempt_step:
  assumes call: "ngx_http_upstream_get_round_robin_peer now tried (drop gi hs) = (rc, n, gs', tried', pick)"
    and shape: "map group_shape hs = map group_shape gs" and gi: "gi < length gs" and room: "room_for tried gs"
    and one: "list_all (\<lambda>g. single g \<longrightarrow> length (peer_list g) = 1) gs"
  shows "balancer_step tried (drop gi gs) n gs' tried' pick" "gi + n < length gs" "room_for tried' gs"
proof -
  have len: "length hs = length gs" using shape map_eq_imp_length_eq by metis
  have shape': "map group_shape (drop gi hs) = map group_shape (drop gi gs)" using shape by (metis drop_map)
  have single_one: "list_all (\<lambda>g. single g \<longrightarrow> length (peer_list g) = 1) l \<longleftrightarrow> list_all (\<lambda>(k, b). b \<longrightarrow> k = 1) (map group_shape l)" for l
    by (simp add: group_shape_def list.pred_map comp_def)
  have "room_for tried hs" using room room_for_shape [OF shape] by blast
  then have "room_for tried (drop gi hs)" unfolding room_for_def by (meson in_set_dropD list_all_iff)
  moreover have "list_all (\<lambda>g. single g \<longrightarrow> length (peer_list g) = 1) (drop gi hs)"
    using one unfolding single_one shape [symmetric] by (metis (no_types, lifting) drop_map in_set_dropD list_all_iff)
  ultimately have "balancer_step tried (drop gi hs) n gs' tried' pick"
    using get_round_robin_step [OF call] gi len by simp
  from balancer_step_shape [OF shape' this] show step: "balancer_step tried (drop gi gs) n gs' tried' pick" .
  from step gi show "gi + n < length gs" by (auto simp: balancer_step_def)
  from step room show "room_for tried' gs" by (simp add: balancer_step_def room_for_def)
qed

lemma request_peers_ok:
  assumes "list_all (\<lambda>x. map group_shape (get_groups x) = map group_shape gs) xs" "gi < length gs" "room_for tried gs"
    "list_all (\<lambda>g. single g \<longrightarrow> length (peer_list g) = 1) gs"
  shows "picks_ok gs gi tried (request_peers conf start_time gi tried tries xs) \<and>
    (list_all (\<lambda>x. \<not> cached_error x) xs \<longrightarrow>
       distinct (request_peers conf start_time gi tried tries xs) \<and>
       length (request_peers conf start_time gi tried tries xs) \<le> max 1 tries)"
  using assms
proof (induction xs arbitrary: gi tried tries)
  case (Cons x xs)
  obtain rc n gs' tried' pick where
    call: "ngx_http_upstream_get_round_robin_peer (get_time x) tried (drop gi (get_groups x)) = (rc, n, gs', tried', pick)"
    by (metis prod_cases5)
  have shape: "map group_shape (get_groups x) = map group_shape gs" using Cons.prems(1) by simp
  note step = attempt_step [OF call shape Cons.prems(2-4)]
  have rest: "picks_ok gs (gi + n) tried' (request_peers conf start_time (gi + n) tried' t xs) \<and>
    (list_all (\<lambda>x. \<not> cached_error x) xs \<longrightarrow> distinct (request_peers conf start_time (gi + n) tried' t xs) \<and>
       length (request_peers conf start_time (gi + n) tried' t xs) \<le> max 1 t)" for t
    using Cons.IH [OF _ step(2,3) Cons.prems(4)] Cons.prems(1) by simp
  have none: "picks_ok gs i t []" for i t by (simp add: picks_ok_def)
  show ?case
  proof (cases pick)
    case None
    obtain released tries' fin where nxt: "ngx_http_upstream_next conf start_time
        ((seen x)\<lparr>ft_type := NGX_HTTP_UPSTREAM_FT_NOLIVE, cached := False\<rparr>) None tries = (released, tries', fin)"
      by (metis prod_cases3)
    have "tries' = tries" using next_tries(1) [OF nxt] by simp
    with picks_ok_later [OF step(1)] rest none show ?thesis by (cases fin) (simp_all add: call None nxt)
  next
    case (Some k)
    obtain released tries' fin where nxt: "ngx_http_upstream_next conf start_time (seen x)
        (Some (single (gs' ! n), peer_list (gs' ! n) ! k)) tries = (released, tries', fin)"
      by (metis prod_cases3)
    define ps where "ps = (if answered x \<or> fin \<noteq> None then [] else request_peers conf start_time (gi + n) tried' tries' xs)"
    have run: "request_peers conf start_time gi tried tries (x # xs) = (gi + n, k) # ps"
      by (cases fin) (simp_all add: call Some nxt ps_def)
    have "picks_ok gs (gi + n) tried' ps" using rest none by (simp add: ps_def)
    note picks = picks_ok_Cons [OF step(1) [unfolded Some] this]
    have "distinct ((gi + n, k) # ps) \<and> Suc (length ps) \<le> max 1 tries" if calm: "list_all (\<lambda>x. \<not> cached_error x) (x # xs)"
    proof (cases "ps = []")
      case False
      then have "tries' \<noteq> 0" using next_tries(2) [OF nxt] by (auto simp: ps_def split: if_splits)
      moreover have "tries' = (if single (gs ! (gi + n)) then 0 else tries - 1)"
        using next_tries(1) [OF nxt] calm step(1) Some by (auto simp: cached_error_def balancer_step_def)
      ultimately show ?thesis
        using False picks(2) rest [of tries'] calm by (auto simp: ps_def split: if_splits)
    qed simp
    with picks(1) show ?thesis unfolding run by simp
  qed
qed (simp add: picks_ok_def)

subsection \<open>Properties\<close>

text \<open>
  Property C27: the peers one request gets, over all its attempts and whatever other requests do to the peers in between, are
  peers of the upstream; the request never goes back from the backup group; it never gets a peer of a
  group twice that is not marked as single (one with several peers, or with a backup), not even after an error on a cached connection, which gives the try
  back; and without such an error it gets no peer twice at all, and at most as many peers as it has tries, or one if it
  has no tries.
\<close>

theorem round_robin_each_once:
  assumes "groups_ok gs" "list_all (\<lambda>x. map group_shape (get_groups x) = map group_shape gs) xs"
    "request_peers conf start_time 0 (init_tried gs) tries xs = picks"
  shows "list_all (\<lambda>(i, k). i < length gs \<and> k < length (peer_list (gs ! i))) picks \<and>
    sorted (map fst picks) \<and>
    distinct (filter (\<lambda>(i, k). \<not> single (gs ! i)) picks) \<and>
    (list_all (\<lambda>x. \<not> cached_error x) xs \<longrightarrow> distinct picks \<and> length picks \<le> max 1 tries)"
proof -
  have "0 < length gs" "list_all (\<lambda>g. single g \<longrightarrow> length (peer_list g) = 1) gs" using assms(1) by (auto simp: groups_ok_def)
  note ok = request_peers_ok [OF assms(2) this(1) init_tried_room [OF assms(1)] this(2), of conf start_time tries, unfolded assms(3)]
  then show ?thesis by (auto simp: picks_ok_def still_free_def list_all_iff case_prod_unfold)
qed

text \<open>A group of two peers with a backup; the first attempt fails, so does the second, and the backup answers.\<close>

definition passing_conf :: upstream_conf where
  "passing_conf = \<lparr>next_upstream = NGX_HTTP_UPSTREAM_FT_ERROR OR NGX_HTTP_UPSTREAM_FT_TIMEOUT, next_upstream_timeout = 0\<rparr>"

definition connect_error :: "bool \<Rightarrow> upstream_failure" where
  "connect_error on_cached = \<lparr>ft_type = NGX_HTTP_UPSTREAM_FT_ERROR, release_time = 1, cached = on_cached, client_error = False,
     request_sent = False, method_unsafe = False, request_body_no_buffering = False, current_msec = 0\<rparr>"

definition backed_up :: "peers list" where
  "backed_up = [\<lparr>peer_list = [example_peer 2, example_peer 1], single = False\<rparr>, \<lparr>peer_list = [example_peer 1], single = False\<rparr>]"

definition attempts :: "bool \<Rightarrow> peers list \<Rightarrow> attempt list" where
  "attempts on_cached gs = replicate 4 \<lparr>get_time = 1, get_groups = gs, answered = False, seen = connect_error on_cached\<rparr>"

lemma backed_up_run: "request_peers passing_conf 0 0 (init_tried backed_up) 3 (attempts False backed_up) = [(0, 0), (0, 1), (1, 0)]"
  by code_simp

theorem round_robin_each_once_witness:
  "distinct (request_peers passing_conf 0 0 (init_tried backed_up) 3 (attempts False backed_up)) \<and>
   request_peers passing_conf 0 0 (init_tried backed_up) 3 (attempts False backed_up) = [(0, 0), (0, 1), (1, 0)]"
proof -
  have "groups_ok backed_up" by (simp add: groups_ok_def backed_up_def)
  moreover have "list_all (\<lambda>x. map group_shape (get_groups x) = map group_shape backed_up) (attempts False backed_up)"
    "list_all (\<lambda>x. \<not> cached_error x) (attempts False backed_up)"
    by (simp_all add: attempts_def list_all_iff cached_error_def connect_error_def)
  ultimately show ?thesis using round_robin_each_once [OF _ _ backed_up_run] backed_up_run by simp
qed

text \<open>
  The exception: a group with a single peer has no bitmap, and an error on a cached connection gives the try back, so the request
  gets the same peer again, as often as there are such connections.
\<close>

lemma single_peer_retried:
  "request_peers passing_conf 0 0 (init_tried [\<lparr>peer_list = [example_peer 1], single = True\<rparr>]) 1
     (attempts True [\<lparr>peer_list = [example_peer 1], single = True\<rparr>]) = [(0, 0), (0, 0), (0, 0), (0, 0)]"
  by code_simp

end
