(* ===== verification/Ngx_Rwlock.thy ===== *)
theory Ngx_Rwlock
  imports Ngx_Prelude
begin

text \<open>
  The reader-writer lock of \<^verbatim>\<open>src/core/ngx_rwlock.c\<close>, used by the processes that share the peers of an
  upstream.  Every access to the lock word is a step of its own, so a process can be interrupted
  between reading the word and the compare-and-set; pausing and yielding do not touch the word and
  are not steps.  The main lemma is mutual exclusion for any number of processes that cannot
  overflow the word.
\<close>

subsection \<open>The processes\<close>

definition NGX_RWLOCK_WLOCK :: uint64 where
  "NGX_RWLOCK_WLOCK = - 1"

text \<open>What a process holds; the code itself does not record it, only the lock word does.\<close>

datatype holding = Reader | Writer

datatype rw_pc =
  Idle
| Wlock_test | Wlock_cas
| Rlock_load | Rlock_cas uint64
| Held holding
| Unlock_test holding | Unlock_cas holding | Unlock_add holding
| Downgrade_test holding | Downgrade_store holding

text \<open>What a process does when it is free to choose.\<close>

datatype rw_call = Call_wlock | Call_rlock | Call_unlock | Call_downgrade

text \<open>One step of each function: the lock word and the program counter before and after.\<close>

fun ngx_rwlock_wlock :: "uint64 \<Rightarrow> rw_pc \<Rightarrow> uint64 \<times> rw_pc" where
  "ngx_rwlock_wlock lock Wlock_test = (lock, if lock = 0 then Wlock_cas else Wlock_test)"
| "ngx_rwlock_wlock lock Wlock_cas =
     (case ngx_atomic_cmp_set lock 0 NGX_RWLOCK_WLOCK of
        (lock', ok) \<Rightarrow> (lock', if ok then Held Writer else Wlock_test))"
| "ngx_rwlock_wlock lock pc = (lock, pc)"

fun ngx_rwlock_rlock :: "uint64 \<Rightarrow> rw_pc \<Rightarrow> uint64 \<times> rw_pc" where
  "ngx_rwlock_rlock lock Rlock_load = (lock, if lock \<noteq> NGX_RWLOCK_WLOCK then Rlock_cas lock else Rlock_load)"
| "ngx_rwlock_rlock lock (Rlock_cas readers) =
     (case ngx_atomic_cmp_set lock readers (readers + 1) of
        (lock', ok) \<Rightarrow> (lock', if ok then Held Reader else Rlock_load))"
| "ngx_rwlock_rlock lock pc = (lock, pc)"

fun ngx_rwlock_unlock :: "uint64 \<Rightarrow> rw_pc \<Rightarrow> uint64 \<times> rw_pc" where
  "ngx_rwlock_unlock lock (Unlock_test h) =
     (lock, if lock = NGX_RWLOCK_WLOCK then Unlock_cas h else Unlock_add h)"
| "ngx_rwlock_unlock lock (Unlock_cas h) = (fst (ngx_atomic_cmp_set lock NGX_RWLOCK_WLOCK 0), Idle)"
| "ngx_rwlock_unlock lock (Unlock_add h) = (lock + (- 1), Idle)"
| "ngx_rwlock_unlock lock pc = (lock, pc)"

fun ngx_rwlock_downgrade :: "uint64 \<Rightarrow> rw_pc \<Rightarrow> uint64 \<times> rw_pc" where
  "ngx_rwlock_downgrade lock (Downgrade_test h) =
     (lock, if lock = NGX_RWLOCK_WLOCK then Downgrade_store h else Held h)"
| "ngx_rwlock_downgrade lock (Downgrade_store h) = (1, Held Reader)"
| "ngx_rwlock_downgrade lock pc = (lock, pc)"

text \<open>A process that is in no function calls one; a lock is released or downgraded only by a holder.\<close>

fun rw_enter :: "rw_call \<Rightarrow> rw_pc \<Rightarrow> rw_pc" where
  "rw_enter Call_wlock Idle = Wlock_test"
| "rw_enter Call_rlock Idle = Rlock_load"
| "rw_enter Call_unlock (Held h) = Unlock_test h"
| "rw_enter Call_downgrade (Held h) = Downgrade_test h"
| "rw_enter c pc = pc"

definition rw_process :: "rw_call \<Rightarrow> uint64 \<Rightarrow> rw_pc \<Rightarrow> uint64 \<times> rw_pc" where
  "rw_process c lock pc =
     (case pc of
        Idle \<Rightarrow> (lock, rw_enter c pc)
      | Held h \<Rightarrow> (lock, rw_enter c pc)
      | Wlock_test \<Rightarrow> ngx_rwlock_wlock lock pc
      | Wlock_cas \<Rightarrow> ngx_rwlock_wlock lock pc
      | Rlock_load \<Rightarrow> ngx_rwlock_rlock lock pc
      | Rlock_cas r \<Rightarrow> ngx_rwlock_rlock lock pc
      | Unlock_test h \<Rightarrow> ngx_rwlock_unlock lock pc
      | Unlock_cas h \<Rightarrow> ngx_rwlock_unlock lock pc
      | Unlock_add h \<Rightarrow> ngx_rwlock_unlock lock pc
      | Downgrade_test h \<Rightarrow> ngx_rwlock_downgrade lock pc
      | Downgrade_store h \<Rightarrow> ngx_rwlock_downgrade lock pc)"

record rw_state =
  rw_lock :: uint64
  rw_pcs :: "rw_pc list"

text \<open>A step of the system: one process, any of them, makes one step.\<close>

inductive rw_step :: "rw_state \<Rightarrow> rw_state \<Rightarrow> bool" where
  rw_move: "i < length (rw_pcs s) \<Longrightarrow> rw_process c (rw_lock s) (rw_pcs s ! i) = (lock, pc) \<Longrightarrow>
     rw_step s \<lparr>rw_lock = lock, rw_pcs = (rw_pcs s)[i := pc]\<rparr>"

inductive_cases rw_stepE: "rw_step s s'"

definition rw_init :: "nat \<Rightarrow> rw_state \<Rightarrow> bool" where
  "rw_init n s \<longleftrightarrow> rw_lock s = 0 \<and> rw_pcs s = replicate n Idle"

subsection \<open>The invariant\<close>

fun holds :: "rw_pc \<Rightarrow> holding option" where
  "holds (Held h) = Some h"
| "holds (Unlock_test h) = Some h"
| "holds (Unlock_cas h) = Some h"
| "holds (Unlock_add h) = Some h"
| "holds (Downgrade_test h) = Some h"
| "holds (Downgrade_store h) = Some h"
| "holds _ = None"

definition holders :: "holding \<Rightarrow> rw_state \<Rightarrow> nat" where
  "holders h s = length (filter (\<lambda>pc. holds pc = Some h) (rw_pcs s))"

text \<open>A process acts on what it saw of the word; a holder finds the word as its kind of lock made it.\<close>

fun pc_ok :: "rw_pc \<Rightarrow> bool" where
  "pc_ok (Rlock_cas readers) \<longleftrightarrow> readers \<noteq> NGX_RWLOCK_WLOCK"
| "pc_ok (Unlock_cas h) \<longleftrightarrow> h = Writer"
| "pc_ok (Unlock_add h) \<longleftrightarrow> h = Reader"
| "pc_ok (Downgrade_store h) \<longleftrightarrow> h = Writer"
| "pc_ok _ \<longleftrightarrow> True"

definition lock_value :: "nat \<Rightarrow> nat \<Rightarrow> uint64" where
  "lock_value w r = (if w = 0 then of_nat r else NGX_RWLOCK_WLOCK)"

definition rw_inv :: "nat \<Rightarrow> rw_state \<Rightarrow> bool" where
  "rw_inv n s \<longleftrightarrow>
     length (rw_pcs s) = n \<and> list_all pc_ok (rw_pcs s) \<and>
     rw_lock s = lock_value (holders Writer s) (holders Reader s) \<and>
     holders Writer s \<le> 1 \<and> (holders Writer s = 0 \<or> holders Reader s = 0)"

lemma unat_WLOCK: "unat NGX_RWLOCK_WLOCK = 2 ^ 64 - 1"
  by (simp add: NGX_RWLOCK_WLOCK_def unsigned_minus_1_eq_mask mask_eq_exp_minus_1)

lemma reader_word:
  assumes "r \<le> n" "n < 2 ^ 64 - 1"
  shows "(of_nat r :: uint64) \<noteq> NGX_RWLOCK_WLOCK" "(of_nat r :: uint64) = 0 \<longleftrightarrow> r = 0"
proof -
  have "unat (of_nat r :: uint64) = r" using assms by (simp add: unat_of_nat)
  then show "(of_nat r :: uint64) \<noteq> NGX_RWLOCK_WLOCK" "(of_nat r :: uint64) = 0 \<longleftrightarrow> r = 0"
    using assms unat_WLOCK by (auto simp: unat_eq_0 [symmetric])
qed

lemma WLOCK_not_0: "NGX_RWLOCK_WLOCK \<noteq> 0"
  by (simp add: NGX_RWLOCK_WLOCK_def)

text \<open>The bookkeeping of one step, on the numbers of holders: what the process gives up and what it gets.\<close>

definition holder_counts :: "nat \<Rightarrow> uint64 \<Rightarrow> nat \<Rightarrow> nat \<Rightarrow> bool" where
  "holder_counts n lock w r \<longleftrightarrow> lock = lock_value w r \<and> w \<le> 1 \<and> (w = 0 \<or> r = 0)"

lemma rw_process_counts:
  assumes counts: "holder_counts n lock w r" and n: "r \<le> n" "n < 2 ^ 64 - 1"
    and pc: "pc_ok pc" "of_bool (holds pc = Some Writer) \<le> w" "of_bool (holds pc = Some Reader) \<le> r"
    and step: "rw_process c lock pc = (lock', pc')"
  shows "pc_ok pc' \<and>
     holder_counts n lock' (w - of_bool (holds pc = Some Writer) + of_bool (holds pc' = Some Writer))
       (r - of_bool (holds pc = Some Reader) + of_bool (holds pc' = Some Reader))"
proof -
  note word = reader_word [OF n] WLOCK_not_0 WLOCK_not_0 [symmetric]
  note simps = rw_process_def holder_counts_def lock_value_def ngx_atomic_cmp_set_def
  show ?thesis
  proof (cases pc)
    case Idle
    with assms show ?thesis by (cases c) (auto simp: simps)
  next
    case (Held h)
    with step have "holds pc' = Some h \<and> pc_ok pc' \<and> lock' = lock" by (cases c) (auto simp: rw_process_def)
    with Held pc counts show ?thesis by simp
  next
    case (Unlock_add h)
    with assms obtain r' where "r = Suc r'" by (cases r) auto
    with Unlock_add assms show ?thesis by (auto simp: simps)
  next
    case (Unlock_test h)
    have "lock = NGX_RWLOCK_WLOCK \<longleftrightarrow> h = Writer"
      using counts pc word Unlock_test by (cases h) (auto simp: simps)
    with step Unlock_test have "holds pc' = Some h \<and> pc_ok pc' \<and> lock' = lock"
      by (cases h) (auto simp: rw_process_def)
    with Unlock_test pc counts show ?thesis by simp
  next
    case (Downgrade_test h)
    have "lock = NGX_RWLOCK_WLOCK \<longleftrightarrow> h = Writer"
      using counts pc word Downgrade_test by (cases h) (auto simp: simps)
    with step Downgrade_test have "holds pc' = Some h \<and> pc_ok pc' \<and> lock' = lock"
      by (cases h) (auto simp: rw_process_def)
    with Downgrade_test pc counts show ?thesis by simp
  next
    case (Rlock_cas readers)
    with assms word show ?thesis by (cases "w = 0"; cases "lock = readers") (auto simp add: simps)
  next
    case Wlock_test
    with assms show ?thesis by (auto simp: rw_process_def split: if_splits)
  next
    case Wlock_cas
    with assms word show ?thesis by (cases "lock = 0") (auto simp: simps split: if_splits)
  next
    case Rlock_load
    with assms show ?thesis by (auto simp: rw_process_def split: if_splits)
  next
    case (Unlock_cas h)
    with assms show ?thesis by (auto simp: simps split: if_splits)
  next
    case (Downgrade_store h)
    with assms show ?thesis by (auto simp: simps split: if_splits)
  qed
qed

lemma holders_update:
  assumes "i < length (rw_pcs s)"
  shows "of_bool (holds (rw_pcs s ! i) = Some h) \<le> holders h s"
    and "holders h \<lparr>rw_lock = lock, rw_pcs = (rw_pcs s)[i := pc]\<rparr> =
      holders h s - of_bool (holds (rw_pcs s ! i) = Some h) + of_bool (holds pc = Some h)"
proof -
  show le: "of_bool (holds (rw_pcs s ! i) = Some h) \<le> holders h s"
    using assms by (auto simp: holders_def of_bool_def Suc_le_eq length_greater_0_conv filter_empty_conv)
  show "holders h \<lparr>rw_lock = lock, rw_pcs = (rw_pcs s)[i := pc]\<rparr> =
      holders h s - of_bool (holds (rw_pcs s ! i) = Some h) + of_bool (holds pc = Some h)"
    using count_update [OF assms, of "\<lambda>pc. holds pc = Some h" pc] le
    by (auto simp: holders_def of_bool_def split: if_splits)
qed

lemma rw_step_inv:
  assumes inv: "rw_inv n s" and n: "n < 2 ^ 64 - 1" and step: "rw_step s s'"
  shows "rw_inv n s'"
proof -
  from step obtain i c lock pc where s': "s' = \<lparr>rw_lock = lock, rw_pcs = (rw_pcs s)[i := pc]\<rparr>"
    and i: "i < length (rw_pcs s)" and move: "rw_process c (rw_lock s) (rw_pcs s ! i) = (lock, pc)"
    by (rule rw_stepE)
  have "holders Reader s \<le> n" using inv by (auto simp: rw_inv_def holders_def)
  moreover have "pc_ok (rw_pcs s ! i)" using inv i by (simp add: rw_inv_def list_all_length)
  moreover have "holder_counts n (rw_lock s) (holders Writer s) (holders Reader s)"
    using inv by (simp add: rw_inv_def holder_counts_def)
  ultimately have *: "pc_ok pc \<and> holder_counts n lock (holders Writer s') (holders Reader s')"
    using rw_process_counts [OF _ _ n _ holders_update(1) [OF i] holders_update(1) [OF i] move]
    by (simp add: s' holders_update(2) [OF i])
  have "list_all pc_ok (rw_pcs s')"
    using inv * by (auto simp: s' rw_inv_def list_all_iff dest!: set_update_subset_insert [THEN subsetD])
  with * inv show ?thesis by (simp add: s' rw_inv_def holder_counts_def)
qed

text \<open>The invariant is one of the system of n processes, as long as n readers do not fill the word.\<close>

interpretation rwlock: invariant_system "\<lambda>s. n < 2 ^ 64 - 1 \<and> rw_init n s" rw_step "\<lambda>s. n < 2 ^ 64 - 1 \<and> rw_inv n s"
  for n
proof
  show "n < 2 ^ 64 - 1 \<and> rw_inv n s" if "n < 2 ^ 64 - 1 \<and> rw_init n s" for s
    using that by (auto simp: rw_init_def rw_inv_def holders_def lock_value_def list_all_iff)
  show "n < 2 ^ 64 - 1 \<and> rw_inv n s'" if "n < 2 ^ 64 - 1 \<and> rw_inv n s" "rw_step s s'" for s s'
    using that rw_step_inv by blast
qed

subsection \<open>Mutual exclusion\<close>

text \<open>
  Property C21: whatever the interleaving of the accesses to the lock word of fewer than 2^64 - 1
  processes that lock, unlock and downgrade, at most one of them holds the lock for writing, none holds
  it for reading at the same time, and the word is -1 when there is a writer and the number of
  readers otherwise.
\<close>

theorem rwlock_exclusion:
  assumes "reachable (\<lambda>s. n < 2 ^ 64 - 1 \<and> rw_init n s) rw_step s"
  shows "holders Writer s \<le> 1 \<and> (holders Writer s = 0 \<or> holders Reader s = 0) \<and>
    rw_lock s = (if holders Writer s = 0 then of_nat (holders Reader s) else NGX_RWLOCK_WLOCK)"
  using rwlock.reachable_Inv [OF assms] by (simp add: rw_inv_def lock_value_def)

text \<open>A schedule, as a list of the process that moves and the call it makes when it is free to.\<close>

fun rw_run :: "(nat \<times> rw_call) list \<Rightarrow> rw_state \<Rightarrow> rw_state" where
  "rw_run [] s = s"
| "rw_run ((i, c) # moves) s =
     (case rw_process c (rw_lock s) (rw_pcs s ! i) of
        (lock, pc) \<Rightarrow> rw_run moves \<lparr>rw_lock = lock, rw_pcs = (rw_pcs s)[i := pc]\<rparr>)"

lemma rw_run_reachable:
  "reachable init rw_step s \<Longrightarrow> list_all (\<lambda>(i, c). i < length (rw_pcs s)) moves \<Longrightarrow>
   reachable init rw_step (rw_run moves s)"
proof (induction moves s rule: rw_run.induct)
  case (2 i c moves s)
  obtain lock pc where move: "rw_process c (rw_lock s) (rw_pcs s ! i) = (lock, pc)" by fastforce
  with "2.prems" have "rw_step s \<lparr>rw_lock = lock, rw_pcs = (rw_pcs s)[i := pc]\<rparr>"
    by (auto intro: rw_step.intros)
  with "2.prems" "2.IH" [OF move [symmetric]] move show ?case by (auto intro: reachable.intros)
qed simp

text \<open>
  Two readers and a writer: the writer sees the word at zero before the first reader, and its
  compare-and-set fails; the second reader's fails once and succeeds on the next turn.
\<close>

definition rw_race :: rw_state where
  "rw_race = rw_run [(0, Call_wlock), (1, Call_rlock), (2, Call_rlock), (0, Call_wlock), (1, Call_rlock),
     (2, Call_rlock), (1, Call_rlock), (0, Call_wlock), (2, Call_rlock), (2, Call_rlock), (2, Call_rlock)]
     \<lparr>rw_lock = 0, rw_pcs = replicate 3 Idle\<rparr>"

lemma rw_race_state: "rw_race = \<lparr>rw_lock = 2, rw_pcs = [Wlock_test, Held Reader, Held Reader]\<rparr>"
  by (simp add: rw_race_def rw_process_def ngx_atomic_cmp_set_def NGX_RWLOCK_WLOCK_def numeral_3_eq_3)

theorem rwlock_exclusion_witness:
  "holders Writer rw_race = 0 \<and> holders Reader rw_race = 2 \<and> rw_lock rw_race = of_nat (holders Reader rw_race)"
proof -
  have "reachable (\<lambda>s. 3 < (2 :: nat) ^ 64 - 1 \<and> rw_init 3 s) rw_step rw_race"
    unfolding rw_race_def
    by (intro rw_run_reachable reachable.start) (auto simp: rw_init_def numeral_3_eq_3)
  from rwlock_exclusion [OF this] show ?thesis by (simp add: rw_race_state holders_def)
qed

end
