(* ===== verification/Ngx_Shmtx.thy ===== *)
theory Ngx_Shmtx
  imports Ngx_Prelude
begin

text \<open>
  The mutex in shared memory of \<^verbatim>\<open>src/core/ngx_shmtx.c\<close> (the build with atomic operations and POSIX
  semaphores), used by the accept mutex and by all shared memory zones.  Every access to the lock
  word, to the counter of waiting processes and to the semaphore is a step; processes can be
  interrupted between any two of them, can be interrupted by signals while they wait, and can die
  anywhere, upon which the master process unlocks for them.  The lemmas show mutual exclusion, and that
  no process is left asleep while the lock is free.
\<close>

subsection \<open>The mutex and its processes\<close>

text \<open>What \<^verbatim>\<open>ngx_shmtx_create\<close> sets up, the number of processors and the process identifiers.\<close>

record shmtx =
  spin :: uint64
  semaphore :: bool
  ngx_ncpu :: nat
  pids :: "uint64 list"

text \<open>The shared memory: the words \<^verbatim>\<open>lock\<close> and \<^verbatim>\<open>wait\<close>, and the value of the semaphore.\<close>

record shmtx_sh =
  lock :: uint64
  wait :: uint64
  sem :: nat

text \<open>
  The program counters.  \<open>Lock_test\<close> and \<open>Lock_cas\<close> have no number in the first attempt of a round, and the length
  \<^verbatim>\<open>n\<close> of the pause in the later ones.
\<close>

datatype shm_pc =
  Idle | Held | Dead
| Try_test | Try_cas
| Lock_test "uint64 option" | Lock_cas "uint64 option"
| Wait_add | Wait_test | Wait_cas | Wait_sub | Sleep
| Unlock_cas | Force_cas uint64
| Wakeup_load | Wakeup_cas uint64 | Wakeup_post

text \<open>The answers of the operating system to \<^verbatim>\<open>sem_wait\<close> and \<^verbatim>\<open>sem_post\<close>.\<close>

datatype sem_answer = Sem_done | Sem_eintr | Sem_failed

datatype shm_call = Call_trylock | Call_lock | Call_unlock | Call_force nat

fun ngx_shmtx_create :: "bool \<Rightarrow> shmtx \<Rightarrow> shmtx" where
  "ngx_shmtx_create sem_init_ok mtx =
     (if spin mtx = - 1 then mtx else (mtx\<lparr>spin := 2048\<rparr>)\<lparr>semaphore := sem_init_ok \<or> semaphore mtx\<rparr>)"

fun ngx_shmtx_trylock :: "uint64 \<Rightarrow> shmtx_sh \<Rightarrow> shm_pc \<Rightarrow> shmtx_sh \<times> shm_pc" where
  "ngx_shmtx_trylock pid m Try_test = (m, if lock m = 0 then Try_cas else Idle)"
| "ngx_shmtx_trylock pid m Try_cas =
     (case ngx_atomic_cmp_set (lock m) 0 pid of (l, ok) \<Rightarrow> (m\<lparr>lock := l\<rparr>, if ok then Held else Idle))"
| "ngx_shmtx_trylock pid m pc = (m, pc)"

text \<open>Where a failed attempt to get the lock leads: another one after a longer pause, the semaphore, or a new round.\<close>

fun next_attempt :: "shmtx \<Rightarrow> uint64 option \<Rightarrow> shm_pc" where
  "next_attempt mtx attempt =
     (let n = (case attempt of None \<Rightarrow> 1 | Some n \<Rightarrow> push_bit 1 n) in
      if ngx_ncpu mtx > 1 \<and> n < spin mtx then Lock_test (Some n)
      else if semaphore mtx then Wait_add
      else Lock_test None)"

fun ngx_shmtx_lock :: "shmtx \<Rightarrow> uint64 \<Rightarrow> sem_answer \<Rightarrow> shmtx_sh \<Rightarrow> shm_pc \<Rightarrow> shmtx_sh \<times> shm_pc" where
  "ngx_shmtx_lock mtx pid ans m (Lock_test a) = (m, if lock m = 0 then Lock_cas a else next_attempt mtx a)"
| "ngx_shmtx_lock mtx pid ans m (Lock_cas a) =
     (case ngx_atomic_cmp_set (lock m) 0 pid of (l, ok) \<Rightarrow> (m\<lparr>lock := l\<rparr>, if ok then Held else next_attempt mtx a))"
| "ngx_shmtx_lock mtx pid ans m Wait_add = (m\<lparr>wait := wait m + 1\<rparr>, Wait_test)"
| "ngx_shmtx_lock mtx pid ans m Wait_test = (m, if lock m = 0 then Wait_cas else Sleep)"
| "ngx_shmtx_lock mtx pid ans m Wait_cas =
     (case ngx_atomic_cmp_set (lock m) 0 pid of (l, ok) \<Rightarrow> (m\<lparr>lock := l\<rparr>, if ok then Wait_sub else Sleep))"
| "ngx_shmtx_lock mtx pid ans m Wait_sub = (m\<lparr>wait := wait m + (- 1)\<rparr>, Held)"
| "ngx_shmtx_lock mtx pid ans m Sleep =
     (case ans of
        Sem_done \<Rightarrow> if sem m > 0 then (m\<lparr>sem := sem m - 1\<rparr>, Lock_test None) else (m, Sleep)
      | Sem_eintr \<Rightarrow> (m, Sleep)
      | Sem_failed \<Rightarrow> (m, Lock_test None))"
| "ngx_shmtx_lock mtx pid ans m pc = (m, pc)"

fun ngx_shmtx_wakeup :: "shmtx \<Rightarrow> sem_answer \<Rightarrow> shmtx_sh \<Rightarrow> shm_pc \<Rightarrow> shmtx_sh \<times> shm_pc" where
  "ngx_shmtx_wakeup mtx ans m Wakeup_load =
     (m, if \<not> semaphore mtx \<or> sint (wait m) \<le> 0 then Idle else Wakeup_cas (wait m))"
| "ngx_shmtx_wakeup mtx ans m (Wakeup_cas w) =
     (case ngx_atomic_cmp_set (wait m) w (w - 1) of
        (v, ok) \<Rightarrow> (m\<lparr>wait := v\<rparr>, if ok then Wakeup_post else Wakeup_load))"
| "ngx_shmtx_wakeup mtx ans m Wakeup_post = (if ans = Sem_failed then m else m\<lparr>sem := sem m + 1\<rparr>, Idle)"
| "ngx_shmtx_wakeup mtx ans m pc = (m, pc)"

fun ngx_shmtx_unlock :: "uint64 \<Rightarrow> shmtx_sh \<Rightarrow> shm_pc \<Rightarrow> shmtx_sh \<times> shm_pc" where
  "ngx_shmtx_unlock pid m Unlock_cas =
     (case ngx_atomic_cmp_set (lock m) pid 0 of (l, ok) \<Rightarrow> (m\<lparr>lock := l\<rparr>, if ok then Wakeup_load else Idle))"
| "ngx_shmtx_unlock pid m pc = (m, pc)"

fun ngx_shmtx_force_unlock :: "shmtx_sh \<Rightarrow> shm_pc \<Rightarrow> shmtx_sh \<times> shm_pc" where
  "ngx_shmtx_force_unlock m (Force_cas pid) =
     (case ngx_atomic_cmp_set (lock m) pid 0 of (l, ok) \<Rightarrow> (m\<lparr>lock := l\<rparr>, if ok then Wakeup_load else Idle))"
| "ngx_shmtx_force_unlock m pc = (m, pc)"

text \<open>
  A process outside of the critical section calls any of the functions (also \<^verbatim>\<open>ngx_shmtx_unlock\<close>, which does
  nothing then), one inside only \<^verbatim>\<open>ngx_shmtx_unlock\<close>.
\<close>

fun shm_enter :: "shmtx \<Rightarrow> shm_call \<Rightarrow> shm_pc \<Rightarrow> shm_pc" where
  "shm_enter mtx Call_trylock Idle = Try_test"
| "shm_enter mtx Call_lock Idle = Lock_test None"
| "shm_enter mtx (Call_force j) Idle = Force_cas (pids mtx ! j)"
| "shm_enter mtx Call_unlock Idle = Unlock_cas"
| "shm_enter mtx Call_unlock Held = Unlock_cas"
| "shm_enter mtx c pc = pc"

definition shm_process ::
  "shmtx \<Rightarrow> nat \<Rightarrow> shm_call \<Rightarrow> sem_answer \<Rightarrow> shmtx_sh \<Rightarrow> shm_pc \<Rightarrow> shmtx_sh \<times> shm_pc" where
  "shm_process mtx i c ans m pc =
     (case pc of
        Idle \<Rightarrow> (m, shm_enter mtx c pc)
      | Held \<Rightarrow> (m, shm_enter mtx c pc)
      | Dead \<Rightarrow> (m, pc)
      | Try_test \<Rightarrow> ngx_shmtx_trylock (pids mtx ! i) m pc
      | Try_cas \<Rightarrow> ngx_shmtx_trylock (pids mtx ! i) m pc
      | Unlock_cas \<Rightarrow> ngx_shmtx_unlock (pids mtx ! i) m pc
      | Force_cas p \<Rightarrow> ngx_shmtx_force_unlock m pc
      | Wakeup_load \<Rightarrow> ngx_shmtx_wakeup mtx ans m pc
      | Wakeup_cas w \<Rightarrow> ngx_shmtx_wakeup mtx ans m pc
      | Wakeup_post \<Rightarrow> ngx_shmtx_wakeup mtx ans m pc
      | _ \<Rightarrow> ngx_shmtx_lock mtx (pids mtx ! i) ans m pc)"

record shm_state =
  sh :: shmtx_sh
  pcs :: "shm_pc list"

text \<open>
  The steps of the system.  With \<open>faults\<close> a process may die at any point and the operations on the
  semaphore may fail; the lock of a dead process, and of no other, is unlocked by force.
\<close>

inductive shm_step :: "shmtx \<Rightarrow> bool \<Rightarrow> shm_state \<Rightarrow> shm_state \<Rightarrow> bool"
  for mtx :: shmtx and faults :: bool where
  shm_move: "i < length (pcs s) \<Longrightarrow> (\<And>j. c = Call_force j \<Longrightarrow> j < length (pcs s) \<and> pcs s ! j = Dead) \<Longrightarrow>
     (ans = Sem_failed \<Longrightarrow> faults) \<Longrightarrow> shm_process mtx i c ans (sh s) (pcs s ! i) = (m, pc) \<Longrightarrow>
     shm_step mtx faults s \<lparr>sh = m, pcs = (pcs s)[i := pc]\<rparr>"
| shm_die: "faults \<Longrightarrow> i < length (pcs s) \<Longrightarrow> shm_step mtx faults s (s\<lparr>pcs := (pcs s)[i := Dead]\<rparr>)"

text \<open>What the operating system guarantees: process identifiers are different and not zero.\<close>

definition pids_ok :: "shmtx \<Rightarrow> bool" where
  "pids_ok mtx \<longleftrightarrow> distinct (pids mtx) \<and> 0 \<notin> set (pids mtx)"

definition shm_init :: "shmtx \<Rightarrow> shm_state \<Rightarrow> bool" where
  "shm_init mtx s \<longleftrightarrow>
     pids_ok mtx \<and> int (length (pids mtx)) < 2 ^ 63 \<and>
     sh s = \<lparr>lock = 0, wait = 0, sem = 0\<rparr> \<and> pcs s = replicate (length (pids mtx)) Idle"

subsection \<open>Mutual exclusion\<close>

text \<open>The process is between getting the lock and calling \<^verbatim>\<open>ngx_shmtx_unlock\<close>.\<close>

fun in_section :: "shm_pc \<Rightarrow> bool" where
  "in_section Held = True"
| "in_section Wait_sub = True"
| "in_section _ = False"

lemma next_attempt_cases:
  "(\<exists>n. next_attempt mtx a = Lock_test n) \<or> next_attempt mtx a = Wait_add \<and> semaphore mtx"
  by (auto simp: Let_def)

declare next_attempt.simps [simp del]

lemma next_attempt_simps [simp]:
  "\<not> in_section (next_attempt mtx a)" "next_attempt mtx a \<noteq> Force_cas p" "next_attempt mtx a \<noteq> Dead"
  using next_attempt_cases [of mtx a] by auto

text \<open>The four things a step can do to the lock word.\<close>

lemma lock_effect:
  assumes "shm_process mtx i c ans m pc = (m', pc')"
  shows "lock m' = lock m \<and> (in_section pc' \<longrightarrow> in_section pc)
    \<or> lock m = 0 \<and> lock m' = pids mtx ! i
    \<or> lock m = pids mtx ! i \<and> lock m' = 0 \<and> pc = Unlock_cas \<and> \<not> in_section pc'
    \<or> pc = Force_cas (lock m) \<and> lock m' = 0 \<and> \<not> in_section pc'"
  using assms
  by (cases pc; cases c; cases ans)
    (auto simp: shm_process_def ngx_atomic_cmp_set_def split: if_splits)

lemma force_effect:
  assumes "shm_process mtx i c ans m pc = (m', Force_cas p)"
  shows "pc = Force_cas p \<or> (\<exists>j. pc = Idle \<and> c = Call_force j \<and> p = pids mtx ! j)"
  using assms
  by (cases pc; cases c; cases ans) (auto simp: shm_process_def ngx_atomic_cmp_set_def split: if_splits)

lemma dead_effect: "shm_process mtx i c ans m Dead = (m', pc') \<Longrightarrow> pc' = Dead"
  by (simp add: shm_process_def)

definition excl_inv :: "shmtx \<Rightarrow> shm_state \<Rightarrow> bool" where
  "excl_inv mtx s \<longleftrightarrow>
     pids_ok mtx \<and> length (pcs s) = length (pids mtx) \<and>
     (\<forall>i < length (pcs s). in_section (pcs s ! i) \<longrightarrow> lock (sh s) = pids mtx ! i) \<and>
     (\<forall>i < length (pcs s). \<forall>p. pcs s ! i = Force_cas p \<longrightarrow>
        (\<exists>j < length (pcs s). p = pids mtx ! j \<and> pcs s ! j = Dead))"

lemma excl_owner: "excl_inv mtx s \<Longrightarrow> i < length (pcs s) \<Longrightarrow> in_section (pcs s ! i) \<Longrightarrow> lock (sh s) = pids mtx ! i"
  by (simp add: excl_inv_def)

lemma excl_forced:
  assumes "excl_inv mtx s" "i < length (pcs s)" "pcs s ! i = Force_cas p"
  obtains j where "j < length (pcs s)" "p = pids mtx ! j" "pcs s ! j = Dead"
  using assms unfolding excl_inv_def by blast

lemma pid_neq: "pids_ok mtx \<Longrightarrow> i < length (pids mtx) \<Longrightarrow> j < length (pids mtx) \<Longrightarrow>
    pids mtx ! i = pids mtx ! j \<longleftrightarrow> i = j"
  by (simp add: pids_ok_def nth_eq_iff_index_eq)

lemma pid_not_0: "pids_ok mtx \<Longrightarrow> i < length (pids mtx) \<Longrightarrow> pids mtx ! i \<noteq> 0"
  by (metis pids_ok_def nth_mem)

lemma move_sections:
  assumes inv: "excl_inv mtx s" and i: "i < length (pcs s)"
    and move: "shm_process mtx i c ans (sh s) (pcs s ! i) = (m, pc)"
    and k: "k < length (pcs s)" and sec: "in_section ((pcs s)[i := pc] ! k)"
  shows "lock m = pids mtx ! k"
proof -
  let ?l = "lock (sh s)"
  have n: "i < length (pids mtx)" "k < length (pids mtx)" and ok: "pids_ok mtx"
    using inv i k by (auto simp: excl_inv_def)
  note owner = excl_owner [OF inv]
  from lock_effect [OF move] consider
      (same) "lock m = ?l" "in_section pc \<longrightarrow> in_section (pcs s ! i)"
    | (get) "?l = 0" "lock m = pids mtx ! i"
    | (free) "?l = pids mtx ! i" "\<not> in_section pc"
    | (force) "pcs s ! i = Force_cas ?l" "\<not> in_section pc"
    by blast
  then show ?thesis
  proof cases
    case same
    with owner [OF k] owner [OF i] sec k show ?thesis by (cases "k = i") auto
  next
    case get
    with owner [OF k] sec k pid_not_0 [OF ok n(2)] show ?thesis by (cases "k = i") auto
  next
    case free
    with owner [OF k] sec k pid_neq [OF ok n] show ?thesis by (cases "k = i") auto
  next
    case force
    with excl_forced [OF inv i] obtain j where j: "j < length (pcs s)" "?l = pids mtx ! j" "pcs s ! j = Dead"
      by blast
    have "k \<noteq> i" using sec force i by auto
    then have "in_section (pcs s ! k)" using sec by simp
    moreover from owner [OF k this] j have "k = j" using pid_neq [OF ok n(2), of j] inv
      by (simp add: excl_inv_def)
    ultimately show ?thesis using j by simp
  qed
qed

lemma move_forced:
  assumes inv: "excl_inv mtx s" and i: "i < length (pcs s)"
    and call: "\<And>j. c = Call_force j \<Longrightarrow> j < length (pcs s) \<and> pcs s ! j = Dead"
    and move: "shm_process mtx i c ans (sh s) (pcs s ! i) = (m, pc)"
    and k: "k < length (pcs s)" "(pcs s)[i := pc] ! k = Force_cas p"
  shows "\<exists>j < length (pcs s). p = pids mtx ! j \<and> (pcs s)[i := pc] ! j = Dead"
proof -
  have "\<exists>j < length (pcs s). p = pids mtx ! j \<and> pcs s ! j = Dead"
  proof (cases "k = i")
    case True
    with k move have "shm_process mtx i c ans (sh s) (pcs s ! i) = (m, Force_cas p)" by simp
    from force_effect [OF this] call inv i show ?thesis by (auto simp: excl_inv_def)
  next
    case False
    with inv k show ?thesis by (auto simp: excl_inv_def)
  qed
  then obtain j where j: "j < length (pcs s)" "p = pids mtx ! j" "pcs s ! j = Dead" by blast
  with dead_effect move have "(pcs s)[i := pc] ! j = Dead" by (cases "j = i") (auto simp: i)
  with j show ?thesis by blast
qed

interpretation shm_excl: invariant_system "shm_init mtx" "shm_step mtx faults" "excl_inv mtx"
  for mtx faults
proof
  show "excl_inv mtx s" if "shm_init mtx s" for s
    using that by (auto simp: shm_init_def excl_inv_def)
  show "excl_inv mtx s'" if inv: "excl_inv mtx s" and step: "shm_step mtx faults s s'" for s s'
    using step
  proof cases
    case (shm_move i c ans m pc)
    show ?thesis
      using inv move_sections [OF inv shm_move(2,5)] move_forced [OF inv shm_move(2,3,5)]
      by (auto simp: shm_move(1) excl_inv_def)
  next
    case (shm_die i)
    have upd: "(pcs s)[i := Dead] ! k = (if k = i then Dead else pcs s ! k)" if "k < length (pcs s)" for k
      using that by (simp add: nth_list_update)
    have "\<exists>j < length (pcs s). p = pids mtx ! j \<and> (pcs s)[i := Dead] ! j = Dead"
      if "k < length (pcs s)" "(pcs s)[i := Dead] ! k = Force_cas p" for k p
    proof -
      have "pcs s ! k = Force_cas p" using that by (auto simp: upd split: if_splits)
      from excl_forced [OF inv that(1) this] show ?thesis using upd by metis
    qed
    moreover have "lock (sh s) = pids mtx ! k" if "k < length (pcs s)" "in_section ((pcs s)[i := Dead] ! k)" for k
      using that excl_owner [OF inv that(1)] by (auto simp: upd split: if_splits)
    ultimately show ?thesis using inv by (auto simp: shm_die(1) excl_inv_def)
  qed
qed

text \<open>
  Schedules as lists of the process that moves, its call and the answer of the system.
\<close>

definition shm_next :: "shmtx \<Rightarrow> nat \<times> shm_call \<times> sem_answer \<Rightarrow> shm_state \<Rightarrow> shm_state" where
  "shm_next mtx mv s =
     (case mv of (i, c, ans) \<Rightarrow>
        case shm_process mtx i c ans (sh s) (pcs s ! i) of (m, pc) \<Rightarrow> \<lparr>sh = m, pcs = (pcs s)[i := pc]\<rparr>)"

fun can_move :: "nat \<Rightarrow> nat \<times> shm_call \<times> sem_answer \<Rightarrow> bool" where
  "can_move n (i, Call_force j, ans) = False"
| "can_move n (i, c, ans) = (i < n \<and> ans \<noteq> Sem_failed)"

lemma shm_next_step:
  assumes "can_move (length (pcs s)) mv"
  shows "shm_step mtx faults s (shm_next mtx mv s)"
proof (cases mv)
  case (fields i c ans)
  obtain m pc where move: "shm_process mtx i c ans (sh s) (pcs s ! i) = (m, pc)" by fastforce
  have "i < length (pcs s)" "ans \<noteq> Sem_failed" "c \<noteq> Call_force j" for j
    using assms fields by (cases c; auto)+
  then have "shm_step mtx faults s \<lparr>sh = m, pcs = (pcs s)[i := pc]\<rparr>"
    by (intro shm_step.shm_move [OF _ _ _ move]) auto
  then show ?thesis by (simp add: shm_next_def fields move)
qed

lemma shm_next_length: "length (pcs (shm_next mtx mv s)) = length (pcs s)"
  by (simp add: shm_next_def split: prod.splits)

lemma shm_run_reachable:
  "reachable init (shm_step mtx faults) s \<Longrightarrow> list_all (can_move (length (pcs s))) moves \<Longrightarrow>
   reachable init (shm_step mtx faults) (fold (shm_next mtx) moves s)"
proof (induction moves arbitrary: s)
  case (Cons mv moves)
  then have "reachable init (shm_step mtx faults) (shm_next mtx mv s)"
    by (auto intro: reachable.next_state shm_next_step)
  with Cons show ?case by (simp add: shm_next_length)
qed simp

text \<open>On one processor: the first process has the lock, the second one falls asleep.\<close>

definition example_mtx :: shmtx where
  "example_mtx = ngx_shmtx_create True \<lparr>spin = 0, semaphore = False, ngx_ncpu = 1, pids = [101, 102]\<rparr>"

definition example_moves :: "(nat \<times> shm_call \<times> sem_answer) list" where
  "example_moves =
     [(0, Call_trylock, Sem_done), (0, Call_trylock, Sem_done), (0, Call_trylock, Sem_done),
      (1, Call_lock, Sem_done), (1, Call_lock, Sem_done), (1, Call_lock, Sem_done), (1, Call_lock, Sem_done),
      (1, Call_lock, Sem_eintr)]"

definition example_state :: shm_state where
  "example_state = fold (shm_next example_mtx) example_moves
     \<lparr>sh = \<lparr>lock = 0, wait = 0, sem = 0\<rparr>, pcs = [Idle, Idle]\<rparr>"

lemma example_state: "example_state = \<lparr>sh = \<lparr>lock = 101, wait = 1, sem = 0\<rparr>, pcs = [Held, Sleep]\<rparr>"
  by (simp add: example_state_def example_moves_def example_mtx_def shm_next_def shm_process_def
      ngx_atomic_cmp_set_def next_attempt.simps)

lemma example_reachable: "reachable (shm_init example_mtx) (shm_step example_mtx faults) example_state"
  unfolding example_state_def
  by (rule shm_run_reachable)
    (auto simp: example_moves_def example_mtx_def shm_init_def pids_ok_def intro!: reachable.start)

text \<open>
  Property C24: whatever the interleaving, and even if processes die holding the lock and are unlocked by
  force or the semaphore fails, at most one process is in the critical section.
\<close>

theorem shmtx_exclusion:
  assumes "reachable (shm_init mtx) (shm_step mtx faults) s"
    "i < length (pcs s)" "j < length (pcs s)" "in_section (pcs s ! i)" "in_section (pcs s ! j)"
  shows "i = j"
proof -
  note inv = shm_excl.reachable_Inv [OF assms(1)]
  from excl_owner [OF inv assms(2,4)] excl_owner [OF inv assms(3,5)]
  have "pids mtx ! i = pids mtx ! j" by simp
  then show ?thesis using pid_neq [of mtx i j] inv assms(2,3) by (simp add: excl_inv_def)
qed

theorem shmtx_exclusion_witness: "in_section (pcs example_state ! 0) \<and> \<not> in_section (pcs example_state ! 1)"
proof -
  have "in_section (pcs example_state ! 0)" by (simp add: example_state)
  with shmtx_exclusion [OF example_reachable [of True], of 0 1] show ?thesis by (auto simp: example_state)
qed

subsection \<open>Waking up\<close>

text \<open>
  Without faults: a process is registered from adding itself to \<^verbatim>\<open>wait\<close> until it is through the
  semaphore or has subtracted itself again; it is about to post after subtracting somebody else; it is
  active when it will look at the lock word again or wake somebody up before it sleeps or leaves.
\<close>

fun registered :: "shm_pc \<Rightarrow> bool" where
  "registered Wait_test = True"
| "registered Wait_cas = True"
| "registered Wait_sub = True"
| "registered Sleep = True"
| "registered _ = False"

fun active :: "shm_pc \<Rightarrow> bool" where
  "active (Lock_test a) = True"
| "active (Lock_cas a) = True"
| "active Wait_add = True"
| "active Wait_test = True"
| "active Wait_cas = True"
| "active Wakeup_load = True"
| "active (Wakeup_cas w) = True"
| "active _ = False"

fun wake_ok :: "shmtx \<Rightarrow> shm_pc \<Rightarrow> bool" where
  "wake_ok mtx (Wakeup_cas w) \<longleftrightarrow> 0 < sint w"
| "wake_ok mtx Dead \<longleftrightarrow> False"
| "wake_ok mtx (Force_cas p) \<longleftrightarrow> False"
| "wake_ok mtx pc \<longleftrightarrow> semaphore mtx \<or> (\<not> registered pc \<and> pc \<noteq> Wait_add)"

lemma next_attempt_class [simp]:
  "\<not> registered (next_attempt mtx a)" "active (next_attempt mtx a)" "wake_ok mtx (next_attempt mtx a)"
  "next_attempt mtx a \<noteq> Sleep" "next_attempt mtx a \<noteq> Wakeup_post"
  using next_attempt_cases [of mtx a] by auto

text \<open>The counter, the semaphore and the processes: \<open>R\<close> registered, \<open>P\<close> about to post, \<open>S\<close> asleep, \<open>A\<close> active.\<close>

definition wake_counts :: "shmtx \<Rightarrow> int \<Rightarrow> shmtx_sh \<Rightarrow> int \<Rightarrow> int \<Rightarrow> int \<Rightarrow> int \<Rightarrow> bool" where
  "wake_counts mtx n m R P S A \<longleftrightarrow>
     wait m = of_int (R - int (sem m) - P) \<and> int (sem m) + P \<le> n \<and>
     (lock m = 0 \<and> int (sem m) + P = 0 \<and> 0 < S \<longrightarrow> 0 < A)"

lemma sint_of_int: "- (2 ^ 63) \<le> x \<Longrightarrow> x < 2 ^ 63 \<Longrightarrow> sint (of_int x :: uint64) = x"
  by (simp add: signed_of_int signed_take_bit_int_eq_self)

lemma sint_wait:
  assumes "wake_counts mtx n m R P S A" "0 \<le> R" "R \<le> n" "n < 2 ^ 63" "0 \<le> P"
  shows "sint (wait m) = R - int (sem m) - P"
proof -
  have "wait m = of_int (R - int (sem m) - P)" "int (sem m) + P \<le> n"
    using assms(1) unfolding wake_counts_def by blast+
  then show ?thesis using sint_of_int [of "R - int (sem m) - P"] assms(2-) by simp
qed

lemma wake_counts_step:
  assumes counts: "wake_counts mtx n m R P S A" and n: "S \<le> R" "R \<le> n" "n < 2 ^ 63" "0 \<le> P" "0 \<le> A" "0 \<le> S"
    and pc: "wake_ok mtx pc" "of_bool (registered pc) \<le> R" "of_bool (pc = Wakeup_post) \<le> P"
      "of_bool (pc = Sleep) \<le> S" "of_bool (active pc) \<le> A"
    and off: "\<not> semaphore mtx \<Longrightarrow> S = 0"
    and step: "shm_process mtx i c ans m pc = (m', pc')" "ans \<noteq> Sem_failed" "\<And>j. c \<noteq> Call_force j"
    and pid: "pids mtx ! i \<noteq> 0"
  shows "wake_ok mtx pc' \<and>
    wake_counts mtx n m' (R - of_bool (registered pc) + of_bool (registered pc'))
      (P - of_bool (pc = Wakeup_post) + of_bool (pc' = Wakeup_post))
      (S - of_bool (pc = Sleep) + of_bool (pc' = Sleep)) (A - of_bool (active pc) + of_bool (active pc'))"
proof (cases pc)
  case Idle
  with assms show ?thesis by (cases c) (auto simp: shm_process_def wake_counts_def)
next
  case Held
  with assms show ?thesis by (cases c) (auto simp: shm_process_def)
next
  case Try_test
  with assms show ?thesis by (auto simp: shm_process_def split: if_splits)
next
  case Try_cas
  with assms show ?thesis by (auto simp: shm_process_def wake_counts_def ngx_atomic_cmp_set_def split: if_splits)
next
  case (Lock_test a)
  with assms show ?thesis by (auto simp: shm_process_def split: if_splits)
next
  case (Lock_cas a)
  with assms show ?thesis by (auto simp: shm_process_def wake_counts_def ngx_atomic_cmp_set_def split: if_splits)
next
  case Wait_add
  with assms show ?thesis by (auto simp: shm_process_def wake_counts_def split: if_splits)
next
  case Wait_test
  with assms show ?thesis by (auto simp: shm_process_def wake_counts_def split: if_splits)
next
  case Wait_cas
  with assms show ?thesis by (auto simp: shm_process_def wake_counts_def ngx_atomic_cmp_set_def split: if_splits)
next
  case Wait_sub
  with assms show ?thesis by (auto simp: shm_process_def wake_counts_def split: if_splits)
next
  case Sleep
  with assms show ?thesis by (cases ans) (auto simp: shm_process_def wake_counts_def of_nat_diff split: if_splits)
next
  case Unlock_cas
  with assms show ?thesis by (auto simp: shm_process_def wake_counts_def ngx_atomic_cmp_set_def split: if_splits)
next
  case Wakeup_load
  have "sint (wait m) = R - int (sem m) - P" using sint_wait [OF counts] n by simp
  with Wakeup_load assms show ?thesis by (auto simp: shm_process_def wake_counts_def split: if_splits)
next
  case (Wakeup_cas w)
  have "sint (wait m) = R - int (sem m) - P" using sint_wait [OF counts] n by simp
  with Wakeup_cas assms show ?thesis
    by (auto simp: shm_process_def wake_counts_def ngx_atomic_cmp_set_def split: if_splits)
next
  case Wakeup_post
  with assms show ?thesis by (auto simp: shm_process_def wake_counts_def split: if_splits)
qed (use assms in auto)

definition cnt :: "(shm_pc \<Rightarrow> bool) \<Rightarrow> shm_state \<Rightarrow> int" where
  "cnt Q s = int (length (filter Q (pcs s)))"

lemma cnt_0: "0 \<le> cnt Q s"
  by (simp add: cnt_def)

lemma cnt_pos: "0 < cnt Q s \<longleftrightarrow> (\<exists>i < length (pcs s). Q (pcs s ! i))"
  by (simp add: cnt_def length_greater_0_conv filter_empty_conv) (metis in_set_conv_nth)

lemma cnt_mono: "(\<And>pc. Q pc \<Longrightarrow> Q' pc) \<Longrightarrow> cnt Q s \<le> cnt Q' s"
  by (simp add: cnt_def) (metis (no_types, lifting) filter_filter length_filter_le filter_cong)

lemma cnt_update:
  assumes "i < length (pcs s)"
  shows "cnt Q \<lparr>sh = m, pcs = (pcs s)[i := pc]\<rparr> = cnt Q s - of_bool (Q (pcs s ! i)) + of_bool (Q pc)"
    and "of_bool (Q (pcs s ! i)) \<le> cnt Q s"
proof -
  show "cnt Q \<lparr>sh = m, pcs = (pcs s)[i := pc]\<rparr> = cnt Q s - of_bool (Q (pcs s ! i)) + of_bool (Q pc)"
    using count_update [OF assms] by (simp add: cnt_def)
  show "of_bool (Q (pcs s ! i)) \<le> cnt Q s"
    using cnt_pos [of Q s] cnt_0 [of Q s] assms by (cases "Q (pcs s ! i)") auto
qed

text \<open>A locked mutex is locked by a process that is in its critical section or about to unlock.\<close>

fun owner :: "shm_pc \<Rightarrow> bool" where
  "owner Held = True"
| "owner Wait_sub = True"
| "owner Unlock_cas = True"
| "owner _ = False"

definition wake_inv :: "shmtx \<Rightarrow> shm_state \<Rightarrow> bool" where
  "wake_inv mtx s \<longleftrightarrow>
     int (length (pids mtx)) < 2 ^ 63 \<and> list_all (wake_ok mtx) (pcs s) \<and>
     wake_counts mtx (int (length (pids mtx))) (sh s) (cnt registered s) (cnt (\<lambda>pc. pc = Wakeup_post) s)
       (cnt (\<lambda>pc. pc = Sleep) s) (cnt active s) \<and>
     (lock (sh s) \<noteq> 0 \<longrightarrow> (\<exists>i < length (pcs s). lock (sh s) = pids mtx ! i \<and> owner (pcs s ! i)))"

lemma owner_effect:
  assumes "shm_process mtx i c ans m pc = (m', pc')" "\<And>p. pc \<noteq> Force_cas p"
  shows "lock m' = lock m \<and> (owner pc \<longrightarrow> owner pc' \<or> pc = Unlock_cas \<and> lock m \<noteq> pids mtx ! i) \<or>
    lock m' = 0 \<or> lock m = 0 \<and> lock m' = pids mtx ! i \<and> owner pc'"
  using assms
  by (cases pc; cases c; cases ans)
    (auto simp: shm_process_def ngx_atomic_cmp_set_def split: if_splits)

lemma wake_inv_step:
  assumes excl: "excl_inv mtx s" and inv: "wake_inv mtx s" and i: "i < length (pcs s)"
    and call: "\<And>j. c = Call_force j \<Longrightarrow> j < length (pcs s) \<and> pcs s ! j = Dead" and ans: "ans \<noteq> Sem_failed"
    and move: "shm_process mtx i c ans (sh s) (pcs s ! i) = (m, pc)"
  shows "wake_inv mtx \<lparr>sh = m, pcs = (pcs s)[i := pc]\<rparr>"
proof -
  let ?s = "\<lparr>sh = m, pcs = (pcs s)[i := pc]\<rparr>" and ?asleep = "\<lambda>pc. pc = Sleep"
  have n: "length (pcs s) = length (pids mtx)" and pid: "pids mtx ! i \<noteq> 0"
    using excl i pid_not_0 by (auto simp: excl_inv_def)
  have ok: "wake_ok mtx (pcs s ! j)" if "j < length (pcs s)" for j
    using inv that by (simp add: wake_inv_def list_all_length)
  have force: "c \<noteq> Call_force j" for j using call ok by fastforce
  have off: "cnt ?asleep s = 0" if "\<not> semaphore mtx"
  proof (rule ccontr)
    assume "cnt ?asleep s \<noteq> 0"
    then have "0 < cnt ?asleep s" using cnt_0 [of ?asleep s] by simp
    then obtain j where "j < length (pcs s)" "pcs s ! j = Sleep" by (auto simp: cnt_pos)
    with ok [of j] that show False by simp
  qed
  have counts: "wake_counts mtx (int (length (pids mtx))) (sh s) (cnt registered s) (cnt (\<lambda>pc. pc = Wakeup_post) s)
      (cnt ?asleep s) (cnt active s)" and small: "int (length (pids mtx)) < 2 ^ 63"
    using inv by (simp_all add: wake_inv_def)
  have le: "cnt ?asleep s \<le> cnt registered s" by (rule cnt_mono) simp
  have le': "cnt registered s \<le> int (length (pids mtx))" by (simp add: cnt_def) (metis length_filter_le n)
  have "wake_ok mtx pc \<and> wake_counts mtx (int (length (pids mtx))) m (cnt registered ?s)
      (cnt (\<lambda>pc. pc = Wakeup_post) ?s) (cnt ?asleep ?s) (cnt active ?s)"
    unfolding cnt_update(1) [OF i]
    by (rule wake_counts_step [OF counts le le' small]) (use cnt_0 cnt_update(2) [OF i]
        cnt_update(2) [OF i, of "\<lambda>pc. pc = Wakeup_post"] cnt_update(2) [OF i, of ?asleep] ok [OF i] off move ans force pid in auto)
  moreover have "list_all (wake_ok mtx) (pcs ?s)" if "wake_ok mtx pc"
    using that inv by (auto simp: wake_inv_def list_all_iff dest!: set_update_subset_insert [THEN subsetD])
  moreover have "\<exists>k < length (pcs s). lock m = pids mtx ! k \<and> owner ((pcs s)[i := pc] ! k)" if l: "lock m \<noteq> 0"
  proof -
    have "pcs s ! i \<noteq> Force_cas p" for p using ok [OF i] by auto
    from owner_effect [OF move this] l consider
        (same) "lock m = lock (sh s)" "owner (pcs s ! i) \<longrightarrow> owner pc \<or> lock (sh s) \<noteq> pids mtx ! i"
      | (got) "lock m = pids mtx ! i" "owner pc"
      by blast
    then show ?thesis
    proof cases
      case same
      with inv l obtain k where k: "k < length (pcs s)" "lock m = pids mtx ! k" "owner (pcs s ! k)"
        by (auto simp: wake_inv_def)
      with same have "owner ((pcs s)[i := pc] ! k)" by (cases "k = i") auto
      with k show ?thesis by blast
    next
      case got
      with i show ?thesis by auto
    qed
  qed
  ultimately show ?thesis using inv by (simp add: wake_inv_def)
qed

interpretation shm_wake: invariant_system "shm_init mtx" "shm_step mtx False" "\<lambda>s. excl_inv mtx s \<and> wake_inv mtx s"
  for mtx
proof
  show "excl_inv mtx s \<and> wake_inv mtx s" if "shm_init mtx s" for s
    using that shm_excl.init_Inv [OF that]
    by (auto simp: shm_init_def wake_inv_def wake_counts_def cnt_def list_all_iff)
  show "excl_inv mtx s' \<and> wake_inv mtx s'" if inv: "excl_inv mtx s \<and> wake_inv mtx s" and step: "shm_step mtx False s s'" for s s'
    using step
  proof cases
    case (shm_move i c ans m pc)
    show ?thesis
      using inv wake_inv_step [OF _ _ shm_move(2,3) _ shm_move(5)] shm_move(4) shm_excl.step_Inv [OF _ step]
      by (auto simp: shm_move(1))
  qed simp
qed

text \<open>
  Property C25: no wakeup is lost.  As long as no process dies and the semaphore works, whenever a
  process is asleep on the semaphore, then the lock is held by a process that will unlock it, or the
  semaphore lets a process through, or some process is about to post it or to look at the lock again;
  and the counter of waiting processes is the number of the registered ones, less the ones already woken up.
\<close>

theorem shmtx_no_lost_wakeup:
  assumes "reachable (shm_init mtx) (shm_step mtx False) s" "k < length (pcs s)" "pcs s ! k = Sleep"
  shows "((\<exists>i < length (pcs s). lock (sh s) = pids mtx ! i \<and> owner (pcs s ! i)) \<or> sem (sh s) > 0 \<or>
      (\<exists>i < length (pcs s). pcs s ! i = Wakeup_post \<or> active (pcs s ! i))) \<and>
    sint (wait (sh s)) = cnt registered s - int (sem (sh s)) - cnt (\<lambda>pc. pc = Wakeup_post) s"
proof -
  let ?post = "\<lambda>pc. pc = Wakeup_post"
  from shm_wake.reachable_Inv [OF assms(1)] have excl: "excl_inv mtx s" and inv: "wake_inv mtx s" by auto
  have counts: "wake_counts mtx (int (length (pids mtx))) (sh s) (cnt registered s) (cnt ?post s)
      (cnt (\<lambda>pc. pc = Sleep) s) (cnt active s)" and n: "int (length (pids mtx)) < 2 ^ 63"
    using inv by (simp_all add: wake_inv_def)
  have "length (pcs s) = length (pids mtx)" using excl by (simp add: excl_inv_def)
  then have "cnt registered s \<le> int (length (pids mtx))" by (simp add: cnt_def) (metis length_filter_le)
  then have wait: "sint (wait (sh s)) = cnt registered s - int (sem (sh s)) - cnt ?post s"
    using sint_wait [OF counts cnt_0 _ n cnt_0] by simp
  have "0 < cnt (\<lambda>pc. pc = Sleep) s" using assms(2,3) by (auto simp: cnt_pos)
  then consider "lock (sh s) \<noteq> 0" | "sem (sh s) > 0" | "0 < cnt ?post s" | "0 < cnt active s"
    using counts cnt_0 [of ?post s] by (force simp: wake_counts_def)
  then have "(\<exists>i < length (pcs s). lock (sh s) = pids mtx ! i \<and> owner (pcs s ! i)) \<or> sem (sh s) > 0 \<or>
      (\<exists>i < length (pcs s). pcs s ! i = Wakeup_post \<or> active (pcs s ! i))"
    using inv by cases (auto simp: wake_inv_def cnt_pos)
  with wait show ?thesis by blast
qed

theorem shmtx_no_lost_wakeup_witness:
  "pcs example_state ! 1 = Sleep \<and> sint (wait (sh example_state)) = cnt registered example_state"
proof -
  have "1 < length (pcs example_state)" "pcs example_state ! 1 = Sleep" by (simp_all add: example_state)
  from shmtx_no_lost_wakeup [OF example_reachable this] this show ?thesis
    by (simp add: example_state cnt_def)
qed

end
