(* ===== verification/Ngx_String.thy ===== *)
theory Ngx_String
  imports Ngx_Prelude
begin

text \<open>
  Searching and comparing in \<^verbatim>\<open>src/core/ngx_string.c\<close> and \<^verbatim>\<open>src/core/ngx_string.h\<close>.  A string is the list
  of its bytes, and reading at the end of the list gives the NUL that terminates it; a pointer into a
  string that a search returns is an index.
\<close>

subsection \<open>The functions\<close>

definition byte_at :: "bytes \<Rightarrow> u_char" where
  "byte_at s = (case s of [] \<Rightarrow> 0 | c # _ \<Rightarrow> c)"

fun ngx_strncasecmp :: "bytes \<Rightarrow> bytes \<Rightarrow> nat \<Rightarrow> int" where
  "ngx_strncasecmp s1 s2 0 = 0"
| "ngx_strncasecmp s1 s2 (Suc n) =
     (let c1 = ngx_tolower (byte_at s1); c2 = ngx_tolower (byte_at s2) in
      if c1 = c2 then (if c1 \<noteq> 0 then ngx_strncasecmp (tl s1) (tl s2) n else 0)
      else uint c1 - uint c2)"

fun ngx_strlchr :: "bytes \<Rightarrow> u_char \<Rightarrow> nat option" where
  "ngx_strlchr [] c = None"
| "ngx_strlchr (a # p) c = (if a = c then Some 0 else map_option Suc (ngx_strlchr p c))"

text \<open>
  The search for \<open>s2\<close>, of length \<open>n + 1\<close>, in the bytes \<open>s1\<close> from the pointer on, of which the first \<open>m\<close> are
  in front of \<^verbatim>\<open>last - n\<close>; \<open>end\<close> is \<^verbatim>\<open>last - s1\<close>.
\<close>

fun strlcasestrn_loop :: "bytes \<Rightarrow> nat \<Rightarrow> bytes \<Rightarrow> nat \<Rightarrow> nat option" where
  "strlcasestrn_loop s1 0 s2 n = None"
| "strlcasestrn_loop s1 (Suc m) s2 n =
     (if ngx_tolower (byte_at s1) = ngx_tolower (byte_at s2) \<and> ngx_strncasecmp (tl s1) (tl s2) n = 0 then Some 0
      else map_option Suc (strlcasestrn_loop (tl s1) m s2 n))"

definition ngx_strlcasestrn :: "bytes \<Rightarrow> nat \<Rightarrow> bytes \<Rightarrow> nat \<Rightarrow> nat option" where
  "ngx_strlcasestrn s1 end s2 n = strlcasestrn_loop s1 (end - n) s2 n"

subsection \<open>What they compute\<close>

definition same_word :: "bytes \<Rightarrow> bytes \<Rightarrow> bool" where
  "same_word s t \<longleftrightarrow> map ngx_tolower s = map ngx_tolower t"

lemma same_word_length: "same_word s t \<Longrightarrow> length s = length t"
  by (metis same_word_def length_map)

lemma same_word_Cons [simp]:
  "same_word (c # s) (d # t) \<longleftrightarrow> ngx_tolower c = ngx_tolower d \<and> same_word s t"
  "same_word [] t \<longleftrightarrow> t = []" "same_word s [] \<longleftrightarrow> s = []"
  by (auto simp: same_word_def)

lemma ngx_tolower_0 [simp]: "ngx_tolower 0 = 0"
  by (simp add: ngx_tolower_def)

text \<open>A NUL in the first string, or its end, never matches a byte of the second.\<close>

lemma ngx_strncasecmp_eq:
  "n \<le> length t \<Longrightarrow> 0 \<notin> set t \<Longrightarrow>
   ngx_strncasecmp s t n = 0 \<longleftrightarrow> n \<le> length s \<and> same_word (take n s) (take n t)"
proof (induction n arbitrary: s t)
  case (Suc n)
  then obtain d t' where t: "t = d # t'" by (cases t) auto
  show ?case
  proof (cases s)
    case Nil
    then show ?thesis using Suc.prems t by (auto simp: byte_at_def Let_def uint_0_iff)
  next
    case (Cons c s')
    have "uint (ngx_tolower c) = uint (ngx_tolower d) \<longleftrightarrow> ngx_tolower c = ngx_tolower d"
      by (rule word_uint_eq_iff [symmetric])
    then show ?thesis using Suc t Cons by (auto simp: byte_at_def Let_def)
  qed
qed simp

text \<open>The first place where a word occurs, among the first \<open>m\<close>.\<close>

definition word_at :: "bytes \<Rightarrow> bytes \<Rightarrow> nat \<Rightarrow> bool" where
  "word_at w s d \<longleftrightarrow> d + length w \<le> length s \<and> same_word (take (length w) (drop d s)) w"

lemma word_at_Suc [simp]: "word_at w (c # s) (Suc d) \<longleftrightarrow> word_at w s d"
  by (auto simp: word_at_def)

lemma strlcasestrn_loop_spec:
  assumes "w \<noteq> []" "0 \<notin> set w" "m = 0 \<or> m + length w \<le> Suc (length s)"
  shows "case strlcasestrn_loop s m w (length w - 1) of
      None \<Rightarrow> (\<forall>d < m. \<not> word_at w s d)
    | Some d \<Rightarrow> d < m \<and> word_at w s d \<and> (\<forall>d' < d. \<not> word_at w s d')"
  using assms(3)
proof (induction m arbitrary: s)
  case (Suc m)
  obtain b w' where w: "w = b # w'" using assms(1) by (cases w) auto
  obtain c s' where s: "s = c # s'" using Suc.prems by (cases s) (auto simp: w)
  have here: "ngx_tolower c = ngx_tolower b \<and> ngx_strncasecmp s' w' (length w') = 0 \<longleftrightarrow> word_at w s 0"
    using ngx_strncasecmp_eq [of "length w'" w' s'] assms(2) by (auto simp: w s word_at_def)
  show ?case
  proof (cases "word_at w s 0")
    case True
    with here show ?thesis by (simp add: s w byte_at_def)
  next
    case False
    have IH: "case strlcasestrn_loop s' m w (length w - 1) of
        None \<Rightarrow> (\<forall>d < m. \<not> word_at w s' d)
      | Some d \<Rightarrow> d < m \<and> word_at w s' d \<and> (\<forall>d' < d. \<not> word_at w s' d')"
      using Suc by (simp add: s)
    have "strlcasestrn_loop s (Suc m) w (length w - 1) = map_option Suc (strlcasestrn_loop s' m w (length w - 1))"
      using here False by (auto simp: s w byte_at_def)
    moreover have "(\<forall>d < Suc k. \<not> word_at w s d) \<longleftrightarrow> (\<forall>d < k. \<not> word_at w s' d)" for k
      using False by (auto simp: s less_Suc_eq_0_disj)
    ultimately show ?thesis using IH by (auto simp: s split: option.splits)
  qed
qed simp

lemma ngx_strlchr_spec:
  "case ngx_strlchr s c of
     None \<Rightarrow> c \<notin> set s
   | Some k \<Rightarrow> k < length s \<and> s ! k = c \<and> take k s = takeWhile (\<lambda>a. a \<noteq> c) s"
  by (induction s) (auto split: option.splits)

end
