(* ===== verification/Ngx_Http_Unsafe_Uri.thy ===== *)
theory Ngx_Http_Unsafe_Uri
  imports Ngx_Http_Complex_Uri Ngx_Escape Ngx_String
begin

text \<open>
  The check of URIs that come from a response header, a server side include or a WebDAV destination
  (\<^verbatim>\<open>ngx_http_parse_unsafe_uri\<close> of \<^verbatim>\<open>src/http/ngx_http_parse.c\<close>), and \<^verbatim>\<open>ngx_http_split_args\<close>.  The lemmas
  describe exactly which URIs are refused, in terms of the segments of the path.
\<close>

subsection \<open>The functions\<close>

text \<open>The test for \<^verbatim>\<open>..\<close> followed by a slash or by the end, at the pointer \<open>p\<close>.\<close>

fun dot_dot_ahead :: "bytes \<Rightarrow> bool" where
  "dot_dot_ahead (a # b # rest) \<longleftrightarrow> a = chr_dot \<and> b = chr_dot \<and> (rest = [] \<or> hd rest = chr_slash)"
| "dot_dot_ahead _ \<longleftrightarrow> False"

text \<open>The first loop: \<open>None\<close> if the URI is unsafe, or whether it is quoted, and the position of the \<^verbatim>\<open>?\<close> if there is one.\<close>

fun unsafe_loop :: "bool \<Rightarrow> nat \<Rightarrow> bytes \<Rightarrow> (bool \<times> nat option) option" where
  "unsafe_loop quoted n [] = Some (quoted, None)"
| "unsafe_loop quoted n (ch # p) =
     (if ch = chr_percent then unsafe_loop True (Suc n) p
      else if is_usual ch then unsafe_loop quoted (Suc n) p
      else if ch = chr_question then Some (quoted, Some n)
      else if ch = chr_nul then None
      else if ch = chr_slash \<and> dot_dot_ahead p then None
      else unsafe_loop quoted (Suc n) p)"

text \<open>The second loop, over the unescaped path.\<close>

fun unescaped_unsafe :: "bytes \<Rightarrow> bool" where
  "unescaped_unsafe [] \<longleftrightarrow> False"
| "unescaped_unsafe (ch # p) \<longleftrightarrow>
     (if ch = chr_nul then True
      else if ch = chr_slash \<and> dot_dot_ahead p then True
      else unescaped_unsafe p)"

text \<open>The result is the return code, the URI and the arguments, the latter if they were set.\<close>

definition ngx_http_parse_unsafe_uri :: "bytes \<Rightarrow> int \<times> bytes \<times> bytes option" where
  "ngx_http_parse_unsafe_uri u =
     (if u = [] \<or> hd u = chr_question then (NGX_ERROR, u, None)
      else if dot_dot_ahead u then (NGX_ERROR, u, None)
      else
        case unsafe_loop False 0 u of
          None \<Rightarrow> (NGX_ERROR, u, None)
        | Some (quoted, question) \<Rightarrow>
            let (path, tail) =
              (case question of None \<Rightarrow> (u, None) | Some n \<Rightarrow> (take n u, Some (drop (Suc n) u)))
            in
              if quoted then
                let path = fst (ngx_unescape_uri path 0) in
                if dot_dot_ahead path then (NGX_ERROR, path, tail)
                else if unescaped_unsafe path then (NGX_ERROR, path, tail)
                else (NGX_OK, path, tail)
              else (NGX_OK, path, tail))"

definition ngx_http_split_args :: "bytes \<Rightarrow> bytes \<times> bytes" where
  "ngx_http_split_args u =
     (case ngx_strlchr u chr_question of
        None \<Rightarrow> (u, [])
      | Some n \<Rightarrow> (take n u, drop (Suc n) u))"

subsection \<open>Segments\<close>

text \<open>
  The segments of the path the first loop can see the end of: those in front of a slash, and the last one
  if no arguments follow.
\<close>

definition path_of :: "bytes \<Rightarrow> bytes" where
  "path_of u = takeWhile (\<lambda>c. c \<noteq> chr_question) u"

definition closed_segments :: "bytes \<Rightarrow> bytes list" where
  "closed_segments u =
     (if chr_question \<in> set u then butlast (segments (path_of u)) else segments (path_of u))"

definition dot_dot :: "bytes list \<Rightarrow> bool" where
  "dot_dot ws \<longleftrightarrow> str ''..'' \<in> set ws"

lemma str_dot_dot: "str ''..'' = [chr_dot, chr_dot]"
  by (simp add: str_def)

lemma closed_segments_simps:
  "closed_segments [] = [[]]"
  "closed_segments (chr_question # cs) = []"
  "closed_segments (chr_slash # cs) = [] # closed_segments cs"
  "c \<noteq> chr_slash \<Longrightarrow> c \<noteq> chr_question \<Longrightarrow> closed_segments (c # cs) =
     (if closed_segments cs = [] then [] else (c # hd (closed_segments cs)) # tl (closed_segments cs))"
proof -
  show "closed_segments (c # cs) = (if closed_segments cs = [] then []
      else (c # hd (closed_segments cs)) # tl (closed_segments cs))" if "c \<noteq> chr_slash" "c \<noteq> chr_question"
    using that by (cases "segments (path_of cs)") (auto simp: closed_segments_def path_of_def)
qed (auto simp: closed_segments_def path_of_def)

lemma closed_hd_nil: "closed_segments cs \<noteq> [] \<and> hd (closed_segments cs) = [] \<longleftrightarrow> cs = [] \<or> hd cs = chr_slash"
proof (cases cs)
  case (Cons c cs')
  then show ?thesis
    by (cases "c = chr_slash"; cases "c = chr_question") (auto simp: closed_segments_simps)
qed (simp add: closed_segments_simps)

lemma closed_hd_Cons: "closed_segments (c # cs) \<noteq> [] \<and> hd (closed_segments (c # cs)) = d # w \<longleftrightarrow>
    c = d \<and> c \<noteq> chr_slash \<and> c \<noteq> chr_question \<and> closed_segments cs \<noteq> [] \<and> hd (closed_segments cs) = w"
  by (cases "c = chr_slash"; cases "c = chr_question") (auto simp: closed_segments_simps)

lemma dot_dot_ahead_closed:
  "dot_dot_ahead p \<longleftrightarrow> closed_segments p \<noteq> [] \<and> hd (closed_segments p) = str ''..''"
proof (cases "length p < 2")
  case True
  then consider "p = []" | v where "p = [v]" by (cases p) (auto simp: Suc_le_eq numeral_2_eq_2 less_Suc_eq)
  then show ?thesis
    by cases (use closed_hd_Cons [of _ "[]"] in \<open>auto simp: str_dot_dot closed_segments_simps\<close>)
next
  case False
  then obtain a b rest where "p = a # b # rest" by (cases p; cases "tl p") auto
  then show ?thesis by (auto simp: str_dot_dot closed_hd_Cons closed_hd_nil)
qed

lemma dot_dot_split: "dot_dot ws \<longleftrightarrow> (ws \<noteq> [] \<and> hd ws = str ''..'') \<or> dot_dot (tl ws)"
  by (cases ws) (auto simp: dot_dot_def)

lemma closed_tl: "c \<noteq> chr_slash \<Longrightarrow> c \<noteq> chr_question \<Longrightarrow> tl (closed_segments (c # cs)) = tl (closed_segments cs)"
  by (simp add: closed_segments_simps)

lemma not_usual_nul [simp]: "\<not> is_usual 0"
  by (simp add: is_usual_def usual_def)

lemma path_of_Cons: "path_of (c # cs) = (if c = chr_question then [] else c # path_of cs)"
  by (simp add: path_of_def)

lemma unsafe_loop_spec:
  "unsafe_loop q n p =
     (if 0 \<in> set (path_of p) \<or> dot_dot (tl (closed_segments p)) then None
      else Some (q \<or> chr_percent \<in> set (path_of p),
                 if chr_question \<in> set p then Some (n + length (path_of p)) else None))"
proof (induction p arbitrary: q n)
  case Nil
  then show ?case by (simp add: path_of_def closed_segments_simps dot_dot_def)
next
  case (Cons c p)
  have slash: "dot_dot (tl (closed_segments (chr_slash # p))) \<longleftrightarrow> dot_dot_ahead p \<or> dot_dot (tl (closed_segments p))"
    using dot_dot_split [of "closed_segments p"] by (simp add: closed_segments_simps dot_dot_ahead_closed)
  show ?case
  proof (cases "c = chr_slash \<or> c = chr_question")
    case True
    then show ?thesis using slash Cons by (auto simp: path_of_Cons closed_segments_simps dot_dot_def)
  next
    case False
    then show ?thesis using Cons by (auto simp: path_of_Cons closed_tl)
  qed
qed

text \<open>Without a question mark all segments are closed; the second loop treats it as any byte.\<close>

lemma segments_hd: "segments cs \<noteq> [] \<and> hd (segments cs) = w \<longleftrightarrow> w = takeWhile (\<lambda>c. c \<noteq> chr_slash) cs"
  by (induction cs arbitrary: w) auto

lemma dot_dot_ahead_segments: "dot_dot_ahead p \<longleftrightarrow> hd (segments p) = str ''..''"
proof -
  have "hd (segments p) = takeWhile (\<lambda>c. c \<noteq> chr_slash) p" using segments_hd [of p] by auto
  then show ?thesis by (cases p rule: dot_dot_ahead.cases) (auto simp: str_dot_dot takeWhile_eq_Nil_iff)
qed

lemma unescaped_unsafe_spec: "unescaped_unsafe p \<longleftrightarrow> 0 \<in> set p \<or> dot_dot (tl (segments p))"
proof (induction p)
  case (Cons c p)
  then show ?case
    using dot_dot_split [of "segments p"] by (auto simp: dot_dot_ahead_segments)
qed (simp add: dot_dot_def)

subsection \<open>Which URIs are refused\<close>

lemma path_of_take: "take (length (path_of u)) u = path_of u"
  by (simp add: path_of_def takeWhile_eq_take [symmetric])

lemma path_of_all: "chr_question \<notin> set u \<Longrightarrow> path_of u = u"
  by (auto simp: path_of_def takeWhile_eq_all_conv)

lemma path_of_Nil: "path_of u = [] \<longleftrightarrow> u = [] \<or> hd u = chr_question"
  by (auto simp: path_of_def takeWhile_eq_Nil_iff)

text \<open>
  Property C26: which URIs the check for unsafe URIs refuses, and what it returns.  With the path in front of the first
  question mark, decoded once if it has a percent sign: the URI is refused if the path is
  empty, if the path as it is has a NUL or a parent segment that ends at a slash or at the end of the URI, or if
  the decoded path has a NUL or any parent segment; otherwise the path and the arguments are returned.
\<close>

theorem unsafe_uri_exact:
  "ngx_http_parse_unsafe_uri u =
     (let path = path_of u;
          quoted = (chr_percent \<in> set path);
          path' = (if quoted then fst (ngx_unescape_uri path 0) else path);
          tail = (if chr_question \<in> set u then Some (drop (Suc (length path)) u) else None)
      in if path = [] \<or> chr_nul \<in> set path \<or> str ''..'' \<in> set (closed_segments u) then (NGX_ERROR, u, None)
         else if quoted \<and> (chr_nul \<in> set path' \<or> str ''..'' \<in> set (segments path')) then (NGX_ERROR, path', tail)
         else (NGX_OK, path', tail))"
proof -
  have raw: "str ''..'' \<in> set (closed_segments u) \<longleftrightarrow> dot_dot_ahead u \<or> dot_dot (tl (closed_segments u))"
    using dot_dot_split [of "closed_segments u"] by (simp add: dot_dot_ahead_closed dot_dot_def)
  have decoded: "chr_nul \<in> set p \<or> str ''..'' \<in> set (segments p) \<longleftrightarrow> dot_dot_ahead p \<or> unescaped_unsafe p" for p
    using dot_dot_split [of "segments p"] by (auto simp: dot_dot_ahead_segments unescaped_unsafe_spec dot_dot_def)
  show ?thesis
    using path_of_take [of u] path_of_all [of u]
    by (auto simp: ngx_http_parse_unsafe_uri_def unsafe_loop_spec raw decoded path_of_Nil Let_def)
qed

text \<open>
  A parent segment in front of the question mark is not seen: the first loop wants a slash or the
  end of the whole URI behind the dots, and the second one is only for quoted paths.
\<close>

theorem unsafe_uri_dots_before_args:
  "ngx_http_parse_unsafe_uri (str ''/files/..?x'') = (NGX_OK, str ''/files/..'', Some (str ''x''))"
  "ngx_http_parse_unsafe_uri (str ''..?x'') = (NGX_OK, str ''..'', Some (str ''x''))"
  "fst (ngx_http_parse_unsafe_uri (str ''/files/..'')) = NGX_ERROR"
  by (simp_all add: ngx_http_parse_unsafe_uri_def str_def is_usual_def usual_def)

end
