(* ===== verification/Ngx_Http_Args.thy ===== *)
theory Ngx_Http_Args
  imports Ngx_String
begin

text \<open>
  The look-up of an argument of the query string and of the values in header lines
  (\<^verbatim>\<open>ngx_http_arg\<close>, \<^verbatim>\<open>ngx_http_parse_multi_header_lines\<close> and \<^verbatim>\<open>ngx_http_parse_set_cookie_lines\<close> of
  \<^verbatim>\<open>src/http/ngx_http_parse.c\<close>).  The lemmas relate them to the fields between the separators.
\<close>

subsection \<open>Arguments\<close>

text \<open>
  The loop of \<^verbatim>\<open>ngx_http_arg\<close> at the position \<open>p\<close>.  The value is given by its position and the pointer
  to its end; the name is not empty.
\<close>

lemma strlcasestrn_in_range: "ngx_strlcasestrn s e w n = Some d \<Longrightarrow> d + n < e"
proof -
  have "strlcasestrn_loop s m w n = Some d \<Longrightarrow> d < m" for m
    by (induction m arbitrary: s d) (auto split: if_splits)
  then show "ngx_strlcasestrn s e w n = Some d \<Longrightarrow> d + n < e" by (fastforce simp: ngx_strlcasestrn_def)
qed

function arg_loop :: "bytes \<Rightarrow> bytes \<Rightarrow> nat \<Rightarrow> (nat \<times> nat) option" where
  "arg_loop as name p =
     (if p < length as then
        case ngx_strlcasestrn (drop p as) (length as - 1 - p) name (length name - 1) of
          None \<Rightarrow> None
        | Some d \<Rightarrow>
            let q = p + d in
            if (q = 0 \<or> as ! (q - 1) = chr_amp) \<and> as ! (q + length name) = chr_eq then
              (case ngx_strlchr (drop q as) chr_amp of
                 None \<Rightarrow> Some (q + length name + 1, length as)
               | Some k \<Rightarrow> Some (q + length name + 1, q + k))
            else arg_loop as name (q + 1)
      else None)"
  by pat_completeness auto
termination
  by (relation "measure (\<lambda>(as, name, p). length as - p)") (auto dest: strlcasestrn_in_range)

definition ngx_http_arg :: "bytes \<Rightarrow> bytes \<Rightarrow> int \<times> bytes option" where
  "ngx_http_arg as name =
     (if as = [] then (NGX_DECLINED, None)
      else case arg_loop as name 0 of
        None \<Rightarrow> (NGX_DECLINED, None)
      | Some (start, end) \<Rightarrow> (NGX_OK, Some (take (end - start) (drop start as))))"

declare arg_loop.simps [simp del]

text \<open>The fields between the ampersands, and the one that is meant.\<close>

fun fields :: "u_char \<Rightarrow> bytes \<Rightarrow> bytes list" where
  "fields sep [] = [[]]"
| "fields sep (c # cs) =
     (if c = sep then [] # fields sep cs else (c # hd (fields sep cs)) # tl (fields sep cs))"

definition named :: "bytes \<Rightarrow> bytes \<Rightarrow> bool" where
  "named name f \<longleftrightarrow> length name < length f \<and> same_word (take (length name) f) name \<and> f ! length name = chr_eq"

definition arg_value :: "bytes \<Rightarrow> bytes \<Rightarrow> bytes option" where
  "arg_value name as = map_option (drop (Suc (length name))) (find (named name) (fields chr_amp as))"

text \<open>The same, looking at every place of the string, as the code does.\<close>

fun find_arg :: "bytes \<Rightarrow> bool \<Rightarrow> bytes \<Rightarrow> bytes option" where
  "find_arg name start [] = None"
| "find_arg name start (c # cs) =
     (if start \<and> named name (c # cs) then Some (takeWhile (\<lambda>b. b \<noteq> chr_amp) (drop (length name) cs))
      else find_arg name (c = chr_amp) cs)"

lemma fields_hd: "hd (fields sep cs) = takeWhile (\<lambda>b. b \<noteq> sep) cs" and fields_not_Nil [simp]: "fields sep cs \<noteq> []"
  by (induction cs) auto

lemma tolower_amp: "ngx_tolower c = ngx_tolower chr_amp \<longleftrightarrow> c = chr_amp"
  using upper_or_0x20 [of c] by (auto simp: ngx_tolower_def)

lemma same_word_amp: "same_word s t \<Longrightarrow> chr_amp \<in> set s \<Longrightarrow> chr_amp \<in> set t"
proof -
  assume "same_word s t" "chr_amp \<in> set s"
  then have "ngx_tolower chr_amp \<in> ngx_tolower ` set t" unfolding same_word_def by (metis image_eqI set_map)
  then show "chr_amp \<in> set t" using tolower_amp by (metis imageE)
qed

text \<open>A named argument reaches up to its equals sign at least.\<close>

lemma named_takeWhile:
  assumes "chr_amp \<notin> set name" "named name s"
  shows "takeWhile (\<lambda>b. b \<noteq> chr_amp) s =
    take (Suc (length name)) s @ takeWhile (\<lambda>b. b \<noteq> chr_amp) (drop (Suc (length name)) s)"
proof -
  have "chr_amp \<notin> set (take (length name) s)" using assms same_word_amp by (auto simp: named_def)
  then have "chr_amp \<notin> set (take (Suc (length name)) s)"
    using assms by (auto simp: named_def take_Suc_conv_app_nth)
  then have "takeWhile (\<lambda>b. b \<noteq> chr_amp) (take (Suc (length name)) s @ drop (Suc (length name)) s) =
      take (Suc (length name)) s @ takeWhile (\<lambda>b. b \<noteq> chr_amp) (drop (Suc (length name)) s)"
    by (intro takeWhile_append2) auto
  then show ?thesis by simp
qed

lemma named_append: "named name f \<Longrightarrow> named name (f @ t)"
  by (simp add: named_def nth_append)

lemma named_field:
  assumes "chr_amp \<notin> set name"
  shows "named name (takeWhile (\<lambda>b. b \<noteq> chr_amp) s) \<longleftrightarrow> named name s"
proof
  assume "named name s"
  with named_takeWhile [OF assms this] show "named name (takeWhile (\<lambda>b. b \<noteq> chr_amp) s)"
    by (simp add: named_def nth_append)
next
  assume "named name (takeWhile (\<lambda>b. b \<noteq> chr_amp) s)"
  from named_append [OF this, of "dropWhile (\<lambda>b. b \<noteq> chr_amp) s"] show "named name s" by simp
qed

lemma find_arg_fields:
  assumes "chr_amp \<notin> set name"
  shows "find_arg name start s =
    map_option (drop (Suc (length name))) (find (named name) (if start then fields chr_amp s else tl (fields chr_amp s)))"
proof (induction s arbitrary: start)
  case Nil
  then show ?case by (simp add: named_def)
next
  case (Cons c cs)
  have hd: "named name (hd (fields chr_amp (c # cs))) \<longleftrightarrow> named name (c # cs)"
    unfolding fields_hd by (rule named_field [OF assms])
  show ?case
  proof (cases "start \<and> named name (c # cs)")
    case True
    then have "find (named name) (fields chr_amp (c # cs)) = Some (takeWhile (\<lambda>b. b \<noteq> chr_amp) (c # cs))"
      using hd fields_hd [of chr_amp "c # cs"] fields_not_Nil [of chr_amp "c # cs"]
      by (cases "fields chr_amp (c # cs)") (auto simp del: fields.simps takeWhile.simps fields_not_Nil)
    moreover have "drop (Suc (length name)) (takeWhile (\<lambda>b. b \<noteq> chr_amp) (c # cs)) =
        takeWhile (\<lambda>b. b \<noteq> chr_amp) (drop (length name) cs)"
    proof -
      have "length (take (Suc (length name)) (c # cs)) = Suc (length name)" using True by (simp add: named_def)
      then show ?thesis using True named_takeWhile [OF assms, of "c # cs"]
        by (simp del: takeWhile.simps take_Suc_Cons)
    qed
    ultimately show ?thesis using True by (simp del: fields.simps takeWhile.simps drop_Suc_Cons)
  next
    case False
    then have "find (named name) (if start then fields chr_amp (c # cs) else tl (fields chr_amp (c # cs))) =
        find (named name) (tl (fields chr_amp (c # cs)))"
      using hd by (cases "fields chr_amp (c # cs)") (auto simp del: fields.simps)
    with False Cons [of "c = chr_amp"] show ?thesis by auto
  qed
qed

text \<open>The places the search of the code skips hold no named argument.\<close>

lemma find_arg_skip:
  "d \<le> length s \<Longrightarrow> (\<forall>d' < d. \<not> named name (drop d' s)) \<Longrightarrow>
   find_arg name start s = find_arg name (if d = 0 then start else s ! (d - 1) = chr_amp) (drop d s)"
proof (induction d arbitrary: s start)
  case (Suc d)
  then obtain c cs where s: "s = c # cs" by (cases s) auto
  have "\<not> named name (drop d' cs)" if "d' < d" for d' using Suc.prems(2) [rule_format, of "Suc d'"] that by (simp add: s)
  with Suc have "find_arg name (c = chr_amp) cs =
      find_arg name (if d = 0 then c = chr_amp else cs ! (d - 1) = chr_amp) (drop d cs)" by (auto simp: s)
  moreover have "\<not> named name (c # cs)" using Suc.prems(2) [rule_format, of 0] by (simp add: s)
  ultimately show ?case by (cases d) (auto simp: s)
qed simp

lemma named_word_at: "named name (drop d s) \<Longrightarrow> word_at name s d \<and> d + length name < length s"
  by (auto simp: named_def word_at_def)

lemma find_arg_none:
  assumes "\<forall>d < length s. \<not> named name (drop d s)"
  shows "find_arg name start s = None"
  using find_arg_skip [of "length s" s name start] assms by simp

lemma arg_value_slice:
  assumes "chr_amp \<notin> set name" "named name s"
  shows "takeWhile (\<lambda>b. b \<noteq> chr_amp) (drop (Suc (length name)) s) =
    (case ngx_strlchr s chr_amp of
       None \<Rightarrow> drop (Suc (length name)) s
     | Some k \<Rightarrow> take (k - Suc (length name)) (drop (Suc (length name)) s))"
proof -
  have "takeWhile (\<lambda>b. b \<noteq> chr_amp) (drop (Suc (length name)) s) =
      drop (Suc (length name)) (takeWhile (\<lambda>b. b \<noteq> chr_amp) s)"
    using assms named_takeWhile [OF assms] by (simp add: named_def)
  moreover have "takeWhile (\<lambda>b. b \<noteq> chr_amp) s = (case ngx_strlchr s chr_amp of None \<Rightarrow> s | Some k \<Rightarrow> take k s)"
    using ngx_strlchr_spec [where s = s and c = chr_amp] by (auto split: option.splits simp: takeWhile_eq_all_conv)
  ultimately show ?thesis by (simp add: drop_take split: option.splits)
qed

lemma arg_loop_find:
  assumes name: "name \<noteq> []" "chr_amp \<notin> set name" "0 \<notin> set name"
  shows "p \<le> length as \<Longrightarrow>
    map_option (\<lambda>(a, e). take (e - a) (drop a as)) (arg_loop as name p) =
    find_arg name (p = 0 \<or> as ! (p - 1) = chr_amp) (drop p as)"
proof (induction "length as - p" arbitrary: p rule: less_induct)
  case (less p)
  let ?n = "length name" and ?s = "drop p as"
  let ?m = "length as - 1 - p - (?n - 1)" and ?st = "p = 0 \<or> as ! (p - 1) = chr_amp"
  have "?m = 0 \<or> ?m + ?n \<le> Suc (length ?s)" using less.prems by auto
  note found = strlcasestrn_loop_spec [OF name(1,3) this, folded ngx_strlcasestrn_def]
  show ?case
  proof (cases "p < length as")
    case False
    then show ?thesis by (simp add: arg_loop.simps)
  next
    case True
    show ?thesis
    proof (cases "ngx_strlcasestrn ?s (length as - 1 - p) name (?n - 1)")
      case None
      have "\<not> named name (drop d ?s)" for d
      proof
        assume "named name (drop d ?s)"
        then have "word_at name ?s d" "d + ?n < length ?s" using named_word_at by blast+
        moreover from this(2) have "d < ?m" using name(1) by (cases name) auto
        ultimately show False using found None by simp
      qed
      then have "find_arg name ?st ?s = None" by (intro find_arg_none) blast
      with None show ?thesis by (simp add: arg_loop.simps)
    next
      case (Some d)
      with found have d: "d < ?m" "word_at name ?s d" "\<forall>d' < d. \<not> word_at name ?s d'" by auto
      then have range: "p + d + ?n < length as" using name(1) by (cases name) auto
      have "find_arg name ?st ?s = find_arg name (if d = 0 then ?st else ?s ! (d - 1) = chr_amp) (drop d ?s)"
        using d(3) range named_word_at by (intro find_arg_skip) auto
      also have "(if d = 0 then ?st else ?s ! (d - 1) = chr_amp) \<longleftrightarrow> p + d = 0 \<or> as ! (p + d - 1) = chr_amp"
        using range by (cases d) auto
      finally have skip: "find_arg name ?st ?s =
          find_arg name (p + d = 0 \<or> as ! (p + d - 1) = chr_amp) (drop (p + d) as)" by (simp add: add.commute)
      define q where "q = p + d"
      have is_named: "named name (drop q as) \<longleftrightarrow> as ! (q + ?n) = chr_eq"
        using d(2) range by (auto simp: named_def word_at_def q_def add.commute)
      have cs: "drop q as = as ! q # drop (Suc q) as" using range by (simp add: q_def Cons_nth_drop_Suc)
      show ?thesis
      proof (cases "(q = 0 \<or> as ! (q - 1) = chr_amp) \<and> as ! (q + ?n) = chr_eq")
        case True
        have "find_arg name ?st ?s = Some (takeWhile (\<lambda>b. b \<noteq> chr_amp) (drop (Suc ?n) (drop q as)))"
          using True is_named skip by (simp add: q_def [symmetric] cs)
        moreover have "arg_loop as name p =
            (case ngx_strlchr (drop q as) chr_amp of
               None \<Rightarrow> Some (q + ?n + 1, length as) | Some k \<Rightarrow> Some (q + ?n + 1, q + k))"
          using True Some \<open>p < length as\<close> unfolding q_def by (subst arg_loop.simps) (simp add: Let_def)
        ultimately show ?thesis
          using arg_value_slice [OF name(2), of "drop q as"] True is_named
          by (auto simp: add.commute split: option.splits)
      next
        case False
        have "arg_loop as name p = arg_loop as name (q + 1)"
          using False Some \<open>p < length as\<close> unfolding q_def by (subst arg_loop.simps) (auto simp: Let_def)
        moreover have "find_arg name ?st ?s = find_arg name (as ! q = chr_amp) (drop (q + 1) as)"
          using skip False is_named range cs by (auto simp: q_def [symmetric])
        ultimately show ?thesis using less.hyps [of "q + 1"] range by (simp add: q_def)
      qed
    qed
  qed
qed

text \<open>
  The look-up of a query argument returns the value of the first field between ampersands that consists of
  the name, in any case, an equals sign and the value, and declines if there is none.  The name is not
  empty and has no ampersand and no NUL, as in the name of a variable.
\<close>

theorem http_arg_first_field:
  assumes "name \<noteq> []" "chr_amp \<notin> set name" "0 \<notin> set name"
  shows "ngx_http_arg as name =
    (case find (named name) (fields chr_amp as) of
       None \<Rightarrow> (NGX_DECLINED, None)
     | Some f \<Rightarrow> (NGX_OK, Some (drop (Suc (length name)) f)))"
proof -
  have "map_option (\<lambda>(a, e). take (e - a) (drop a as)) (arg_loop as name 0) =
      map_option (drop (Suc (length name))) (find (named name) (fields chr_amp as))"
    using arg_loop_find [OF assms, of 0 as] find_arg_fields [OF assms(2), of True as] by simp
  moreover have "find (named name) (fields chr_amp []) = None" by (simp add: named_def)
  ultimately show ?thesis by (auto simp: ngx_http_arg_def split: option.splits)
qed

theorem http_arg_first_field_witness:
  "ngx_http_arg (str ''xid=7&ID=42&id=9'') (str ''id'') = (NGX_OK, Some (str ''42''))"
  using http_arg_first_field [of "str ''id''" "str ''xid=7&ID=42&id=9''"]
  by (simp add: str_def named_def same_word_def ngx_tolower_def)

subsection \<open>Header lines\<close>

definition is_sep :: "u_char \<Rightarrow> bool" where
  "is_sep c \<longleftrightarrow> c = chr_semicolon \<or> c = chr_comma"

definition skip_spaces :: "bytes \<Rightarrow> bytes" where
  "skip_spaces s = dropWhile (\<lambda>c. c = chr_space) s"

text \<open>The label \<^verbatim>\<open>skip\<close>: behind the next separator and the spaces that follow it.\<close>

definition skip_value :: "bytes \<Rightarrow> bytes" where
  "skip_value s = skip_spaces (tl (dropWhile (\<lambda>c. \<not> is_sep c) s))"

lemma skip_value_length: "length (skip_value s) \<le> length s - 1"
proof -
  have "length (skip_value s) \<le> length (tl (dropWhile (\<lambda>c. \<not> is_sep c) s))"
    unfolding skip_value_def skip_spaces_def by (rule length_dropWhile_le)
  also have "\<dots> \<le> length s - 1" by (simp add: diff_le_mono length_dropWhile_le)
  finally show ?thesis .
qed

text \<open>
  The loop over the value of one header, from the pointer \<^verbatim>\<open>start\<close> on; \<open>want\<close> is whether the caller asks for
  the value behind the name (\<^verbatim>\<open>value != NULL\<close>).
\<close>

function header_value_loop :: "bytes \<Rightarrow> bool \<Rightarrow> bytes \<Rightarrow> bytes option option" where
  "header_value_loop name want s =
     (if s = [] then None
      else if ngx_strncasecmp s name (length name) \<noteq> 0 then header_value_loop name want (skip_value s)
      else
        let t = skip_spaces (drop (length name) s) in
        if \<not> want then
          (if t = [] \<or> hd t = chr_comma then Some None else header_value_loop name want (skip_value t))
        else if t = [] \<or> hd t \<noteq> chr_eq then header_value_loop name want (skip_value (tl t))
        else Some (Some (takeWhile (\<lambda>c. c \<noteq> chr_semicolon) (skip_spaces (tl t)))))"
  by pat_completeness auto
termination
proof (relation "measure (\<lambda>(name, want, s). length s)", goal_cases)
  case (2 name want s)
  then show ?case using skip_value_length [of s] by (cases s) auto
next
  case (3 name want s t)
  have "length t \<le> length s" using 3 by (simp add: skip_spaces_def length_dropWhile_le le_trans [OF length_dropWhile_le])
  moreover have "0 < length t" using 3 by auto
  ultimately have "length (skip_value t) < length s" using skip_value_length [of t] by linarith
  then show ?case by simp
next
  case (4 name want s t)
  have "length t \<le> length s" using 4 by (simp add: skip_spaces_def length_dropWhile_le le_trans [OF length_dropWhile_le])
  moreover have "0 < length s" using 4 by auto
  ultimately have "length (skip_value (tl t)) < length s"
    using skip_value_length [of "tl t"] unfolding length_tl by linarith
  then show ?case by simp
qed simp

declare header_value_loop.simps [simp del]

text \<open>The headers are the values of the list; the result is the position of the header that matches, and the value.\<close>

fun ngx_http_parse_multi_header_lines :: "bytes list \<Rightarrow> bytes \<Rightarrow> bool \<Rightarrow> (nat \<times> bytes option) option" where
  "ngx_http_parse_multi_header_lines [] name want = None"
| "ngx_http_parse_multi_header_lines (h # headers) name want =
     (case (if length name > length h then None else header_value_loop name want h) of
        Some value \<Rightarrow> Some (0, value)
      | None \<Rightarrow> map_option (apfst Suc) (ngx_http_parse_multi_header_lines headers name want))"

definition set_cookie_value :: "bytes \<Rightarrow> bytes \<Rightarrow> bytes option" where
  "set_cookie_value name h =
     (if length name \<ge> length h then None
      else if ngx_strncasecmp h name (length name) \<noteq> 0 then None
      else
        let t = skip_spaces (drop (length name) h) in
        if t = [] \<or> hd t \<noteq> chr_eq then None
        else Some (takeWhile (\<lambda>c. c \<noteq> chr_semicolon) (skip_spaces (tl t))))"

fun ngx_http_parse_set_cookie_lines :: "bytes list \<Rightarrow> bytes \<Rightarrow> (nat \<times> bytes) option" where
  "ngx_http_parse_set_cookie_lines [] name = None"
| "ngx_http_parse_set_cookie_lines (h # headers) name =
     (case set_cookie_value name h of
        Some value \<Rightarrow> Some (0, value)
      | None \<Rightarrow> map_option (apfst Suc) (ngx_http_parse_set_cookie_lines headers name))"

subsection \<open>Cookies\<close>

text \<open>A well-formed list of cookies: names are words without separators, values are free of separators.\<close>

definition cookie_name :: "bytes \<Rightarrow> bool" where
  "cookie_name n \<longleftrightarrow> n \<noteq> [] \<and>
     list_all (\<lambda>c. \<not> is_sep c \<and> c \<noteq> chr_eq \<and> c \<noteq> chr_space \<and> c \<noteq> chr_nul) n"

definition cookie_ok :: "bytes \<times> bytes \<Rightarrow> bool" where
  "cookie_ok nv \<longleftrightarrow> cookie_name (fst nv) \<and>
     list_all (\<lambda>c. \<not> is_sep c) (snd nv) \<and> (snd nv = [] \<or> hd (snd nv) \<noteq> chr_space)"

fun render_cookies :: "(bytes \<times> bytes) list \<Rightarrow> bytes" where
  "render_cookies [] = []"
| "render_cookies [(n, v)] = n @ chr_eq # v"
| "render_cookies ((n, v) # nvs) = n @ chr_eq # v @ chr_semicolon # chr_space # render_cookies nvs"

lemma skip_spaces_Cons [simp]: "skip_spaces (c # s) = (if c = chr_space then skip_spaces s else c # s)"
  by (simp add: skip_spaces_def)

text \<open>What follows the first cookie, with its separator; and the rest of it from any place in its name is skipped.\<close>

fun cookie_rest :: "(bytes \<times> bytes) list \<Rightarrow> bytes" where
  "cookie_rest [] = []"
| "cookie_rest nvs = chr_semicolon # chr_space # render_cookies nvs"

lemma render_Cons: "render_cookies ((n, v) # nvs) = n @ chr_eq # v @ cookie_rest nvs"
  by (cases nvs) auto

lemma skip_spaces_cookie: "list_all cookie_ok nvs \<Longrightarrow> skip_spaces (render_cookies nvs) = render_cookies nvs"
proof (induction nvs)
  case (Cons nv nvs)
  obtain n v where nv: "nv = (n, v)" by force
  with Cons.prems obtain c n' where "n = c # n'" "c \<noteq> chr_space"
    by (cases n) (auto simp: cookie_ok_def cookie_name_def)
  then show ?case by (simp add: nv render_Cons)
qed (simp add: skip_spaces_def)

lemma skip_cookie:
  assumes "list_all cookie_ok nvs" "list_all (\<lambda>c. \<not> is_sep c) w"
  shows "skip_value (w @ cookie_rest nvs) = render_cookies nvs"
proof -
  have "dropWhile (\<lambda>c. \<not> is_sep c) (w @ cookie_rest nvs) = dropWhile (\<lambda>c. \<not> is_sep c) (cookie_rest nvs)"
    using assms(2) by (intro dropWhile_append2) (auto simp: list_all_iff)
  then have "skip_value (w @ cookie_rest nvs) = skip_value (cookie_rest nvs)" by (simp add: skip_value_def)
  then show ?thesis
    using skip_spaces_cookie [OF assms(1)] by (cases nvs) (auto simp: skip_value_def is_sep_def skip_spaces_def)
qed

lemma takeWhile_cookie:
  "list_all (\<lambda>c. \<not> is_sep c) v \<Longrightarrow> takeWhile (\<lambda>c. c \<noteq> chr_semicolon) (v @ cookie_rest nvs) = v"
  by (cases nvs) (auto simp: takeWhile_append2 list_all_iff is_sep_def takeWhile_eq_all_conv)

lemma not_sep_eq [simp]: "\<not> is_sep chr_eq" "is_sep chr_semicolon" "\<not> is_sep chr_space"
  by (simp_all add: is_sep_def)

lemma skip_spaces_append:
  "v = [] \<or> hd v \<noteq> chr_space \<Longrightarrow> skip_spaces (v @ cookie_rest nvs) = v @ cookie_rest nvs"
  by (cases v; cases nvs) (auto simp: skip_spaces_def)

lemma tolower_eq: "ngx_tolower c = ngx_tolower chr_eq \<longleftrightarrow> c = chr_eq"
  using upper_or_0x20 [of c] by (auto simp: ngx_tolower_def)

lemma cookie_prefix:
  assumes n: "cookie_name n" and name: "cookie_name name"
    and "word_at name (n @ chr_eq # s) 0"
  shows "same_word (take (length name) n) name \<and> length name \<le> length n"
proof -
  have m: "same_word (take (length name) (n @ chr_eq # s)) name" using assms(3) by (simp add: word_at_def)
  have "length name \<le> length n"
  proof (rule ccontr)
    assume "\<not> length name \<le> length n"
    then have l: "length n < length name" by simp
    have "map ngx_tolower (take (length name) (n @ chr_eq # s)) ! length n = map ngx_tolower name ! length n"
      using m by (simp add: same_word_def)
    then have "ngx_tolower (name ! length n) = ngx_tolower chr_eq" using l by (simp add: nth_append)
    then have "name ! length n = chr_eq" by (simp add: tolower_eq)
    with name l show False by (auto simp: cookie_name_def list_all_length)
  qed
  with m show ?thesis by simp
qed

lemma cookie_loop:
  assumes "list_all cookie_ok nvs" "cookie_name name"
  shows "header_value_loop name True (render_cookies nvs) =
    map_option (\<lambda>nv. Some (snd nv)) (find (\<lambda>nv. same_word (fst nv) name) nvs)"
  using assms(1)
proof (induction nvs)
  case Nil
  then show ?case by (simp add: header_value_loop.simps)
next
  case (Cons nv nvs)
  obtain n v where nv: "nv = (n, v)" by force
  let ?s = "n @ chr_eq # v @ cookie_rest nvs" and ?l = "length name"
  have n: "cookie_name n" and v: "list_all (\<lambda>c. \<not> is_sep c) v" "v = [] \<or> hd v \<noteq> chr_space"
    using Cons.prems by (auto simp: nv cookie_ok_def)
  have nvs: "list_all cookie_ok nvs" using Cons.prems by simp
  have sep: "list_all (\<lambda>c. \<not> is_sep c) (w @ chr_eq # v)" if "set w \<subseteq> set n" for w
    using n v that by (auto simp: cookie_name_def list_all_iff)
  have skip: "skip_value (w @ chr_eq # v @ cookie_rest nvs) = render_cookies nvs" if "set w \<subseteq> set n" for w
    using skip_cookie [OF nvs sep [OF that]] by simp
  have cmp: "ngx_strncasecmp ?s name ?l = 0 \<longleftrightarrow> word_at name ?s 0"
    using ngx_strncasecmp_eq [of ?l name ?s] assms(2) by (auto simp: word_at_def cookie_name_def list_all_iff)
  consider (other) "\<not> word_at name ?s 0" | (found) "same_word n name"
    | (longer) "word_at name ?s 0" "\<not> same_word n name" by blast
  then show ?case
  proof cases
    case other
    then have "\<not> same_word n name" using same_word_length [of n name] by (auto simp: word_at_def)
    then show ?thesis
      using other cmp skip [of n] Cons.IH [OF nvs] by (simp add: nv render_Cons header_value_loop.simps [of name True ?s])
  next
    case found
    then have "length n = ?l" "word_at name ?s 0" using same_word_length [OF found] by (auto simp: word_at_def)
    then show ?thesis
      using found cmp v skip_spaces_append takeWhile_cookie
      by (simp add: nv render_Cons header_value_loop.simps [of name True ?s] Let_def)
  next
    case longer
    from cookie_prefix [OF n assms(2) this(1)] longer(2) have l: "?l < length n" by (cases "?l = length n") auto
    then obtain c w where w: "drop ?l n = c # w" by (cases "drop ?l n") auto
    then have c: "c \<in> set n" "set w \<subseteq> set n" by (metis in_set_dropD list.set_intros(1), metis set_drop_subset set_subset_Cons subset_trans)
    then have "c \<noteq> chr_eq" "c \<noteq> chr_space" using n by (auto simp: cookie_name_def list_all_iff)
    then show ?thesis
      using longer cmp l w skip [OF c(2)] Cons.IH [OF nvs]
      by (simp add: nv render_Cons header_value_loop.simps [of name True ?s] Let_def)
  qed
qed

lemma render_length: "nv \<in> set nvs \<Longrightarrow> length (fst nv) \<le> length (render_cookies nvs)"
proof (induction nvs)
  case (Cons nv' nvs)
  obtain n v where "nv' = (n, v)" by force
  with Cons show ?case by (cases nvs) (auto simp: render_Cons)
qed simp

text \<open>
  The look-up of a cookie.  Of header lines that each hold a list of well-formed cookies, the
  parser returns the value of the first cookie with the given name, in any case, and nothing if there is
  no such cookie: names that only begin alike are passed over.
\<close>

theorem cookie_lookup:
  assumes "list_all (list_all cookie_ok) lines" "cookie_name name"
  shows "map_option snd (ngx_http_parse_multi_header_lines (map render_cookies lines) name True) =
    map_option (\<lambda>nv. Some (snd nv)) (find (\<lambda>nv. same_word (fst nv) name) (concat lines))"
  using assms(1)
proof (induction lines)
  case (Cons l ls)
  have l: "header_value_loop name True (render_cookies l) =
      map_option (\<lambda>nv. Some (snd nv)) (find (\<lambda>nv. same_word (fst nv) name) l)"
    using cookie_loop [OF _ assms(2)] Cons.prems by simp
  have short: "find (\<lambda>nv. same_word (fst nv) name) l = None" if "length name > length (render_cookies l)"
    unfolding find_None_iff using that render_length same_word_length by fastforce
  show ?case
    using Cons l short by (auto simp: find_append option.map_comp comp_def split: option.splits)
qed simp

theorem cookie_lookup_witness:
  "map_option snd (ngx_http_parse_multi_header_lines
     [str ''sid2=5; SID=abc; lang=en''] (str ''sid'') True) = Some (Some (str ''abc''))"
proof -
  let ?l = "[(str ''sid2'', str ''5''), (str ''SID'', str ''abc''), (str ''lang'', str ''en'')]"
  have "list_all (list_all cookie_ok) [?l]" "cookie_name (str ''sid'')"
    by (simp_all add: cookie_ok_def cookie_name_def is_sep_def str_def)
  from cookie_lookup [OF this] show ?thesis by (simp add: str_def same_word_def ngx_tolower_def)
qed

end
