(* ===== verification/Ngx_Radix_Tree.thy ===== *)
theory Ngx_Radix_Tree
  imports Ngx_Prelude "HOL-Library.Sublist"
begin

text \<open>
  The radix trees of \<^verbatim>\<open>src/core/ngx_radix_tree.c\<close>, which map address prefixes to values: insertion,
  deletion and look-up for 32-bit keys, and for keys of 16 bytes.  Nodes are the values of a datatype;
  the way back along \<^verbatim>\<open>parent\<close> pointers is the return from the recursion.  Both kinds of trees are shown
  to implement a table with longest prefix match.
\<close>

subsection \<open>Trees\<close>

definition NGX_RADIX_NO_VALUE :: uint64 where
  "NGX_RADIX_NO_VALUE = - 1"

datatype radix_node = NULL | Node (right: radix_node) (left: radix_node) (node_value: uint64)

text \<open>
  The chain of new nodes of the second loop of the insertion.  \<open>avail\<close> is the number of nodes that can still
  be allocated; when there are no more, \<^verbatim>\<open>NGX_ERROR\<close> is returned and the chain so far stays in the tree.
\<close>

function radix32_chain :: "nat \<Rightarrow> uint32 \<Rightarrow> uint32 \<Rightarrow> uint64 \<Rightarrow> uint32 \<Rightarrow> int \<times> radix_node" where
  "radix32_chain avail key msk v bt =
     (if avail = 0 then (NGX_ERROR, NULL)
      else if bt AND msk \<noteq> 0 then
        (case radix32_chain (avail - 1) key msk v (drop_bit 1 bt) of
           (rc, next) \<Rightarrow>
             (rc, if key AND bt \<noteq> 0 then Node next NULL NGX_RADIX_NO_VALUE else Node NULL next NGX_RADIX_NO_VALUE))
      else (NGX_OK, Node NULL NULL v))"
  by pat_completeness auto
termination by (relation "measure (\<lambda>(avail, key, msk, v, bt). avail)") auto

declare radix32_chain.simps [simp del]

text \<open>The insertion below the node \<open>t\<close>, which is not \<^verbatim>\<open>NULL\<close>, at the bit \<open>bt\<close>.\<close>

fun radix32_insert :: "nat \<Rightarrow> uint32 \<Rightarrow> uint32 \<Rightarrow> uint64 \<Rightarrow> uint32 \<Rightarrow> radix_node \<Rightarrow> int \<times> radix_node" where
  "radix32_insert avail key msk v bt NULL = radix32_chain avail key msk v bt"
| "radix32_insert avail key msk v bt (Node r l w) =
     (if bt AND msk \<noteq> 0 then
        (if key AND bt \<noteq> 0 then
           (case radix32_insert avail key msk v (drop_bit 1 bt) r of (rc, r') \<Rightarrow> (rc, Node r' l w))
         else
           (case radix32_insert avail key msk v (drop_bit 1 bt) l of (rc, l') \<Rightarrow> (rc, Node r l' w)))
      else if w \<noteq> NGX_RADIX_NO_VALUE then (NGX_BUSY, Node r l w)
      else (NGX_OK, Node r l v))"

definition ngx_radix32tree_insert :: "nat \<Rightarrow> uint32 \<Rightarrow> uint32 \<Rightarrow> uint64 \<Rightarrow> radix_node \<Rightarrow> int \<times> radix_node" where
  "ngx_radix32tree_insert avail key msk v root = radix32_insert avail key msk v 0x80000000 root"

text \<open>
  The deletion.  A leaf is unlinked, and so is every node above it that has no other child and no
  value, up to the root, which stays.
\<close>

definition unlink :: "bool \<Rightarrow> bool \<Rightarrow> radix_node \<Rightarrow> radix_node" where
  "unlink is_root removed t =
     (if removed \<and> \<not> is_root \<and> right t = NULL \<and> left t = NULL \<and> node_value t = NGX_RADIX_NO_VALUE then NULL else t)"

definition radix_delete_here :: "radix_node \<Rightarrow> int \<times> radix_node" where
  "radix_delete_here t =
     (if right t \<noteq> NULL \<or> left t \<noteq> NULL then
        (if node_value t \<noteq> NGX_RADIX_NO_VALUE then (NGX_OK, Node (right t) (left t) NGX_RADIX_NO_VALUE)
         else (NGX_ERROR, t))
      else (NGX_OK, NULL))"

fun radix32_delete :: "bool \<Rightarrow> uint32 \<Rightarrow> uint32 \<Rightarrow> uint32 \<Rightarrow> radix_node \<Rightarrow> int \<times> radix_node" where
  "radix32_delete is_root key msk bt NULL = (NGX_ERROR, NULL)"
| "radix32_delete is_root key msk bt (Node r l w) =
     (if bt AND msk \<noteq> 0 then
        (if key AND bt \<noteq> 0 then
           (case radix32_delete False key msk (drop_bit 1 bt) r of
              (rc, r') \<Rightarrow> (rc, unlink is_root (rc = NGX_OK \<and> r' = NULL) (Node r' l w)))
         else
           (case radix32_delete False key msk (drop_bit 1 bt) l of
              (rc, l') \<Rightarrow> (rc, unlink is_root (rc = NGX_OK \<and> l' = NULL) (Node r l' w))))
      else radix_delete_here (Node r l w))"

text \<open>\<open>None\<close>: the root itself has no children and is to be deleted, and its \<^verbatim>\<open>parent\<close>, \<^verbatim>\<open>NULL\<close>, is followed.\<close>

definition ngx_radix32tree_delete :: "uint32 \<Rightarrow> uint32 \<Rightarrow> radix_node \<Rightarrow> (int \<times> radix_node) option" where
  "ngx_radix32tree_delete key msk root =
     (if 0x80000000 AND msk = 0 \<and> right root = NULL \<and> left root = NULL then None
      else Some (radix32_delete True key msk 0x80000000 root))"

fun radix32_find :: "uint32 \<Rightarrow> uint32 \<Rightarrow> uint64 \<Rightarrow> radix_node \<Rightarrow> uint64" where
  "radix32_find key bt v NULL = v"
| "radix32_find key bt v (Node r l w) =
     (let v = (if w \<noteq> NGX_RADIX_NO_VALUE then w else v) in
      if key AND bt \<noteq> 0 then radix32_find key (drop_bit 1 bt) v r
      else radix32_find key (drop_bit 1 bt) v l)"

definition ngx_radix32tree_find :: "uint32 \<Rightarrow> radix_node \<Rightarrow> uint64" where
  "ngx_radix32tree_find key root = radix32_find key 0x80000000 NGX_RADIX_NO_VALUE root"

text \<open>
  The same for keys of 16 bytes: the place in the key is a byte index and a bit of the byte.  The loops of insertion and
  deletion end with the mask or behind the last byte; the look-up ends at a \<^verbatim>\<open>NULL\<close> only.
\<close>

definition next_bit :: "nat \<times> u_char \<Rightarrow> nat \<times> u_char" where
  "next_bit = (\<lambda>(i, bt). if drop_bit 1 bt = 0 then (i + 1, 0x80) else (i, drop_bit 1 bt))"

definition in_mask :: "bytes \<Rightarrow> nat \<times> u_char \<Rightarrow> bool" where
  "in_mask msk = (\<lambda>(i, bt). i < 16 \<and> bt AND msk ! i \<noteq> 0)"

definition key_bit :: "bytes \<Rightarrow> nat \<times> u_char \<Rightarrow> bool" where
  "key_bit key = (\<lambda>(i, bt). key ! i AND bt \<noteq> 0)"

fun radix128_chain :: "nat \<Rightarrow> bytes \<Rightarrow> bytes \<Rightarrow> uint64 \<Rightarrow> nat \<times> u_char \<Rightarrow> int \<times> radix_node" where
  "radix128_chain 0 key msk v pos = (NGX_ERROR, NULL)"
| "radix128_chain (Suc avail) key msk v pos =
     (if in_mask msk pos then
        (case radix128_chain avail key msk v (next_bit pos) of
           (rc, next) \<Rightarrow>
             (rc, if key_bit key pos then Node next NULL NGX_RADIX_NO_VALUE else Node NULL next NGX_RADIX_NO_VALUE))
      else (NGX_OK, Node NULL NULL v))"

fun radix128_insert :: "nat \<Rightarrow> bytes \<Rightarrow> bytes \<Rightarrow> uint64 \<Rightarrow> nat \<times> u_char \<Rightarrow> radix_node \<Rightarrow> int \<times> radix_node" where
  "radix128_insert avail key msk v pos NULL = radix128_chain avail key msk v pos"
| "radix128_insert avail key msk v pos (Node r l w) =
     (if in_mask msk pos then
        (if key_bit key pos then
           (case radix128_insert avail key msk v (next_bit pos) r of (rc, r') \<Rightarrow> (rc, Node r' l w))
         else
           (case radix128_insert avail key msk v (next_bit pos) l of (rc, l') \<Rightarrow> (rc, Node r l' w)))
      else if w \<noteq> NGX_RADIX_NO_VALUE then (NGX_BUSY, Node r l w)
      else (NGX_OK, Node r l v))"

definition ngx_radix128tree_insert :: "nat \<Rightarrow> bytes \<Rightarrow> bytes \<Rightarrow> uint64 \<Rightarrow> radix_node \<Rightarrow> int \<times> radix_node" where
  "ngx_radix128tree_insert avail key msk v root = radix128_insert avail key msk v (0, 0x80) root"

fun radix128_delete :: "bool \<Rightarrow> bytes \<Rightarrow> bytes \<Rightarrow> nat \<times> u_char \<Rightarrow> radix_node \<Rightarrow> int \<times> radix_node" where
  "radix128_delete is_root key msk pos NULL = (NGX_ERROR, NULL)"
| "radix128_delete is_root key msk pos (Node r l w) =
     (if in_mask msk pos then
        (if key_bit key pos then
           (case radix128_delete False key msk (next_bit pos) r of
              (rc, r') \<Rightarrow> (rc, unlink is_root (rc = NGX_OK \<and> r' = NULL) (Node r' l w)))
         else
           (case radix128_delete False key msk (next_bit pos) l of
              (rc, l') \<Rightarrow> (rc, unlink is_root (rc = NGX_OK \<and> l' = NULL) (Node r l' w))))
      else radix_delete_here (Node r l w))"

definition ngx_radix128tree_delete :: "bytes \<Rightarrow> bytes \<Rightarrow> radix_node \<Rightarrow> (int \<times> radix_node) option" where
  "ngx_radix128tree_delete key msk root =
     (if \<not> in_mask msk (0, 0x80) \<and> right root = NULL \<and> left root = NULL then None
      else Some (radix128_delete True key msk (0, 0x80) root))"

fun radix128_find :: "bytes \<Rightarrow> nat \<times> u_char \<Rightarrow> uint64 \<Rightarrow> radix_node \<Rightarrow> uint64" where
  "radix128_find key pos v NULL = v"
| "radix128_find key pos v (Node r l w) =
     (let v = (if w \<noteq> NGX_RADIX_NO_VALUE then w else v) in
      if key_bit key pos then radix128_find key (next_bit pos) v r
      else radix128_find key (next_bit pos) v l)"

definition ngx_radix128tree_find :: "bytes \<Rightarrow> radix_node \<Rightarrow> uint64" where
  "ngx_radix128tree_find key root = radix128_find key (0, 0x80) NGX_RADIX_NO_VALUE root"

text \<open>
  The creation.  Preallocation inserts nodes without a value for every prefix of up to the given number
  of bits, which is not negative or -1; \<open>None\<close> when an insertion fails.  The inner loop goes on until the key is zero again.
\<close>

partial_function (option) preallocate_level ::
  "nat \<Rightarrow> uint32 \<Rightarrow> uint32 \<Rightarrow> uint32 \<Rightarrow> radix_node \<Rightarrow> radix_node option option" where
  "preallocate_level avail key msk inc root =
     (case ngx_radix32tree_insert avail key msk NGX_RADIX_NO_VALUE root of
        (rc, root') \<Rightarrow>
          if rc \<noteq> NGX_OK then Some None
          else if key + inc \<noteq> 0 then preallocate_level avail (key + inc) msk inc root'
          else Some (Some root'))"

declare preallocate_level.simps [code]

fun preallocate_loop :: "nat \<Rightarrow> nat \<Rightarrow> uint32 \<Rightarrow> uint32 \<Rightarrow> radix_node \<Rightarrow> radix_node option option" where
  "preallocate_loop avail 0 msk inc root = Some (Some root)"
| "preallocate_loop avail (Suc n) msk inc root =
     (let msk = drop_bit 1 msk OR 0x80000000 in
      case preallocate_level avail 0 msk inc root of
        None \<Rightarrow> None
      | Some None \<Rightarrow> Some None
      | Some (Some root') \<Rightarrow> preallocate_loop avail n msk (drop_bit 1 inc) root')"

definition ngx_radix_tree_create :: "nat \<Rightarrow> int \<Rightarrow> nat \<Rightarrow> radix_node option option" where
  "ngx_radix_tree_create avail preallocate page_nodes =
     (let root = Node NULL NULL NGX_RADIX_NO_VALUE in
      if avail = 0 then Some None
      else if preallocate = 0 then Some (Some root)
      else
        let n = (if preallocate = -1 then (if page_nodes = 128 then 6 else if page_nodes = 256 then 7 else 8)
                 else nat preallocate)
        in preallocate_loop avail n 0 0x80000000 root)"

subsection \<open>The table of a tree\<close>

text \<open>The value stored for a prefix, given by its bits.\<close>

fun look :: "radix_node \<Rightarrow> bool list \<Rightarrow> uint64 option" where
  "look NULL bs = None"
| "look (Node r l w) [] = (if w = NGX_RADIX_NO_VALUE then None else Some w)"
| "look (Node r l w) (b # bs) = look (if b then r else l) bs"

lemma look_Node: "look (Node r l w) qs =
    (case qs of [] \<Rightarrow> if w = NGX_RADIX_NO_VALUE then None else Some w | b # qs \<Rightarrow> look (if b then r else l) qs)"
  by (cases qs) auto

fun height :: "radix_node \<Rightarrow> nat" where
  "height NULL = 0"
| "height (Node r l w) = Suc (max (height r) (height l))"

lemma height_0 [simp]: "height t = 0 \<longleftrightarrow> t = NULL"
  by (cases t) auto

text \<open>The value of the longest prefix of \<open>bs\<close> in a table, or \<open>v\<close>.\<close>

fun longest_match :: "(bool list \<Rightarrow> uint64 option) \<Rightarrow> uint64 \<Rightarrow> bool list \<Rightarrow> uint64" where
  "longest_match m v [] = (case m [] of None \<Rightarrow> v | Some w \<Rightarrow> w)"
| "longest_match m v (b # bs) = longest_match (\<lambda>ps. m (b # ps)) (case m [] of None \<Rightarrow> v | Some w \<Rightarrow> w) bs"

lemma longest_match_prefixes:
  "longest_match m v bs =
     (case find (\<lambda>ps. m ps \<noteq> None) (rev (prefixes bs)) of None \<Rightarrow> v | Some ps \<Rightarrow> the (m ps))"
proof (induction bs arbitrary: m v)
  case (Cons b bs)
  have "find (\<lambda>ps. m ps \<noteq> None) (rev (prefixes (b # bs))) =
      (case find (\<lambda>ps. m (b # ps) \<noteq> None) (rev (prefixes bs)) of
         Some ps \<Rightarrow> Some (b # ps) | None \<Rightarrow> if m [] = None then None else Some [])"
    by (simp add: find_append rev_map find_map comp_def split: option.splits)
  with Cons show ?case by (simp split: option.splits)
qed (simp split: option.splits)

text \<open>
  The functions for both kinds of keys are the same recursion over a cursor in the key: \<open>more\<close> tells whether
  the cursor is still in the mask, \<open>bitv\<close> the bit of the key there, \<open>nxt\<close> advances it.
\<close>

locale radix_cursor =
  fixes more bitv :: "'p \<Rightarrow> bool" and nxt :: "'p \<Rightarrow> 'p"
    and chain :: "nat \<Rightarrow> uint64 \<Rightarrow> 'p \<Rightarrow> int \<times> radix_node"
    and ins :: "nat \<Rightarrow> uint64 \<Rightarrow> 'p \<Rightarrow> radix_node \<Rightarrow> int \<times> radix_node"
    and del :: "bool \<Rightarrow> 'p \<Rightarrow> radix_node \<Rightarrow> int \<times> radix_node"
    and fnd :: "'p \<Rightarrow> uint64 \<Rightarrow> radix_node \<Rightarrow> uint64"
  assumes chain_0: "chain 0 v p = (NGX_ERROR, NULL)"
    and chain_Suc: "chain (Suc n) v p =
      (if more p then
         (case chain n v (nxt p) of (rc, next) \<Rightarrow>
            (rc, if bitv p then Node next NULL NGX_RADIX_NO_VALUE else Node NULL next NGX_RADIX_NO_VALUE))
       else (NGX_OK, Node NULL NULL v))"
    and ins_NULL: "ins n v p NULL = chain n v p"
    and ins_Node: "ins n v p (Node r l w) =
      (if more p then
         (if bitv p then (case ins n v (nxt p) r of (rc, r') \<Rightarrow> (rc, Node r' l w))
          else (case ins n v (nxt p) l of (rc, l') \<Rightarrow> (rc, Node r l' w)))
       else if w \<noteq> NGX_RADIX_NO_VALUE then (NGX_BUSY, Node r l w) else (NGX_OK, Node r l v))"
    and del_NULL: "del is_root p NULL = (NGX_ERROR, NULL)"
    and del_Node: "del is_root p (Node r l w) =
      (if more p then
         (if bitv p then
            (case del False (nxt p) r of (rc, r') \<Rightarrow> (rc, unlink is_root (rc = NGX_OK \<and> r' = NULL) (Node r' l w)))
          else
            (case del False (nxt p) l of (rc, l') \<Rightarrow> (rc, unlink is_root (rc = NGX_OK \<and> l' = NULL) (Node r l' w))))
       else radix_delete_here (Node r l w))"
    and fnd_NULL: "fnd p v NULL = v"
    and fnd_Node: "fnd p v (Node r l w) =
      (let v = (if w \<noteq> NGX_RADIX_NO_VALUE then w else v) in
       if bitv p then fnd (nxt p) v r else fnd (nxt p) v l)"
begin

text \<open>The bits from the cursor up to the end of the mask, and the first bits from the cursor on.\<close>

fun path :: "bool list \<Rightarrow> 'p \<Rightarrow> bool" where
  "path [] p \<longleftrightarrow> \<not> more p"
| "path (b # bs) p \<longleftrightarrow> more p \<and> bitv p = b \<and> path bs (nxt p)"

fun bits :: "bool list \<Rightarrow> 'p \<Rightarrow> bool" where
  "bits [] p \<longleftrightarrow> True"
| "bits (b # bs) p \<longleftrightarrow> bitv p = b \<and> bits bs (nxt p)"

lemma chain_spec:
  "path ps p \<Longrightarrow> chain n v p = (rc, t) \<Longrightarrow>
   height t \<le> Suc (length ps) \<and>
   (if length ps < n then rc = NGX_OK \<and> t \<noteq> NULL \<and> look t = (\<lambda>qs. if qs = ps \<and> v \<noteq> NGX_RADIX_NO_VALUE then Some v else None)
    else rc = NGX_ERROR \<and> look t = (\<lambda>qs. None))"
proof (induction ps arbitrary: p n rc t)
  case Nil
  then show ?case by (cases n) (auto simp: chain_0 chain_Suc fun_eq_iff look_Node split: list.splits)
next
  case (Cons b ps)
  show ?case
  proof (cases n)
    case 0
    with Cons.prems show ?thesis by (auto simp: chain_0)
  next
    case (Suc m)
    obtain rc' t' where c: "chain m v (nxt p) = (rc', t')" by fastforce
    have t: "rc = rc'" "t = (if b then Node t' NULL NGX_RADIX_NO_VALUE else Node NULL t' NGX_RADIX_NO_VALUE)"
      using Cons.prems c by (auto simp: Suc chain_Suc)
    have look: "look t qs = (case qs of [] \<Rightarrow> None | b' # qs' \<Rightarrow> if b' = b then look t' qs' else None)" for qs
      by (cases qs) (auto simp: t)
    from Cons.IH [OF _ c] Cons.prems show ?thesis
      by (auto simp: t(1) look fun_eq_iff Suc split: list.splits) (auto simp: t)
  qed
qed

text \<open>A value that is there keeps the insertion from changing anything.\<close>

lemma ins_spec:
  "path ps p \<Longrightarrow> ins n v p t = (rc, t') \<Longrightarrow>
   height t' \<le> max (height t) (Suc (length ps)) \<and> (t \<noteq> NULL \<longrightarrow> t' \<noteq> NULL) \<and>
   (if look t ps \<noteq> None then rc = NGX_BUSY \<and> t' = t
    else rc = NGX_OK \<and> look t' = (\<lambda>qs. if qs = ps \<and> v \<noteq> NGX_RADIX_NO_VALUE then Some v else look t qs)
      \<or> rc = NGX_ERROR \<and> n \<le> length ps \<and> look t' = look t)"
proof (induction t arbitrary: ps p rc t')
  case NULL
  with chain_spec [of ps p n v rc t'] show ?case by (cases "length ps < n") (auto simp: ins_NULL)
next
  case (Node r l w)
  show ?case
  proof (cases ps)
    case Nil
    with Node.prems show ?thesis by (auto simp: ins_Node fun_eq_iff look_Node split: if_splits list.splits)
  next
    case (Cons b bs)
    obtain rc1 s where c: "ins n v (nxt p) (if b then r else l) = (rc1, s)" by fastforce
    have t': "rc = rc1" "t' = (if b then Node s l w else Node r s w)"
      using Node.prems c Cons by (auto simp: ins_Node split: if_splits)
    let ?c = "if b then r else l"
    have "path bs (nxt p)" using Node.prems Cons by simp
    then have IH: "height s \<le> max (height ?c) (Suc (length bs)) \<and>
       (if look ?c bs \<noteq> None then rc1 = NGX_BUSY \<and> s = ?c
        else rc1 = NGX_OK \<and> look s = (\<lambda>qs. if qs = bs \<and> v \<noteq> NGX_RADIX_NO_VALUE then Some v else look ?c qs)
          \<or> rc1 = NGX_ERROR \<and> n \<le> length bs \<and> look s = look ?c)"
      using Node.IH [of bs "nxt p" rc1 s] c by (cases b) simp_all
    have look: "look t' qs = (case qs of [] \<Rightarrow> look (Node r l w) []
        | b' # qs' \<Rightarrow> if b' = b then look s qs' else look (Node r l w) qs)" for qs
      by (cases qs) (auto simp: t')
    have h: "height t' \<le> max (height (Node r l w)) (Suc (length ps)) \<and> t' \<noteq> NULL"
      using IH by (cases b) (auto simp: t' Cons)
    show ?thesis
    proof (cases "look ?c bs = None")
      case True
      with IH h show ?thesis
        by (auto simp: look Cons t'(1) fun_eq_iff look_Node split: list.splits)
    next
      case False
      with IH h show ?thesis by (cases b) (auto simp: t' Cons)
    qed
  qed
qed

lemma look_unlink: "look (unlink is_root removed t) = look t"
  by (cases t) (auto simp: unlink_def fun_eq_iff look_Node split: list.splits)

lemma height_unlink: "height (unlink is_root removed t) \<le> height t"
  by (simp add: unlink_def)

lemma del_spec:
  "path ps p \<Longrightarrow> del is_root p t = (rc, t') \<Longrightarrow>
   height t' \<le> height t \<and> look t' = (\<lambda>qs. if qs = ps then None else look t qs) \<and>
   (rc = NGX_OK \<or> rc = NGX_ERROR \<and> look t ps = None)"
proof (induction t arbitrary: is_root ps p rc t')
  case NULL
  then show ?case by (simp add: del_NULL fun_eq_iff)
next
  case (Node r l w)
  show ?case
  proof (cases ps)
    case Nil
    with Node.prems show ?thesis
      by (auto simp: del_Node radix_delete_here_def fun_eq_iff look_Node split: if_splits list.splits)
  next
    case (Cons b bs)
    obtain rc1 s where c: "del False (nxt p) (if b then r else l) = (rc1, s)" by fastforce
    obtain removed where t': "rc = rc1" "t' = unlink is_root removed (if b then Node s l w else Node r s w)"
      using Node.prems c Cons by (auto simp: del_Node split: if_splits)
    have "path bs (nxt p)" using Node.prems Cons by simp
    then have IH: "height s \<le> height (if b then r else l) \<and>
        look s = (\<lambda>qs. if qs = bs then None else look (if b then r else l) qs) \<and>
        (rc1 = NGX_OK \<or> rc1 = NGX_ERROR \<and> look (if b then r else l) bs = None)"
      using Node.IH [of bs "nxt p" False rc1 s] c by (auto split: if_splits)
    have "height t' \<le> height (Node r l w)"
      using height_unlink [of is_root removed "if b then Node s l w else Node r s w"] IH
      by (auto simp: t'(2) split: if_splits)
    moreover have "look t' = look (if b then Node s l w else Node r s w)" by (simp add: t'(2) look_unlink)
    ultimately show ?thesis
      using IH by (cases b) (auto simp: Cons t'(1) fun_eq_iff look_Node split: list.splits)
  qed
qed

lemma del_root: "t \<noteq> NULL \<Longrightarrow> more p \<or> right t \<noteq> NULL \<or> left t \<noteq> NULL \<Longrightarrow> snd (del True p t) \<noteq> NULL"
  by (cases t) (auto simp: del_Node unlink_def radix_delete_here_def split: prod.splits)

lemma fnd_spec: "bits bs p \<Longrightarrow> height t \<le> Suc (length bs) \<Longrightarrow> fnd p v t = longest_match (look t) v bs"
proof (induction bs arbitrary: p v t)
  case Nil
  then show ?case by (cases t) (auto simp: fnd_NULL fnd_Node)
next
  case (Cons b bs)
  have none: "longest_match (\<lambda>ps. None) v bs = v" for v and bs :: "bool list" by (induction bs) auto
  show ?case
  proof (cases t)
    case NULL
    then show ?thesis by (simp add: fnd_NULL none)
  next
    case (Node r l w)
    with Cons.prems Cons.IH [of "nxt p" "if b then r else l"] show ?thesis
      by (auto simp: fnd_Node Let_def)
  qed
qed

end

interpretation r32: radix_cursor "\<lambda>bt. bt AND msk \<noteq> 0" "\<lambda>bt. key AND bt \<noteq> 0" "drop_bit (Suc 0)"
  "\<lambda>n v. radix32_chain n key msk v" "\<lambda>n v. radix32_insert n key msk v" "\<lambda>is_root. radix32_delete is_root key msk"
  "radix32_find key"
  for key msk
  by unfold_locales (simp_all add: radix32_chain.simps)

interpretation r128: radix_cursor "in_mask msk" "key_bit key" next_bit
  "\<lambda>n v. radix128_chain n key msk v" "\<lambda>n v. radix128_insert n key msk v" "\<lambda>is_root. radix128_delete is_root key msk"
  "radix128_find key"
  for key msk
  by unfold_locales simp_all

subsection \<open>Prefixes\<close>

definition bits32 :: "uint32 \<Rightarrow> bool list" where
  "bits32 key = map (\<lambda>i. bit key (31 - i)) [0..<32]"

definition prefix32 :: "uint32 \<Rightarrow> uint32 \<Rightarrow> bool list" where
  "prefix32 key msk = map (\<lambda>i. bit key (31 - i)) (takeWhile (\<lambda>i. bit msk (31 - i)) [0..<32])"

definition cursor32 :: "nat \<Rightarrow> uint32" where
  "cursor32 k = drop_bit k 0x80000000"

lemma cursor32_0: "0x80000000 = cursor32 0"
  by (simp add: cursor32_def)

lemma cursor32_Suc [simp]: "drop_bit (Suc 0) (cursor32 k) = cursor32 (Suc k)"
  unfolding cursor32_def by (simp only: drop_bit_drop_bit) simp

lemma cursor32_exp: "k < 32 \<Longrightarrow> cursor32 k = 2 ^ (31 - k)"
proof -
  assume k: "k < 32"
  have "cursor32 k = drop_bit k (2 ^ 31)" by (simp add: cursor32_def)
  also have "\<dots> = 2 ^ (31 - k)" using k by (simp only: drop_bit_exp_eq) simp
  finally show ?thesis .
qed

lemma cursor32_bit:
  "k < 32 \<Longrightarrow> w AND cursor32 k = 0 \<longleftrightarrow> \<not> bit w (31 - k)" "k < 32 \<Longrightarrow> cursor32 k AND w = 0 \<longleftrightarrow> \<not> bit w (31 - k)"
  by (simp_all add: cursor32_exp and_exp_eq_0_iff_not_bit and.commute [of "2 ^ _"])

lemma cursor32_end: "cursor32 32 = 0"
  by (simp add: cursor32_def drop_bit_eq_div)

lemma path32: "k \<le> 32 \<Longrightarrow>
  r32.path msk key (map (\<lambda>i. bit key (31 - i)) (takeWhile (\<lambda>i. bit msk (31 - i)) [k..<32])) (cursor32 k)"
proof (induction "32 - k" arbitrary: k)
  case 0
  then show ?case by (simp add: cursor32_end)
next
  case (Suc n)
  then have "k < 32" by simp
  with Suc.hyps(1) [of "Suc k"] Suc.hyps(2) show ?case by (simp add: upt_conv_Cons cursor32_bit)
qed

lemma bits32_cursor: "k \<le> 32 \<Longrightarrow> r32.bits key (map (\<lambda>i. bit key (31 - i)) [k..<32]) (cursor32 k)"
proof (induction "32 - k" arbitrary: k)
  case (Suc n)
  then have "k < 32" by simp
  with Suc.hyps(1) [of "Suc k"] Suc.hyps(2) show ?case by (simp add: upt_conv_Cons cursor32_bit)
qed simp

text \<open>The bit \<open>k\<close> of a key of 16 bytes.\<close>

definition bit128 :: "bytes \<Rightarrow> nat \<Rightarrow> bool" where
  "bit128 key k = bit (key ! (k div 8)) (7 - k mod 8)"

definition bits128 :: "bytes \<Rightarrow> bool list" where
  "bits128 key = map (bit128 key) [0..<128]"

definition prefix128 :: "bytes \<Rightarrow> bytes \<Rightarrow> bool list" where
  "prefix128 key msk = map (bit128 key) (takeWhile (bit128 msk) [0..<128])"

definition cursor128 :: "nat \<Rightarrow> nat \<times> u_char" where
  "cursor128 k = (k div 8, 2 ^ (7 - k mod 8))"

lemma cursor128_0: "(0, 0x80) = cursor128 0"
  by (simp add: cursor128_def)

lemma cursor128_Suc [simp]: "next_bit (cursor128 k) = cursor128 (Suc k)"
proof (cases "k mod 8 = 7")
  case True
  then have "Suc k div 8 = Suc (k div 8)" "Suc k mod 8 = 0" by (simp_all add: div_Suc mod_Suc)
  with True show ?thesis by (simp add: cursor128_def next_bit_def)
next
  case False
  moreover have "k mod 8 < 8" by simp
  ultimately have m: "k mod 8 < 7" by linarith
  then have "Suc k div 8 = k div 8" "Suc k mod 8 = Suc (k mod 8)" by (simp_all add: div_Suc mod_Suc)
  moreover have "drop_bit (Suc 0) ((2 :: u_char) ^ (7 - k mod 8)) = 2 ^ (7 - Suc (k mod 8))"
    using m by (simp only: drop_bit_exp_eq) (simp add: Suc_le_eq Suc_diff_Suc)
  ultimately show ?thesis by (simp add: cursor128_def next_bit_def)
qed

lemma cursor128_bit:
  "in_mask msk (cursor128 k) \<longleftrightarrow> k < 128 \<and> bit128 msk k" "key_bit key (cursor128 k) \<longleftrightarrow> bit128 key k"
  by (auto simp: in_mask_def key_bit_def cursor128_def bit128_def and_exp_eq_0_iff_not_bit and.commute [of "2 ^ _"] less_mult_imp_div_less)

lemma path128: "k \<le> 128 \<Longrightarrow>
  r128.path msk key (map (bit128 key) (takeWhile (bit128 msk) [k..<128])) (cursor128 k)"
proof (induction "128 - k" arbitrary: k)
  case 0
  then show ?case by (simp add: cursor128_bit)
next
  case (Suc n)
  then have "k < 128" by simp
  with Suc.hyps(1) [of "Suc k"] Suc.hyps(2) show ?case by (simp add: upt_conv_Cons cursor128_bit)
qed

lemma bits128_cursor: "k \<le> 128 \<Longrightarrow> r128.bits key (map (bit128 key) [k..<128]) (cursor128 k)"
proof (induction "128 - k" arbitrary: k)
  case (Suc n)
  then have "k < 128" by simp
  with Suc.hyps(1) [of "Suc k"] Suc.hyps(2) show ?case by (simp add: upt_conv_Cons cursor128_bit)
qed simp

subsection \<open>Longest prefix match\<close>

text \<open>A history of insertions, with the number of nodes they can allocate, and deletions.\<close>

datatype 'k radix_op = Insert nat 'k 'k uint64 | Delete 'k 'k

fun run_ops ::
  "(nat \<Rightarrow> 'k \<Rightarrow> 'k \<Rightarrow> uint64 \<Rightarrow> radix_node \<Rightarrow> int \<times> radix_node) \<Rightarrow>
   ('k \<Rightarrow> 'k \<Rightarrow> radix_node \<Rightarrow> (int \<times> radix_node) option) \<Rightarrow> 'k radix_op list \<Rightarrow> radix_node \<Rightarrow> radix_node option" where
  "run_ops ins del [] t = Some t"
| "run_ops ins del (Insert n k msk v # ops) t = run_ops ins del ops (snd (ins n k msk v t))"
| "run_ops ins del (Delete k msk # ops) t =
     (case del k msk t of None \<Rightarrow> None | Some (rc, t') \<Rightarrow> run_ops ins del ops t')"

text \<open>The same on a table of prefixes.\<close>

fun table_op :: "('k \<Rightarrow> 'k \<Rightarrow> bool list) \<Rightarrow> 'k radix_op \<Rightarrow> (bool list \<Rightarrow> uint64 option) \<Rightarrow> bool list \<Rightarrow> uint64 option" where
  "table_op pfx (Insert n k msk v) m = (if m (pfx k msk) = None then m(pfx k msk \<mapsto> v) else m)"
| "table_op pfx (Delete k msk) m = m(pfx k msk := None)"

fun op_ok :: "nat \<Rightarrow> 'k radix_op \<Rightarrow> bool" where
  "op_ok width (Insert n k msk v) \<longleftrightarrow> width < n \<and> v \<noteq> NGX_RADIX_NO_VALUE"
| "op_ok width (Delete k msk) \<longleftrightarrow> True"

definition tree_ok :: "nat \<Rightarrow> radix_node \<Rightarrow> bool" where
  "tree_ok width t \<longleftrightarrow> t \<noteq> NULL \<and> height t \<le> Suc width"

definition empty_tree :: radix_node where
  "empty_tree = Node NULL NULL NGX_RADIX_NO_VALUE"

locale prefix_table =
  fixes width :: nat and pfx :: "'k \<Rightarrow> 'k \<Rightarrow> bool list" and key_bits :: "'k \<Rightarrow> bool list"
    and insert_tree :: "nat \<Rightarrow> 'k \<Rightarrow> 'k \<Rightarrow> uint64 \<Rightarrow> radix_node \<Rightarrow> int \<times> radix_node"
    and delete_tree :: "'k \<Rightarrow> 'k \<Rightarrow> radix_node \<Rightarrow> (int \<times> radix_node) option"
    and find_tree :: "'k \<Rightarrow> radix_node \<Rightarrow> uint64"
  assumes insert_law: "tree_ok width t \<Longrightarrow> width < n \<Longrightarrow> v \<noteq> NGX_RADIX_NO_VALUE \<Longrightarrow> insert_tree n k msk v t = (rc, t') \<Longrightarrow>
      tree_ok width t' \<and> look t' = table_op pfx (Insert n k msk v) (look t) \<and>
      rc = (if look t (pfx k msk) = None then NGX_OK else NGX_BUSY)"
    and delete_law: "tree_ok width t \<Longrightarrow> delete_tree k msk t = Some (rc, t') \<Longrightarrow>
      tree_ok width t' \<and> look t' = table_op pfx (Delete k msk) (look t)"
    and find_law: "tree_ok width t \<Longrightarrow> find_tree k t = longest_match (look t) NGX_RADIX_NO_VALUE (key_bits k)"
begin

lemma run_table:
  "tree_ok width t \<Longrightarrow> list_all (op_ok width) ops \<Longrightarrow> run_ops insert_tree delete_tree ops t = Some t' \<Longrightarrow>
   tree_ok width t' \<and> look t' = fold (table_op pfx) ops (look t)"
proof (induction ops arbitrary: t)
  case (Cons op ops)
  obtain t1 where "tree_ok width t1 \<and> look t1 = table_op pfx op (look t)"
    and "run_ops insert_tree delete_tree ops t1 = Some t'"
  proof (cases op)
    case (Insert n k msk v)
    then show ?thesis using that [of "snd (insert_tree n k msk v t)"] Cons.prems insert_law [of t n v k msk]
      by (cases "insert_tree n k msk v t") auto
  next
    case (Delete k msk)
    then show ?thesis using that Cons.prems delete_law [of t k msk] by (auto split: option.splits prod.splits)
  qed
  with Cons.IH [of t1] Cons.prems(2) show ?case by simp
qed simp

lemma empty_tree_ok: "tree_ok width empty_tree" "look empty_tree = Map.empty"
  by (auto simp: tree_ok_def empty_tree_def fun_eq_iff look_Node split: list.splits)

lemma history:
  assumes "list_all (op_ok width) ops" "run_ops insert_tree delete_tree ops empty_tree = Some t"
  shows "find_tree k t = longest_match (fold (table_op pfx) ops Map.empty) NGX_RADIX_NO_VALUE (key_bits k)"
  using run_table [OF empty_tree_ok(1) assms] find_law [of t k] by (simp add: empty_tree_ok(2))

lemma history_insert:
  assumes "list_all (op_ok width) ops" "run_ops insert_tree delete_tree ops empty_tree = Some t"
    "width < n" "v \<noteq> NGX_RADIX_NO_VALUE"
  shows "fst (insert_tree n k msk v t) =
    (if fold (table_op pfx) ops Map.empty (pfx k msk) = None then NGX_OK else NGX_BUSY)"
  using run_table [OF empty_tree_ok(1) assms(1,2)] insert_law [of t n v k msk] assms(3,4)
  by (cases "insert_tree n k msk v t") (simp add: empty_tree_ok(2))

end

lemma path_length: "length (prefix32 key msk) \<le> 32" "length (prefix128 k m) \<le> 128"
proof -
  show "length (prefix32 key msk) \<le> 32" using length_takeWhile_le [of "\<lambda>i. bit msk (31 - i)" "[0..<32]"] by (simp add: prefix32_def)
  show "length (prefix128 k m) \<le> 128" using length_takeWhile_le [of "bit128 m" "[0..<128]"] by (simp add: prefix128_def)
qed

lemma prefix_paths: "r32.path msk key (prefix32 key msk) 0x80000000" "r128.path m k (prefix128 k m) (0, 0x80)"
  using path32 [of 0 msk key] path128 [of 0 m k] by (simp_all add: cursor32_0 cursor128_0 prefix32_def prefix128_def)

interpretation t32: prefix_table 32 prefix32 bits32 ngx_radix32tree_insert ngx_radix32tree_delete ngx_radix32tree_find
proof
  fix t n v k msk rc t'
  assume "tree_ok 32 t" "32 < n" "v \<noteq> NGX_RADIX_NO_VALUE" "ngx_radix32tree_insert n k msk v t = (rc, t')"
  then show "tree_ok 32 t' \<and> look t' = table_op prefix32 (Insert n k msk v) (look t) \<and>
      rc = (if look t (prefix32 k msk) = None then NGX_OK else NGX_BUSY)"
    using r32.ins_spec [OF prefix_paths(1) [where key = k and msk = msk], where n = n and v = v and t = t and rc = rc and t' = t'] path_length(1) [of k msk]
    by (auto simp: ngx_radix32tree_insert_def tree_ok_def fun_eq_iff split: if_splits)
next
  fix t k msk rc t'
  assume "tree_ok 32 t" "ngx_radix32tree_delete k msk t = Some (rc, t')"
  then show "tree_ok 32 t' \<and> look t' = table_op prefix32 (Delete k msk) (look t)"
    using r32.del_spec [OF prefix_paths(1) [where key = k and msk = msk], where is_root = True and t = t and rc = rc and t' = t'] r32.del_root [where p = "0x80000000" and t = t and msk = msk and key = k]
    by (auto simp: ngx_radix32tree_delete_def tree_ok_def fun_eq_iff split: if_splits)
next
  fix t k
  assume "tree_ok 32 t"
  then show "ngx_radix32tree_find k t = longest_match (look t) NGX_RADIX_NO_VALUE (bits32 k)"
    using r32.fnd_spec [OF bits32_cursor [where k = 0 and key = k], where t = t and v = NGX_RADIX_NO_VALUE] by (simp add: ngx_radix32tree_find_def tree_ok_def bits32_def cursor32_0)
qed

interpretation t128: prefix_table 128 prefix128 bits128 ngx_radix128tree_insert ngx_radix128tree_delete ngx_radix128tree_find
proof
  fix t n v k msk rc t'
  assume "tree_ok 128 t" "128 < n" "v \<noteq> NGX_RADIX_NO_VALUE" "ngx_radix128tree_insert n k msk v t = (rc, t')"
  then show "tree_ok 128 t' \<and> look t' = table_op prefix128 (Insert n k msk v) (look t) \<and>
      rc = (if look t (prefix128 k msk) = None then NGX_OK else NGX_BUSY)"
    using r128.ins_spec [OF prefix_paths(2) [where k = k and m = msk], where n = n and v = v and t = t and rc = rc and t' = t'] path_length(2) [of k msk]
    by (auto simp: ngx_radix128tree_insert_def tree_ok_def fun_eq_iff split: if_splits)
next
  fix t k msk rc t'
  assume "tree_ok 128 t" "ngx_radix128tree_delete k msk t = Some (rc, t')"
  then show "tree_ok 128 t' \<and> look t' = table_op prefix128 (Delete k msk) (look t)"
    using r128.del_spec [OF prefix_paths(2) [where k = k and m = msk], where is_root = True and t = t and rc = rc and t' = t'] r128.del_root [where p = "(0, 0x80)" and t = t and msk = msk and key = k]
    by (auto simp: ngx_radix128tree_delete_def tree_ok_def fun_eq_iff split: if_splits)
next
  fix t k
  assume "tree_ok 128 t"
  then show "ngx_radix128tree_find k t = longest_match (look t) NGX_RADIX_NO_VALUE (bits128 k)"
    using r128.fnd_spec [OF bits128_cursor [where k = 0 and key = k], where t = t and v = NGX_RADIX_NO_VALUE] by (simp add: ngx_radix128tree_find_def tree_ok_def bits128_def cursor128_0)
qed

text \<open>
  Property C28: a radix tree for IPv4 or IPv6 addresses is a table with longest prefix match.  After any
  history of insertions and deletions that runs through, a look-up returns the value of the longest
  prefix of the address in the table of the history, or no value; and an insertion that can allocate its
  nodes is refused exactly when its prefix is in the table.  (A prefix is given by the leading ones of the mask.)
\<close>

theorem radix_longest_prefix:
  assumes "list_all (op_ok 32) ops" "run_ops ngx_radix32tree_insert ngx_radix32tree_delete ops empty_tree = Some t"
    "list_all (op_ok 128) ops'" "run_ops ngx_radix128tree_insert ngx_radix128tree_delete ops' empty_tree = Some t'"
    "128 < n" "v \<noteq> NGX_RADIX_NO_VALUE"
  shows "ngx_radix32tree_find k t = longest_match (fold (table_op prefix32) ops Map.empty) NGX_RADIX_NO_VALUE (bits32 k) \<and>
    ngx_radix128tree_find k' t' = longest_match (fold (table_op prefix128) ops' Map.empty) NGX_RADIX_NO_VALUE (bits128 k') \<and>
    fst (ngx_radix32tree_insert n k msk v t) =
      (if fold (table_op prefix32) ops Map.empty (prefix32 k msk) = None then NGX_OK else NGX_BUSY) \<and>
    fst (ngx_radix128tree_insert n k' msk' v t') =
      (if fold (table_op prefix128) ops' Map.empty (prefix128 k' msk') = None then NGX_OK else NGX_BUSY)"
  using t32.history [OF assms(1,2)] t128.history [OF assms(3,4)] t32.history_insert [OF assms(1,2) _ assms(6), of n]
    t128.history_insert [OF assms(3-6)] assms(5) by auto

text \<open>The prefixes 10.0.0.0/8 and 10.1.0.0/16, and 20::/8.\<close>

definition example_ops :: "uint32 radix_op list" where
  "example_ops = [Insert 200 0x0A000000 0xFF000000 7, Insert 200 0x0A010000 0xFFFF0000 8,
     Insert 200 0x0B000000 0xFF000000 9, Delete 0x0B000000 0xFF000000]"

definition example_ops128 :: "bytes radix_op list" where
  "example_ops128 = [Insert 200 (0x20 # replicate 15 0) (0xFF # replicate 15 0) 5]"

lemma example_tree32: "\<exists>t. run_ops ngx_radix32tree_insert ngx_radix32tree_delete example_ops empty_tree = Some t"
  by (simp add: example_ops_def ngx_radix32tree_delete_def split: prod.split)

lemma example_tree128: "\<exists>t. run_ops ngx_radix128tree_insert ngx_radix128tree_delete example_ops128 empty_tree = Some t"
  by (simp add: example_ops128_def)

theorem radix_longest_prefix_witness:
  "\<exists>t. run_ops ngx_radix32tree_insert ngx_radix32tree_delete example_ops empty_tree = Some t \<and>
     ngx_radix32tree_find 0x0A010203 t = 8 \<and> ngx_radix32tree_find 0x0A020304 t = 7 \<and>
     ngx_radix32tree_find 0x0B000001 t = NGX_RADIX_NO_VALUE"
proof -
  obtain t t' where t: "run_ops ngx_radix32tree_insert ngx_radix32tree_delete example_ops empty_tree = Some t"
    "run_ops ngx_radix128tree_insert ngx_radix128tree_delete example_ops128 empty_tree = Some t'"
    using example_tree32 example_tree128 by blast
  have ok: "list_all (op_ok 32) example_ops" "list_all (op_ok 128) example_ops128" "(0 :: uint64) \<noteq> NGX_RADIX_NO_VALUE"
    by (simp_all add: example_ops_def example_ops128_def NGX_RADIX_NO_VALUE_def)
  note find = radix_longest_prefix [OF ok(1) t(1) ok(2) t(2) _ ok(3), of 129, THEN conjunct1]
  have "longest_match (fold (table_op prefix32) example_ops Map.empty) NGX_RADIX_NO_VALUE (bits32 0x0A010203) = 8"
    "longest_match (fold (table_op prefix32) example_ops Map.empty) NGX_RADIX_NO_VALUE (bits32 0x0A020304) = 7"
    "longest_match (fold (table_op prefix32) example_ops Map.empty) NGX_RADIX_NO_VALUE (bits32 0x0B000001) = NGX_RADIX_NO_VALUE"
    by code_simp+
  with find t(1) show ?thesis by simp
qed

text \<open>
  The deletion of the default prefix from a tree that has no other node follows the \<^verbatim>\<open>parent\<close> pointer of the root, which is \<^verbatim>\<open>NULL\<close>.
\<close>

lemma radix_delete_default:
  "ngx_radix32tree_delete 0 0 (snd (ngx_radix32tree_insert 1 0 0 v empty_tree)) = None"
  by (simp add: ngx_radix32tree_delete_def ngx_radix32tree_insert_def empty_tree_def)

subsection \<open>Preallocation\<close>

text \<open>The inner loop returns: on the level of \<open>j + 1\<close> bits the key is zero again after \<open>2 ^ (j + 1)\<close> rounds.\<close>

lemma insert_no_value:
  assumes "tree_ok 32 t" "32 < n" "look t = Map.empty"
  shows "\<exists>t'. ngx_radix32tree_insert n k msk NGX_RADIX_NO_VALUE t = (NGX_OK, t') \<and> tree_ok 32 t' \<and> look t' = Map.empty"
proof -
  obtain rc t' where r: "ngx_radix32tree_insert n k msk NGX_RADIX_NO_VALUE t = (rc, t')" by fastforce
  with r32.ins_spec [OF prefix_paths(1) [where key = k and msk = msk], where n = n and v = NGX_RADIX_NO_VALUE and t = t and rc = rc and t' = t']
    path_length(1) [of k msk] assms
  show ?thesis by (auto simp: ngx_radix32tree_insert_def tree_ok_def)
qed

lemma preallocate_level_returns:
  assumes "j < 32" "32 < n"
  shows "c < 2 ^ Suc j \<Longrightarrow> tree_ok 32 t \<Longrightarrow> look t = Map.empty \<Longrightarrow>
    \<exists>t'. preallocate_level n (of_nat (c * 2 ^ (31 - j))) msk (of_nat (2 ^ (31 - j))) t = Some (Some t') \<and>
      tree_ok 32 t' \<and> look t' = Map.empty"
proof (induction "2 ^ Suc j - c" arbitrary: c t rule: less_induct)
  case less
  let ?inc = "2 ^ (31 - j) :: nat"
  have p32: "2 ^ Suc j * ?inc = 2 ^ 32" using assms(1) by (simp add: power_add [symmetric] del: power_Suc)
  obtain t1 where t1: "ngx_radix32tree_insert n (of_nat (c * ?inc)) msk NGX_RADIX_NO_VALUE t = (NGX_OK, t1)"
    "tree_ok 32 t1" "look t1 = Map.empty"
    using insert_no_value [OF less.prems(2) assms(2) less.prems(3)] by blast
  have add: "of_nat (c * ?inc) + of_nat ?inc = (of_nat (Suc c * ?inc) :: uint32)" by (simp add: algebra_simps)
  have unat: "unat (of_nat (Suc c * ?inc) :: uint32) = Suc c * ?inc mod 2 ^ 32"
    by (simp only: unat_of_nat) simp
  show ?case
  proof (cases "Suc c = 2 ^ Suc j")
    case True
    then have "of_nat (c * ?inc) + of_nat ?inc = (0 :: uint32)" unfolding add using unat p32 by (simp add: unat_eq_0 [symmetric] del: of_nat_mult power_Suc)
    with t1 show ?thesis by (subst preallocate_level.simps) simp
  next
    case False
    then have c: "Suc c < 2 ^ Suc j" using less.prems(1) by simp
    then have "Suc c * ?inc < 2 ^ 32" unfolding p32 [symmetric] by (intro mult_strict_right_mono) auto
    then have "of_nat (c * ?inc) + of_nat ?inc \<noteq> (0 :: uint32)" unfolding add using unat by (simp add: unat_eq_0 [symmetric] del: of_nat_mult)
    moreover have "\<exists>t'. preallocate_level n (of_nat (Suc c * ?inc)) msk (of_nat ?inc) t1 = Some (Some t') \<and> tree_ok 32 t' \<and> look t' = Map.empty"
      using less.hyps [of "Suc c" t1] c less.prems(1) t1 by simp
    ultimately show ?thesis unfolding add [symmetric] using t1(1) by (subst preallocate_level.simps) simp
  qed
qed

lemma inc_half: "j < 31 \<Longrightarrow> drop_bit 1 (of_nat (2 ^ (31 - j)) :: uint32) = of_nat (2 ^ (31 - Suc j))"
  using cursor32_Suc [of j] by (simp add: cursor32_exp)

lemma preallocate_loop_returns:
  "j + k \<le> 32 \<Longrightarrow> 32 < n \<Longrightarrow> tree_ok 32 t \<Longrightarrow> look t = Map.empty \<Longrightarrow>
   \<exists>t'. preallocate_loop n k msk (of_nat (2 ^ (31 - j))) t = Some (Some t') \<and> tree_ok 32 t' \<and> look t' = Map.empty"
proof (induction k arbitrary: j msk t)
  case (Suc k)
  obtain t1 where t1: "preallocate_level n 0 (drop_bit 1 msk OR 0x80000000) (of_nat (2 ^ (31 - j))) t = Some (Some t1)"
    "tree_ok 32 t1" "look t1 = Map.empty"
    using preallocate_level_returns [of j n 0 t "drop_bit 1 msk OR 0x80000000"] Suc.prems by auto
  show ?case
  proof (cases k)
    case 0
    with t1 show ?thesis by (simp add: Let_def)
  next
    case (Suc k')
    then have "j < 31" using Suc.prems by simp
    then have "\<exists>t'. preallocate_loop n k (drop_bit 1 msk OR 0x80000000) (drop_bit 1 (of_nat (2 ^ (31 - j)))) t1 = Some (Some t') \<and>
        tree_ok 32 t' \<and> look t' = Map.empty"
      using Suc.IH [of "Suc j" t1] Suc.prems t1 unfolding inc_half [OF \<open>j < 31\<close>] by simp
    with t1 show ?thesis by (simp add: Let_def)
  qed
qed simp

text \<open>
  The creation of a radix tree returns, whatever number of bits up to 32 is preallocated (or
  the default of the platform), and the tree is empty: the nodes made in advance have no value.
\<close>

theorem radix_create_empty:
  assumes "preallocate \<in> {-1..32}" "32 < avail"
  shows "\<exists>t. ngx_radix_tree_create avail preallocate page_nodes = Some (Some t) \<and> tree_ok 32 t \<and> look t = Map.empty"
proof -
  have empty: "tree_ok 32 empty_tree" "look empty_tree = Map.empty" by (rule t32.empty_tree_ok)+
  have loop: "\<exists>t. preallocate_loop avail k 0 0x80000000 empty_tree = Some (Some t) \<and> tree_ok 32 t \<and> look t = Map.empty"
    if "k \<le> 32" for k
    using preallocate_loop_returns [of 0 k avail empty_tree 0] that assms(2) empty by simp
  show ?thesis
    using assms empty loop unfolding ngx_radix_tree_create_def empty_tree_def [symmetric]
    by (auto simp: Let_def)
qed

theorem radix_create_empty_witness:
  "\<exists>t. ngx_radix_tree_create 33 (-1) 128 = Some (Some t) \<and> tree_ok 32 t \<and> look t = Map.empty"
  using radix_create_empty [of "-1" 33 128] by simp

end
