(* ===== verification/Ngx_Rbtree.thy ===== *)
theory Ngx_Rbtree
  imports Ngx_Prelude
begin

text \<open>
  The red-black tree of \<^verbatim>\<open>src/core/ngx_rbtree.c\<close>, on an explicit memory: nodes have addresses, and the functions
  follow and write the pointers of the C code one by one, with the sentinel as an ordinary node.  Loops
  are partial functions, so that not returning is \<open>None\<close>.  This theory has the functions; their
  correctness is in the theories that follow it.
\<close>

subsection \<open>Nodes and trees\<close>

type_synonym addr = nat

record rbtree_node =
  key :: uint64
  left :: addr
  right :: addr
  parent :: addr
  color :: bool

abbreviation (input) NULL :: addr where "NULL \<equiv> 0"

text \<open>The tree with the memory its nodes live in.\<close>

record rbtree =
  root :: addr
  sentinel :: addr
  mem :: "addr \<Rightarrow> rbtree_node"

abbreviation left_of :: "rbtree \<Rightarrow> addr \<Rightarrow> addr" where "left_of t x \<equiv> left (mem t x)"

abbreviation right_of :: "rbtree \<Rightarrow> addr \<Rightarrow> addr" where "right_of t x \<equiv> right (mem t x)"

abbreviation parent_of :: "rbtree \<Rightarrow> addr \<Rightarrow> addr" where "parent_of t x \<equiv> parent (mem t x)"

definition set_left :: "addr \<Rightarrow> addr \<Rightarrow> rbtree \<Rightarrow> rbtree" where
  "set_left x v t = t\<lparr>mem := (mem t)(x := (mem t x)\<lparr>left := v\<rparr>)\<rparr>"

definition set_right :: "addr \<Rightarrow> addr \<Rightarrow> rbtree \<Rightarrow> rbtree" where
  "set_right x v t = t\<lparr>mem := (mem t)(x := (mem t x)\<lparr>right := v\<rparr>)\<rparr>"

definition set_parent :: "addr \<Rightarrow> addr \<Rightarrow> rbtree \<Rightarrow> rbtree" where
  "set_parent x v t = t\<lparr>mem := (mem t)(x := (mem t x)\<lparr>parent := v\<rparr>)\<rparr>"

definition set_color :: "addr \<Rightarrow> bool \<Rightarrow> rbtree \<Rightarrow> rbtree" where
  "set_color x c t = t\<lparr>mem := (mem t)(x := (mem t x)\<lparr>color := c\<rparr>)\<rparr>"

definition set_key :: "addr \<Rightarrow> uint64 \<Rightarrow> rbtree \<Rightarrow> rbtree" where
  "set_key x v t = t\<lparr>mem := (mem t)(x := (mem t x)\<lparr>key := v\<rparr>)\<rparr>"

text \<open>What is read after a write.\<close>

lemma set_key_simps [simp]:
  "sentinel (set_key x k t) = sentinel t"
  "root (set_key x k t) = root t"
  "key (mem (set_key x k t) z) = (if z = x then k else key (mem t z))"
  "left (mem (set_key x k t) z) = left (mem t z)"
  "right (mem (set_key x k t) z) = right (mem t z)"
  "parent (mem (set_key x k t) z) = parent (mem t z)"
  "color (mem (set_key x k t) z) = color (mem t z)"
  by (simp_all add: set_key_def)

lemma set_left_simps [simp]:
  "sentinel (set_left x v t) = sentinel t"
  "root (set_left x v t) = root t"
  "key (mem (set_left x v t) z) = key (mem t z)"
  "left (mem (set_left x v t) z) = (if z = x then v else left (mem t z))"
  "right (mem (set_left x v t) z) = right (mem t z)"
  "parent (mem (set_left x v t) z) = parent (mem t z)"
  "color (mem (set_left x v t) z) = color (mem t z)"
  by (simp_all add: set_left_def)

lemma set_right_simps [simp]:
  "sentinel (set_right x v t) = sentinel t"
  "root (set_right x v t) = root t"
  "key (mem (set_right x v t) z) = key (mem t z)"
  "left (mem (set_right x v t) z) = left (mem t z)"
  "right (mem (set_right x v t) z) = (if z = x then v else right (mem t z))"
  "parent (mem (set_right x v t) z) = parent (mem t z)"
  "color (mem (set_right x v t) z) = color (mem t z)"
  by (simp_all add: set_right_def)

lemma set_parent_simps [simp]:
  "sentinel (set_parent x v t) = sentinel t"
  "root (set_parent x v t) = root t"
  "key (mem (set_parent x v t) z) = key (mem t z)"
  "left (mem (set_parent x v t) z) = left (mem t z)"
  "right (mem (set_parent x v t) z) = right (mem t z)"
  "parent (mem (set_parent x v t) z) = (if z = x then v else parent (mem t z))"
  "color (mem (set_parent x v t) z) = color (mem t z)"
  by (simp_all add: set_parent_def)

lemma set_color_simps [simp]:
  "sentinel (set_color x c t) = sentinel t"
  "root (set_color x c t) = root t"
  "key (mem (set_color x c t) z) = key (mem t z)"
  "left (mem (set_color x c t) z) = left (mem t z)"
  "right (mem (set_color x c t) z) = right (mem t z)"
  "parent (mem (set_color x c t) z) = parent (mem t z)"
  "color (mem (set_color x c t) z) = (if z = x then c else color (mem t z))"
  by (simp_all add: set_color_def)

definition ngx_rbt_red :: "addr \<Rightarrow> rbtree \<Rightarrow> rbtree" where
  "ngx_rbt_red x t = set_color x True t"

definition ngx_rbt_black :: "addr \<Rightarrow> rbtree \<Rightarrow> rbtree" where
  "ngx_rbt_black x t = set_color x False t"

definition ngx_rbt_is_red :: "rbtree \<Rightarrow> addr \<Rightarrow> bool" where
  "ngx_rbt_is_red t x = color (mem t x)"

definition ngx_rbt_copy_color :: "addr \<Rightarrow> addr \<Rightarrow> rbtree \<Rightarrow> rbtree" where
  "ngx_rbt_copy_color x y t = set_color x (color (mem t y)) t"

definition ngx_rbtree_init :: "addr \<Rightarrow> (addr \<Rightarrow> rbtree_node) \<Rightarrow> rbtree" where
  "ngx_rbtree_init s h = ngx_rbt_black s \<lparr>root = s, sentinel = s, mem = h\<rparr>"

partial_function (option) ngx_rbtree_min :: "rbtree \<Rightarrow> addr \<Rightarrow> addr option" where
  "ngx_rbtree_min t node =
     (if left_of t node \<noteq> sentinel t then ngx_rbtree_min t (left_of t node) else Some node)"

subsection \<open>Rotations\<close>

definition ngx_rbtree_left_rotate :: "addr \<Rightarrow> rbtree \<Rightarrow> rbtree" where
  "ngx_rbtree_left_rotate node t =
     (let temp = right_of t node;
          t = set_right node (left_of t temp) t;
          t = (if left_of t temp \<noteq> sentinel t then set_parent (left_of t temp) node t else t);
          t = set_parent temp (parent_of t node) t;
          t = (if node = root t then t\<lparr>root := temp\<rparr>
               else if node = left_of t (parent_of t node) then set_left (parent_of t node) temp t
               else set_right (parent_of t node) temp t);
          t = set_left temp node t
      in set_parent node temp t)"

definition ngx_rbtree_right_rotate :: "addr \<Rightarrow> rbtree \<Rightarrow> rbtree" where
  "ngx_rbtree_right_rotate node t =
     (let temp = left_of t node;
          t = set_left node (right_of t temp) t;
          t = (if right_of t temp \<noteq> sentinel t then set_parent (right_of t temp) node t else t);
          t = set_parent temp (parent_of t node) t;
          t = (if node = root t then t\<lparr>root := temp\<rparr>
               else if node = right_of t (parent_of t node) then set_right (parent_of t node) temp t
               else set_left (parent_of t node) temp t);
          t = set_right temp node t
      in set_parent node temp t)"

subsection \<open>Insertion\<close>

text \<open>The search for the place; \<open>precedes\<close> is the comparison of the node with \<^verbatim>\<open>temp\<close>.\<close>

partial_function (option) insert_place :: "(uint64 \<Rightarrow> uint64 \<Rightarrow> bool) \<Rightarrow> rbtree \<Rightarrow> addr \<Rightarrow> addr \<Rightarrow> (addr \<times> bool) option" where
  "insert_place precedes t temp node =
     (let go_left = precedes (key (mem t node)) (key (mem t temp));
          p = (if go_left then left_of t temp else right_of t temp)
      in if p = sentinel t then Some (temp, go_left) else insert_place precedes t p node)"

definition insert_leaf :: "addr \<Rightarrow> bool \<Rightarrow> addr \<Rightarrow> rbtree \<Rightarrow> rbtree" where
  "insert_leaf temp go_left node t =
     (let t = (if go_left then set_left temp node t else set_right temp node t);
          t = set_parent node temp t;
          t = set_left node (sentinel t) t;
          t = set_right node (sentinel t) t
      in ngx_rbt_red node t)"

definition ngx_rbtree_insert_value :: "rbtree \<Rightarrow> addr \<Rightarrow> addr \<Rightarrow> rbtree option" where
  "ngx_rbtree_insert_value t temp node =
     map_option (\<lambda>(temp, go_left). insert_leaf temp go_left node t) (insert_place (\<lambda>a b. a < b) t temp node)"

text \<open>Timer values wrap around: the difference is taken as a signed number.\<close>

definition timer_less :: "uint64 \<Rightarrow> uint64 \<Rightarrow> bool" where
  "timer_less a b \<longleftrightarrow> sint (a - b) < 0"

definition ngx_rbtree_insert_timer_value :: "rbtree \<Rightarrow> addr \<Rightarrow> addr \<Rightarrow> rbtree option" where
  "ngx_rbtree_insert_timer_value t temp node =
     map_option (\<lambda>(temp, go_left). insert_leaf temp go_left node t) (insert_place timer_less t temp node)"

text \<open>One round of the loop that re-balances the tree; the result is the tree and the next \<^verbatim>\<open>node\<close>.\<close>

definition insert_round :: "rbtree \<Rightarrow> addr \<Rightarrow> rbtree \<times> addr" where
  "insert_round t node =
     (if parent_of t node = left_of t (parent_of t (parent_of t node)) then
        let temp = right_of t (parent_of t (parent_of t node)) in
        if ngx_rbt_is_red t temp then
          let t = ngx_rbt_black (parent_of t node) t;
              t = ngx_rbt_black temp t;
              t = ngx_rbt_red (parent_of t (parent_of t node)) t
          in (t, parent_of t (parent_of t node))
        else
          let (t, node) =
                (if node = right_of t (parent_of t node)
                 then (let node = parent_of t node in (ngx_rbtree_left_rotate node t, node)) else (t, node));
              t = ngx_rbt_black (parent_of t node) t;
              t = ngx_rbt_red (parent_of t (parent_of t node)) t
          in (ngx_rbtree_right_rotate (parent_of t (parent_of t node)) t, node)
      else
        let temp = left_of t (parent_of t (parent_of t node)) in
        if ngx_rbt_is_red t temp then
          let t = ngx_rbt_black (parent_of t node) t;
              t = ngx_rbt_black temp t;
              t = ngx_rbt_red (parent_of t (parent_of t node)) t
          in (t, parent_of t (parent_of t node))
        else
          let (t, node) =
                (if node = left_of t (parent_of t node)
                 then (let node = parent_of t node in (ngx_rbtree_right_rotate node t, node)) else (t, node));
              t = ngx_rbt_black (parent_of t node) t;
              t = ngx_rbt_red (parent_of t (parent_of t node)) t
          in (ngx_rbtree_left_rotate (parent_of t (parent_of t node)) t, node))"

partial_function (option) insert_balance :: "rbtree \<Rightarrow> addr \<Rightarrow> rbtree option" where
  "insert_balance t node =
     (if node \<noteq> root t \<and> ngx_rbt_is_red t (parent_of t node)
      then (case insert_round t node of (t, node) \<Rightarrow> insert_balance t node)
      else Some t)"

text \<open>\<open>insert_op\<close> is the function of the tree that links the node (\<^verbatim>\<open>tree->insert\<close>).\<close>

definition ngx_rbtree_insert :: "(rbtree \<Rightarrow> addr \<Rightarrow> addr \<Rightarrow> rbtree option) \<Rightarrow> rbtree \<Rightarrow> addr \<Rightarrow> rbtree option" where
  "ngx_rbtree_insert insert_op t node =
     (if root t = sentinel t then
        Some (let t = set_parent node NULL t;
                  t = set_left node (sentinel t) t;
                  t = set_right node (sentinel t) t;
                  t = ngx_rbt_black node t
              in t\<lparr>root := node\<rparr>)
      else
        case insert_op t (root t) node of
          None \<Rightarrow> None
        | Some t \<Rightarrow>
            (case insert_balance t node of
               None \<Rightarrow> None
             | Some t \<Rightarrow> Some (ngx_rbt_black (root t) t)))"

subsection \<open>Deletion\<close>

text \<open>The node is taken out of the pointers around it, as the comment of the source says for debugging.\<close>

definition clear_node :: "addr \<Rightarrow> rbtree \<Rightarrow> rbtree" where
  "clear_node node t = set_key node 0 (set_parent node NULL (set_right node NULL (set_left node NULL t)))"

text \<open>\<^verbatim>\<open>subst\<close> takes the place of the node to delete.\<close>

definition replace_node :: "addr \<Rightarrow> addr \<Rightarrow> addr \<Rightarrow> rbtree \<Rightarrow> rbtree" where
  "replace_node node subst temp t =
     (let t = (if parent_of t subst = node then set_parent temp subst t
               else set_parent temp (parent_of t subst) t);
          t = set_left subst (left_of t node) t;
          t = set_right subst (right_of t node) t;
          t = set_parent subst (parent_of t node) t;
          t = ngx_rbt_copy_color subst node t;
          t = (if node = root t then t\<lparr>root := subst\<rparr>
               else if node = left_of t (parent_of t node) then set_left (parent_of t node) subst t
               else set_right (parent_of t node) subst t);
          t = (if left_of t subst \<noteq> sentinel t then set_parent (left_of t subst) subst t else t)
      in (if right_of t subst \<noteq> sentinel t then set_parent (right_of t subst) subst t else t))"

text \<open>One round of the fix-up: the tree and the next \<^verbatim>\<open>temp\<close>.\<close>

definition delete_round :: "rbtree \<Rightarrow> addr \<Rightarrow> rbtree \<times> addr" where
  "delete_round t temp =
     (if temp = left_of t (parent_of t temp) then
        let w = right_of t (parent_of t temp);
            (t, w) =
              (if ngx_rbt_is_red t w then
                 let t = ngx_rbt_black w t;
                     t = ngx_rbt_red (parent_of t temp) t;
                     t = ngx_rbtree_left_rotate (parent_of t temp) t
                 in (t, right_of t (parent_of t temp))
               else (t, w))
        in
          if \<not> ngx_rbt_is_red t (left_of t w) \<and> \<not> ngx_rbt_is_red t (right_of t w) then
            let t = ngx_rbt_red w t in (t, parent_of t temp)
          else
            let (t, w) =
                  (if \<not> ngx_rbt_is_red t (right_of t w) then
                     let t = ngx_rbt_black (left_of t w) t;
                         t = ngx_rbt_red w t;
                         t = ngx_rbtree_right_rotate w t
                     in (t, right_of t (parent_of t temp))
                   else (t, w));
                t = ngx_rbt_copy_color w (parent_of t temp) t;
                t = ngx_rbt_black (parent_of t temp) t;
                t = ngx_rbt_black (right_of t w) t;
                t = ngx_rbtree_left_rotate (parent_of t temp) t
            in (t, root t)
      else
        let w = left_of t (parent_of t temp);
            (t, w) =
              (if ngx_rbt_is_red t w then
                 let t = ngx_rbt_black w t;
                     t = ngx_rbt_red (parent_of t temp) t;
                     t = ngx_rbtree_right_rotate (parent_of t temp) t
                 in (t, left_of t (parent_of t temp))
               else (t, w))
        in
          if \<not> ngx_rbt_is_red t (left_of t w) \<and> \<not> ngx_rbt_is_red t (right_of t w) then
            let t = ngx_rbt_red w t in (t, parent_of t temp)
          else
            let (t, w) =
                  (if \<not> ngx_rbt_is_red t (left_of t w) then
                     let t = ngx_rbt_black (right_of t w) t;
                         t = ngx_rbt_red w t;
                         t = ngx_rbtree_left_rotate w t
                     in (t, left_of t (parent_of t temp))
                   else (t, w));
                t = ngx_rbt_copy_color w (parent_of t temp) t;
                t = ngx_rbt_black (parent_of t temp) t;
                t = ngx_rbt_black (left_of t w) t;
                t = ngx_rbtree_right_rotate (parent_of t temp) t
            in (t, root t))"

partial_function (option) delete_fixup :: "rbtree \<Rightarrow> addr \<Rightarrow> rbtree option" where
  "delete_fixup t temp =
     (if temp \<noteq> root t \<and> \<not> ngx_rbt_is_red t temp
      then (case delete_round t temp of (t, temp) \<Rightarrow> delete_fixup t temp)
      else Some (ngx_rbt_black temp t))"

definition delete_at :: "addr \<Rightarrow> addr \<Rightarrow> addr \<Rightarrow> rbtree \<Rightarrow> rbtree option" where
  "delete_at node subst temp t =
     (if subst = root t then
        Some (clear_node node (ngx_rbt_black temp (t\<lparr>root := temp\<rparr>)))
      else
        let red = ngx_rbt_is_red t subst;
            t = (if subst = left_of t (parent_of t subst) then set_left (parent_of t subst) temp t
                 else set_right (parent_of t subst) temp t);
            t = (if subst = node then set_parent temp (parent_of t subst) t
                 else replace_node node subst temp t);
            t = clear_node node t
        in if red then Some t else delete_fixup t temp)"

definition ngx_rbtree_delete :: "rbtree \<Rightarrow> addr \<Rightarrow> rbtree option" where
  "ngx_rbtree_delete t node =
     (if left_of t node = sentinel t then delete_at node node (right_of t node) t
      else if right_of t node = sentinel t then delete_at node node (left_of t node) t
      else
        case ngx_rbtree_min t (right_of t node) of
          None \<Rightarrow> None
        | Some subst \<Rightarrow> delete_at node subst (right_of t subst) t)"

subsection \<open>Succession\<close>

partial_function (option) next_up :: "rbtree \<Rightarrow> addr \<Rightarrow> addr option" where
  "next_up t node =
     (if node = root t then Some NULL
      else if node = left_of t (parent_of t node) then Some (parent_of t node)
      else next_up t (parent_of t node))"

definition ngx_rbtree_next :: "rbtree \<Rightarrow> addr \<Rightarrow> addr option" where
  "ngx_rbtree_next t node =
     (if right_of t node \<noteq> sentinel t then ngx_rbtree_min t (right_of t node) else next_up t node)"

declare ngx_rbtree_min.simps [code] insert_place.simps [code] insert_balance.simps [code] delete_fixup.simps [code]
  next_up.simps [code]

end
