(* ===== verification/Ngx_Rbtree_Shape.thy ===== *)
theory Ngx_Rbtree_Shape
  imports Ngx_Rbtree
begin

text \<open>
  The abstract view of the memory of a red-black tree: a tree of addresses and colours, and a tree with a hole,
  given by the way from the hole up to the root.  The lemmas say what a write to memory means
  for this view, and that the rotations of the code are rotations of the tree around the place they
  are applied to.
\<close>

subsection \<open>Trees in memory\<close>

datatype tree = Tip | Bin tree addr bool tree

text \<open>The step from a hole up: the hole is the left or the right child of a node.\<close>

datatype frame = LeftOf addr bool tree | RightOf tree addr bool

fun addrs :: "tree \<Rightarrow> addr list" where
  "addrs Tip = []"
| "addrs (Bin l a c r) = addrs l @ a # addrs r"

fun frame_addrs :: "frame \<Rightarrow> addr list" where
  "frame_addrs (LeftOf a c r) = a # addrs r"
| "frame_addrs (RightOf l a c) = a # addrs l"

definition way_addrs :: "frame list \<Rightarrow> addr list" where
  "way_addrs k = concat (map frame_addrs k)"

fun frame_node :: "frame \<Rightarrow> addr" where
  "frame_node (LeftOf a c r) = a"
| "frame_node (RightOf l a c) = a"

fun frame_red :: "frame \<Rightarrow> bool" where
  "frame_red (LeftOf a c r) = c"
| "frame_red (RightOf l a c) = c"

fun plug :: "tree \<Rightarrow> frame list \<Rightarrow> tree" where
  "plug t [] = t"
| "plug t (LeftOf a c r # k) = plug (Bin t a c r) k"
| "plug t (RightOf l a c # k) = plug (Bin l a c t) k"

text \<open>
  The tree is at the pointer \<open>p\<close>, and its root points back to \<open>q\<close>; \<open>s\<close> is the sentinel.
\<close>

fun tree_at :: "(addr \<Rightarrow> rbtree_node) \<Rightarrow> addr \<Rightarrow> addr \<Rightarrow> addr \<Rightarrow> tree \<Rightarrow> bool" where
  "tree_at h s p q Tip \<longleftrightarrow> p = s"
| "tree_at h s p q (Bin l a c r) \<longleftrightarrow>
     p = a \<and> a \<noteq> s \<and> parent (h a) = q \<and> color (h a) = c \<and>
     tree_at h s (left (h a)) a l \<and> tree_at h s (right (h a)) a r"

text \<open>The hole is filled by the pointer \<open>p\<close>, whose parent has to be \<open>q\<close> unless it is the root.\<close>

fun way_at :: "(addr \<Rightarrow> rbtree_node) \<Rightarrow> addr \<Rightarrow> addr \<Rightarrow> addr \<Rightarrow> addr \<Rightarrow> frame list \<Rightarrow> bool" where
  "way_at h s rt p q [] \<longleftrightarrow> p = rt"
| "way_at h s rt p q (LeftOf a c r # k) \<longleftrightarrow>
     q = a \<and> a \<noteq> s \<and> color (h a) = c \<and> left (h a) = p \<and> tree_at h s (right (h a)) a r \<and>
     way_at h s rt a (parent (h a)) k"
| "way_at h s rt p q (RightOf l a c # k) \<longleftrightarrow>
     q = a \<and> a \<noteq> s \<and> color (h a) = c \<and> right (h a) = p \<and> tree_at h s (left (h a)) a l \<and>
     way_at h s rt a (parent (h a)) k"

lemma way_addrs_simps [simp]:
  "way_addrs [] = []" "way_addrs (f # k) = frame_addrs f @ way_addrs k"
  by (simp_all add: way_addrs_def)

text \<open>Writes elsewhere do not matter.\<close>

lemma tree_at_cong: "(\<And>a. a \<in> set (addrs t) \<Longrightarrow> h' a = h a) \<Longrightarrow> tree_at h' s p q t = tree_at h s p q t"
  by (induction t arbitrary: p q) auto

lemma way_at_cong: "(\<And>a. a \<in> set (way_addrs k) \<Longrightarrow> h' a = h a) \<Longrightarrow> way_at h' s rt p q k = way_at h s rt p q k"
proof (induction k arbitrary: p q)
  case (Cons f k)
  have IH: "way_at h' s rt p q k = way_at h s rt p q k" for p q using Cons by simp
  show ?case
  proof (cases f)
    case (LeftOf a c r)
    then have "h' a = h a" "tree_at h' s p q r = tree_at h s p q r" for p q using Cons.prems by (auto intro!: tree_at_cong)
    with IH LeftOf show ?thesis by simp
  next
    case (RightOf l a c)
    then have "h' a = h a" "tree_at h' s p q l = tree_at h s p q l" for p q using Cons.prems by (auto intro!: tree_at_cong)
    with IH RightOf show ?thesis by simp
  qed
qed simp

lemma tree_at_elsewhere [simp]: "x \<notin> set (addrs t) \<Longrightarrow> tree_at (h(x := n)) s p q t = tree_at h s p q t"
  by (rule tree_at_cong) auto

lemma way_at_elsewhere [simp]: "x \<notin> set (way_addrs k) \<Longrightarrow> way_at (h(x := n)) s rt p q k = way_at h s rt p q k"
  by (rule way_at_cong) auto

lemma tree_at_sentinel: "tree_at h s p q t \<Longrightarrow> s \<notin> set (addrs t)"
  by (induction t arbitrary: p q) auto

lemma way_at_sentinel: "way_at h s rt p q k \<Longrightarrow> s \<notin> set (way_addrs k)"
proof (induction k arbitrary: p q)
  case (Cons f k)
  then show ?case by (cases f) (auto dest: tree_at_sentinel)
qed simp

lemma tree_at_root: "tree_at h s p q t \<Longrightarrow> t \<noteq> Tip \<Longrightarrow> p \<in> set (addrs t)"
  by (cases t) auto

lemma tree_at_pointer: "tree_at h s p q t \<Longrightarrow> p = s \<or> p \<in> set (addrs t)"
  by (cases t) auto

lemma way_at_root: "way_at h s rt p q k \<Longrightarrow> k \<noteq> [] \<Longrightarrow> rt \<in> set (way_addrs k)"
proof (induction k arbitrary: p q)
  case (Cons f k)
  show ?case
  proof (cases k)
    case Nil
    with Cons.prems show ?thesis by (cases f) auto
  next
    case (Cons g k')
    with Cons.IH Cons.prems show ?thesis by (cases f) auto
  qed
qed simp

text \<open>A tree in a hole, without nodes that occur twice.\<close>

definition zipper :: "rbtree \<Rightarrow> addr \<Rightarrow> addr \<Rightarrow> tree \<Rightarrow> frame list \<Rightarrow> bool" where
  "zipper T p q t k \<longleftrightarrow>
     tree_at (mem T) (sentinel T) p q t \<and> way_at (mem T) (sentinel T) (root T) p q k \<and>
     distinct (addrs t @ way_addrs k)"

lemma zipper_up:
  "zipper T p q t (LeftOf a c r # k) \<Longrightarrow> zipper T a (parent_of T a) (Bin t a c r) k"
  "zipper T p q t (RightOf l a c # k) \<Longrightarrow> zipper T a (parent_of T a) (Bin l a c t) k"
  by (auto simp: zipper_def)

lemma zipper_left: "zipper T p q (Bin l a c r) k \<Longrightarrow> zipper T (left_of T a) a l (LeftOf a c r # k)"
  by (auto simp: zipper_def)

lemma zipper_right: "zipper T p q (Bin l a c r) k \<Longrightarrow> zipper T (right_of T a) a r (RightOf l a c # k)"
  by (auto simp: zipper_def)

subsection \<open>Rotations\<close>

lemmas set_defs = set_left_def set_right_def set_parent_def set_color_def set_key_def
  ngx_rbt_red_def ngx_rbt_black_def ngx_rbt_is_red_def ngx_rbt_copy_color_def

text \<open>The pointer to the hole is redirected: in the node above it, or as the root.\<close>

definition redirected :: "rbtree \<Rightarrow> rbtree \<Rightarrow> addr \<Rightarrow> addr \<Rightarrow> frame list \<Rightarrow> bool" where
  "redirected T T' y q k \<longleftrightarrow>
     sentinel T' = sentinel T \<and> way_at (mem T') (sentinel T) (root T') y q k \<and>
     (\<forall>z. z \<notin> set (way_addrs k) \<longrightarrow> mem T' z = mem T z)"

lemma redirect:
  assumes way: "way_at (mem T) (sentinel T) (root T) x q k" and x: "x \<notin> set (way_addrs k)" "x \<noteq> sentinel T"
    and dist: "distinct (way_addrs k)"
  shows "redirected T (if x = root T then T\<lparr>root := y\<rparr>
      else if x = left_of T q then set_left q y T else set_right q y T) y q k" (is "redirected T ?l y q k")
    and "redirected T (if x = root T then T\<lparr>root := y\<rparr>
      else if x = right_of T q then set_right q y T else set_left q y T) y q k" (is "redirected T ?r y q k")
proof -
  have "redirected T ?l y q k \<and> redirected T ?r y q k"
  proof (cases k)
    case Nil
    with way show ?thesis by (simp add: redirected_def)
  next
    case (Cons f k')
    have root: "x \<noteq> root T" using way_at_root [OF way] x Cons by auto
    show ?thesis
    proof (cases f)
      case (LeftOf a c r)
      have p: "right_of T a \<noteq> x" using way x Cons LeftOf tree_at_pointer by fastforce
      have a: "q = a" "left_of T a = x" using way Cons LeftOf by auto
      have "redirected T (set_left a y T) y q k"
        using way x dist Cons LeftOf by (auto simp: redirected_def set_left_def)
      with root p a show ?thesis by simp
    next
      case (RightOf l a c)
      have p: "left_of T a \<noteq> x" using way x Cons RightOf tree_at_pointer by fastforce
      have a: "q = a" "right_of T a = x" using way Cons RightOf by auto
      have "redirected T (set_right a y T) y q k"
        using way x dist Cons RightOf by (auto simp: redirected_def set_right_def)
      with root p a show ?thesis by simp
    qed
  qed
  then show "redirected T ?l y q k" "redirected T ?r y q k" by auto
qed

text \<open>Only the back pointer of the root of a tree changes.\<close>

lemma tree_at_reparent:
  assumes "tree_at h s p q t" "distinct (addrs t)"
    and same: "\<And>a. a \<in> set (addrs t) \<Longrightarrow> a \<noteq> p \<Longrightarrow> h' a = h a"
    and top: "t \<noteq> Tip \<Longrightarrow> h' p = (h p)\<lparr>parent := q'\<rparr>"
  shows "tree_at h' s p q' t"
proof (cases t)
  case (Bin l a c r)
  then have "tree_at h' s p' q' l = tree_at h s p' q' l" "tree_at h' s p' q' r = tree_at h s p' q' r" for p' q'
    using assms by (auto intro!: tree_at_cong same)
  with assms Bin show ?thesis by simp
qed (use assms in simp)

lemma left_rotate:
  assumes "zipper T x q (Bin A x c (Bin B y d C)) k"
  shows "zipper (ngx_rbtree_left_rotate x T) y q (Bin (Bin A x c B) y d C) k"
proof -
  let ?h = "mem T" and ?s = "sentinel T"
  define b where "b = left_of T y"
  define T1 where "T1 = set_right x b T"
  define T2 where "T2 = (if b \<noteq> ?s then set_parent b x T1 else T1)"
  define T3 where "T3 = set_parent y q T2"
  define T4 where "T4 = (if x = root T3 then T3\<lparr>root := y\<rparr>
      else if x = left_of T3 q then set_left q y T3 else set_right q y T3)"
  define T6 where "T6 = set_parent x y (set_left y x T4)"
  have x: "right_of T x = y" "parent_of T x = q" "color (?h x) = c"
    and y: "left_of T y = b" "parent_of T y = x" "color (?h y) = d"
    and trees: "tree_at ?h ?s (left_of T x) x A" "tree_at ?h ?s b y B" "tree_at ?h ?s (right_of T y) y C"
    and way: "way_at ?h ?s (root T) x q k" and s: "x \<noteq> ?s" "y \<noteq> ?s"
    and dist: "distinct (addrs A @ x # addrs B @ y # addrs C @ way_addrs k)"
    using assms by (auto simp: zipper_def b_def)
  have b: "b \<noteq> ?s \<Longrightarrow> b \<in> set (addrs B)" using tree_at_pointer [OF trees(2)] by blast
  have ne: "b \<noteq> x" "b \<noteq> y" "x \<noteq> y" using b s dist by auto
  have off: "x \<notin> set (way_addrs k)" "y \<notin> set (way_addrs k)" "b \<notin> set (way_addrs k)"
    using b dist way_at_sentinel [OF way] by auto
  have T3: "mem T3 x = (?h x)\<lparr>right := b\<rparr>" "mem T3 y = (?h y)\<lparr>parent := q\<rparr>" "sentinel T3 = ?s" "root T3 = root T"
    "b \<noteq> ?s \<Longrightarrow> mem T3 b = (?h b)\<lparr>parent := x\<rparr>" "z \<notin> {x, y, b} \<Longrightarrow> mem T3 z = ?h z" for z
    using ne by (auto simp: T3_def T2_def T1_def set_defs)
  have "mem T3 z = ?h z" if "z \<in> set (way_addrs k)" for z using T3(6) [of z] off that by auto
  then have "way_at (mem T3) ?s (root T3) x q k = way_at ?h ?s (root T) x q k" unfolding T3(4) by (intro way_at_cong)
  with way redirect(1) [of T3 x q k y] off s T3(3) dist have T4: "redirected T3 T4 y q k" by (simp add: T4_def)
  have T6: "mem T6 x = (?h x)\<lparr>right := b, parent := y\<rparr>" "mem T6 y = (?h y)\<lparr>left := x, parent := q\<rparr>"
    "b \<noteq> ?s \<Longrightarrow> mem T6 b = (?h b)\<lparr>parent := x\<rparr>" "sentinel T6 = ?s"
    "z \<notin> {x, y, b} \<union> set (way_addrs k) \<Longrightarrow> mem T6 z = ?h z" for z
    using T4 off ne T3 by (auto simp: T6_def redirected_def set_defs)
  have "way_at (mem T6) ?s (root T6) y q k"
    using T4 off T3(3) by (simp add: T6_def redirected_def set_defs)
  moreover have "tree_at (mem T6) ?s (left_of T x) x A" "tree_at (mem T6) ?s (right_of T y) y C"
  proof -
    have "mem T6 a = ?h a" if "a \<in> set (addrs A) \<union> set (addrs C)" for a
      using that b dist tree_at_sentinel [OF trees(1)] tree_at_sentinel [OF trees(3)] by (intro T6(5)) auto
    then show "tree_at (mem T6) ?s (left_of T x) x A" "tree_at (mem T6) ?s (right_of T y) y C"
      using trees tree_at_cong [of A "mem T6" ?h] tree_at_cong [of C "mem T6" ?h] by auto
  qed
  moreover have "tree_at (mem T6) ?s b x B"
  proof (rule tree_at_reparent [OF trees(2)])
    show "mem T6 a = ?h a" if "a \<in> set (addrs B)" "a \<noteq> b" for a using that T6(5) [of a] dist by auto
    show "mem T6 b = (?h b)\<lparr>parent := x\<rparr>" if "B \<noteq> Tip" using that T6(3) trees(2) by (cases B) auto
  qed (use dist in auto)
  moreover have "ngx_rbtree_left_rotate x T = T6"
    using x y ne by (cases "b = ?s")
      (auto simp add: ngx_rbtree_left_rotate_def Let_def T1_def T2_def T3_def T4_def T6_def)
  ultimately show ?thesis using x y s dist T6 ne by (auto simp: zipper_def)
qed

subsection \<open>Mirror images\<close>

text \<open>
  The code treats left and right alike.  Everything about one side carries over to the other by exchanging the
  two child pointers of every node.
\<close>

definition mirror :: "rbtree \<Rightarrow> rbtree" where
  "mirror T = T\<lparr>mem := (\<lambda>x. (mem T x)\<lparr>left := right_of T x, right := left_of T x\<rparr>)\<rparr>"

fun mirror_tree :: "tree \<Rightarrow> tree" where
  "mirror_tree Tip = Tip"
| "mirror_tree (Bin l a c r) = Bin (mirror_tree r) a c (mirror_tree l)"

fun mirror_frame :: "frame \<Rightarrow> frame" where
  "mirror_frame (LeftOf a c r) = RightOf (mirror_tree r) a c"
| "mirror_frame (RightOf l a c) = LeftOf a c (mirror_tree l)"

lemma mirror_simps [simp]:
  "root (mirror T) = root T" "sentinel (mirror T) = sentinel T"
  "left (mem (mirror T) x) = right_of T x" "right (mem (mirror T) x) = left_of T x"
  "parent (mem (mirror T) x) = parent_of T x" "color (mem (mirror T) x) = color (mem T x)"
  "key (mem (mirror T) x) = key (mem T x)"
  by (simp_all add: mirror_def)

lemma mirror_mirror [simp]: "mirror (mirror T) = T"
  by (simp add: mirror_def)

lemma mirror_set [simp]:
  "set_left x v (mirror T) = mirror (set_right x v T)" "set_right x v (mirror T) = mirror (set_left x v T)"
  "set_parent x v (mirror T) = mirror (set_parent x v T)" "set_color x c (mirror T) = mirror (set_color x c T)"
  by (rule rbtree.equality, simp_all add: mirror_def set_left_def set_right_def set_parent_def set_color_def, rule ext, simp)+

lemma mirror_set_root [simp]: "(mirror T)\<lparr>root := y\<rparr> = mirror (T\<lparr>root := y\<rparr>)"
  by (simp add: mirror_def)

lemma mirror_color [simp]:
  "ngx_rbt_red x (mirror T) = mirror (ngx_rbt_red x T)" "ngx_rbt_black x (mirror T) = mirror (ngx_rbt_black x T)"
  "ngx_rbt_is_red (mirror T) x = ngx_rbt_is_red T x"
  "ngx_rbt_copy_color x y (mirror T) = mirror (ngx_rbt_copy_color x y T)"
  by (simp_all add: ngx_rbt_red_def ngx_rbt_black_def ngx_rbt_is_red_def ngx_rbt_copy_color_def)

lemma mirror_if: "(if b then mirror S else mirror T) = mirror (if b then S else T)"
  by simp

lemma mirror_rotate [simp]:
  "ngx_rbtree_left_rotate x (mirror T) = mirror (ngx_rbtree_right_rotate x T)"
  "ngx_rbtree_right_rotate x (mirror T) = mirror (ngx_rbtree_left_rotate x T)"
  by (simp_all only: ngx_rbtree_left_rotate_def ngx_rbtree_right_rotate_def Let_def mirror_simps mirror_set
      mirror_set_root mirror_if)

lemma mirror_tree_mirror_tree [simp]: "mirror_tree (mirror_tree t) = t"
  by (induction t) auto

lemma mirror_frame_mirror_frame [simp]: "mirror_frame (mirror_frame f) = f"
  by (cases f) auto

lemma set_addrs_mirror [simp]: "set (addrs (mirror_tree t)) = set (addrs t)"
  by (induction t) auto

lemma distinct_mirror: "distinct (addrs (mirror_tree t)) = distinct (addrs t)"
  by (induction t) auto

lemma way_addrs_mirror: "set (way_addrs (map mirror_frame k)) = set (way_addrs k)"
  "distinct (way_addrs (map mirror_frame k)) = distinct (way_addrs k)"
proof -
  have f: "set (frame_addrs (mirror_frame f)) = set (frame_addrs f)"
    "distinct (frame_addrs (mirror_frame f)) = distinct (frame_addrs f)" for f
    by (cases f; auto simp: distinct_mirror)+
  show "set (way_addrs (map mirror_frame k)) = set (way_addrs k)" by (induction k) (auto simp: f)
  then show "distinct (way_addrs (map mirror_frame k)) = distinct (way_addrs k)"
  proof (induction k)
    case (Cons g k)
    have "set (way_addrs (map mirror_frame k)) = set (way_addrs k)" for k by (induction k) (auto simp: f)
    with Cons show ?case by (simp add: f)
  qed simp
qed

lemma tree_at_mirror:
  "tree_at (mem (mirror T)) s p q (mirror_tree t) = tree_at (mem T) s p q t"
  by (induction t arbitrary: p q) auto

lemma way_at_mirror:
  "way_at (mem (mirror T)) s rt p q (map mirror_frame k) = way_at (mem T) s rt p q k"
proof (induction k arbitrary: p q)
  case (Cons f k)
  then show ?case by (cases f) (auto simp: tree_at_mirror)
qed simp

lemma zipper_mirror: "zipper (mirror T) p q (mirror_tree t) (map mirror_frame k) = zipper T p q t k"
  by (simp add: zipper_def tree_at_mirror way_at_mirror way_addrs_mirror distinct_mirror)

lemma right_rotate:
  assumes "zipper T x q (Bin (Bin A y d B) x c C) k"
  shows "zipper (ngx_rbtree_right_rotate x T) y q (Bin A y d (Bin B x c C)) k"
proof -
  have "zipper (mirror T) x q (mirror_tree (Bin (Bin A y d B) x c C)) (map mirror_frame k)"
    using assms by (simp only: zipper_mirror)
  from left_rotate [OF this [simplified]]
  have "zipper (mirror (ngx_rbtree_right_rotate x T)) y q (mirror_tree (Bin A y d (Bin B x c C))) (map mirror_frame k)"
    by simp
  then show ?thesis by (simp only: zipper_mirror)
qed

lemma mirror_set_key [simp]: "set_key x v (mirror T) = mirror (set_key x v T)"
  by (rule rbtree.equality, simp_all add: mirror_def set_key_def, rule ext, simp)

text \<open>Rotations write no colours and no keys.\<close>

lemma rotate_fields [simp]:
  "sentinel (ngx_rbtree_left_rotate x T) = sentinel T" "sentinel (ngx_rbtree_right_rotate x T) = sentinel T"
  "color (mem (ngx_rbtree_left_rotate x T) z) = color (mem T z)" "color (mem (ngx_rbtree_right_rotate x T) z) = color (mem T z)"
  "key (mem (ngx_rbtree_left_rotate x T) z) = key (mem T z)" "key (mem (ngx_rbtree_right_rotate x T) z) = key (mem T z)"
  by (simp_all add: ngx_rbtree_left_rotate_def ngx_rbtree_right_rotate_def Let_def)

subsection \<open>Colours\<close>

fun paint :: "addr \<Rightarrow> bool \<Rightarrow> tree \<Rightarrow> tree" where
  "paint x c Tip = Tip"
| "paint x c (Bin l a d r) = Bin (paint x c l) a (if a = x then c else d) (paint x c r)"

fun paint_frame :: "addr \<Rightarrow> bool \<Rightarrow> frame \<Rightarrow> frame" where
  "paint_frame x c (LeftOf a d r) = LeftOf a (if a = x then c else d) (paint x c r)"
| "paint_frame x c (RightOf l a d) = RightOf (paint x c l) a (if a = x then c else d)"

definition paint_way :: "addr \<Rightarrow> bool \<Rightarrow> frame list \<Rightarrow> frame list" where
  "paint_way x c k = map (paint_frame x c) k"

lemma paint_way_simps [simp]:
  "paint_way x c [] = []" "paint_way x c (f # k) = paint_frame x c f # paint_way x c k"
  by (simp_all add: paint_way_def)

lemma paint_elsewhere [simp]: "x \<notin> set (addrs t) \<Longrightarrow> paint x c t = t"
  by (induction t) auto

lemma paint_way_elsewhere [simp]: "x \<notin> set (way_addrs k) \<Longrightarrow> paint_way x c k = k"
proof (induction k)
  case (Cons f k)
  then show ?case by (cases f) auto
qed simp

lemma addrs_paint [simp]: "addrs (paint x c t) = addrs t"
  by (induction t) auto

lemma way_addrs_paint [simp]: "way_addrs (paint_way x c k) = way_addrs k"
proof (induction k)
  case (Cons f k)
  then show ?case by (cases f) auto
qed simp

lemma tree_at_paint: "tree_at (mem T) s p q t \<Longrightarrow> tree_at (mem (set_color x c T)) s p q (paint x c t)"
  by (induction t arbitrary: p q) auto

lemma way_at_paint: "way_at (mem T) s rt p q k \<Longrightarrow> way_at (mem (set_color x c T)) s rt p q (paint_way x c k)"
proof (induction k arbitrary: p q)
  case (Cons f k)
  then show ?case by (cases f) (auto simp: tree_at_paint)
qed simp

lemma zipper_paint:
  "zipper T p q t k \<Longrightarrow> zipper (set_color x c T) p q (paint x c t) (paint_way x c k)"
  by (simp add: zipper_def tree_at_paint way_at_paint)

text \<open>The colour of a node on top, and of the roots of the trees below it.\<close>

fun black :: "tree \<Rightarrow> bool" where
  "black Tip \<longleftrightarrow> True"
| "black (Bin l a c r) \<longleftrightarrow> \<not> c"

fun top :: "addr \<Rightarrow> tree \<Rightarrow> addr" where
  "top s Tip = s"
| "top s (Bin l a c r) = a"

lemma tree_at_top: "tree_at h s p q t \<Longrightarrow> p = top s t"
  by (cases t) auto

lemma tree_at_black: "tree_at (mem T) (sentinel T) p q t \<Longrightarrow> \<not> color (mem T (sentinel T)) \<Longrightarrow>
    ngx_rbt_is_red T p \<longleftrightarrow> \<not> black t"
  by (cases t) (auto simp: ngx_rbt_is_red_def)

subsection \<open>Whole trees\<close>

fun inorder_before :: "frame list \<Rightarrow> addr list" where
  "inorder_before [] = []"
| "inorder_before (LeftOf a c r # k) = inorder_before k"
| "inorder_before (RightOf l a c # k) = inorder_before k @ addrs l @ [a]"

fun inorder_after :: "frame list \<Rightarrow> addr list" where
  "inorder_after [] = []"
| "inorder_after (LeftOf a c r # k) = a # addrs r @ inorder_after k"
| "inorder_after (RightOf l a c # k) = inorder_after k"

lemma addrs_plug: "addrs (plug t k) = inorder_before k @ addrs t @ inorder_after k"
  by (induction t k rule: plug.induct) auto

lemma zipper_plug: "zipper T p q t k \<Longrightarrow> \<exists>q'. zipper T (root T) q' (plug t k) []"
proof (induction t k arbitrary: p q rule: plug.induct)
  case (1 t)
  then show ?case by (auto simp: zipper_def)
next
  case (2 t a c r k)
  then show ?case using zipper_up(1) by (metis plug.simps(2))
next
  case (3 t l a c k)
  then show ?case using zipper_up(2) by (metis plug.simps(3))
qed

text \<open>
  A red-black tree in memory.  The parent of the root is not constrained: deletions leave it as it is.
\<close>

definition tree_of :: "rbtree \<Rightarrow> tree \<Rightarrow> bool" where
  "tree_of T t \<longleftrightarrow> (\<exists>q. zipper T (root T) q t []) \<and> \<not> color (mem T (sentinel T))"

end
