(* ===== verification/Ngx_Rbtree_Insert.thy ===== *)
theory Ngx_Rbtree_Insert
  imports Ngx_Rbtree_Shape
begin

text \<open>
  Insertion into a red-black tree in memory: the search for the place, the rounds of the re-balancing loop, that
  the loop ends, and that the result is a red-black tree with the node at its place.
\<close>

subsection \<open>Red-black trees\<close>

text \<open>Every way down has \<open>n\<close> black nodes, and no red node has a red child.\<close>

fun wf :: "nat \<Rightarrow> tree \<Rightarrow> bool" where
  "wf n Tip \<longleftrightarrow> n = 0"
| "wf n (Bin l a c r) \<longleftrightarrow>
     (if c then wf n l \<and> wf n r \<and> black l \<and> black r
      else (case n of 0 \<Rightarrow> False | Suc m \<Rightarrow> wf m l \<and> wf m r))"

fun sibling :: "frame \<Rightarrow> tree" where
  "sibling (LeftOf a c r) = r"
| "sibling (RightOf l a c) = l"

text \<open>The way up from a hole that a tree of black height \<open>n\<close> fits into; the root is black.\<close>

fun wf_way :: "nat \<Rightarrow> frame list \<Rightarrow> bool" where
  "wf_way n [] \<longleftrightarrow> True"
| "wf_way n (f # k) \<longleftrightarrow>
     wf n (sibling f) \<and>
     (if frame_red f then black (sibling f) \<and> k \<noteq> [] \<and> \<not> frame_red (hd k) \<and> wf_way n k else wf_way (Suc n) k)"

definition rb_tree :: "tree \<Rightarrow> bool" where
  "rb_tree t \<longleftrightarrow> black t \<and> (\<exists>n. wf n t)"

lemma wf_plug:
  "wf n t \<Longrightarrow> wf_way n k \<Longrightarrow> (k \<noteq> [] \<Longrightarrow> frame_red (hd k) \<Longrightarrow> black t) \<Longrightarrow>
   (\<exists>m. wf m (plug t k)) \<and> (k \<noteq> [] \<longrightarrow> black (plug t k))"
proof (induction t k arbitrary: n rule: plug.induct)
  case (2 t a c r k)
  have "wf (if c then n else Suc n) (Bin t a c r)" "wf_way (if c then n else Suc n) k"
    "k \<noteq> [] \<Longrightarrow> frame_red (hd k) \<Longrightarrow> black (Bin t a c r)" "k = [] \<Longrightarrow> \<not> c"
    using 2 by (auto split: if_splits)
  with "2.IH" [of "if c then n else Suc n"] show ?case by (cases "k = []") auto
next
  case (3 t l a c k)
  have "wf (if c then n else Suc n) (Bin l a c t)" "wf_way (if c then n else Suc n) k"
    "k \<noteq> [] \<Longrightarrow> frame_red (hd k) \<Longrightarrow> black (Bin l a c t)" "k = [] \<Longrightarrow> \<not> c"
    using 3 by (auto split: if_splits)
  with "3.IH" [of "if c then n else Suc n"] show ?case by (cases "k = []") auto
qed auto

lemma black_mirror [simp]: "black (mirror_tree t) = black t"
  by (cases t) auto

lemma wf_mirror [simp]: "wf n (mirror_tree t) = wf n t"
  by (induction t arbitrary: n) (auto split: nat.splits)

subsection \<open>One round\<close>

text \<open>The parent is a left child.  First with a red uncle: three nodes change their colour.\<close>

fun blacken :: "tree \<Rightarrow> tree" where
  "blacken Tip = Tip"
| "blacken (Bin l a c r) = Bin l a False r"

lemma zipper_frame:
  "zipper T p q t (f # k) \<Longrightarrow> q = frame_node f \<and> zipper T (frame_node f) (parent_of T (frame_node f)) (plug t [f]) k"
  by (cases f) (auto simp: zipper_def)

lemma zipper_parent: "zipper T p q (Bin l x c r) k \<Longrightarrow> p = x \<and> parent_of T x = q \<and> color (mem T x) = c"
  by (simp add: zipper_def)

lemma plug_frame: "\<exists>l r. plug t [f] = Bin l (frame_node f) (frame_red f) r"
  by (cases f) auto

text \<open>What every round keeps.\<close>

definition same_nodes :: "rbtree \<Rightarrow> rbtree \<Rightarrow> bool" where
  "same_nodes T T' \<longleftrightarrow> sentinel T' = sentinel T \<and> \<not> color (mem T' (sentinel T)) \<and> (\<forall>z. key (mem T' z) = key (mem T z))"

lemma same_nodes_trans: "same_nodes T T' \<Longrightarrow> same_nodes T' T'' \<Longrightarrow> same_nodes T T''"
  by (simp add: same_nodes_def)

lemma round_red_uncle:
  assumes z: "zipper T x q (Bin l x True r) (f # LeftOf g False u # k)" and s: "\<not> color (mem T (sentinel T))"
    and red: "\<not> black u"
  shows "\<exists>T' q'. insert_round T x = (T', g) \<and> same_nodes T T' \<and>
    zipper T' g q' (Bin (blacken (plug (Bin l x True r) [f])) g True (blacken u)) k"
proof -
  obtain pl p pc pr where P: "plug (Bin l x True r) [f] = Bin pl p pc pr" "p = frame_node f" using plug_frame by blast
  obtain ul w ur where u: "u = Bin ul w True ur" using red by (cases u) auto
  have zp: "zipper T p (parent_of T p) (Bin pl p pc pr) (LeftOf g False u # k)" and x: "parent_of T x = p"
    using zipper_frame [OF z] zipper_parent [OF z] P by auto
  have zg: "zipper T g (parent_of T g) (Bin (Bin pl p pc pr) g False u) k" and p: "parent_of T p = g"
    using zipper_frame [OF zp] zipper_parent [OF zp] by auto
  then have g: "left_of T g = p" "right_of T g = w" "color (mem T w)" "w \<noteq> sentinel T"
    and d: "distinct (addrs pl @ p # addrs pr @ g # addrs ul @ w # addrs ur @ way_addrs k)"
    by (auto simp: zipper_def u)
  let ?T = "set_color g True (set_color w False (set_color p False T))"
  have "insert_round T x = (?T, g)"
    using x p g by (simp add: insert_round_def Let_def ngx_rbt_is_red_def ngx_rbt_red_def ngx_rbt_black_def)
  moreover have "sentinel T \<notin> {p, g, w}" using zg u by (auto simp: zipper_def)
  then have "same_nodes T ?T" using s by (simp add: same_nodes_def)
  moreover have "zipper ?T g (parent_of T g) (Bin (Bin pl p False pr) g True (Bin ul w False ur)) k"
    using zipper_paint [OF zipper_paint [OF zipper_paint [OF zg, of p False], of w False], of g True] d
    by (auto simp: u)
  ultimately show ?thesis unfolding P u by auto
qed

text \<open>With a black uncle and the node on the same side: one rotation.\<close>

lemma round_outer:
  assumes z: "zipper T x q (Bin l x True r) (LeftOf p c b # LeftOf g d u # k)"
    and s: "\<not> color (mem T (sentinel T))" and "black u"
  shows "\<exists>T' q'. insert_round T x = (T', x) \<and> same_nodes T T' \<and>
    zipper T' p q' (Bin (Bin l x True r) p False (Bin b g True u)) k"
proof -
  have zp: "zipper T p (parent_of T p) (Bin (Bin l x True r) p c b) (LeftOf g d u # k)" and x: "parent_of T x = p"
    using zipper_frame [OF z] zipper_parent [OF z] by auto
  have zg: "zipper T g (parent_of T g) (Bin (Bin (Bin l x True r) p c b) g d u) k" and p: "parent_of T p = g"
    using zipper_frame [OF zp] zipper_parent [OF zp] by auto
  then have g: "left_of T g = p" "right_of T p \<noteq> x" "\<not> ngx_rbt_is_red T (right_of T g)"
    and d: "distinct (addrs l @ x # addrs r @ p # addrs b @ g # addrs u @ way_addrs k)" "sentinel T \<notin> {p, g}"
    using s tree_at_black [of T _ _ u] \<open>black u\<close> tree_at_pointer [of "mem T" "sentinel T" "right_of T p" p b]
    by (auto simp: zipper_def)
  let ?T = "set_color g True (set_color p False T)"
  have "insert_round T x = (ngx_rbtree_right_rotate g ?T, x)"
    using x p g by (simp add: insert_round_def Let_def ngx_rbt_red_def ngx_rbt_black_def)
  moreover have "same_nodes T (ngx_rbtree_right_rotate g ?T)" using s d(2) by (simp add: same_nodes_def)
  moreover have "zipper ?T g (parent_of T g) (Bin (Bin (Bin l x True r) p False b) g True u) k"
    using zipper_paint [OF zipper_paint [OF zg, of p False], of g True] d(1) by auto
  from right_rotate [OF this]
  have "zipper (ngx_rbtree_right_rotate g ?T) p (parent_of T g) (Bin (Bin l x True r) p False (Bin b g True u)) k" .
  ultimately show ?thesis by blast
qed

text \<open>With a black uncle and the node on the inner side: two rotations.\<close>

lemma round_inner:
  assumes z: "zipper T x q (Bin l x True r) (RightOf b p c # LeftOf g d u # k)"
    and s: "\<not> color (mem T (sentinel T))" and "black u"
  shows "\<exists>T' q'. insert_round T x = (T', p) \<and> same_nodes T T' \<and>
    zipper T' x q' (Bin (Bin b p c l) x False (Bin r g True u)) k"
proof -
  have zp: "zipper T p g (Bin b p c (Bin l x True r)) (LeftOf g d u # k)" and x: "parent_of T x = p" "parent_of T p = g"
    using zipper_frame [OF z] zipper_parent [OF z] by (auto simp: zipper_def)
  have g: "left_of T g = p" "right_of T p = x" "\<not> ngx_rbt_is_red T (right_of T g)"
    and d: "distinct (addrs b @ p # addrs l @ x # addrs r @ g # addrs u @ way_addrs k)" "sentinel T \<notin> {x, p, g}"
    using zp s tree_at_black [of T _ _ u] \<open>black u\<close> by (auto simp: zipper_def)
  define T1 where "T1 = ngx_rbtree_left_rotate p T"
  have z1: "zipper T1 x g (Bin (Bin b p c l) x True r) (LeftOf g d u # k)" unfolding T1_def by (rule left_rotate [OF zp])
  then have zg: "zipper T1 g (parent_of T1 g) (Bin (Bin (Bin b p c l) x True r) g d u) k"
    using zipper_frame [OF z1] by simp
  have x1: "parent_of T1 p = x" "parent_of T1 x = g" using z1 by (auto simp: zipper_def)
  let ?T = "set_color g True (set_color x False T1)"
  have "insert_round T x = (ngx_rbtree_right_rotate g ?T, p)"
    using x x1 g by (simp add: insert_round_def Let_def ngx_rbt_red_def ngx_rbt_black_def T1_def [symmetric])
  moreover have "same_nodes T (ngx_rbtree_right_rotate g ?T)" using s d(2) by (simp add: same_nodes_def T1_def)
  moreover have "zipper ?T g (parent_of T1 g) (Bin (Bin (Bin b p c l) x False r) g True u) k"
    using zipper_paint [OF zipper_paint [OF zg, of x False], of g True] d(1) by auto
  from right_rotate [OF this]
  have "zipper (ngx_rbtree_right_rotate g ?T) x (parent_of T1 g) (Bin (Bin b p c l) x False (Bin r g True u)) k" .
  ultimately show ?thesis by blast
qed

text \<open>
  The result of a round: a tree with the same nodes in the same order and of the right height in the place of the tree at the grandparent.  Either its root is
  red, and the next round is about it, or the loop ends.
\<close>

definition round_done :: "nat \<Rightarrow> rbtree \<Rightarrow> addr list \<Rightarrow> frame list \<Rightarrow> rbtree \<times> addr \<Rightarrow> bool" where
  "round_done n T as k res \<longleftrightarrow>
     (case res of (T', y) \<Rightarrow>
        same_nodes T T' \<and>
        (\<exists>q' t'. zipper T' (top (sentinel T) t') q' t' k \<and> addrs t' = as \<and> wf n t' \<and>
           ((y = top (sentinel T) t' \<and> \<not> black t') \<or> (black t' \<and> \<not> ngx_rbt_is_red T' (parent_of T' y)))))"

lemma wf_blacken: "wf n t \<Longrightarrow> \<not> black t \<Longrightarrow> wf (Suc n) (blacken t)"
  by (cases t) auto

lemma addrs_blacken [simp]: "addrs (blacken t) = addrs t"
  by (cases t) auto

lemma black_blacken [simp]: "black (blacken t)"
  by (cases t) auto

lemma round_left:
  assumes z: "zipper T x q (Bin l x True r) (f # LeftOf g False u # k)" and s: "\<not> color (mem T (sentinel T))"
    and f: "frame_red f" and wf: "wf n (Bin l x True r)" "wf_way n (f # LeftOf g False u # k)"
  shows "round_done (Suc n) T (addrs (plug (Bin l x True r) [f, LeftOf g False u])) k (insert_round T x)"
proof (cases "black u")
  case False
  from round_red_uncle [OF z s this] obtain T' q' where res: "insert_round T x = (T', g)" "same_nodes T T'"
    "zipper T' g q' (Bin (blacken (plug (Bin l x True r) [f])) g True (blacken u)) k" by blast
  obtain a c b where P: "plug (Bin l x True r) [f] = Bin a (frame_node f) True b" using plug_frame f by metis
  have "wf n a \<and> wf n b" using wf f P by (cases f) auto
  then have "wf (Suc n) (blacken (plug (Bin l x True r) [f]))" by (simp add: P)
  moreover have "wf (Suc n) (blacken u)" using wf f False by (intro wf_blacken) auto
  moreover have "addrs (plug (Bin l x True r) [f, LeftOf g False u]) = addrs (plug (Bin l x True r) [f]) @ g # addrs u"
    by (cases f) auto
  ultimately show ?thesis using res unfolding round_done_def
    by (auto intro!: exI [of _ q'] exI [of _ "Bin (blacken (plug (Bin l x True r) [f])) g True (blacken u)"])
next
  case True
  have u: "wf n u" using wf f by (cases f) auto
  show ?thesis
  proof (cases f)
    case (LeftOf p c b)
    with round_outer [of T x q l r p c b g False u k] z s True obtain T' q' where
      res: "insert_round T x = (T', x)" "same_nodes T T'"
        "zipper T' p q' (Bin (Bin l x True r) p False (Bin b g True u)) k" by blast
    have "\<not> ngx_rbt_is_red T' (parent_of T' x)" using res(3) by (auto simp: zipper_def ngx_rbt_is_red_def)
    with res wf u True LeftOf f show ?thesis unfolding round_done_def
      by (auto intro!: exI [of _ q'] exI [of _ "Bin (Bin l x True r) p False (Bin b g True u)"])
  next
    case (RightOf b p c)
    with round_inner [of T x q l r b p c g False u k] z s True obtain T' q' where
      res: "insert_round T x = (T', p)" "same_nodes T T'"
        "zipper T' x q' (Bin (Bin b p c l) x False (Bin r g True u)) k" by blast
    have "\<not> ngx_rbt_is_red T' (parent_of T' p)" using res(3) by (auto simp: zipper_def ngx_rbt_is_red_def)
    with res wf u True RightOf f show ?thesis unfolding round_done_def
      by (auto intro!: exI [of _ q'] exI [of _ "Bin (Bin b p c l) x False (Bin r g True u)"])
  qed
qed

text \<open>The parent is a right child: the same in the mirror.\<close>

lemma insert_round_mirror:
  assumes "parent_of T x = right_of T (parent_of T (parent_of T x))" "parent_of T x \<noteq> left_of T (parent_of T (parent_of T x))"
  shows "insert_round (mirror T) x = apfst mirror (insert_round T x)"
  using assms
  by (simp add: insert_round_def Let_def split: prod.split)

lemma same_nodes_mirror [simp]: "same_nodes (mirror T) (mirror T') = same_nodes T T'"
  by (simp add: same_nodes_def)

lemma top_mirror [simp]: "top s (mirror_tree t) = top s t"
  by (cases t) auto

lemma addrs_mirror: "addrs (mirror_tree t) = rev (addrs t)"
  by (induction t) auto

lemma round_done_mirror:
  assumes "round_done n (mirror T) as (map mirror_frame k) (apfst mirror res)"
  shows "round_done n T (rev as) k res"
proof -
  obtain T' y where r: "res = (T', y)" by force
  from assms obtain q' t' where t': "zipper (mirror T') (top (sentinel T) t') q' t' (map mirror_frame k)" "addrs t' = as" "wf n t'"
    "(y = top (sentinel T) t' \<and> \<not> black t') \<or> (black t' \<and> \<not> ngx_rbt_is_red T' (parent_of T' y))" "same_nodes T T'"
    by (auto simp: r round_done_def)
  have "zipper T' (top (sentinel T) t') q' (mirror_tree t') k"
    using t'(1) zipper_mirror [of T' _ q' "mirror_tree t'" k] by simp
  with t' show ?thesis unfolding round_done_def r
    by (auto simp: addrs_mirror intro!: exI [of _ q'] exI [of _ "mirror_tree t'"])
qed

lemma frame_mirror [simp]:
  "frame_red (mirror_frame f) = frame_red f" "frame_node (mirror_frame f) = frame_node f"
  "sibling (mirror_frame f) = mirror_tree (sibling f)"
  by (cases f; simp)+

lemma wf_way_mirror [simp]: "wf_way n (map mirror_frame k) = wf_way n k"
  by (induction k arbitrary: n) (auto simp: hd_map)

lemma mirror_plug: "mirror_tree (plug t k) = plug (mirror_tree t) (map mirror_frame k)"
  by (induction t k rule: plug.induct) auto

lemma round_right:
  assumes z: "zipper T x q (Bin l x True r) (f # RightOf u g False # k)" and s: "\<not> color (mem T (sentinel T))"
    and f: "frame_red f" and wf: "wf n (Bin l x True r)" "wf_way n (f # RightOf u g False # k)"
  shows "round_done (Suc n) T (addrs (plug (Bin l x True r) [f, RightOf u g False])) k (insert_round T x)"
proof -
  let ?t = "Bin l x True r" and ?k = "f # RightOf u g False # k"
  have zp: "zipper T (frame_node f) g (plug ?t [f]) (RightOf u g False # k)" and x: "parent_of T x = frame_node f"
    using zipper_frame [OF z] zipper_parent [OF z] by (auto simp: zipper_def)
  obtain a b where P: "plug ?t [f] = Bin a (frame_node f) True b" using plug_frame f by metis
  have p: "parent_of T (frame_node f) = g" "right_of T g = frame_node f" "left_of T g \<noteq> frame_node f"
    using zp tree_at_pointer [of "mem T" "sentinel T" "left_of T g" g u] unfolding P by (auto simp: zipper_def)
  have "zipper (mirror T) x q (mirror_tree ?t) (map mirror_frame ?k)" using z by (simp only: zipper_mirror)
  then have "round_done (Suc n) (mirror T) (addrs (plug (mirror_tree ?t) (map mirror_frame [f, RightOf u g False])))
      (map mirror_frame k) (insert_round (mirror T) x)"
    using round_left [of "mirror T" x q "mirror_tree r" "mirror_tree l" "mirror_frame f" g "mirror_tree u"
        "map mirror_frame k" n] s f wf wf_way_mirror [of n ?k] by simp
  then have "round_done (Suc n) (mirror T) (rev (addrs (plug ?t [f, RightOf u g False])))
      (map mirror_frame k) (apfst mirror (insert_round T x))"
    using insert_round_mirror [of T x] x p by (simp only: mirror_plug [symmetric] addrs_mirror)
  from round_done_mirror [OF this] show ?thesis by simp
qed

lemma insert_round:
  assumes "zipper T x q (Bin l x True r) (f # g # k)" "\<not> color (mem T (sentinel T))" "frame_red f"
    "wf n (Bin l x True r)" "wf_way n (f # g # k)"
  shows "round_done (Suc n) T (addrs (plug (Bin l x True r) [f, g])) k (insert_round T x)"
  using assms round_left [of T x q l r f _ _ k n] round_right [of T x q l r f _ _ k n] by (cases g) auto

subsection \<open>The loop\<close>

text \<open>The loop climbs two levels a round, so it ends; what it leaves behind is balanced.\<close>

definition balanced :: "rbtree \<Rightarrow> addr list \<Rightarrow> rbtree \<Rightarrow> bool" where
  "balanced T as T' \<longleftrightarrow>
     same_nodes T T' \<and> (\<exists>q t n. zipper T' (root T') q t [] \<and> addrs t = as \<and> wf n t)"

lemma zipper_root: "zipper T x q (Bin l x c r) k \<Longrightarrow> x = root T \<longleftrightarrow> k = []"
  using way_at_root [of "mem T" "sentinel T" "root T" x q k] by (auto simp: zipper_def)

lemma balancedI:
  assumes "zipper T' p q t k" "same_nodes T T'" "wf n t" "wf_way n k" "k \<noteq> [] \<Longrightarrow> frame_red (hd k) \<Longrightarrow> black t"
  shows "balanced T (addrs (plug t k)) T'"
  using zipper_plug [OF assms(1)] wf_plug [of n t k] assms unfolding balanced_def by blast

lemma insert_balance_ends: "x = root T \<or> \<not> ngx_rbt_is_red T (parent_of T x) \<Longrightarrow> insert_balance T x = Some T"
  by (subst insert_balance.simps) auto

lemma insert_balance_returns:
  assumes "zipper T x q (Bin l x True r) k" "\<not> color (mem T (sentinel T))" "wf n (Bin l x True r)" "wf_way n k"
  shows "\<exists>T'. insert_balance T x = Some T' \<and> balanced T (addrs (plug (Bin l x True r) k)) T'"
  using assms
proof (induction "length k" arbitrary: T x q l r k n rule: less_induct)
  case less
  note z = less.prems(1) and s = less.prems(2) and wf = less.prems(3, 4)
  have here: ?case if "x = root T \<or> \<not> ngx_rbt_is_red T (parent_of T x)" "k \<noteq> [] \<Longrightarrow> \<not> frame_red (hd k)"
    using balancedI [OF z _ wf, of T] that insert_balance_ends [OF that(1)] s by (auto simp: same_nodes_def)
  show ?case
  proof (cases k)
    case Nil
    then show ?thesis using here zipper_root [OF z] by simp
  next
    case (Cons f k1)
    have p: "ngx_rbt_is_red T (parent_of T x) \<longleftrightarrow> frame_red f" "x \<noteq> root T"
      using z Cons zipper_root [OF z] by (cases f; auto simp: zipper_def ngx_rbt_is_red_def)+
    show ?thesis
    proof (cases "frame_red f")
      case False
      then show ?thesis using here p Cons by simp
    next
      case True
      with wf Cons obtain g k2 where k: "k = f # g # k2" "\<not> frame_red g" by (cases k1) auto
      obtain T' y where res: "insert_round T x = (T', y)" by force
      have step: "insert_balance T x = insert_balance T' y"
        using True p res by (subst insert_balance.simps) simp
      from insert_round [of T x q l r f g k2 n] z s True wf k res obtain q' t' where
        t': "zipper T' (top (sentinel T) t') q' t' k2" "addrs t' = addrs (plug (Bin l x True r) [f, g])" "wf (Suc n) t'"
          "(y = top (sentinel T) t' \<and> \<not> black t') \<or> (black t' \<and> \<not> ngx_rbt_is_red T' (parent_of T' y))"
        and same: "same_nodes T T'" by (auto simp: round_done_def)
      have way: "wf_way (Suc n) k2" using wf k True by (auto split: if_splits)
      have as: "addrs (plug t' k2) = addrs (plug (Bin l x True r) k)"
        using t'(2) k by (cases f; cases g; simp add: addrs_plug)
      from t'(4) show ?thesis
      proof
        assume "y = top (sentinel T) t' \<and> \<not> black t'"
        then obtain l' r' where t: "t' = Bin l' y True r'" by (cases t') auto
        have "\<not> color (mem T' (sentinel T'))" using same by (simp add: same_nodes_def)
        with less.hyps [of k2 T' y q' l' r' "Suc n"] t' t way k obtain T'' where
          "insert_balance T' y = Some T''" "balanced T' (addrs (plug t' k2)) T''" by auto
        with step as same_nodes_trans [OF same] show ?thesis by (auto simp: balanced_def)
      next
        assume "black t' \<and> \<not> ngx_rbt_is_red T' (parent_of T' y)"
        with insert_balance_ends step balancedI [OF t'(1) same t'(3) way] as show ?thesis by auto
      qed
    qed
  qed
qed

subsection \<open>The place of a new node\<close>

text \<open>
  The way to the hole that the search ends in, as a function: \<open>P a\<close> holds if the new node goes to the left of \<open>a\<close>.
\<close>

fun hole :: "(addr \<Rightarrow> bool) \<Rightarrow> tree \<Rightarrow> frame list \<Rightarrow> frame list" where
  "hole P Tip k = k"
| "hole P (Bin l a c r) k = (if P a then hole P l (LeftOf a c r # k) else hole P r (RightOf l a c # k))"

fun is_left :: "frame \<Rightarrow> bool" where
  "is_left (LeftOf a c r) = True"
| "is_left (RightOf l a c) = False"

lemma plug_hole: "plug Tip (hole P t k) = plug t k"
  by (induction P t k rule: hole.induct) auto

lemma hole_not_root: "t \<noteq> Tip \<or> k \<noteq> [] \<Longrightarrow> hole P t k \<noteq> []"
  by (induction P t k rule: hole.induct) auto

lemma insert_place_hole:
  assumes "zipper T a q (Bin l a c r) k"
  shows "\<exists>q'. zipper T (sentinel T) q' Tip (hole (\<lambda>b. precedes (key (mem T x)) (key (mem T b))) (Bin l a c r) k) \<and>
    insert_place precedes T a x =
      (case hole (\<lambda>b. precedes (key (mem T x)) (key (mem T b))) (Bin l a c r) k of
         [] \<Rightarrow> None | f # k' \<Rightarrow> Some (frame_node f, is_left f))"
  using assms
proof (induction "\<lambda>b. precedes (key (mem T x)) (key (mem T b))" "Bin l a c r" k arbitrary: l a c r q rule: hole.induct)
  case (2 l a c r k)
  note zl = zipper_left [OF 2(3)] and zr = zipper_right [OF 2(3)]
  show ?case
  proof (cases "precedes (key (mem T x)) (key (mem T a))")
    case True
    show ?thesis
    proof (cases l)
      case Tip
      with True zl show ?thesis by (subst insert_place.simps) (auto simp: Let_def zipper_def)
    next
      case (Bin l' b d r')
      then have "left_of T a = b" "b \<noteq> sentinel T" using zl by (auto simp: zipper_def)
      with 2(1) [OF True Bin] zl True Bin show ?thesis by (subst insert_place.simps) simp
    qed
  next
    case False
    show ?thesis
    proof (cases r)
      case Tip
      with False zr show ?thesis by (subst insert_place.simps) (auto simp: Let_def zipper_def)
    next
      case (Bin l' b d r')
      then have "right_of T a = b" "b \<noteq> sentinel T" using zr by (auto simp: zipper_def)
      with 2(2) [OF False Bin] zr False Bin show ?thesis by (subst insert_place.simps) simp
    qed
  qed
qed

text \<open>In a tree in order the place is between the nodes that do not come after and those that do.\<close>

lemma hole_in_order:
  assumes "sorted_wrt (\<lambda>a b. P a \<longrightarrow> P b) (addrs t)"
  shows "inorder_before (hole P t k) = inorder_before k @ takeWhile (\<lambda>a. \<not> P a) (addrs t)"
    and "inorder_after (hole P t k) = dropWhile (\<lambda>a. \<not> P a) (addrs t) @ inorder_after k"
  using assms
proof (induction P t k rule: hole.induct)
  case (2 P l a c r k)
  { case 1
    then show ?case using 2 by (cases "P a") (auto simp: sorted_wrt_append takeWhile_append takeWhile_eq_Nil_iff)
  next
    case 2
    then show ?case using "2.IH" by (cases "P a") (auto simp: sorted_wrt_append dropWhile_append)
  }
qed auto

lemma insert_leaf_fields [simp]:
  "sentinel (insert_leaf p b x T) = sentinel T" "root (insert_leaf p b x T) = root T"
  "key (mem (insert_leaf p b x T) z) = key (mem T z)"
  "color (mem (insert_leaf p b x T) z) = (if z = x then True else color (mem T z))"
  by (simp_all add: insert_leaf_def Let_def ngx_rbt_red_def)

lemma insert_leaf:
  assumes z: "zipper T (sentinel T) q Tip (f # k)" and x: "x \<notin> set (way_addrs (f # k))" "x \<noteq> sentinel T"
  shows "zipper (insert_leaf (frame_node f) (is_left f) x T) x (frame_node f) (Bin Tip x True Tip) (f # k)"
proof -
  let ?T = "insert_leaf (frame_node f) (is_left f) x T"
  have "frame_node f \<notin> set (way_addrs k)" using z by (cases f) (auto simp: zipper_def)
  then have "mem ?T a = mem T a" if "a \<in> set (way_addrs k)" for a
    using x that by (auto simp: insert_leaf_def Let_def set_defs)
  then have "way_at (mem ?T) (sentinel T) rt p q k = way_at (mem T) (sentinel T) rt p q k" for rt p q by (rule way_at_cong)
  moreover have "mem ?T a = mem T a" if "a \<in> set (addrs (sibling f))" for a
    using x that z by (cases f) (auto simp: insert_leaf_def Let_def set_defs zipper_def)
  then have "tree_at (mem ?T) (sentinel T) p q (sibling f) = tree_at (mem T) (sentinel T) p q (sibling f)" for p q
    by (rule tree_at_cong)
  ultimately show ?thesis using z x
    by (cases f) (auto simp: zipper_def, auto simp: insert_leaf_def Let_def set_defs)
qed

subsection \<open>Insertion\<close>

text \<open>
  What \<^verbatim>\<open>ngx_rbtree_insert\<close> relies on: the function of the tree links the node as a red leaf at the place that the
  comparison of the keys determines, and writes nothing else.
\<close>

locale insertion =
  fixes insert_op :: "rbtree \<Rightarrow> addr \<Rightarrow> addr \<Rightarrow> rbtree option"
    and precedes :: "uint64 \<Rightarrow> uint64 \<Rightarrow> bool"
  assumes links: "zipper T (root T) q t [] \<Longrightarrow> t \<noteq> Tip \<Longrightarrow> x \<notin> set (addrs t) \<Longrightarrow> x \<noteq> sentinel T \<Longrightarrow>
    \<exists>T' p. insert_op T (root T) x = Some T' \<and>
      zipper T' x p (Bin Tip x True Tip) (hole (\<lambda>a. precedes (key (mem T x)) (key (mem T a))) t []) \<and>
      sentinel T' = sentinel T \<and> (\<forall>z. key (mem T' z) = key (mem T z)) \<and>
      (\<forall>z. z \<noteq> x \<longrightarrow> color (mem T' z) = color (mem T z))"

lemma set_way_addrs: "set (way_addrs k) \<subseteq> set (addrs (plug t k))"
  unfolding addrs_plug
proof (induction k)
  case (Cons f k)
  then show ?case by (cases f) auto
qed simp

lemma place_links:
  assumes "zipper T (root T) q t []" "t \<noteq> Tip" "x \<notin> set (addrs t)" "x \<noteq> sentinel T"
  shows "\<exists>T' p. map_option (\<lambda>(temp, go_left). insert_leaf temp go_left x T) (insert_place precedes T (root T) x) = Some T' \<and>
      zipper T' x p (Bin Tip x True Tip) (hole (\<lambda>a. precedes (key (mem T x)) (key (mem T a))) t []) \<and>
      sentinel T' = sentinel T \<and> (\<forall>z. key (mem T' z) = key (mem T z)) \<and>
      (\<forall>z. z \<noteq> x \<longrightarrow> color (mem T' z) = color (mem T z))"
proof -
  let ?k = "hole (\<lambda>a. precedes (key (mem T x)) (key (mem T a))) t []"
  obtain l c r where t: "t = Bin l (root T) c r" using assms(1, 2) by (cases t) (auto simp: zipper_def)
  obtain f k where k: "?k = f # k" using hole_not_root [of t "[]"] assms(2) by (meson neq_Nil_conv)
  obtain q' where "zipper T (sentinel T) q' Tip (f # k)"
    and "insert_place precedes T (root T) x = Some (frame_node f, is_left f)"
    using insert_place_hole [of T "root T" q l c r "[]" precedes x] assms(1) k unfolding t by auto
  moreover have "x \<notin> set (way_addrs (f # k))"
    using assms(3) set_way_addrs [of ?k Tip, unfolded plug_hole plug.simps] k by auto
  ultimately show ?thesis using insert_leaf [of T q' f k x] assms(4) unfolding k by auto
qed

interpretation value_insertion: insertion ngx_rbtree_insert_value "\<lambda>a b. a < b"
  by (rule insertion.intro, unfold ngx_rbtree_insert_value_def, rule place_links)

interpretation timer_insertion: insertion ngx_rbtree_insert_timer_value timer_less
  by (rule insertion.intro, unfold ngx_rbtree_insert_timer_value_def, rule place_links)

text \<open>The way from a hole in a red-black tree.\<close>

lemma wf_unplug:
  "wf m (plug t k) \<Longrightarrow> black (plug t k) \<Longrightarrow>
   \<exists>n. wf n t \<and> wf_way n k \<and> (k \<noteq> [] \<longrightarrow> frame_red (hd k) \<longrightarrow> black t) \<and> (k = [] \<longrightarrow> black t)"
proof (induction t k rule: plug.induct)
  case (2 t a c r k)
  then obtain n where "wf n (Bin t a c r)" "wf_way n k" "k \<noteq> [] \<longrightarrow> frame_red (hd k) \<longrightarrow> \<not> c" "k = [] \<longrightarrow> \<not> c" by auto
  then show ?case by (cases c) (auto split: nat.splits)
next
  case (3 t l a c k)
  then obtain n where "wf n (Bin l a c t)" "wf_way n k" "k \<noteq> [] \<longrightarrow> frame_red (hd k) \<longrightarrow> \<not> c" "k = [] \<longrightarrow> \<not> c" by auto
  then show ?case by (cases c) (auto split: nat.splits)
qed auto

lemma blacken_root:
  assumes "zipper T (root T) q t []" "wf n t" "\<not> color (mem T (sentinel T))"
  shows "\<exists>t'. tree_of (ngx_rbt_black (root T) T) t' \<and> rb_tree t' \<and> addrs t' = addrs t"
proof -
  have z: "zipper (set_color (root T) False T) (root T) q (paint (root T) False t) []"
    using zipper_paint [OF assms(1), of "root T" False] by simp
  have "paint (root T) False t = blacken t"
    using assms(1) by (cases t) (auto simp: zipper_def)
  moreover have "black t \<Longrightarrow> blacken t = t" by (cases t) auto
  then have "rb_tree (blacken t)" using assms(2) wf_blacken [of n t] by (cases "black t") (auto simp: rb_tree_def)
  ultimately have "rb_tree (paint (root T) False t)" by simp
  with z assms(3) show ?thesis by (auto simp: tree_of_def ngx_rbt_black_def intro!: exI [of _ "paint (root T) False t"])
qed

context insertion
begin

lemma inserts:
  assumes T: "tree_of T t" "rb_tree t" and x: "x \<notin> set (addrs t)" "x \<noteq> sentinel T"
    and order: "sorted_wrt (\<lambda>a b. precedes (key (mem T x)) (key (mem T a)) \<longrightarrow> precedes (key (mem T x)) (key (mem T b))) (addrs t)"
  shows "\<exists>T' t'. ngx_rbtree_insert insert_op T x = Some T' \<and> tree_of T' t' \<and> rb_tree t' \<and> sentinel T' = sentinel T \<and>
    (\<forall>z. key (mem T' z) = key (mem T z)) \<and>
    addrs t' = takeWhile (\<lambda>a. \<not> precedes (key (mem T x)) (key (mem T a))) (addrs t) @ x #
               dropWhile (\<lambda>a. \<not> precedes (key (mem T x)) (key (mem T a))) (addrs t)"
proof (cases t)
  case Tip
  then have root: "root T = sentinel T" using T by (auto simp: tree_of_def zipper_def)
  define T' where "T' = (set_color x False (set_right x (sentinel T) (set_left x (sentinel T) (set_parent x NULL T))))\<lparr>root := x\<rparr>"
  have "ngx_rbtree_insert insert_op T x = Some T'" using root
    by (simp add: ngx_rbtree_insert_def Let_def ngx_rbt_black_def T'_def)
  moreover have "tree_of T' (Bin Tip x False Tip)" using T x by (auto simp: tree_of_def zipper_def T'_def)
  moreover have "rb_tree (Bin Tip x False Tip)" by (auto simp: rb_tree_def intro!: exI [of _ 1])
  ultimately show ?thesis using Tip by (auto simp: T'_def intro!: exI [of _ "Bin Tip x False Tip"])
next
  case (Bin l a c r)
  let ?k = "hole (\<lambda>a. precedes (key (mem T x)) (key (mem T a))) t []"
  from T obtain q where z: "zipper T (root T) q t []" and s: "\<not> color (mem T (sentinel T))" by (auto simp: tree_of_def)
  then have root: "root T \<noteq> sentinel T" using Bin by (auto simp: zipper_def)
  from links [OF z _ x] Bin obtain T1 p where T1: "insert_op T (root T) x = Some T1"
    "zipper T1 x p (Bin Tip x True Tip) ?k" "sentinel T1 = sentinel T" "\<forall>z. key (mem T1 z) = key (mem T z)"
    "\<forall>z. z \<noteq> x \<longrightarrow> color (mem T1 z) = color (mem T z)" by blast
  have "wf_way 0 ?k" using T(2) wf_unplug [of _ Tip ?k] by (auto simp: rb_tree_def plug_hole)
  moreover have "\<not> color (mem T1 (sentinel T1))" using T1 x s by auto
  ultimately obtain T2 where T2: "insert_balance T1 x = Some T2" "balanced T1 (addrs (plug (Bin Tip x True Tip) ?k)) T2"
    using insert_balance_returns [OF T1(2), of 0] by auto
  then obtain q' t2 n where t2: "zipper T2 (root T2) q' t2 []" "wf n t2" "addrs t2 = addrs (plug (Bin Tip x True Tip) ?k)"
    and same: "same_nodes T1 T2" by (auto simp: balanced_def)
  have s2: "\<not> color (mem T2 (sentinel T2))" using same by (simp add: same_nodes_def)
  have "ngx_rbtree_insert insert_op T x = Some (ngx_rbt_black (root T2) T2)"
    using root T1(1) T2(1) by (simp add: ngx_rbtree_insert_def)
  with blacken_root [OF t2(1, 2) s2] same T1(3, 4) t2(3) hole_in_order [OF order, of "[]"] show ?thesis
    by (auto simp: same_nodes_def addrs_plug ngx_rbt_black_def)
qed

end

lemma sorted_split:
  fixes f :: "'a \<Rightarrow> 'b :: linorder"
  assumes "sorted (map f as)"
  shows "sorted (map f (takeWhile (\<lambda>a. \<not> f x < f a) as @ x # dropWhile (\<lambda>a. \<not> f x < f a) as))"
proof -
  define A where "A = takeWhile (\<lambda>a. \<not> f x < f a) as"
  define B where "B = dropWhile (\<lambda>a. \<not> f x < f a) as"
  have as: "as = A @ B" by (simp add: A_def B_def)
  have "f a \<le> f x" if "a \<in> set A" for a using that by (auto simp: A_def dest!: set_takeWhileD)
  moreover have "f x \<le> f b" if "b \<in> set B" for b
    using that assms unfolding B_def by (induction as) (auto split: if_splits)
  moreover have "sorted (map f (A @ B))" using assms as by simp
  ultimately have "sorted (map f (A @ x # B))" by (auto simp: sorted_append intro: order_trans)
  then show ?thesis by (simp only: A_def B_def)
qed

text \<open>The tree after its initialisation.\<close>

lemma rbtree_init: "tree_of (ngx_rbtree_init s h) Tip" "rb_tree Tip"
  by (simp_all add: tree_of_def zipper_def ngx_rbtree_init_def ngx_rbt_black_def rb_tree_def)

text \<open>
  Property C16: \<^verbatim>\<open>ngx_rbtree_insert\<close> with \<^verbatim>\<open>ngx_rbtree_insert_value\<close>, applied to a red-black tree in memory that is
  sorted by its keys, and to a node that is not in it, returns; the memory then holds a red-black
  tree of the same nodes and the new one, sorted by the keys, with the new node after all nodes with
  keys up to its own; no key has changed.
\<close>

theorem rbtree_insert:
  assumes "tree_of T t" "rb_tree t" "sorted (map (\<lambda>a. key (mem T a)) (addrs t))" "x \<notin> set (addrs t)" "x \<noteq> sentinel T"
  shows "\<exists>T' t'. ngx_rbtree_insert ngx_rbtree_insert_value T x = Some T' \<and> tree_of T' t' \<and> rb_tree t' \<and>
    sentinel T' = sentinel T \<and> (\<forall>z. key (mem T' z) = key (mem T z)) \<and>
    sorted (map (\<lambda>a. key (mem T' a)) (addrs t')) \<and>
    addrs t' = takeWhile (\<lambda>a. key (mem T a) \<le> key (mem T x)) (addrs t) @ x #
               dropWhile (\<lambda>a. key (mem T a) \<le> key (mem T x)) (addrs t)"
proof -
  have "sorted_wrt (\<lambda>a b. key (mem T x) < key (mem T a) \<longrightarrow> key (mem T x) < key (mem T b)) (addrs t)"
    using assms(3) unfolding sorted_map by (rule sorted_wrt_mono_rel [rotated]) auto
  from value_insertion.inserts [OF assms(1, 2, 4, 5) this] obtain T' t' where T':
    "ngx_rbtree_insert ngx_rbtree_insert_value T x = Some T'" "tree_of T' t'" "rb_tree t'" "sentinel T' = sentinel T"
    "\<forall>z. key (mem T' z) = key (mem T z)" and
    t': "addrs t' = takeWhile (\<lambda>a. \<not> key (mem T x) < key (mem T a)) (addrs t) @ x #
       dropWhile (\<lambda>a. \<not> key (mem T x) < key (mem T a)) (addrs t)" by blast
  have "sorted (map (\<lambda>a. key (mem T' a)) (addrs t'))"
    using sorted_split [OF assms(3), of x] by (simp only: t' T'(5))
  with T' t' show ?thesis by (intro exI [of _ T'] exI [of _ t']) (simp add: not_less)
qed

theorem rbtree_insert_witness:
  "\<exists>T t. tree_of T t \<and> addrs t = [2] \<and>
     (\<exists>T' t'. ngx_rbtree_insert ngx_rbtree_insert_value T 3 = Some T' \<and> tree_of T' t' \<and> rb_tree t' \<and> addrs t' = [3, 2])"
proof -
  let ?n = "\<lparr>key = 0, left = 1, right = 1, parent = 0, color = False\<rparr>"
  let ?T = "\<lparr>root = 2, sentinel = 1, mem = (\<lambda>_. ?n)(2 := ?n\<lparr>key := 7\<rparr>, 3 := ?n\<lparr>key := 5\<rparr>)\<rparr>"
  have "tree_of ?T (Bin Tip 2 False Tip)" by (simp add: tree_of_def zipper_def)
  moreover have "rb_tree (Bin Tip 2 False Tip)" by (auto simp: rb_tree_def intro!: exI [of _ 1])
  ultimately show ?thesis using rbtree_insert [of ?T "Bin Tip 2 False Tip" 3]
    by (intro exI [of _ ?T] exI [of _ "Bin Tip 2 False Tip"]) auto
qed

text \<open>Timers are compared by a signed difference: the order of their distances from a base in the past.\<close>

lemma timer_less_window:
  assumes "a - base < (2 ^ 63 :: uint64)" "b - base < (2 ^ 63 :: uint64)"
  shows "timer_less a b \<longleftrightarrow> a - base < b - base"
proof -
  let ?u = "uint (a - base)" and ?v = "uint (b - base)"
  have uv: "0 \<le> ?u" "0 \<le> ?v" "?u < 2 ^ 63" "?v < 2 ^ 63" using assms by (simp_all add: word_less_def)
  have fits: "signed_take_bit (LENGTH(64) - 1) (u - v) = u - v"
    if "0 \<le> u" "0 \<le> v" "u < 2 ^ 63" "v < 2 ^ 63" for u v :: int
    using that by (intro signed_take_bit_int_eq_self) auto
  have "a - b = word_of_int (?u - ?v)" by simp
  then have "sint (a - b) = signed_take_bit (LENGTH(64) - 1) (?u - ?v)" by (simp only: sint_sbintrunc')
  also have "\<dots> = ?u - ?v" by (rule fits [OF uv])
  finally show ?thesis by (simp add: timer_less_def word_less_def)
qed

lemma insert_timer_returns:
  assumes "tree_of T t" "rb_tree t" "sorted (map (\<lambda>a. key (mem T a) - base) (addrs t))" "x \<notin> set (addrs t)" "x \<noteq> sentinel T"
    and "\<forall>a \<in> insert x (set (addrs t)). key (mem T a) - base < 2 ^ 63"
  shows "\<exists>T' t'. ngx_rbtree_insert ngx_rbtree_insert_timer_value T x = Some T' \<and> tree_of T' t' \<and> rb_tree t' \<and>
    sentinel T' = sentinel T \<and> (\<forall>z. key (mem T' z) = key (mem T z)) \<and>
    set (addrs t') = insert x (set (addrs t)) \<and> sorted (map (\<lambda>a. key (mem T' a) - base) (addrs t'))"
proof -
  have less: "timer_less (key (mem T x)) (key (mem T a)) \<longleftrightarrow> key (mem T x) - base < key (mem T a) - base" if "a \<in> set (addrs t)" for a
    using assms(6) that by (intro timer_less_window) auto
  have "sorted_wrt (\<lambda>a b. timer_less (key (mem T x)) (key (mem T a)) \<longrightarrow> timer_less (key (mem T x)) (key (mem T b))) (addrs t)"
    using assms(3) unfolding sorted_map by (rule sorted_wrt_mono_rel [rotated]) (auto simp: less)
  from timer_insertion.inserts [OF assms(1, 2, 4, 5) this] obtain T' t' where
    "ngx_rbtree_insert ngx_rbtree_insert_timer_value T x = Some T'" "tree_of T' t'" "rb_tree t'" "sentinel T' = sentinel T"
    and keys: "\<forall>z. key (mem T' z) = key (mem T z)" and
    t': "addrs t' = takeWhile (\<lambda>a. \<not> timer_less (key (mem T x)) (key (mem T a))) (addrs t) @ x #
       dropWhile (\<lambda>a. \<not> timer_less (key (mem T x)) (key (mem T a))) (addrs t)" by blast
  moreover from t' have "addrs t' = takeWhile (\<lambda>a. \<not> key (mem T x) - base < key (mem T a) - base) (addrs t) @ x #
       dropWhile (\<lambda>a. \<not> key (mem T x) - base < key (mem T a) - base) (addrs t)"
    by (simp add: less cong: takeWhile_cong dropWhile_cong)
  with sorted_split [OF assms(3), of x] have "sorted (map (\<lambda>a. key (mem T' a) - base) (addrs t'))" by (simp only: keys)
  moreover have "set (addrs t') = insert x (set (addrs t))"
    by (simp add: t') (metis set_append takeWhile_dropWhile_id)
  ultimately show ?thesis by blast
qed

text \<open>
  Property C18: the same for the tree of timers and \<^verbatim>\<open>ngx_rbtree_insert_timer_value\<close>: as long as all times lie within
  2^63 units after some base, the tree stays sorted by the distance from the base, even if the clock
  wraps around between them.
\<close>

theorem rbtree_insert_timer:
  assumes "tree_of T t" "rb_tree t" "sorted (map (\<lambda>a. key (mem T a) - base) (addrs t))" "x \<notin> set (addrs t)" "x \<noteq> sentinel T"
    and "\<forall>a \<in> insert x (set (addrs t)). key (mem T a) - base < 2 ^ 63"
  shows "\<exists>T' t'. ngx_rbtree_insert ngx_rbtree_insert_timer_value T x = Some T' \<and> tree_of T' t' \<and> rb_tree t' \<and>
    sentinel T' = sentinel T \<and> (\<forall>z. key (mem T' z) = key (mem T z)) \<and>
    set (addrs t') = insert x (set (addrs t)) \<and> sorted (map (\<lambda>a. key (mem T' a) - base) (addrs t'))"
  by (rule insert_timer_returns [OF assms])

theorem rbtree_insert_timer_witness:
  "\<exists>T t. tree_of T t \<and> addrs t = [2] \<and> key (mem T 2) = 18446744073709551606 \<and> key (mem T 3) = 5 \<and>
     (\<exists>T' t'. ngx_rbtree_insert ngx_rbtree_insert_timer_value T 3 = Some T' \<and> tree_of T' t' \<and> rb_tree t' \<and>
       sorted (map (\<lambda>a. key (mem T' a) + 10) (addrs t')))"
proof -
  let ?n = "\<lparr>key = 0, left = 1, right = 1, parent = 0, color = False\<rparr>"
  let ?T = "\<lparr>root = 2, sentinel = 1, mem = (\<lambda>_. ?n)(2 := ?n\<lparr>key := 18446744073709551606\<rparr>, 3 := ?n\<lparr>key := 5\<rparr>)\<rparr>"
  have "tree_of ?T (Bin Tip 2 False Tip)" by (simp add: tree_of_def zipper_def)
  moreover have "rb_tree (Bin Tip 2 False Tip)" by (auto simp: rb_tree_def intro!: exI [of _ 1])
  ultimately show ?thesis using rbtree_insert_timer [of ?T "Bin Tip 2 False Tip" "- 10" 3]
    by (intro exI [of _ ?T] exI [of _ "Bin Tip 2 False Tip"]) auto
qed

end
