(* ===== verification/Ngx_Rbtree_Delete.thy ===== *)
theory Ngx_Rbtree_Delete
  imports Ngx_Rbtree_Insert
begin

text \<open>
  Deletion from a red-black tree in memory: the rounds of the fix-up loop, that it ends, how the node is unlinked or
  replaced by its successor, and that the result is a red-black tree of the other nodes.  The code keeps its
  place in the tree by the parent pointer of the node it fixes, which may be the sentinel.
\<close>

subsection \<open>One round of the fix-up\<close>

text \<open>A tree in a hole whose pointer has the parent of the hole as its parent, the sentinel included.\<close>

definition located :: "rbtree \<Rightarrow> addr \<Rightarrow> addr \<Rightarrow> tree \<Rightarrow> frame list \<Rightarrow> bool" where
  "located T p q t k \<longleftrightarrow> zipper T p q t k \<and> parent_of T p = q"

lemma located_mirror: "located (mirror T) p q (mirror_tree t) (map mirror_frame k) = located T p q t k"
  by (simp add: located_def zipper_mirror)

lemma zipper_top: "zipper T p q t k \<Longrightarrow> p = top (sentinel T) t"
  by (auto simp: zipper_def dest: tree_at_top)

lemma located_top: "located T p q t k \<Longrightarrow> p = top (sentinel T) t"
  by (auto simp: located_def dest: zipper_top)

lemma located_up:
  "located T p q t (f # k) \<Longrightarrow> located T (frame_node f) (parent_of T (frame_node f)) (plug t [f]) k"
  using zipper_frame [of T p q t f k] by (auto simp: located_def)

lemma located_inner: "zipper T p q (Bin l a c r) k \<Longrightarrow> located T p q (Bin l a c r) k"
  by (auto simp: located_def zipper_def)

lemma located_paint:
  "located T p q t k \<Longrightarrow> located (set_color x c T) p q (paint x c t) (paint_way x c k)"
  by (simp add: located_def zipper_paint)

text \<open>Rotations leave the parent of the sentinel alone.\<close>

lemma rotate_sentinel:
  assumes "x \<noteq> sentinel T" "right_of T x \<noteq> sentinel T"
  shows "parent_of (ngx_rbtree_left_rotate x T) (sentinel T) = parent_of T (sentinel T)"
  using assms by (auto simp: ngx_rbtree_left_rotate_def Let_def)

lemma located_left_rotate:
  assumes "located T p q t (LeftOf a c (Bin B w d C) # k)"
  shows "located (ngx_rbtree_left_rotate a T) p q t (LeftOf a c B # LeftOf w d C # k)"
proof -
  let ?T = "ngx_rbtree_left_rotate a T"
  have z: "zipper T a (parent_of T a) (Bin t a c (Bin B w d C)) k" and q: "q = a" "parent_of T p = a"
    using assms zipper_up(1) by (auto simp: located_def zipper_def)
  have zl: "zipper ?T (left_of ?T a) a t (LeftOf a c B # LeftOf w d C # k)"
    using zipper_left [OF zipper_left [OF left_rotate [OF z]]] by (auto simp: zipper_def dest: tree_at_top)
  have p: "p = left_of ?T a" using zipper_top [OF zl] located_top [OF assms] by simp
  have "a \<noteq> sentinel T" "right_of T a \<noteq> sentinel T" using z by (auto simp: zipper_def)
  from rotate_sentinel [OF this] have "parent_of ?T p = a"
    using zl q zipper_top [OF zl] p by (cases t) (auto simp: zipper_def)
  with zl p q show ?thesis by (simp add: located_def)
qed

text \<open>The sibling of a tree that lacks a black node is there.\<close>

lemma wf_Suc: "wf (Suc n) r \<Longrightarrow> \<exists>A w d B. r = Bin A w d B"
  by (cases r) auto

text \<open>The node is a left child.  A red sibling: one rotation, and the round goes on.\<close>

lemma fix_red_sibling:
  assumes z: "located T p q t (LeftOf a c (Bin A w True B) # k)" and s: "\<not> color (mem T (sentinel T))"
    and A: "A \<noteq> Tip" "black A"
  shows "\<exists>T'. delete_round T p = delete_round T' p \<and> same_nodes T T' \<and>
    located T' p q t (LeftOf a True A # LeftOf w False B # k)"
proof -
  have a: "parent_of T p = a" "left_of T a = p" "right_of T a = w" "color (mem T w)" "a \<noteq> w" "a \<noteq> sentinel T" "w \<noteq> sentinel T"
    and d: "distinct (addrs t @ a # addrs A @ w # addrs B @ way_addrs k)"
    using z by (auto simp: located_def zipper_def)
  define T1 where "T1 = set_color a True (set_color w False T)"
  let ?T = "ngx_rbtree_left_rotate a T1"
  have "located T1 p q t (LeftOf a True (Bin A w False B) # k)"
    using located_paint [OF located_paint [OF z, of w False], of a True] d by (auto simp: T1_def)
  then have z': "located ?T p q t (LeftOf a True A # LeftOf w False B # k)" by (rule located_left_rotate)
  have same: "same_nodes T ?T" using s a by (simp add: same_nodes_def T1_def)
  have a': "parent_of ?T p = a" "left_of ?T a = p" using z' by (auto simp: located_def zipper_def)
  have "\<not> ngx_rbt_is_red ?T (right_of ?T a)"
    using z' tree_at_black [of ?T "right_of ?T a" a A] same A by (auto simp: located_def zipper_def same_nodes_def)
  then have "delete_round T p = delete_round ?T p"
    using a a' by (simp add: delete_round_def ngx_rbt_is_red_def ngx_rbt_red_def ngx_rbt_black_def T1_def Let_def)
  with z' same show ?thesis by blast
qed

text \<open>A black sibling without red children becomes red; the tree above lacks a black node now.\<close>

lemma fix_black_children:
  assumes z: "located T p q t (LeftOf a c (Bin A w False B) # k)" and s: "\<not> color (mem T (sentinel T))"
    and AB: "black A" "black B"
  shows "\<exists>T' q'. delete_round T p = (T', a) \<and> same_nodes T T' \<and> located T' a q' (Bin t a c (Bin A w True B)) k"
proof -
  have a: "parent_of T p = a" "left_of T a = p" "right_of T a = w" "\<not> color (mem T w)" "a \<noteq> w" "w \<noteq> sentinel T"
    and d: "distinct (addrs t @ a # addrs A @ w # addrs B @ way_addrs k)"
    using z by (auto simp: located_def zipper_def)
  have "\<not> ngx_rbt_is_red T (left_of T w)" "\<not> ngx_rbt_is_red T (right_of T w)"
    using z s AB tree_at_black [of T "left_of T w" w A] tree_at_black [of T "right_of T w" w B]
    by (auto simp: located_def zipper_def)
  then have "delete_round T p = (set_color w True T, a)"
    using a by (simp add: delete_round_def ngx_rbt_is_red_def ngx_rbt_red_def Let_def)
  moreover have "located (set_color w True T) p q t (LeftOf a c (Bin A w True B) # k)"
    using located_paint [OF z, of w True] d by auto
  moreover have "same_nodes T (set_color w True T)" using s a by (simp add: same_nodes_def)
  ultimately show ?thesis using located_up by fastforce
qed

text \<open>A black sibling with a red right child: one rotation, and the loop ends.\<close>

lemma fix_outer:
  assumes z: "located T p q t (LeftOf a c (Bin A w False B) # k)" and s: "\<not> color (mem T (sentinel T))"
    and B: "\<not> black B"
  shows "\<exists>T' q'. delete_round T p = (T', root T') \<and> same_nodes T T' \<and>
    zipper T' w q' (Bin (Bin t a False A) w c (blacken B)) k"
proof -
  obtain C b D where b: "B = Bin C b True D" using B by (cases B) auto
  have a: "parent_of T p = a" "left_of T a = p" "right_of T a = w" "\<not> color (mem T w)" "a \<noteq> w" "color (mem T a) = c"
    "right_of T w = b" "color (mem T b)" "b \<noteq> a" "b \<noteq> w" "sentinel T \<notin> {a, b, w}"
    and d: "distinct (addrs t @ a # addrs A @ w # addrs C @ b # addrs D @ way_addrs k)"
    using z by (auto simp: located_def zipper_def b)
  let ?T = "set_color b False (set_color a False (set_color w c T))"
  have "delete_round T p = (ngx_rbtree_left_rotate a ?T, root (ngx_rbtree_left_rotate a ?T))"
    using a by (simp add: delete_round_def ngx_rbt_is_red_def ngx_rbt_black_def ngx_rbt_copy_color_def Let_def)
  moreover have "located ?T p q t (LeftOf a False (Bin A w c (Bin C b False D)) # k)"
    using located_paint [OF located_paint [OF located_paint [OF z, of w c], of a False], of b False] d by (auto simp: b)
  from located_up [OF located_up [OF located_left_rotate [OF this]]]
  have "\<exists>q'. zipper (ngx_rbtree_left_rotate a ?T) w q' (Bin (Bin t a False A) w c (blacken B)) k"
    by (auto simp: located_def b)
  moreover have "same_nodes T (ngx_rbtree_left_rotate a ?T)" using s a by (simp add: same_nodes_def)
  ultimately show ?thesis by blast
qed

text \<open>A black sibling with a red left child only: a rotation of the sibling first.\<close>

lemma located_sibling_rotate:
  assumes "located T p q t (LeftOf a c (Bin (Bin C b e D) w d B) # k)"
  shows "located (ngx_rbtree_right_rotate w T) p q t (LeftOf a c (Bin C b e (Bin D w d B)) # k)"
proof -
  let ?T = "ngx_rbtree_right_rotate w T"
  have z: "zipper T a (parent_of T a) (Bin t a c (Bin (Bin C b e D) w d B)) k" and q: "q = a" "parent_of T p = a"
    using assms zipper_up(1) by (auto simp: located_def zipper_def)
  have "zipper T w a (Bin (Bin C b e D) w d B) (RightOf t a c # k)" using zipper_right [OF z] by (auto simp: zipper_def)
  from right_rotate [OF this] have z': "zipper ?T b a (Bin C b e (Bin D w d B)) (RightOf t a c # k)" .
  note zl = zipper_left [OF zipper_up(2) [OF z']]
  have "p = left_of ?T a" using zipper_top [OF zl] located_top [OF assms] by simp
  with zl have "zipper ?T p a t (LeftOf a c (Bin C b e (Bin D w d B)) # k)" by simp
  moreover have "parent_of ?T (sentinel T) = parent_of T (sentinel T)"
    using rotate_sentinel [of w "mirror T"] z by (simp add: zipper_def)
  with calculation q have "parent_of ?T p = a" by (cases t) (auto simp: zipper_def)
  ultimately show ?thesis using q by (simp add: located_def)
qed

lemma fix_inner:
  assumes z: "located T p q t (LeftOf a c (Bin (Bin C b True D) w False B) # k)" and s: "\<not> color (mem T (sentinel T))"
    and B: "black B"
  shows "\<exists>T' q'. delete_round T p = (T', root T') \<and> same_nodes T T' \<and>
    zipper T' b q' (Bin (Bin t a False C) b c (Bin D w False B)) k"
proof -
  have a: "parent_of T p = a" "left_of T a = p" "right_of T a = w" "\<not> color (mem T w)" "a \<noteq> w"
    "left_of T w = b" "color (mem T b)" "b \<noteq> a" "b \<noteq> w" "sentinel T \<notin> {a, b, w}"
    and d: "distinct (addrs t @ a # addrs C @ b # addrs D @ w # addrs B @ way_addrs k)"
    using z by (auto simp: located_def zipper_def)
  have B': "\<not> ngx_rbt_is_red T (right_of T w)"
    using z s B tree_at_black [of T "right_of T w" w B] by (auto simp: located_def zipper_def)
  define T1 where "T1 = ngx_rbtree_right_rotate w (set_color w True (set_color b False T))"
  have "located (set_color w True (set_color b False T)) p q t (LeftOf a c (Bin (Bin C b False D) w True B) # k)"
    using located_paint [OF located_paint [OF z, of b False], of w True] d by auto
  then have z1: "located T1 p q t (LeftOf a c (Bin C b False (Bin D w True B)) # k)"
    unfolding T1_def by (rule located_sibling_rotate)
  have same: "same_nodes T T1" using s a by (simp add: same_nodes_def T1_def)
  have a1: "parent_of T1 p = a" "left_of T1 a = p" "right_of T1 a = b" "right_of T1 b = w" "color (mem T1 w)"
    "\<not> color (mem T1 b)" using z1 by (auto simp: located_def zipper_def)
  have "delete_round T p = delete_round T1 p"
    using a B' a1 by (simp add: delete_round_def ngx_rbt_is_red_def ngx_rbt_red_def ngx_rbt_black_def T1_def Let_def)
  moreover have "\<not> color (mem T1 (sentinel T1))" using same by (simp add: same_nodes_def)
  ultimately show ?thesis using fix_outer [OF z1] same_nodes_trans [OF same] by fastforce
qed

text \<open>
  The tree in the hole lacks a black node, and a red node on top of it is about to become black.
\<close>

definition lacking :: "tree \<Rightarrow> frame list \<Rightarrow> bool" where
  "lacking t k \<longleftrightarrow> (\<exists>n. wf_way (Suc n) k \<and> (if black t then wf n t else wf (Suc n) (blacken t)))"

text \<open>The result of a round: a tree that lacks a black node further up, or a red-black tree up to the root's colour.\<close>

definition fix_done :: "nat \<Rightarrow> rbtree \<Rightarrow> addr list \<Rightarrow> rbtree \<times> addr \<Rightarrow> bool" where
  "fix_done m T as res \<longleftrightarrow>
     (case res of (T', y) \<Rightarrow>
        same_nodes T T' \<and>
        ((\<exists>q t k. located T' y q t k \<and> addrs (plug t k) = as \<and> lacking t k \<and> (black t \<longrightarrow> length k < m)) \<or>
         (y = root T' \<and> balanced T as T')))"

lemma balanced_trans: "same_nodes T T' \<Longrightarrow> balanced T' as T'' \<Longrightarrow> balanced T as T''"
  by (auto simp: balanced_def same_nodes_def)

lemma fix_done_trans: "same_nodes T T' \<Longrightarrow> fix_done m T' as res \<Longrightarrow> fix_done m T as res"
  by (auto simp: fix_done_def dest: same_nodes_trans balanced_trans)

lemma fix_black_sibling:
  assumes z: "located T p q t (LeftOf a c r # k)" and s: "\<not> color (mem T (sentinel T))"
    and wf: "wf n t" "wf_way (Suc n) (LeftOf a c r # k)" and r: "black r" and m: "\<not> c \<Longrightarrow> length k < m"
  shows "fix_done m T (addrs (plug t (LeftOf a c r # k))) (delete_round T p)"
proof -
  obtain A w B where rr: "r = Bin A w False B" using wf_Suc [of n r] wf r by auto
  have AB: "wf n A" "wf n B" using wf by (auto simp: rr)
  have way: "wf_way (if c then Suc n else Suc (Suc n)) k" "k \<noteq> [] \<Longrightarrow> frame_red (hd k) \<Longrightarrow> \<not> c"
    using wf by (auto split: if_splits)
  consider "black A" "black B" | "\<not> black B" | C b D where "A = Bin C b True D" "black B" by (cases A) auto
  then show ?thesis
  proof cases
    case 1
    from fix_black_children [OF z [unfolded rr] s 1] obtain T' q' where
      res: "delete_round T p = (T', a)" "same_nodes T T'" "located T' a q' (Bin t a c (Bin A w True B)) k" by blast
    have "lacking (Bin t a c (Bin A w True B)) k"
      unfolding lacking_def using way wf 1 AB by (intro exI [of _ "if c then n else Suc n"]) (auto split: if_splits)
    with res m show ?thesis unfolding fix_done_def
      by (auto simp: addrs_plug rr intro!: exI [of _ q'] exI [of _ "Bin t a c (Bin A w True B)"] exI [of _ k])
  next
    case 2
    from fix_outer [OF z [unfolded rr] s 2] obtain T' q' where res: "delete_round T p = (T', root T')" "same_nodes T T'"
      and z': "zipper T' w q' (Bin (Bin t a False A) w c (blacken B)) k" by blast
    have "balanced T (addrs (plug (Bin (Bin t a False A) w c (blacken B)) k)) T'"
      by (rule balancedI [OF z' res(2) _ way(1)]) (use wf AB 2 way wf_blacken [of n B] in auto)
    with res show ?thesis by (simp add: fix_done_def addrs_plug rr)
  next
    case (3 C b D)
    from fix_inner [OF z [unfolded rr 3(1)] s 3(2)] obtain T' q' where res: "delete_round T p = (T', root T')" "same_nodes T T'"
      and z': "zipper T' b q' (Bin (Bin t a False C) b c (Bin D w False B)) k" by blast
    have "balanced T (addrs (plug (Bin (Bin t a False C) b c (Bin D w False B)) k)) T'"
      by (rule balancedI [OF z' res(2) _ way(1)]) (use wf AB 3 way in auto)
    with res show ?thesis by (simp add: fix_done_def addrs_plug rr 3)
  qed
qed

lemma fix_left:
  assumes z: "located T p q t (LeftOf a c r # k)" and s: "\<not> color (mem T (sentinel T))"
    and wf: "wf n t" "wf_way (Suc n) (LeftOf a c r # k)"
  shows "fix_done (Suc (length k)) T (addrs (plug t (LeftOf a c r # k))) (delete_round T p)"
proof (cases "black r")
  case True
  then show ?thesis by (intro fix_black_sibling [OF z s wf]) auto
next
  case False
  then obtain A w B where r: "r = Bin A w True B" by (cases r) auto
  have AB: "wf (Suc n) A" "black A" "wf (Suc n) B" "\<not> c" "wf_way (Suc (Suc n)) k" using wf by (auto simp: r split: if_splits)
  then have "A \<noteq> Tip" by auto
  from fix_red_sibling [OF z [unfolded r] s this AB(2)] obtain T' where
    res: "delete_round T p = delete_round T' p" "same_nodes T T'" and
    z': "located T' p q t (LeftOf a True A # LeftOf w False B # k)" by blast
  have "fix_done (Suc (length k)) T' (addrs (plug t (LeftOf a True A # LeftOf w False B # k))) (delete_round T' p)"
    by (rule fix_black_sibling [OF z']) (use wf AB res in \<open>auto simp: same_nodes_def\<close>)
  with fix_done_trans [OF res(2)] res(1) show ?thesis by (simp add: addrs_plug r)
qed

text \<open>The node is a right child: the mirror image.\<close>

lemma delete_round_mirror:
  assumes "p = right_of T (parent_of T p)" "p \<noteq> left_of T (parent_of T p)"
  shows "delete_round (mirror T) p = apfst mirror (delete_round T p)"
  using assms by (simp add: delete_round_def Let_def conj_commute split: prod.split)

lemma blacken_mirror [simp]: "blacken (mirror_tree t) = mirror_tree (blacken t)"
  by (cases t) auto

lemma lacking_mirror [simp]: "lacking (mirror_tree t) (map mirror_frame k) = lacking t k"
  by (simp add: lacking_def)

lemma balanced_mirror:
  assumes "balanced (mirror T) as (mirror T')"
  shows "balanced T (rev as) T'"
proof -
  obtain q t n where "zipper (mirror T') (root T') q t []" "addrs t = as" "wf n t" "same_nodes T T'"
    using assms by (auto simp: balanced_def)
  then show ?thesis unfolding balanced_def using zipper_mirror [of T' "root T'" q "mirror_tree t" "[]"]
    by (intro conjI exI [of _ q] exI [of _ "mirror_tree t"] exI [of _ n]) (auto simp: addrs_mirror)
qed

lemma fix_done_mirror:
  assumes "fix_done m (mirror T) as (apfst mirror res)"
  shows "fix_done m T (rev as) res"
proof -
  obtain T' y where r: "res = (T', y)" by force
  have same: "same_nodes T T'" using assms by (simp add: fix_done_def r)
  from assms consider q t k where "located (mirror T') y q t k" "addrs (plug t k) = as" "lacking t k" "black t \<longrightarrow> length k < m"
    | "y = root T'" "balanced (mirror T) as (mirror T')" by (auto simp: fix_done_def r)
  then show ?thesis
  proof cases
    case (1 q t k)
    let ?t = "mirror_tree t" and ?k = "map mirror_frame k"
    have k: "map mirror_frame ?k = k" by (simp add: comp_def)
    have "located T' y q ?t ?k" using 1(1) located_mirror [of T' y q ?t ?k] k by simp
    moreover have "addrs (plug ?t ?k) = rev as" using 1(2) by (simp add: mirror_plug [symmetric] addrs_mirror)
    ultimately show ?thesis using same 1 unfolding fix_done_def r
      by (auto intro!: exI [of _ q] exI [of _ ?t] exI [of _ ?k])
  next
    case 2
    with balanced_mirror same show ?thesis by (auto simp: fix_done_def r)
  qed
qed

lemma delete_round:
  assumes z: "located T p q t (f # k)" and s: "\<not> color (mem T (sentinel T))" and wf: "wf n t" "wf_way (Suc n) (f # k)"
  shows "fix_done (Suc (length k)) T (addrs (plug t (f # k))) (delete_round T p)"
proof (cases f)
  case (LeftOf a c r)
  then show ?thesis using fix_left assms by blast
next
  case (RightOf l a c)
  obtain A w d B where l: "l = Bin A w d B" using wf_Suc [of n l] wf RightOf by auto
  have "parent_of T p = a" "right_of T a = p" "left_of T a \<noteq> p"
    using z located_top [OF z] RightOf l by (cases t; auto simp: located_def zipper_def)+
  then have m: "delete_round (mirror T) p = apfst mirror (delete_round T p)" by (intro delete_round_mirror) auto
  have z': "located (mirror T) p q (mirror_tree t) (LeftOf a c (mirror_tree l) # map mirror_frame k)"
    using z located_mirror [of T p q t "f # k"] by (simp add: RightOf)
  have wf': "wf_way (Suc n) (LeftOf a c (mirror_tree l) # map mirror_frame k)"
    using wf(2) wf_way_mirror [of "Suc n" "f # k"] by (simp only: RightOf list.map mirror_frame.simps)
  have "fix_done (Suc (length k)) (mirror T) (addrs (plug (mirror_tree t) (map mirror_frame (f # k)))) (delete_round (mirror T) p)"
    using fix_left [OF z' _ _ wf'] s wf(1) by (simp add: RightOf)
  from fix_done_mirror [OF this [unfolded m]] show ?thesis
    unfolding mirror_plug [symmetric] addrs_mirror by simp
qed

subsection \<open>The loop\<close>

text \<open>The memory holds a red-black tree of the nodes \<open>as\<close> again; the keys are as they were.\<close>

definition restored :: "rbtree \<Rightarrow> addr list \<Rightarrow> rbtree \<Rightarrow> bool" where
  "restored T as T' \<longleftrightarrow>
     sentinel T' = sentinel T \<and> (\<forall>z. key (mem T' z) = key (mem T z)) \<and> (\<exists>t. tree_of T' t \<and> rb_tree t \<and> addrs t = as)"

lemma restored_trans: "same_nodes T T' \<Longrightarrow> restored T' as T'' \<Longrightarrow> restored T as T''"
  by (simp add: restored_def same_nodes_def)

lemma restored_root:
  assumes "zipper T (root T) q t []" "wf n t" "\<not> color (mem T (sentinel T))"
  shows "restored T (addrs t) (ngx_rbt_black (root T) T)"
  using blacken_root [OF assms] by (auto simp: restored_def ngx_rbt_black_def)

lemma restored_balanced:
  assumes "balanced T as T'"
  shows "restored T as (ngx_rbt_black (root T') T')"
proof -
  from assms obtain q t n where t: "zipper T' (root T') q t []" "wf n t" "addrs t = as" and same: "same_nodes T T'"
    by (auto simp: balanced_def)
  have "\<not> color (mem T' (sentinel T'))" using same by (simp add: same_nodes_def)
  from restored_trans [OF same restored_root [OF t(1, 2) this]] t(3) show ?thesis by simp
qed

lemma fixup_ends: "p = root T \<or> ngx_rbt_is_red T p \<Longrightarrow> delete_fixup T p = Some (ngx_rbt_black p T)"
  by (subst delete_fixup.simps) auto

lemma fixup_red:
  assumes z: "located T p q t k" and s: "\<not> color (mem T (sentinel T))" and t: "\<not> black t" "lacking t k"
  shows "restored T (addrs (plug t k)) (ngx_rbt_black p T)"
proof -
  obtain l r where tt: "t = Bin l p True r" using z t(1) by (cases t) (auto simp: located_def zipper_def)
  from t obtain n where n: "wf (Suc n) (blacken t)" "wf_way (Suc n) k" by (auto simp: lacking_def)
  have "zipper (set_color p False T) p q (blacken t) k"
    using z zipper_paint [of T p q t k p False] unfolding tt by (auto simp: located_def zipper_def)
  from zipper_plug [OF this] wf_plug [OF n] have
    "\<exists>m q'. wf m (plug (blacken t) k) \<and> (k \<noteq> [] \<longrightarrow> black (plug (blacken t) k)) \<and>
      zipper (set_color p False T) (root T) q' (plug (blacken t) k) []" by auto
  moreover have "k = [] \<Longrightarrow> black (plug (blacken t) k)" by simp
  moreover have "p \<noteq> sentinel T" using z by (auto simp: located_def zipper_def tt)
  ultimately have "tree_of (set_color p False T) (plug (blacken t) k)" "rb_tree (plug (blacken t) k)"
    using s by (auto simp: tree_of_def rb_tree_def)
  then show ?thesis by (auto simp: restored_def ngx_rbt_black_def addrs_plug intro!: exI [of _ "plug (blacken t) k"])
qed

lemma delete_fixup_returns:
  assumes "located T p q t k" "\<not> color (mem T (sentinel T))" "lacking t k"
  shows "\<exists>T'. delete_fixup T p = Some T' \<and> restored T (addrs (plug t k)) T'"
  using assms
proof (induction "length k" arbitrary: T p q t k rule: less_induct)
  case less
  note z = less.prems(1) and s = less.prems(2)
  have red: "ngx_rbt_is_red T p \<longleftrightarrow> \<not> black t" using z s tree_at_black by (auto simp: located_def zipper_def)
  show ?case
  proof (cases "black t")
    case False
    then show ?thesis using fixup_red [OF z s False less.prems(3)] fixup_ends red by auto
  next
    case True
    with less.prems(3) obtain n where wf: "wf n t" "wf_way (Suc n) k" by (auto simp: lacking_def)
    show ?thesis
    proof (cases k)
      case Nil
      then have "p = root T" using z by (auto simp: located_def zipper_def)
      with Nil z wf s restored_root [of T q t n] fixup_ends show ?thesis by (auto simp: located_def)
    next
      case (Cons f k')
      have p: "p \<noteq> root T"
        using z way_at_root [of "mem T" "sentinel T" "root T" p q k] tree_at_pointer way_at_sentinel Cons
        by (fastforce simp: located_def zipper_def)
      obtain T' y where res: "delete_round T p = (T', y)" by force
      have step: "delete_fixup T p = delete_fixup T' y" using p red True res by (subst delete_fixup.simps) simp
      have "fix_done (length k) T (addrs (plug t k)) (T', y)"
        using delete_round [of T p q t f k' n] z s wf res Cons by simp
      then consider q' t' k'' where "located T' y q' t' k''" "addrs (plug t' k'') = addrs (plug t k)" "lacking t' k''"
          "black t' \<longrightarrow> length k'' < length k" "same_nodes T T'"
        | "y = root T'" "balanced T (addrs (plug t k)) T'" by (auto simp: fix_done_def)
      then show ?thesis
      proof cases
        case (1 q' t' k'')
        have s': "\<not> color (mem T' (sentinel T'))" using 1(5) by (simp add: same_nodes_def)
        have "\<exists>T''. delete_fixup T' y = Some T'' \<and> restored T' (addrs (plug t' k'')) T''"
        proof (cases "black t'")
          case True
          then show ?thesis using less.hyps [OF _ 1(1) s' 1(3)] 1(4) by blast
        next
          case False
          then have "ngx_rbt_is_red T' y" using 1(1) s' tree_at_black by (auto simp: located_def zipper_def)
          with fixup_red [OF 1(1) s' False 1(3)] fixup_ends show ?thesis by auto
        qed
        with step restored_trans [OF 1(5)] 1(2) show ?thesis by auto
      next
        case 2
        with step fixup_ends restored_balanced show ?thesis by auto
      qed
    qed
  qed
qed

subsection \<open>Unlinking a node\<close>

lemma zipper_same:
  assumes "zipper T p q t k" "\<And>z. z \<in> set (addrs t) \<union> set (way_addrs k) \<Longrightarrow> mem T' z = mem T z"
    "root T' = root T" "sentinel T' = sentinel T"
  shows "zipper T' p q t k"
  using assms tree_at_cong [of t "mem T'" "mem T"] way_at_cong [of k "mem T'" "mem T"] by (auto simp: zipper_def)

text \<open>The pointer to a node with at most one child goes to the child instead, whose parent becomes \<open>v\<close>.\<close>

lemma unlink:
  assumes z: "zipper T x q (Bin A x c B) k" and k: "k \<noteq> []"
    and child: "A = Tip \<and> p = right_of T x \<and> t = B \<or> B = Tip \<and> p = left_of T x \<and> t = A"
  defines "T1 \<equiv> if x = left_of T q then set_left q p T else set_right q p T"
  shows "tree_at (mem (set_parent p v T1)) (sentinel T) p v t"
    and "way_at (mem (set_parent p v T1)) (sentinel T) (root T) p q k"
    and "sentinel T1 = sentinel T" "root T1 = root T"
    and "z \<notin> set (way_addrs k) \<Longrightarrow> mem T1 z = mem T z"
proof -
  have way: "way_at (mem T) (sentinel T) (root T) x q k" and t: "tree_at (mem T) (sentinel T) p x t" and x: "x \<noteq> sentinel T"
    and d: "distinct (addrs t @ x # way_addrs k)" using z child by (auto simp: zipper_def)
  have "x \<noteq> root T" using way_at_root [OF way k] d by auto
  with redirect(1) [OF way, of p] x d have r: "redirected T T1 p q k" by (simp add: T1_def)
  show T1: "sentinel T1 = sentinel T" "root T1 = root T" by (simp_all add: T1_def)
  show "z \<notin> set (way_addrs k) \<Longrightarrow> mem T1 z = mem T z" using r by (simp add: redirected_def)
  have off: "p \<notin> set (way_addrs k)" using tree_at_pointer [OF t] d way_at_sentinel [OF way] by auto
  then show "way_at (mem (set_parent p v T1)) (sentinel T) (root T) p q k"
    using r T1 by (simp add: redirected_def set_parent_def)
  show "tree_at (mem (set_parent p v T1)) (sentinel T) p v t"
  proof (rule tree_at_reparent [OF t])
    show "mem (set_parent p v T1) a = mem T a" if "a \<in> set (addrs t)" "a \<noteq> p" for a
      using that r d by (auto simp: redirected_def set_parent_def)
    show "mem (set_parent p v T1) p = (mem T p)\<lparr>parent := v\<rparr>" using r off by (simp add: redirected_def set_parent_def)
  qed (use d in auto)
qed

subsection \<open>Replacing a node by its successor\<close>

text \<open>The function after its first assignment.\<close>

definition take_place :: "addr \<Rightarrow> addr \<Rightarrow> rbtree \<Rightarrow> rbtree" where
  "take_place x y T =
     (let T = set_color y (color (mem T x)) (set_parent y (parent_of T x) (set_right y (right_of T x) (set_left y (left_of T x) T)));
          T = (if x = root T then T\<lparr>root := y\<rparr>
               else if x = left_of T (parent_of T x) then set_left (parent_of T x) y T
               else set_right (parent_of T x) y T);
          T = (if left_of T y \<noteq> sentinel T then set_parent (left_of T y) y T else T)
      in (if right_of T y \<noteq> sentinel T then set_parent (right_of T y) y T else T))"

lemma replace_take_place:
  assumes "x \<noteq> y"
  shows "replace_node x y p T = take_place x y (set_parent p (if parent_of T y = x then y else parent_of T y) T)"
  using assms by (simp add: replace_node_def take_place_def ngx_rbt_copy_color_def)

lemma take_place:
  assumes L: "tree_at (mem T) (sentinel T) (left_of T x) x L" and R: "tree_at (mem T) (sentinel T) (right_of T x) v R"
    and way: "way_at (mem T) (sentinel T) (root T) x q k" and x: "parent_of T x = q" "color (mem T x) = c" "x \<noteq> sentinel T"
    and d: "distinct (y # addrs L @ x # addrs R @ way_addrs k)" and y: "y \<noteq> sentinel T"
  shows "zipper (take_place x y T) y q (Bin L y c R) k"
    and "sentinel (take_place x y T) = sentinel T"
    and "key (mem (take_place x y T) z) = key (mem T z)"
    and "parent_of (take_place x y T) (sentinel T) = parent_of T (sentinel T)"
    and "color (mem (take_place x y T) (sentinel T)) = color (mem T (sentinel T))"
proof -
  let ?s = "sentinel T"
  define a where "a = left_of T x"
  define b where "b = right_of T x"
  define T1 where "T1 = set_color y c (set_parent y q (set_right y b (set_left y a T)))"
  define T2 where "T2 = (if x = root T1 then T1\<lparr>root := y\<rparr> else if x = left_of T1 q then set_left q y T1 else set_right q y T1)"
  define T3 where "T3 = (if a \<noteq> ?s then set_parent a y T2 else T2)"
  define T4 where "T4 = (if b \<noteq> ?s then set_parent b y T3 else T3)"
  have ab: "a \<noteq> ?s \<Longrightarrow> a \<in> set (addrs L)" "b \<noteq> ?s \<Longrightarrow> b \<in> set (addrs R)"
    using tree_at_pointer [OF L] tree_at_pointer [OF R] by (auto simp: a_def b_def)
  have s: "?s \<notin> set (addrs L)" "?s \<notin> set (addrs R)" "?s \<notin> set (way_addrs k)"
    using tree_at_sentinel [OF L] tree_at_sentinel [OF R] way_at_sentinel [OF way] by auto
  have T1: "mem T1 y = (mem T y)\<lparr>left := a, right := b, parent := q, color := c\<rparr>" "z \<noteq> y \<Longrightarrow> mem T1 z = mem T z"
    "sentinel T1 = ?s" "root T1 = root T" for z by (simp_all add: T1_def set_defs)
  have "way_at (mem T1) ?s (root T1) x q k = way_at (mem T) ?s (root T) x q k"
    unfolding T1(4) using d by (intro way_at_cong T1(2)) auto
  with redirect(1) [of T1 x q k y] way x T1(3) d have r: "redirected T1 T2 y q k" by (simp add: T2_def)
  have ne: "a \<noteq> y" "b \<noteq> y" "a \<noteq> b \<or> a = ?s" using ab d y by auto
  have T2: "sentinel T2 = ?s" "z \<notin> set (way_addrs k) \<Longrightarrow> mem T2 z = mem T1 z" for z
    using r T1(3) by (simp_all add: redirected_def)
  have "sentinel T4 = ?s" "root T4 = root T2" using T2(1) by (simp_all add: T4_def T3_def)
  moreover have "mem T4 a = (mem T2 a)\<lparr>parent := y\<rparr>" if "a \<noteq> ?s"
    using that ne(3) by (simp add: T4_def T3_def set_parent_def)
  moreover have "mem T4 b = (mem T2 b)\<lparr>parent := y\<rparr>" if "b \<noteq> ?s"
    using that ne(3) by (cases "a = ?s") (simp_all add: T4_def T3_def set_parent_def)
  moreover have "mem T4 z = mem T2 z" if z: "z \<notin> {a, b} - {?s}" for z
  proof -
    consider "z \<noteq> a" "z \<noteq> b" | "z = ?s" using z by blast
    then show ?thesis by cases (simp_all add: T4_def T3_def set_parent_def)
  qed
  ultimately have T4: "sentinel T4 = ?s" "root T4 = root T2" "a \<noteq> ?s \<Longrightarrow> mem T4 a = (mem T2 a)\<lparr>parent := y\<rparr>"
    "b \<noteq> ?s \<Longrightarrow> mem T4 b = (mem T2 b)\<lparr>parent := y\<rparr>" "z \<notin> {a, b} - {?s} \<Longrightarrow> mem T4 z = mem T2 z" for z by blast+
  have off: "a \<notin> set (way_addrs k)" "b \<notin> set (way_addrs k)" "y \<notin> set (way_addrs k)" using ab s d by auto
  have y2: "mem T2 y = (mem T y)\<lparr>left := a, right := b, parent := q, color := c\<rparr>" using T2(2) [OF off(3)] T1(1) by simp
  have x1: "parent_of T1 x = q" using T1(2) [of x] x d by simp
  have y3: "left_of T2 y = a" "right_of T3 y = b" "sentinel T3 = ?s" using y2 T2(1) ne by (simp_all add: T3_def)
  have *: "take_place x y T = T4"
    unfolding take_place_def Let_def x a_def [symmetric] b_def [symmetric] T1_def [symmetric] x1 T2_def [symmetric]
      y3 T2(1) T3_def [symmetric] T4_def [symmetric] ..
  show "sentinel (take_place x y T) = ?s" unfolding * by (rule T4)
  have m: "mem T4 z = mem T z" if "z \<noteq> y" "z \<notin> set (way_addrs k)" "z \<notin> {a, b} - {?s}" for z
    using that T4(5) [of z] T2(2) [of z] T1(2) by simp
  then show "parent_of (take_place x y T) ?s = parent_of T ?s" "color (mem (take_place x y T) ?s) = color (mem T ?s)"
    unfolding * using s y by auto
  show "key (mem (take_place x y T) z) = key (mem T z)" unfolding take_place_def Let_def by simp
  have ma: "mem T4 a = (mem T a)\<lparr>parent := y\<rparr>" if "a \<noteq> ?s" using that T4(3) T2(2) [OF off(1)] T1(2) [OF ne(1)] by simp
  have mb: "mem T4 b = (mem T b)\<lparr>parent := y\<rparr>" if "b \<noteq> ?s" using that T4(4) T2(2) [OF off(2)] T1(2) [OF ne(2)] by simp
  have "tree_at (mem T4) ?s a y L"
    using L unfolding a_def [symmetric]
  proof (rule tree_at_reparent)
    show "mem T4 z = mem T z" if "z \<in> set (addrs L)" "z \<noteq> a" for z using that ab d s by (intro m) auto
    show "mem T4 a = (mem T a)\<lparr>parent := y\<rparr>" if "L \<noteq> Tip"
      using that L by (intro ma) (cases L, auto simp: a_def)
  qed (use d in auto)
  moreover have "tree_at (mem T4) ?s b y R"
    using R unfolding b_def [symmetric]
  proof (rule tree_at_reparent)
    show "mem T4 z = mem T z" if "z \<in> set (addrs R)" "z \<noteq> b" for z using that ab d s by (intro m) auto
    show "mem T4 b = (mem T b)\<lparr>parent := y\<rparr>" if "R \<noteq> Tip"
      using that R by (intro mb) (cases R, auto simp: b_def)
  qed (use d in auto)
  moreover have "way_at (mem T4) ?s (root T4) y q k"
  proof -
    have "way_at (mem T4) ?s (root T2) y q k = way_at (mem T2) ?s (root T2) y q k"
      using off by (intro way_at_cong T4(5)) auto
    with r T1(3) T4(2) show ?thesis by (simp add: redirected_def)
  qed
  moreover have "mem T4 y = (mem T y)\<lparr>left := a, right := b, parent := q, color := c\<rparr>"
    using T4(5) [of y] ne y2 by auto
  ultimately show "zipper (take_place x y T) y q (Bin L y c R) k" unfolding * using d y T4(1) by (auto simp: zipper_def)
qed

subsection \<open>Ways down\<close>

lemma plug_append: "plug t (ks @ k) = plug (plug t ks) k"
  by (induction t ks rule: plug.induct) auto

lemma zipper_climb: "zipper T p q t (ks @ k) \<Longrightarrow> \<exists>p' q'. zipper T p' q' (plug t ks) k"
proof (induction t ks arbitrary: p q rule: plug.induct)
  case (2 t a c r ks)
  then show ?case using zipper_up(1) by (metis plug.simps(2) append_Cons)
next
  case (3 t l a c ks)
  then show ?case using zipper_up(2) by (metis plug.simps(3) append_Cons)
qed auto

lemma zipper_down: "zipper T p q (plug t ks) k \<Longrightarrow> \<exists>p' q'. zipper T p' q' t (ks @ k)"
proof (induction t ks arbitrary: p q rule: plug.induct)
  case (2 t a c r ks)
  then show ?case using zipper_left by (metis plug.simps(2) append_Cons)
next
  case (3 t l a c ks)
  then show ?case using zipper_right by (metis plug.simps(3) append_Cons)
qed auto

lemma node_place: "x \<in> set (addrs t) \<Longrightarrow> \<exists>l c r k. t = plug (Bin l x c r) k"
proof (induction t)
  case (Bin l a c r)
  consider "x = a" | "x \<in> set (addrs l)" | "x \<in> set (addrs r)" using Bin.prems by auto
  then show ?case
  proof cases
    case 1
    then have "Bin l a c r = plug (Bin l x c r) []" by simp
    then show ?thesis by blast
  next
    case 2
    with Bin.IH(1) obtain l' d r' k where "l = plug (Bin l' x d r') k" by blast
    then have "Bin l a c r = plug (Bin l' x d r') (k @ [LeftOf a c r])" by (simp add: plug_append)
    then show ?thesis by blast
  next
    case 3
    with Bin.IH(2) obtain l' d r' k where "r = plug (Bin l' x d r') k" by blast
    then have "Bin l a c r = plug (Bin l' x d r') (k @ [RightOf l a c])" by (simp add: plug_append)
    then show ?thesis by blast
  qed
qed simp

lemma zipper_of:
  assumes "tree_of T t" "x \<in> set (addrs t)"
  obtains q l c r k where "zipper T x q (Bin l x c r) k" "t = plug (Bin l x c r) k"
proof -
  obtain l c r k where t: "t = plug (Bin l x c r) k" using node_place [OF assms(2)] by blast
  with assms(1) obtain q where "zipper T (root T) q (plug (Bin l x c r) k) []" by (auto simp: tree_of_def)
  from zipper_down [OF this] obtain p q where "zipper T p q (Bin l x c r) k" by auto
  with zipper_parent [OF this] t that show ?thesis by blast
qed

text \<open>The leftmost node of a tree.\<close>

lemma rbtree_min:
  assumes "zipper T a q (Bin l a c r) k"
  shows "\<exists>y d t ks q'. ngx_rbtree_min T a = Some y \<and> zipper T y q' (Bin Tip y d t) (ks @ k) \<and>
    Bin l a c r = plug (Bin Tip y d t) ks \<and> addrs (Bin l a c r) = y # addrs (plug t ks)"
  using assms
proof (induction l arbitrary: a c r q k)
  case Tip
  then have "left_of T a = sentinel T" by (simp add: zipper_def)
  with Tip show ?case
    by (subst ngx_rbtree_min.simps) (auto intro!: exI [of _ c] exI [of _ r] exI [of _ "[]"] exI [of _ q])
next
  case (Bin l b e r')
  have z: "zipper T b a (Bin l b e r') (LeftOf a c r # k)" and b: "left_of T a = b" "b \<noteq> sentinel T"
    using zipper_left [OF Bin.prems] by (auto simp: zipper_def)
  from Bin.IH(1) [OF z] obtain y d t ks q' where y: "ngx_rbtree_min T b = Some y"
    "zipper T y q' (Bin Tip y d t) (ks @ LeftOf a c r # k)" "Bin l b e r' = plug (Bin Tip y d t) ks"
    "addrs (Bin l b e r') = y # addrs (plug t ks)" by blast
  have "ngx_rbtree_min T a = Some y" using b y(1) by (subst ngx_rbtree_min.simps) simp
  moreover have "Bin (Bin l b e r') a c r = plug (Bin Tip y d t) (ks @ [LeftOf a c r])"
    "addrs (Bin (Bin l b e r') a c r) = y # addrs (plug t (ks @ [LeftOf a c r]))" using y(3, 4) by (simp_all add: plug_append)
  moreover have "zipper T y q' (Bin Tip y d t) ((ks @ [LeftOf a c r]) @ k)" using y(2) by simp
  ultimately show ?case by blast
qed

subsection \<open>Deletion\<close>

text \<open>The node is out of the tree; all others are as before.\<close>

definition deleted :: "addr \<Rightarrow> rbtree \<Rightarrow> addr list \<Rightarrow> rbtree \<Rightarrow> bool" where
  "deleted x T as T' \<longleftrightarrow>
     sentinel T' = sentinel T \<and> (\<forall>z. z \<noteq> x \<longrightarrow> key (mem T' z) = key (mem T z)) \<and>
     (\<exists>t. tree_of T' t \<and> rb_tree t \<and> addrs t = as)"

lemma clear_node_simps [simp]:
  "sentinel (clear_node x T) = sentinel T" "root (clear_node x T) = root T"
  "z \<noteq> x \<Longrightarrow> mem (clear_node x T) z = mem T z"
  "color (mem (clear_node x T) z) = color (mem T z)"
  by (simp_all add: clear_node_def set_defs)

lemma clear_node_off:
  assumes "zipper T p q t k" "x \<notin> set (addrs t) \<union> set (way_addrs k)"
  shows "zipper (clear_node x T) p q t k"
proof (rule zipper_same [OF assms(1)])
  show "mem (clear_node x T) z = mem T z" if "z \<in> set (addrs t) \<union> set (way_addrs k)" for z
    using that assms(2) by (intro clear_node_simps(3)) auto
qed auto

lemma deleted_restored:
  assumes "restored (clear_node x T) as T'"
  shows "deleted x T as T'"
  using assms by (auto simp: restored_def deleted_def)

text \<open>A node with at most one child lies at the hole; after it is unlinked the way lacks its colour.\<close>

lemma hole_after_unlink:
  assumes "wf n (Bin A x c B)" "wf_way n k" "k \<noteq> [] \<Longrightarrow> frame_red (hd k) \<Longrightarrow> \<not> c"
    and "A = Tip \<and> t = B \<or> B = Tip \<and> t = A"
  shows "if c then wf n t \<and> black t else lacking t k"
proof (cases c)
  case True
  with assms show ?thesis by auto
next
  case False
  with assms obtain m where "n = Suc m" "wf m t" by (auto split: nat.splits)
  with assms(2) wf_blacken [of m t] False show ?thesis by (auto simp: lacking_def)
qed

lemma delete_finish:
  assumes z: "located T p q t k" and s: "\<not> color (mem T (sentinel T))" and k: "k \<noteq> []"
    and x: "x \<notin> set (addrs t) \<union> set (way_addrs k)" "x \<noteq> sentinel T"
    and wf: "wf_way n k" "if c then wf n t \<and> black t else lacking t k"
  shows "\<exists>T'. (if c then Some (clear_node x T) else delete_fixup (clear_node x T) p) = Some T' \<and>
    deleted x T (addrs (plug t k)) T'"
proof -
  let ?T = "clear_node x T"
  have p: "p \<noteq> x" using located_top [OF z] x by (cases t) auto
  then have z': "located ?T p q t k" using z clear_node_off [OF _ x(1)] by (simp add: located_def)
  have s': "\<not> color (mem ?T (sentinel ?T))" using s by simp
  show ?thesis
  proof (cases c)
    case True
    have "\<exists>m. wf m (plug t k)" "black (plug t k)" using wf_plug [OF _ wf(1), of t] wf(2) True k by auto
    moreover have "\<exists>q'. zipper ?T (root ?T) q' (plug t k) []" using z' zipper_plug [of ?T p q t k] by (simp add: located_def)
    ultimately have "restored ?T (addrs (plug t k)) ?T"
      using s' by (auto simp: restored_def tree_of_def rb_tree_def)
    with True deleted_restored show ?thesis by auto
  next
    case False
    with delete_fixup_returns [OF z' s'] wf(2) deleted_restored show ?thesis by fastforce
  qed
qed

lemma deleted_trans:
  "sentinel T' = sentinel T \<Longrightarrow> (\<forall>z. key (mem T' z) = key (mem T z)) \<Longrightarrow> deleted x T' as T'' \<Longrightarrow> deleted x T as T''"
  by (simp add: deleted_def)

lemma rb_plugE:
  assumes "rb_tree (plug t k)"
  obtains n where "wf n t" "wf_way n k" "k \<noteq> [] \<Longrightarrow> frame_red (hd k) \<Longrightarrow> black t" "k = [] \<Longrightarrow> black t"
  using assms wf_unplug [of _ t k] by (auto simp: rb_tree_def)

lemma delete_at_inner:
  assumes "y \<noteq> root T" "parent_of T y = q" "T1 = (if y = left_of T q then set_left q p T else set_right q p T)"
    and "T2 = (if y = x then set_parent p (parent_of T1 y) T1 else replace_node x y p T1)"
  shows "delete_at x y p T = (if color (mem T y) then Some (clear_node x T2) else delete_fixup (clear_node x T2) p)"
  using assms(1) unfolding assms(3, 4) assms(2) [symmetric] by (simp add: delete_at_def Let_def ngx_rbt_is_red_def)

lemma delete_single:
  assumes z: "zipper T x q (Bin A x c B) k" and s: "\<not> color (mem T (sentinel T))" and rb: "rb_tree (plug (Bin A x c B) k)"
    and child: "A = Tip \<and> p = right_of T x \<and> t = B \<or> B = Tip \<and> p = left_of T x \<and> t = A"
  shows "\<exists>T'. delete_at x x p T = Some T' \<and> deleted x T (addrs (plug t k)) T'"
proof -
  from rb_plugE [OF rb] obtain n where wf: "wf n (Bin A x c B)" "wf_way n k" "k \<noteq> [] \<Longrightarrow> frame_red (hd k) \<Longrightarrow> \<not> c" "k = [] \<Longrightarrow> \<not> c"
    by (metis black.simps(2))
  have x: "x \<noteq> sentinel T" "x \<notin> set (addrs t) \<union> set (way_addrs k)" "parent_of T x = q" "color (mem T x) = c"
    and t: "tree_at (mem T) (sentinel T) p x t" "distinct (addrs t @ way_addrs k)" using z child by (auto simp: zipper_def)
  show ?thesis
  proof (cases k)
    case Nil
    then have "x = root T" using zipper_root [OF z] by simp
    moreover have "zipper (clear_node x (T\<lparr>root := p\<rparr>)) (root (clear_node x (T\<lparr>root := p\<rparr>))) x t []"
      using clear_node_off [of "T\<lparr>root := p\<rparr>" p x t "[]" x] t x(2) Nil by (auto simp: zipper_def)
    moreover obtain m where "wf m t" using wf child Nil by (auto split: nat.splits)
    ultimately have "restored (clear_node x (T\<lparr>root := p\<rparr>)) (addrs t) (ngx_rbt_black p (clear_node x (T\<lparr>root := p\<rparr>)))"
      using restored_root [of "clear_node x (T\<lparr>root := p\<rparr>)" x t m] s by simp
    then have "deleted x (T\<lparr>root := p\<rparr>) (addrs t) (ngx_rbt_black p (clear_node x (T\<lparr>root := p\<rparr>)))"
      by (rule deleted_restored)
    then have "deleted x T (addrs t) (ngx_rbt_black p (clear_node x (T\<lparr>root := p\<rparr>)))" by (simp add: deleted_def)
    moreover have "p \<noteq> x" using tree_at_pointer [OF t(1)] x by auto
    then have "clear_node x (ngx_rbt_black p (T\<lparr>root := p\<rparr>)) = ngx_rbt_black p (clear_node x (T\<lparr>root := p\<rparr>))"
      by (simp add: clear_node_def set_defs fun_upd_twist)
    ultimately show ?thesis using \<open>x = root T\<close> Nil by (simp add: delete_at_def)
  next
    case (Cons f k')
    define T1 where "T1 = (if x = left_of T q then set_left q p T else set_right q p T)"
    have k: "k \<noteq> []" "x \<noteq> root T" using Cons zipper_root [OF z] by auto
    have loc: "located (set_parent p q T1) p q t k"
      using unlink(1, 2) [OF z k(1) child, of q] unlink(3, 4) [OF z k(1) child] t(2) unfolding T1_def [symmetric] by (simp add: located_def zipper_def)
    have s1: "\<not> color (mem (set_parent p q T1) (sentinel (set_parent p q T1)))" "x \<noteq> sentinel (set_parent p q T1)"
      using s x by (simp_all add: T1_def)
    have hole: "if c then wf n t \<and> black t else lacking t k"
      using hole_after_unlink [OF wf(1, 2)] wf(3) child by blast
    obtain T' where T': "(if c then Some (clear_node x (set_parent p q T1))
        else delete_fixup (clear_node x (set_parent p q T1)) p) = Some T'" "deleted x (set_parent p q T1) (addrs (plug t k)) T'"
      using delete_finish [OF loc s1(1) k(1) x(2) s1(2) wf(2) hole] by blast
    have "deleted x T (addrs (plug t k)) T'" using T'(2) by (simp add: deleted_def T1_def)
    moreover have "parent_of T1 x = q" using x by (auto simp: T1_def)
    then have "delete_at x x p T = Some T'" using T'(1) delete_at_inner [OF k(2) x(3) T1_def refl, of x] x(4) by (simp split: if_splits)
    ultimately show ?thesis by blast
  qed
qed

lemma set_plug: "set (addrs (plug t k)) = set (addrs t) \<union> set (way_addrs k)"
  by (induction t k rule: plug.induct) auto

lemma distinct_plug: "distinct (addrs (plug t k)) \<longleftrightarrow> distinct (addrs t @ way_addrs k)"
  by (induction t k rule: plug.induct) auto

lemma wf_way_node: "wf_way n (ks @ RightOf l a c # k) = wf_way n (ks @ RightOf l b c # k)"
proof (induction ks arbitrary: n)
  case (Cons f ks)
  have "frame_red (hd (ks @ RightOf l a c # k)) = frame_red (hd (ks @ RightOf l b c # k))" by (cases ks) auto
  with Cons show ?case by simp
qed simp

text \<open>The successor is unlinked and takes the place of the node.\<close>

lemma replace_node:
  assumes z: "zipper T y q (Bin Tip y d t) (ks @ RightOf L x c # k)"
  defines "T1 \<equiv> if y = left_of T q then set_left q (right_of T y) T else set_right q (right_of T y) T"
  shows "\<exists>q'. located (replace_node x y (right_of T y) T1) (right_of T y) q' t (ks @ RightOf L y c # k) \<and>
    sentinel (replace_node x y (right_of T y) T1) = sentinel T \<and>
    color (mem (replace_node x y (right_of T y) T1) (sentinel T)) = color (mem T (sentinel T)) \<and>
    (\<forall>z. key (mem (replace_node x y (right_of T y) T1) z) = key (mem T z))"
proof -
  let ?K = "ks @ RightOf L x c # k" and ?p = "right_of T y" and ?s = "sentinel T"
  define v where "v = (if ks = [] then y else q)"
  define T2 where "T2 = set_parent ?p v T1"
  have d: "distinct (y # addrs t @ way_addrs ks @ x # addrs L @ way_addrs k)" and s: "y \<noteq> ?s" "x \<noteq> ?s"
    using z way_at_sentinel [of "mem T" ?s "root T" y q ?K] by (auto simp: zipper_def way_addrs_def)
  have u: "tree_at (mem T2) ?s ?p v t" "way_at (mem T2) ?s (root T2) ?p q ?K" "sentinel T2 = ?s" "\<not> color (mem T2 ?s) \<longleftrightarrow> \<not> color (mem T ?s)"
    using unlink(1, 2) [OF z, of ?p t v] by (auto simp: T2_def T1_def)
  have q: "q = (if ks = [] then x else frame_node (hd ks))" using z by (cases ks) (auto dest: zipper_frame)
  moreover have "ks \<noteq> [] \<Longrightarrow> frame_node (hd ks) \<noteq> x" using d by (cases ks; cases "hd ks") auto
  moreover have "parent_of T1 y = q" using z d by (auto simp: T1_def zipper_def)
  ultimately have r: "replace_node x y ?p T1 = take_place x y T2"
    using replace_take_place [of x y ?p T1] d by (auto simp: T2_def v_def)
  have "\<exists>v. tree_at (mem T2) ?s (left_of T2 x) x L \<and> tree_at (mem T2) ?s (right_of T2 x) v (plug t ks) \<and>
      way_at (mem T2) ?s (root T2) x (parent_of T2 x) k \<and> color (mem T2 x) = c"
  proof (cases "ks = []")
    case True
    with u show ?thesis by auto
  next
    case False
    then have "zipper T2 ?p q t ?K" using u d by (auto simp: zipper_def v_def way_addrs_def)
    from zipper_climb [OF this] obtain p' q' where "zipper T2 p' q' (plug t ks) (RightOf L x c # k)" by blast
    then show ?thesis by (auto simp: zipper_def u(3))
  qed
  moreover have "distinct (y # addrs L @ x # addrs (plug t ks) @ way_addrs k)" using d by (auto simp: set_plug distinct_plug)
  ultimately have T3: "zipper (take_place x y T2) y (parent_of T2 x) (Bin L y c (plug t ks)) k"
    and s3: "sentinel (take_place x y T2) = ?s" "key (mem (take_place x y T2) z) = key (mem T2 z)"
      "parent_of (take_place x y T2) ?s = parent_of T2 ?s" "color (mem (take_place x y T2) ?s) = color (mem T2 ?s)" for z
    using take_place [of T2 x L _ "plug t ks" "parent_of T2 x" k c y] u(3) s by auto
  from zipper_down [OF zipper_right [OF T3]] obtain p' q' where
    z3: "zipper (take_place x y T2) p' q' t (ks @ RightOf L y c # k)" by blast
  have p: "p' = ?p" "?p = top ?s t" using zipper_top [OF z3] tree_at_top [OF u(1)] s3(1) by auto
  have "q' = v" using z3 q by (cases ks) (auto simp: v_def dest: zipper_frame)
  then have "parent_of (take_place x y T2) ?p = q'"
    using z3 p s3(3) by (cases t) (auto simp: T2_def zipper_def)
  with z3 p have "located (take_place x y T2) ?p q' t (ks @ RightOf L y c # k)" by (simp add: located_def)
  with s3 r show ?thesis by (auto simp: T2_def T1_def)
qed

lemma delete_double:
  assumes z: "zipper T x q (Bin L x c R) k" and s: "\<not> color (mem T (sentinel T))" and rb: "rb_tree (plug (Bin L x c R) k)"
    and R: "zipper T y q' (Bin Tip y d t) (ks @ RightOf L x c # k)" "R = plug (Bin Tip y d t) ks"
  shows "\<exists>T'. delete_at x y (right_of T y) T = Some T' \<and> deleted x T (addrs (plug t (ks @ RightOf L y c # k))) T'"
proof -
  let ?K = "ks @ RightOf L x c # k" and ?K' = "ks @ RightOf L y c # k" and ?p = "right_of T y"
  have "plug (Bin L x c R) k = plug (Bin Tip y d t) ?K" using R(2) by (simp add: plug_append)
  with rb obtain n where wf: "wf n (Bin Tip y d t)" "wf_way n ?K" "frame_red (hd ?K) \<Longrightarrow> \<not> d"
    using rb_plugE [of "Bin Tip y d t" ?K] by (metis Nil_is_append_conv black.simps(2) list.distinct(1))
  have wf': "wf_way n ?K'" "lacking t ?K = lacking t ?K'" using wf(2) wf_way_node [of _ ks L x c k y] by (auto simp: lacking_def)
  have hole: "if d then wf n t \<and> black t else lacking t ?K'" using hole_after_unlink [OF wf(1, 2)] wf(3) wf'(2) by auto
  define T1 where "T1 = (if y = left_of T q' then set_left q' ?p T else set_right q' ?p T)"
  define T3 where "T3 = replace_node x y ?p T1"
  from replace_node [OF R(1)] obtain q'' where T3: "located T3 ?p q'' t ?K'" "sentinel T3 = sentinel T"
    "color (mem T3 (sentinel T)) = color (mem T (sentinel T))" "\<forall>z. key (mem T3 z) = key (mem T z)"
    unfolding T3_def T1_def by blast
  have y: "y \<noteq> root T" "parent_of T y = q'" "color (mem T y) = d" using zipper_root [OF R(1)] zipper_parent [OF R(1)] by auto
  have x: "x \<notin> set (addrs t) \<union> set (way_addrs ?K')" "x \<noteq> sentinel T" "x \<noteq> y" "y \<noteq> sentinel T"
    using R(1) z by (auto simp: zipper_def way_addrs_def)
  have "\<not> color (mem T3 (sentinel T3))" "x \<noteq> sentinel T3" using s x T3 by auto
  from delete_finish [OF T3(1) this(1) _ x(1) this(2) wf'(1) hole] obtain T' where
    T': "(if d then Some (clear_node x T3) else delete_fixup (clear_node x T3) ?p) = Some T'" "deleted x T3 (addrs (plug t ?K')) T'"
    by auto
  have "delete_at x y ?p T = Some T'" using T'(1) x(3) y(3) delete_at_inner [OF y(1, 2) T1_def refl, of x]
    by (simp add: T3_def split: if_splits)
  with T'(2) T3 show ?thesis by (auto simp: deleted_def)
qed

lemma rbtree_delete_returns:
  assumes T: "tree_of T t" "rb_tree t" and x: "x \<in> set (addrs t)"
  shows "\<exists>T'. ngx_rbtree_delete T x = Some T' \<and> deleted x T (remove1 x (addrs t)) T'"
proof -
  obtain q l c r k where z: "zipper T x q (Bin l x c r) k" and t: "t = plug (Bin l x c r) k" using zipper_of [OF T(1) x] .
  have s: "\<not> color (mem T (sentinel T))" using T(1) by (simp add: tree_of_def)
  note rb = T(2) [unfolded t]
  have "set (inorder_before k) \<subseteq> set (way_addrs k)" using set_plug [of Tip k] by (auto simp: addrs_plug)
  then have off: "x \<notin> set (inorder_before k)" "x \<notin> set (addrs l)" using z by (auto simp: zipper_def)
  consider "l = Tip" | "l \<noteq> Tip" "r = Tip" | "l \<noteq> Tip" "r \<noteq> Tip" by blast
  then show ?thesis
  proof cases
    case 1
    then have "ngx_rbtree_delete T x = delete_at x x (right_of T x) T" using z by (simp add: ngx_rbtree_delete_def zipper_def)
    with delete_single [OF z s rb, of "right_of T x" r] 1 off show ?thesis by (simp add: t addrs_plug remove1_append)
  next
    case 2
    then have "left_of T x \<noteq> sentinel T" "right_of T x = sentinel T" using z by (cases l; auto simp: zipper_def)+
    then have "ngx_rbtree_delete T x = delete_at x x (left_of T x) T" by (simp add: ngx_rbtree_delete_def)
    with delete_single [OF z s rb, of "left_of T x" l] 2 off show ?thesis by (simp add: t addrs_plug remove1_append)
  next
    case 3
    then obtain rl b rc rr where r: "r = Bin rl b rc rr" by (cases r) auto
    have b: "left_of T x \<noteq> sentinel T" "right_of T x = b" "b \<noteq> sentinel T" using z 3 r by (cases l; auto simp: zipper_def)+
    from rbtree_min [OF zipper_right [OF z, unfolded r b(2)]] obtain y d t' ks q' where
      y: "ngx_rbtree_min T b = Some y" "zipper T y q' (Bin Tip y d t') (ks @ RightOf l x c # k)" "r = plug (Bin Tip y d t') ks"
        "addrs r = y # addrs (plug t' ks)" unfolding r by blast
    have "ngx_rbtree_delete T x = delete_at x y (right_of T y) T" using b y(1) by (simp add: ngx_rbtree_delete_def)
    moreover have "addrs (plug t' (ks @ RightOf l y c # k)) = remove1 x (addrs t)"
      using off y(4) by (simp add: t plug_append addrs_plug [of _ k] remove1_append)
    ultimately show ?thesis using delete_double [OF z s rb y(2, 3)] by simp
  qed
qed

text \<open>
  Property C17: \<^verbatim>\<open>ngx_rbtree_delete\<close> of a node of a red-black tree in memory returns; the memory then holds a
  red-black tree of the other nodes in the same order, and their keys have not changed.
\<close>

theorem rbtree_delete:
  assumes "tree_of T t" "rb_tree t" "x \<in> set (addrs t)"
  shows "\<exists>T' t'. ngx_rbtree_delete T x = Some T' \<and> tree_of T' t' \<and> rb_tree t' \<and> addrs t' = remove1 x (addrs t) \<and>
    sentinel T' = sentinel T \<and> (\<forall>z. z \<noteq> x \<longrightarrow> key (mem T' z) = key (mem T z))"
  using rbtree_delete_returns [OF assms] by (auto simp: deleted_def)

theorem rbtree_delete_witness:
  "\<exists>T t. tree_of T t \<and> addrs t = [3, 2] \<and>
     (\<exists>T' t'. ngx_rbtree_delete T 2 = Some T' \<and> tree_of T' t' \<and> rb_tree t' \<and> addrs t' = [3])"
proof -
  let ?n = "\<lparr>key = 0, left = 1, right = 1, parent = 0, color = False\<rparr>"
  let ?T = "\<lparr>root = 2, sentinel = 1,
    mem = (\<lambda>_. ?n)(2 := ?n\<lparr>key := 7, left := 3\<rparr>, 3 := ?n\<lparr>key := 5, parent := 2, color := True\<rparr>)\<rparr>"
  let ?t = "Bin (Bin Tip 3 True Tip) 2 False Tip"
  have "tree_of ?T ?t" by (simp add: tree_of_def zipper_def)
  moreover have "rb_tree ?t" by (auto simp: rb_tree_def intro!: exI [of _ 1])
  ultimately show ?thesis using rbtree_delete [of ?T ?t 2]
    by (intro exI [of _ ?T] exI [of _ ?t]) auto
qed

subsection \<open>Succession\<close>

lemma next_up:
  "zipper T x q (Bin l x c r) k \<Longrightarrow> next_up T x = Some (hd (inorder_after k @ [NULL]))"
proof (induction k arbitrary: x q l c r)
  case Nil
  then show ?case using zipper_root [OF Nil] by (subst next_up.simps) simp
next
  case (Cons f k)
  have x: "x \<noteq> root T" using zipper_root [OF Cons.prems] by simp
  show ?case
  proof (cases f)
    case (LeftOf a d s)
    then have "parent_of T x = a" "left_of T a = x" using Cons.prems by (auto simp: zipper_def)
    with x LeftOf show ?thesis by (subst next_up.simps) simp
  next
    case (RightOf s a d)
    then have "parent_of T x = a" "left_of T a \<noteq> x"
      using Cons.prems tree_at_pointer [of "mem T" "sentinel T" "left_of T a" a s] by (auto simp: zipper_def)
    moreover have "zipper T a (parent_of T a) (Bin s a d (Bin l x c r)) k" using zipper_up(2) Cons.prems RightOf by blast
    ultimately show ?thesis using x RightOf Cons.IH by (subst next_up.simps) simp
  qed
qed

lemma rbtree_min_first:
  assumes "tree_of T t" "t \<noteq> Tip"
  shows "ngx_rbtree_min T (root T) = Some (hd (addrs t))"
proof -
  obtain q where q: "zipper T (root T) q t []" using assms(1) by (auto simp: tree_of_def)
  then obtain l c r where "t = Bin l (root T) c r" using assms(2) by (cases t) (auto simp: zipper_def)
  with rbtree_min [of T "root T" q l c r "[]"] q show ?thesis by auto
qed

lemma rbtree_next_follows:
  assumes "tree_of T t" "addrs t = as @ x # bs"
  shows "ngx_rbtree_next T x = Some (hd (bs @ [NULL]))"
proof -
  have "x \<in> set (addrs t)" using assms(2) by simp
  from zipper_of [OF assms(1) this] obtain q l c r k where
    z: "zipper T x q (Bin l x c r) k" and t: "t = plug (Bin l x c r) k" .
  have "distinct (addrs t)" using z by (simp add: t distinct_plug zipper_def)
  then have bs: "bs = addrs r @ inorder_after k"
    using assms(2) append_Cons_eq_iff [of x "inorder_before k @ addrs l" "addrs r @ inorder_after k" as bs]
    by (auto simp: t addrs_plug)
  show ?thesis
  proof (cases r)
    case Tip
    then have "right_of T x = sentinel T" using z by (simp add: zipper_def)
    with next_up [OF z] show ?thesis by (simp add: ngx_rbtree_next_def bs Tip)
  next
    case (Bin rl b rc rr)
    then have b: "right_of T x = b" "b \<noteq> sentinel T" using z by (auto simp: zipper_def)
    from rbtree_min [OF zipper_right [OF z, unfolded Bin b(1)]] have "ngx_rbtree_min T b = Some (hd (addrs r))" unfolding Bin by auto
    moreover have "hd (bs @ [NULL]) = hd (addrs r)" by (simp add: bs Bin hd_append)
    ultimately show ?thesis using b by (simp add: ngx_rbtree_next_def)
  qed
qed

text \<open>
  \<^verbatim>\<open>ngx_rbtree_min\<close> and \<^verbatim>\<open>ngx_rbtree_next\<close> walk through a tree in memory in order: the minimum of a
  tree that is not empty is the first of its nodes, the next of a node is the one that follows it, and
  the next of the last node is NULL.
\<close>

theorem rbtree_walk:
  assumes "tree_of T t" "addrs t = as @ x # bs"
  shows "ngx_rbtree_min T (root T) = Some (hd (addrs t)) \<and> ngx_rbtree_next T x = Some (hd (bs @ [NULL]))"
  using rbtree_min_first [OF assms(1)] rbtree_next_follows [OF assms] assms(2) by (cases t) auto

theorem rbtree_walk_witness:
  "\<exists>T. ngx_rbtree_min T (root T) = Some 3 \<and> ngx_rbtree_next T 3 = Some 2 \<and> ngx_rbtree_next T 2 = Some NULL"
proof -
  let ?n = "\<lparr>key = 0, left = 1, right = 1, parent = 0, color = False\<rparr>"
  let ?T = "\<lparr>root = 2, sentinel = 1,
    mem = (\<lambda>_. ?n)(2 := ?n\<lparr>key := 7, left := 3\<rparr>, 3 := ?n\<lparr>key := 5, parent := 2, color := True\<rparr>)\<rparr>"
  let ?t = "Bin (Bin Tip 3 True Tip) 2 False Tip"
  have "tree_of ?T ?t" by (simp add: tree_of_def zipper_def)
  with rbtree_walk [of ?T ?t "[]" 3 "[2]"] rbtree_walk [of ?T ?t "[3]" 2 "[]"] show ?thesis
    by (intro exI [of _ ?T]) simp
qed

end
