(* ===== verification/Ngx_Event_Timer.thy ===== *)
theory Ngx_Event_Timer
  imports Ngx_Rbtree_Delete
begin

text \<open>
  The timers of the event loop (\<^verbatim>\<open>src/event/ngx_event_timer.c\<close> and the inline functions of
  \<^verbatim>\<open>ngx_event_timer.h\<close>) on top of the red-black tree.  An event is identified with the address of the timer
  node inside it.  The handlers of events are arbitrary code: an argument of the function that calls
  them, which may change everything and need not return.
\<close>

subsection \<open>State and operations\<close>

record 'a events =
  timers :: rbtree
  timer_set :: "addr \<Rightarrow> bool"
  timedout :: "addr \<Rightarrow> bool"
  cancelable :: "addr \<Rightarrow> bool"
  current_msec :: uint64
  others :: 'a

definition NGX_TIMER_INFINITE :: uint64 where
  "NGX_TIMER_INFINITE = - 1"

definition NGX_TIMER_LAZY_DELAY :: int where
  "NGX_TIMER_LAZY_DELAY = 300"

definition ngx_abs :: "uint64 \<Rightarrow> uint64" where
  "ngx_abs v = (if sint v \<ge> 0 then v else - v)"

definition ngx_event_timer_init :: "addr \<Rightarrow> 'a events \<Rightarrow> 'a events" where
  "ngx_event_timer_init s E = E\<lparr>timers := ngx_rbtree_init s (mem (timers E))\<rparr>"

definition ngx_event_find_timer :: "'a events \<Rightarrow> uint64 option" where
  "ngx_event_find_timer E =
     (let T = timers E in
      if root T = sentinel T then Some NGX_TIMER_INFINITE
      else map_option (\<lambda>node. let timer = key (mem T node) - current_msec E in if sint timer > 0 then timer else 0)
             (ngx_rbtree_min T (root T)))"

definition ngx_event_del_timer :: "addr \<Rightarrow> 'a events \<Rightarrow> 'a events option" where
  "ngx_event_del_timer ev E =
     map_option (\<lambda>T. E\<lparr>timers := T, timer_set := (timer_set E)(ev := False)\<rparr>) (ngx_rbtree_delete (timers E) ev)"

definition link_timer :: "addr \<Rightarrow> uint64 \<Rightarrow> 'a events \<Rightarrow> 'a events option" where
  "link_timer ev k E =
     map_option (\<lambda>T. E\<lparr>timers := T, timer_set := (timer_set E)(ev := True)\<rparr>)
       (ngx_rbtree_insert ngx_rbtree_insert_timer_value (set_key ev k (timers E)) ev)"

definition ngx_event_add_timer :: "addr \<Rightarrow> uint64 \<Rightarrow> 'a events \<Rightarrow> 'a events option" where
  "ngx_event_add_timer ev timer E =
     (let k = current_msec E + timer in
      if timer_set E ev then
        let diff = k - key (mem (timers E) ev) in
        if sint (ngx_abs diff) < NGX_TIMER_LAZY_DELAY then Some E
        else Option.bind (ngx_event_del_timer ev E) (link_timer ev k)
      else link_timer ev k E)"

text \<open>The timer of the event has expired; its handler runs next.\<close>

definition expired :: "addr \<Rightarrow> rbtree \<Rightarrow> 'a events \<Rightarrow> 'a events" where
  "expired ev T E = E\<lparr>timers := T, timer_set := (timer_set E)(ev := False), timedout := (timedout E)(ev := True)\<rparr>"

partial_function (option) expire_loop ::
    "(addr \<Rightarrow> 'a events \<Rightarrow> 'a events option) \<Rightarrow> addr \<Rightarrow> 'a events \<Rightarrow> 'a events option" where
  "expire_loop handler s E =
     (if root (timers E) = s then Some E
      else Option.bind (ngx_rbtree_min (timers E) (root (timers E))) (\<lambda>ev.
        if sint (key (mem (timers E) ev) - current_msec E) > 0 then Some E
        else Option.bind (ngx_rbtree_delete (timers E) ev) (\<lambda>T.
          Option.bind (handler ev (expired ev T E)) (expire_loop handler s))))"

definition ngx_event_expire_timers :: "(addr \<Rightarrow> 'a events \<Rightarrow> 'a events option) \<Rightarrow> 'a events \<Rightarrow> 'a events option" where
  "ngx_event_expire_timers handler E = expire_loop handler (sentinel (timers E)) E"

partial_function (option) no_timers_loop :: "'a events \<Rightarrow> addr \<Rightarrow> int option" where
  "no_timers_loop E node =
     (if node = NULL then Some NGX_OK
      else if \<not> cancelable E node then Some NGX_AGAIN
      else Option.bind (ngx_rbtree_next (timers E) node) (no_timers_loop E))"

definition ngx_event_no_timers_left :: "'a events \<Rightarrow> int option" where
  "ngx_event_no_timers_left E =
     (if root (timers E) = sentinel (timers E) then Some NGX_OK
      else Option.bind (ngx_rbtree_min (timers E) (root (timers E))) (no_timers_loop E))"

declare expire_loop.simps [code] no_timers_loop.simps [code]

subsection \<open>The tree of timers\<close>

text \<open>The memory holds a red-black tree of the nodes \<open>as\<close>, in this order.\<close>

definition held :: "rbtree \<Rightarrow> addr list \<Rightarrow> bool" where
  "held T as \<longleftrightarrow> (\<exists>t. tree_of T t \<and> rb_tree t \<and> addrs t = as)"

lemma held_init: "held (ngx_rbtree_init s h) []"
  using rbtree_init by (auto simp: held_def intro!: exI [of _ Tip])

lemma held_distinct: "held T as \<Longrightarrow> distinct as \<and> sentinel T \<notin> set as"
  by (auto simp: held_def tree_of_def zipper_def dest: tree_at_sentinel)

lemma held_empty: "held T as \<Longrightarrow> root T = sentinel T \<longleftrightarrow> as = []"
proof -
  assume "held T as"
  then obtain t q where t: "zipper T (root T) q t []" "addrs t = as" by (auto simp: held_def tree_of_def)
  then show ?thesis by (cases t) (auto simp: zipper_def)
qed

lemma held_min: "held T (a # as) \<Longrightarrow> ngx_rbtree_min T (root T) = Some a"
proof -
  assume "held T (a # as)"
  then obtain t where t: "tree_of T t" "addrs t = a # as" by (auto simp: held_def)
  then have "t \<noteq> Tip" by auto
  with rbtree_min_first [OF t(1)] t(2) show ?thesis by simp
qed

lemma held_next: "held T (as @ x # bs) \<Longrightarrow> ngx_rbtree_next T x = Some (hd (bs @ [NULL]))"
  using rbtree_next_follows by (auto simp: held_def)

lemma held_delete:
  "held T as \<Longrightarrow> x \<in> set as \<Longrightarrow>
   \<exists>T'. ngx_rbtree_delete T x = Some T' \<and> held T' (remove1 x as) \<and> sentinel T' = sentinel T \<and>
     (\<forall>z. z \<noteq> x \<longrightarrow> key (mem T' z) = key (mem T z))"
  using rbtree_delete_returns by (fastforce simp: held_def deleted_def)

lemma tree_at_set_key [simp]: "tree_at (mem (set_key x v T)) s p q t = tree_at (mem T) s p q t"
  by (induction t arbitrary: p q) auto

lemma held_set_key [simp]: "held (set_key x v T) as = held T as"
  by (auto simp: held_def tree_of_def zipper_def)

lemma held_insert:
  assumes "held T as" "x \<notin> set as" "x \<noteq> sentinel T" "sorted (map (\<lambda>a. key (mem T a) - base) as)"
    and "\<forall>a \<in> insert x (set as). key (mem T a) - base < 2 ^ 63"
  shows "\<exists>T' as'. ngx_rbtree_insert ngx_rbtree_insert_timer_value T x = Some T' \<and> held T' as' \<and>
    set as' = insert x (set as) \<and> sentinel T' = sentinel T \<and> (\<forall>z. key (mem T' z) = key (mem T z)) \<and>
    sorted (map (\<lambda>a. key (mem T' a) - base) as')"
proof -
  obtain t where t: "tree_of T t" "rb_tree t" "addrs t = as" using assms(1) by (auto simp: held_def)
  have "\<exists>T' t'. ngx_rbtree_insert ngx_rbtree_insert_timer_value T x = Some T' \<and> tree_of T' t' \<and> rb_tree t' \<and>
    sentinel T' = sentinel T \<and> (\<forall>z. key (mem T' z) = key (mem T z)) \<and>
    set (addrs t') = insert x (set (addrs t)) \<and> sorted (map (\<lambda>a. key (mem T' a) - base) (addrs t'))"
    by (rule insert_timer_returns [OF t(1, 2)]) (use assms t(3) in auto)
  then show ?thesis unfolding held_def t(3) by blast
qed

subsection \<open>Times\<close>

text \<open>The time until a timer is due, negative if it is overdue; all timers are within 2^62 units of now.\<close>

definition due :: "'a events \<Rightarrow> addr \<Rightarrow> int" where
  "due E a = sint (key (mem (timers E) a) - current_msec E)"

definition near :: "int \<Rightarrow> bool" where
  "near d \<longleftrightarrow> - (2 ^ 62) \<le> d \<and> d < 2 ^ 62"

lemma near_base:
  fixes k now :: uint64
  assumes "near (sint (k - now))"
  shows "uint (k - (now - 2 ^ 62)) = sint (k - now) + 2 ^ 62"
proof -
  have "k - (now - 2 ^ 62) = word_of_int (sint (k - now) + 2 ^ 62)" by simp
  then have "uint (k - (now - 2 ^ 62)) = take_bit 64 (sint (k - now) + 2 ^ 62)" by (simp only: uint_word_of_int_eq) simp
  also have "\<dots> = sint (k - now) + 2 ^ 62" using assms by (intro take_bit_int_eq_self) (auto simp: near_def)
  finally show ?thesis .
qed

lemma near_sint:
  assumes "near d"
  shows "sint (word_of_int d :: uint64) = d"
  using assms by (simp only: sint_sbintrunc') (intro signed_take_bit_int_eq_self, auto simp: near_def)

text \<open>
  The invariant: the tree holds exactly the events with a timer, by the time they are due.
\<close>

definition timers_ok :: "'a events \<Rightarrow> addr list \<Rightarrow> bool" where
  "timers_ok E as \<longleftrightarrow>
     held (timers E) as \<and> sorted (map (due E) as) \<and> (\<forall>a \<in> set as. near (due E a) \<and> a \<noteq> NULL) \<and>
     (\<forall>a. timer_set E a \<longleftrightarrow> a \<in> set as)"

lemma timers_okD:
  assumes "timers_ok E as"
  shows "held (timers E) as" "sorted (map (due E) as)" "\<And>a. a \<in> set as \<Longrightarrow> near (due E a)" "\<And>a. a \<in> set as \<Longrightarrow> a \<noteq> NULL"
    "\<And>a. timer_set E a \<longleftrightarrow> a \<in> set as" "distinct as"
  using assms held_distinct by (auto simp: timers_ok_def)

lemma near_order:
  fixes k l now :: uint64
  assumes "near (sint (k - now))" "near (sint (l - now))"
  shows "k - (now - 2 ^ 62) \<le> l - (now - 2 ^ 62) \<longleftrightarrow> sint (k - now) \<le> sint (l - now)"
  by (simp only: word_le_def near_base [OF assms(1)] near_base [OF assms(2)]) simp

lemma near_window:
  fixes k now :: uint64
  assumes "near (sint (k - now))"
  shows "k - (now - 2 ^ 62) < 2 ^ 63"
  using assms by (simp only: word_less_def near_base [OF assms]) (simp add: near_def)

lemma sorted_due:
  fixes f :: "addr \<Rightarrow> uint64" and now :: uint64
  assumes "\<forall>a \<in> set as. near (sint (f a - now))"
  shows "sorted (map (\<lambda>a. f a - (now - 2 ^ 62)) as) \<longleftrightarrow> sorted (map (\<lambda>a. sint (f a - now)) as)"
proof -
  have order: "f a - (now - 2 ^ 62) \<le> f b - (now - 2 ^ 62) \<longleftrightarrow> sint (f a - now) \<le> sint (f b - now)"
    if "a \<in> set as" "b \<in> set as" for a b using that assms near_order by blast
  show ?thesis unfolding sorted_map
  proof
    assume "sorted_wrt (\<lambda>x y. f x - (now - 2 ^ 62) \<le> f y - (now - 2 ^ 62)) as"
    then show "sorted_wrt (\<lambda>x y. sint (f x - now) \<le> sint (f y - now)) as"
      by (rule sorted_wrt_mono_rel [rotated]) (simp only: order)
  next
    assume "sorted_wrt (\<lambda>x y. sint (f x - now) \<le> sint (f y - now)) as"
    then show "sorted_wrt (\<lambda>x y. f x - (now - 2 ^ 62) \<le> f y - (now - 2 ^ 62)) as"
      by (rule sorted_wrt_mono_rel [rotated]) (simp only: order)
  qed
qed

text \<open>What the operations on timers leave alone.\<close>

definition same_rest :: "'a events \<Rightarrow> 'a events \<Rightarrow> bool" where
  "same_rest E E' \<longleftrightarrow>
     sentinel (timers E') = sentinel (timers E) \<and> timedout E' = timedout E \<and> cancelable E' = cancelable E \<and>
     current_msec E' = current_msec E \<and> others E' = others E"

lemma link_timer:
  assumes ok: "timers_ok E as" and ev: "ev \<notin> set as" "ev \<noteq> NULL" "ev \<noteq> sentinel (timers E)" and k: "near (sint (k - current_msec E))"
  shows "\<exists>E' as'. link_timer ev k E = Some E' \<and> timers_ok E' as' \<and> set as' = insert ev (set as) \<and> same_rest E E' \<and>
    due E' ev = sint (k - current_msec E) \<and> (\<forall>a. a \<noteq> ev \<longrightarrow> due E' a = due E a)"
proof -
  let ?T = "set_key ev k (timers E)" and ?base = "current_msec E - 2 ^ 62"
  note o = timers_okD [OF ok]
  have near: "near (sint (key (mem ?T a) - current_msec E))" if "a \<in> insert ev (set as)" for a
    using that k o(3) by (auto simp: due_def)
  have "map (\<lambda>a. sint (key (mem ?T a) - current_msec E)) as = map (due E) as"
    using ev by (intro map_cong) (auto simp: due_def)
  with o(2) have "sorted (map (\<lambda>a. sint (key (mem ?T a) - current_msec E)) as)" by (simp only:)
  then have "sorted (map (\<lambda>a. key (mem ?T a) - ?base) as)" using near by (subst sorted_due) auto
  moreover have "\<forall>a \<in> insert ev (set as). key (mem ?T a) - ?base < 2 ^ 63" using near near_window by blast
  ultimately obtain T' as' where T': "ngx_rbtree_insert ngx_rbtree_insert_timer_value ?T ev = Some T'" "held T' as'"
    "set as' = insert ev (set as)" "sentinel T' = sentinel ?T" "\<forall>z. key (mem T' z) = key (mem ?T z)"
    "sorted (map (\<lambda>a. key (mem T' a) - ?base) as')"
    using held_insert [of ?T as ev ?base] o(1) ev by auto
  define E' where "E' = E\<lparr>timers := T', timer_set := (timer_set E)(ev := True)\<rparr>"
  have due: "due E' a = sint (key (mem ?T a) - current_msec E)" for a using T'(5) by (simp add: due_def E'_def)
  have "sorted (map (due E') as')" using T'(6) near T'(3, 5) sorted_due [of as' "\<lambda>a. key (mem T' a)" "current_msec E"]
    by (simp add: due [abs_def])
  moreover have "timers E' = T'" "timer_set E' = (timer_set E)(ev := True)" by (simp_all add: E'_def)
  moreover have "near (due E' a) \<and> a \<noteq> NULL" if "a \<in> set as'" for a
    using that near [of a] T'(3) o(4) ev unfolding due by auto
  ultimately have "timers_ok E' as'" using T'(2, 3) o(5) by (auto simp: timers_ok_def split: if_splits)
  moreover have "link_timer ev k E = Some E'" using T'(1) by (simp add: link_timer_def E'_def)
  ultimately show ?thesis using T'(3, 4) due by (auto simp: same_rest_def E'_def due_def)
qed

lemma del_timer:
  assumes ok: "timers_ok E as" and ev: "ev \<in> set as"
  shows "\<exists>E'. ngx_event_del_timer ev E = Some E' \<and> timers_ok E' (remove1 ev as) \<and> same_rest E E' \<and>
    (\<forall>a. a \<noteq> ev \<longrightarrow> due E' a = due E a)"
proof -
  note o = timers_okD [OF ok]
  obtain T' where T': "ngx_rbtree_delete (timers E) ev = Some T'" "held T' (remove1 ev as)" "sentinel T' = sentinel (timers E)"
    "\<forall>z. z \<noteq> ev \<longrightarrow> key (mem T' z) = key (mem (timers E) z)" using held_delete [OF o(1) ev] by blast
  define E' where "E' = E\<lparr>timers := T', timer_set := (timer_set E)(ev := False)\<rparr>"
  have due: "due E' a = due E a" if "a \<noteq> ev" for a using T'(4) that by (simp add: due_def E'_def)
  have "map (due E') (remove1 ev as) = map (due E) (remove1 ev as)" using due o(6) by (intro map_cong) auto
  with sorted_map_remove1 [OF o(2), of ev] have "sorted (map (due E') (remove1 ev as))" by (simp only:)
  moreover have "timers E' = T'" "timer_set E' = (timer_set E)(ev := False)" by (simp_all add: E'_def)
  ultimately have "timers_ok E' (remove1 ev as)" using T'(2) o(3-5) due
    by (auto simp: timers_ok_def set_remove1_eq [OF o(6)] split: if_splits)
  moreover have "ngx_event_del_timer ev E = Some E'" using T'(1) by (simp add: ngx_event_del_timer_def E'_def)
  ultimately show ?thesis using T'(3) due by (auto simp: same_rest_def E'_def)
qed

subsection \<open>Setting a timer\<close>

lemma near_diff:
  fixes k l now :: uint64
  assumes "near (sint (k - now))" "near (sint (l - now))"
  shows "sint (k - l) = sint (k - now) - sint (l - now)"
proof -
  let ?d = "sint (k - now) - sint (l - now)"
  have "k - l = word_of_int ?d" by simp
  then have "sint (k - l) = signed_take_bit (LENGTH(64) - 1) ?d" by (simp only: sint_sbintrunc')
  also have "\<dots> = ?d" using assms by (intro signed_take_bit_int_eq_self) (auto simp: near_def)
  finally show ?thesis .
qed

lemma abs_diff:
  fixes k l now :: uint64
  assumes "near (sint (k - now))" "near (sint (l - now))"
  shows "sint (ngx_abs (k - l)) = \<bar>sint (k - now) - sint (l - now)\<bar>"
  using near_diff [OF assms] near_diff [OF assms(2, 1)] by (auto simp: ngx_abs_def)

lemma short_timer: "timer < 2 ^ 62 \<Longrightarrow> sint (now + timer - now :: uint64) = uint timer \<and> near (uint timer)"
proof -
  assume t: "timer < (2 ^ 62 :: uint64)"
  then have n: "near (uint timer)" by (simp add: word_less_def near_def order_trans [OF _ uint_ge_0])
  have "sint (word_of_int (uint timer) :: uint64) = uint timer" by (rule near_sint [OF n])
  with n show ?thesis by simp
qed

lemma add_timer:
  assumes ok: "timers_ok E as" and ev: "ev \<noteq> NULL" "ev \<noteq> sentinel (timers E)" and t: "timer < 2 ^ 62"
  shows "\<exists>E' as'. ngx_event_add_timer ev timer E = Some E' \<and> timers_ok E' as' \<and> set as' = insert ev (set as) \<and> same_rest E E' \<and>
    (\<forall>a. a \<noteq> ev \<longrightarrow> due E' a = due E a) \<and>
    (due E' ev = uint timer \<or> E' = E \<and> ev \<in> set as \<and> \<bar>due E ev - uint timer\<bar> < NGX_TIMER_LAZY_DELAY)"
proof -
  let ?k = "current_msec E + timer"
  note o = timers_okD [OF ok]
  have k: "sint (?k - current_msec E) = uint timer" "near (sint (?k - current_msec E))" using short_timer [OF t] by auto
  show ?thesis
  proof (cases "ev \<in> set as")
    case False
    then have "ngx_event_add_timer ev timer E = link_timer ev ?k E" using o(5) by (simp add: ngx_event_add_timer_def)
    with link_timer [OF ok False ev k(2)] k(1) show ?thesis by auto
  next
    case True
    have diff: "sint (ngx_abs (?k - key (mem (timers E) ev))) = \<bar>due E ev - uint timer\<bar>"
      using abs_diff [OF k(2), of "key (mem (timers E) ev)"] o(3) [OF True] k(1) by (simp add: due_def abs_minus_commute)
    show ?thesis
    proof (cases "\<bar>due E ev - uint timer\<bar> < NGX_TIMER_LAZY_DELAY")
      case lazy: True
      then have "ngx_event_add_timer ev timer E = Some E" using diff True o(5) by (simp add: ngx_event_add_timer_def Let_def)
      with lazy True ok show ?thesis by (auto simp: same_rest_def insert_absorb)
    next
      case late: False
      from del_timer [OF ok True] obtain E1 where E1: "ngx_event_del_timer ev E = Some E1" "timers_ok E1 (remove1 ev as)"
        "same_rest E E1" "\<forall>a. a \<noteq> ev \<longrightarrow> due E1 a = due E a" by blast
      have now: "current_msec E1 = current_msec E" "sentinel (timers E1) = sentinel (timers E)" using E1(3) by (auto simp: same_rest_def)
      have "ev \<notin> set (remove1 ev as)" using o(6) by simp
      from link_timer [OF E1(2) this ev(1), of ?k] ev k now obtain E' as' where
        E': "link_timer ev ?k E1 = Some E'" "timers_ok E' as'" "set as' = insert ev (set (remove1 ev as))" "same_rest E1 E'"
          "due E' ev = uint timer" "\<forall>a. a \<noteq> ev \<longrightarrow> due E' a = due E1 a" by auto
      have "ngx_event_add_timer ev timer E = Some E'"
        using late diff True o(5) E1(1) E'(1) by (simp add: ngx_event_add_timer_def Let_def)
      moreover have "set as' = insert ev (set as)" using E'(3) o(6) by auto
      moreover have "same_rest E E'" using E1(3) E'(4) by (simp add: same_rest_def)
      ultimately show ?thesis using E' E1(4) by auto
    qed
  qed
qed

text \<open>The clock moves on: the order of the timers stays as long as they are not too far in the past.\<close>

lemma timers_clock:
  assumes ok: "timers_ok E as" and near: "\<forall>a \<in> set as. near (due E a - uint d)"
  shows "timers_ok (E\<lparr>current_msec := current_msec E + d\<rparr>) as"
proof -
  note o = timers_okD [OF ok]
  let ?E = "E\<lparr>current_msec := current_msec E + d\<rparr>"
  have due: "due ?E a = due E a - uint d" if "a \<in> set as" for a
  proof -
    have "due ?E a = sint (key (mem (timers E) a) - (current_msec E + d))" by (simp add: due_def)
    also have "key (mem (timers E) a) - (current_msec E + d) = word_of_int (due E a - uint d)" by (simp add: due_def)
    also have "sint (word_of_int (due E a - uint d) :: uint64) = due E a - uint d" using near that by (intro near_sint) auto
    finally show ?thesis .
  qed
  have "sorted (map (due ?E) as)" using o(2) unfolding sorted_map
    by (rule sorted_wrt_mono_rel [rotated]) (simp add: due)
  then show ?thesis using ok due near by (simp add: timers_ok_def)
qed

subsection \<open>Expiry\<close>

text \<open>The first timer is due and taken out of the tree.\<close>

lemma expire_first:
  assumes "timers_ok E (a # as)"
  shows "\<exists>T. ngx_rbtree_delete (timers E) a = Some T \<and> timers_ok (expired a T E) as \<and> sentinel T = sentinel (timers E) \<and>
    (\<forall>b. b \<noteq> a \<longrightarrow> due (expired a T E) b = due E b)"
proof -
  from del_timer [OF assms, of a] obtain E' T where E': "ngx_rbtree_delete (timers E) a = Some T"
    "E' = E\<lparr>timers := T, timer_set := (timer_set E)(a := False)\<rparr>" "timers_ok E' as" "same_rest E E'"
    "\<forall>b. b \<noteq> a \<longrightarrow> due E' b = due E b" by (auto simp: ngx_event_del_timer_def)
  have "due (expired a T E) = due E'" by (simp add: fun_eq_iff due_def E'(2) expired_def)
  with E' show ?thesis by (auto simp: timers_ok_def expired_def same_rest_def)
qed

lemma expire_loop_step:
  assumes ok: "timers_ok E as"
  shows "expire_loop handler (sentinel (timers E)) E =
    (case as of
       [] \<Rightarrow> Some E
     | a # _ \<Rightarrow> if due E a > 0 then Some E
              else Option.bind (handler a (expired a (the (ngx_rbtree_delete (timers E) a)) E)) (expire_loop handler (sentinel (timers E))))"
proof (cases as)
  case Nil
  then show ?thesis using held_empty [OF timers_okD(1) [OF ok]] by (subst expire_loop.simps) simp
next
  case (Cons a as')
  have "root (timers E) \<noteq> sentinel (timers E)" "ngx_rbtree_min (timers E) (root (timers E)) = Some a"
    using held_empty held_min timers_okD(1) [OF ok] Cons by blast+
  with expire_first [of E a as'] ok Cons show ?thesis by (subst expire_loop.simps) (auto simp: due_def)
qed

definition due_events :: "'a events \<Rightarrow> addr set" where
  "due_events E = {a. timer_set E a \<and> due E a \<le> 0}"

lemma due_events_expired:
  assumes "timers_ok E (a # as)" "due E a \<le> 0" "ngx_rbtree_delete (timers E) a = Some T"
  shows "due_events (expired a T E) = due_events E - {a}" "a \<in> due_events E"
proof -
  from expire_first [OF assms(1)] assms(3) have e: "timers_ok (expired a T E) as" "\<forall>b. b \<noteq> a \<longrightarrow> due (expired a T E) b = due E b" by auto
  show "a \<in> due_events E" using timers_okD(5) [OF assms(1)] assms(2) by (simp add: due_events_def)
  show "due_events (expired a T E) = due_events E - {a}"
  proof (rule set_eqI)
    fix b
    show "b \<in> due_events (expired a T E) \<longleftrightarrow> b \<in> due_events E - {a}"
      using timers_okD(5, 6) [OF assms(1)] timers_okD(5) [OF e(1)] e(2) by (cases "b = a") (simp_all add: due_events_def)
  qed
qed

lemma expire_returns:
  assumes handler: "\<And>ev E as. timers_ok E as \<Longrightarrow> \<not> timer_set E ev \<Longrightarrow> ev \<notin> {NULL, s} \<Longrightarrow> sentinel (timers E) = s \<Longrightarrow>
      \<exists>E' as'. handler ev E = Some E' \<and> timers_ok E' as' \<and> sentinel (timers E') = s \<and> due_events E' \<subseteq> due_events E"
    and "timers_ok E as" "sentinel (timers E) = s"
  shows "\<exists>E' as'. expire_loop handler s E = Some E' \<and> timers_ok E' as' \<and> due_events E' = {}"
  using assms(2, 3)
proof (induction "card (due_events E)" arbitrary: E as rule: less_induct)
  case less
  note ok = less.prems(1) and o = timers_okD [OF less.prems(1)]
  show ?case
  proof (cases "\<exists>a as'. as = a # as' \<and> due E a \<le> 0")
    case False
    then have "due_events E = {}" using o(2, 5) by (cases as) (auto simp: due_events_def)
    with False ok less.prems(2) expire_loop_step [OF ok, of handler] show ?thesis by (auto split: list.splits)
  next
    case True
    then obtain a as' where a: "as = a # as'" "due E a \<le> 0" by blast
    from expire_first [of E a as'] ok a obtain T where T: "ngx_rbtree_delete (timers E) a = Some T"
      "timers_ok (expired a T E) as'" "sentinel T = sentinel (timers E)" by auto
    have "\<not> timer_set (expired a T E) a" "a \<notin> {NULL, s}" "sentinel (timers (expired a T E)) = s"
      using T(3) less.prems(2) o(4) held_distinct [OF o(1)] a(1) by (auto simp: expired_def)
    from handler [OF T(2) this] obtain E1 as1 where E1: "handler a (expired a T E) = Some E1" "timers_ok E1 as1"
      "sentinel (timers E1) = s" "due_events E1 \<subseteq> due_events (expired a T E)" by blast
    have "finite (due_events E)" by (rule finite_subset [of _ "set as"]) (auto simp: due_events_def o(5))
    moreover have "due_events E1 \<subset> due_events E" using E1(4) due_events_expired [OF ok [unfolded a(1)] a(2) T(1)] by auto
    ultimately have "card (due_events E1) < card (due_events E)" by (rule psubset_card_mono)
    from less.hyps [OF this E1(2, 3)] obtain E' as2 where "expire_loop handler s E1 = Some E'" "timers_ok E' as2" "due_events E' = {}" by blast
    moreover have "expire_loop handler s E = expire_loop handler s E1"
      using expire_loop_step [OF ok, of handler] a T(1) E1(1) less.prems(2) by simp
    ultimately show ?thesis by auto
  qed
qed

text \<open>With handlers that only record that they are called.\<close>

lemma expire_calls:
  assumes "timers_ok E as"
  shows "\<exists>E'. expire_loop (\<lambda>ev E. Some (E\<lparr>others := others E @ [ev]\<rparr>)) (sentinel (timers E)) E = Some E' \<and>
    others E' = others E @ filter (\<lambda>a. due E a \<le> 0) as \<and> timers_ok E' (filter (\<lambda>a. due E a > 0) as)"
  using assms
proof (induction as arbitrary: E)
  case Nil
  then show ?case using expire_loop_step [OF Nil] by simp
next
  case (Cons a as)
  let ?h = "\<lambda>ev E. Some (E\<lparr>others := others E @ [ev]\<rparr>)"
  show ?case
  proof (cases "due E a > 0")
    case True
    have "\<forall>b \<in> set as. due E b > 0" using timers_okD(2) [OF Cons.prems] True by auto
    with True Cons.prems expire_loop_step [OF Cons.prems, of ?h] show ?thesis by (auto simp: filter_empty_conv)
  next
    case False
    from expire_first [OF Cons.prems] obtain T where T: "ngx_rbtree_delete (timers E) a = Some T"
      "timers_ok (expired a T E) as" "sentinel T = sentinel (timers E)" "\<forall>b. b \<noteq> a \<longrightarrow> due (expired a T E) b = due E b" by auto
    define E1 where "E1 = (expired a T E)\<lparr>others := others E @ [a]\<rparr>"
    have due: "due E1 b = due E b" if "b \<in> set as" for b
      using T(4) that timers_okD(6) [OF Cons.prems] by (auto simp: due_def E1_def)
    have "due E1 = due (expired a T E)" by (simp add: fun_eq_iff due_def E1_def)
    then have "timers_ok E1 as" using T(2) by (simp add: timers_ok_def E1_def)
    from Cons.IH [OF this] due obtain E' where E': "expire_loop ?h (sentinel (timers E1)) E1 = Some E'"
      "others E' = others E1 @ filter (\<lambda>a. due E a \<le> 0) as" "timers_ok E' (filter (\<lambda>a. due E a > 0) as)"
      by (auto cong: filter_cong)
    have "sentinel (timers E1) = sentinel (timers E)" "others E1 = others E @ [a]" "others (expired a T E) = others E"
      using T(3) by (simp_all add: E1_def expired_def)
    with E' expire_loop_step [OF Cons.prems, of ?h] T(1) False show ?thesis by (simp add: E1_def)
  qed
qed

subsection \<open>What the event loop relies on\<close>

text \<open>
  Property C19: setting a timer of less than 2^62 milliseconds for an event returns and keeps the invariant of the
  timers: the tree is a red-black tree of the events with timers, in the order in which they are due.
  The event is then due after the time given; only if it had a timer already that differs by less than
  NGX_TIMER_LAZY_DELAY, nothing changes.  No other timer changes.
\<close>

theorem timer_add:
  assumes "timers_ok E as" "ev \<noteq> NULL" "ev \<noteq> sentinel (timers E)" "timer < 2 ^ 62"
  shows "\<exists>E' as'. ngx_event_add_timer ev timer E = Some E' \<and> timers_ok E' as' \<and> set as' = insert ev (set as) \<and> same_rest E E' \<and>
    (\<forall>a. a \<noteq> ev \<longrightarrow> due E' a = due E a) \<and>
    (due E' ev = uint timer \<or> E' = E \<and> ev \<in> set as \<and> \<bar>due E ev - uint timer\<bar> < NGX_TIMER_LAZY_DELAY)"
  using assms by (rule add_timer)

definition no_events :: "unit events" where
  "no_events = \<lparr>timers = ngx_rbtree_init 1 (\<lambda>_. \<lparr>key = 0, left = 0, right = 0, parent = 0, color = False\<rparr>),
     timer_set = (\<lambda>_. False), timedout = (\<lambda>_. False), cancelable = (\<lambda>_. False), current_msec = 100, others = ()\<rparr>"

lemma no_events_ok: "timers_ok no_events []" "sentinel (timers no_events) = 1"
  by (simp_all add: timers_ok_def no_events_def held_init) (simp add: ngx_rbtree_init_def ngx_rbt_black_def)

theorem timer_add_witness:
  "\<exists>E' as'. ngx_event_add_timer 7 250 no_events = Some E' \<and> timers_ok E' as' \<and> set as' = {7} \<and> due E' 7 = 250"
  using timer_add [OF no_events_ok(1), of 7 250] no_events_ok(2) by auto

text \<open>
  \<^verbatim>\<open>ngx_event_find_timer\<close> returns the time to the first timer, 0 if it is overdue, and
  NGX_TIMER_INFINITE if there is none.
\<close>

theorem timer_find:
  assumes "timers_ok E as"
  shows "ngx_event_find_timer E =
    Some (if \<forall>a. \<not> timer_set E a then NGX_TIMER_INFINITE else word_of_int (max 0 (Min (due E ` {a. timer_set E a}))))"
proof -
  note o = timers_okD [OF assms]
  show ?thesis
  proof (cases as)
    case Nil
    then show ?thesis using held_empty [OF o(1)] o(5) by (simp add: ngx_event_find_timer_def Let_def)
  next
    case (Cons a bs)
    have "{a. timer_set E a} = set as" using o(5) by auto
    moreover have "Min (due E ` set as) = due E a" using o(2) Cons by (intro Min_eqI) auto
    moreover have "root (timers E) \<noteq> sentinel (timers E)" "ngx_rbtree_min (timers E) (root (timers E)) = Some a"
      using held_empty held_min o(1) Cons by blast+
    moreover have "max 0 (due E a) = (if due E a > 0 then due E a else 0)" by simp
    moreover have "timer_set E a" using o(5) Cons by simp
    ultimately show ?thesis by (auto simp: ngx_event_find_timer_def Let_def due_def)
  qed
qed

theorem timer_find_witness:
  "ngx_event_find_timer no_events = Some NGX_TIMER_INFINITE \<and>
   (\<exists>E. ngx_event_add_timer 7 250 no_events = Some E \<and> ngx_event_find_timer E = Some 250)"
proof -
  have "ngx_event_find_timer no_events = Some NGX_TIMER_INFINITE" using timer_find [OF no_events_ok(1)] by (simp add: no_events_def)
  moreover from add_timer [OF no_events_ok(1), of 7 250] no_events_ok(2) obtain E as where
    E: "ngx_event_add_timer 7 250 no_events = Some E" "timers_ok E as" "set as = {7}" "due E 7 = 250" by auto
  moreover have "{a. timer_set E a} = {7}" using timers_okD(5) [OF E(2)] E(3) by auto
  with timer_find [OF E(2)] E(4) have "ngx_event_find_timer E = Some 250" by auto
  ultimately show ?thesis by auto
qed

text \<open>
  Property C20: \<^verbatim>\<open>ngx_event_expire_timers\<close> returns, provided that every handler returns, keeps the invariant of the
  timers and sets timers only to times in the future; afterwards no timer is due.
\<close>

theorem timer_expire:
  assumes "timers_ok E as"
    and "\<And>ev E1 as1. timers_ok E1 as1 \<Longrightarrow> \<not> timer_set E1 ev \<Longrightarrow> ev \<notin> {NULL, sentinel (timers E)} \<Longrightarrow>
      sentinel (timers E1) = sentinel (timers E) \<Longrightarrow>
      \<exists>E2 as2. handler ev E1 = Some E2 \<and> timers_ok E2 as2 \<and> sentinel (timers E2) = sentinel (timers E) \<and>
        due_events E2 \<subseteq> due_events E1"
  shows "\<exists>E' as'. ngx_event_expire_timers handler E = Some E' \<and> timers_ok E' as' \<and> (\<forall>a. timer_set E' a \<longrightarrow> due E' a > 0)"
proof -
  from expire_returns [of "sentinel (timers E)" handler E as] assms obtain E' as' where
    "expire_loop handler (sentinel (timers E)) E = Some E'" "timers_ok E' as'" "due_events E' = {}" by blast
  then show ?thesis by (auto simp: ngx_event_expire_timers_def due_events_def not_le)
qed

text \<open>A handler that sets the timer of its event again, to a second from now, is such a handler.\<close>

lemma rearm_handler:
  assumes "timers_ok E as" "\<not> timer_set E ev" "ev \<notin> {NULL, s}" "sentinel (timers E) = s"
  shows "\<exists>E' as'. ngx_event_add_timer ev 1000 E = Some E' \<and> timers_ok E' as' \<and> sentinel (timers E') = s \<and>
    due_events E' \<subseteq> due_events E"
proof -
  from add_timer [OF assms(1), of ev 1000] assms(3, 4) obtain E' as' where
    E': "ngx_event_add_timer ev 1000 E = Some E'" "timers_ok E' as'" "set as' = insert ev (set as)" "same_rest E E'"
      "\<forall>a. a \<noteq> ev \<longrightarrow> due E' a = due E a" "due E' ev = 1000 \<or> ev \<in> set as" by auto
  have "ev \<notin> set as" using assms(2) timers_okD(5) [OF assms(1)] by simp
  with E'(3, 5, 6) timers_okD(5) [OF assms(1)] timers_okD(5) [OF E'(2)] have "due_events E' \<subseteq> due_events E"
    by (force simp: due_events_def)
  with E'(1, 2, 4) assms(4) show ?thesis by (auto simp: same_rest_def)
qed

theorem timer_expire_witness:
  "\<exists>E E' as'. ngx_event_add_timer 7 0 no_events = Some E \<and> due E 7 = 0 \<and>
     ngx_event_expire_timers (\<lambda>ev. ngx_event_add_timer ev 1000) E = Some E' \<and> timers_ok E' as' \<and>
     (\<forall>a. timer_set E' a \<longrightarrow> due E' a > 0)"
proof -
  from add_timer [OF no_events_ok(1), of 7 0] no_events_ok(2) obtain E as where
    E: "ngx_event_add_timer 7 0 no_events = Some E" "timers_ok E as" "due E 7 = 0" by auto
  with timer_expire [OF E(2), of "\<lambda>ev. ngx_event_add_timer ev 1000"] rearm_handler show ?thesis by metis
qed

text \<open>
  The handlers are called once for each timer that is due, the one that is due first coming first, and for no
  other; the timers that are not due stay.  The statement is about handlers that record their calls.
\<close>

theorem timer_expire_order:
  assumes "timers_ok E as"
  shows "\<exists>E'. ngx_event_expire_timers (\<lambda>ev E. Some (E\<lparr>others := others E @ [ev]\<rparr>)) E = Some E' \<and>
    others E' = others E @ filter (\<lambda>a. due E a \<le> 0) as \<and> timers_ok E' (filter (\<lambda>a. due E a > 0) as)"
  using expire_calls [OF assms] by (simp add: ngx_event_expire_timers_def)

theorem timer_expire_order_witness:
  "\<exists>E0 E E'. timers_ok E0 [] \<and> ngx_event_add_timer 7 0 E0 = Some E \<and>
     ngx_event_expire_timers (\<lambda>ev E. Some (E\<lparr>others := others E @ [ev]\<rparr>)) E = Some E' \<and> others E' = [7] \<and> timers_ok E' []"
proof -
  let ?n = "\<lparr>key = 0, left = 1, right = 1, parent = 0, color = False\<rparr>"
  let ?E = "\<lparr>timers = ngx_rbtree_init 1 (\<lambda>_. ?n), timer_set = (\<lambda>_. False), timedout = (\<lambda>_. False),
    cancelable = (\<lambda>_. False), current_msec = 0, others = [] :: addr list\<rparr>"
  have ok: "timers_ok ?E []" by (simp add: timers_ok_def held_init)
  have s: "sentinel (timers ?E) = 1" by (simp add: ngx_rbtree_init_def ngx_rbt_black_def)
  from add_timer [OF ok, of 7 0] s obtain E as where
    E: "ngx_event_add_timer 7 0 ?E = Some E" "timers_ok E as" "set as = {7}" "same_rest ?E E" "due E 7 = 0" by auto
  have "as = [7]" using E(3) timers_okD(6) [OF E(2)] by (cases as; cases "tl as") auto
  moreover have "others E = []" using E(4) by (simp add: same_rest_def)
  ultimately obtain E' where "ngx_event_expire_timers (\<lambda>ev E. Some (E\<lparr>others := others E @ [ev]\<rparr>)) E = Some E'"
    "others E' = [7]" "timers_ok E' []" using timer_expire_order [OF E(2)] E(5) by auto
  with ok E(1) show ?thesis by blast
qed

text \<open>On exit a worker waits for the timers that cannot be cancelled.\<close>

lemma no_timers_loop:
  assumes "held (timers E) (as @ bs)" "NULL \<notin> set bs"
  shows "no_timers_loop E (hd (bs @ [NULL])) = Some (if \<forall>a \<in> set bs. cancelable E a then NGX_OK else NGX_AGAIN)"
  using assms
proof (induction bs arbitrary: as)
  case Nil
  then show ?case by (subst no_timers_loop.simps) simp
next
  case (Cons b bs)
  have "no_timers_loop E (hd (bs @ [NULL])) = Some (if \<forall>a \<in> set bs. cancelable E a then NGX_OK else NGX_AGAIN)"
    using Cons.IH [of "as @ [b]"] Cons.prems by simp
  moreover have "ngx_rbtree_next (timers E) b = Some (hd (bs @ [NULL]))" using held_next Cons.prems(1) by blast
  ultimately show ?case using Cons.prems(2) by (subst no_timers_loop.simps) auto
qed

theorem no_timers_left:
  assumes "timers_ok E as"
  shows "ngx_event_no_timers_left E = Some (if \<forall>a. timer_set E a \<longrightarrow> cancelable E a then NGX_OK else NGX_AGAIN)"
proof (cases as)
  case Nil
  then show ?thesis using held_empty timers_okD(1, 5) [OF assms] by (simp add: ngx_event_no_timers_left_def)
next
  case (Cons a bs)
  note o = timers_okD [OF assms]
  have "root (timers E) \<noteq> sentinel (timers E)" "ngx_rbtree_min (timers E) (root (timers E)) = Some (hd (as @ [NULL]))"
    using held_empty held_min o(1) Cons by (blast, simp)
  moreover have "NULL \<notin> set as" using o(4) by blast
  ultimately show ?thesis using no_timers_loop [of E "[]" as] o(1, 5) by (simp add: ngx_event_no_timers_left_def)
qed

end
