(* ===== verification/Ngx_Times.thy ===== *)
theory Ngx_Times
  imports Ngx_Prelude
begin

text \<open>
  Dates (\<^verbatim>\<open>src/core/ngx_times.c\<close>): the conversion of a time in seconds to a date, \<^verbatim>\<open>ngx_gmtime\<close>, and the
  text of a date in headers and cookies.  The conversion is compared with the Gregorian calendar,
  counted day by day from the first of January 1970.
\<close>

subsection \<open>Seconds to dates\<close>

record ngx_tm =
  tm_sec :: int
  tm_min :: int
  tm_hour :: int
  tm_mday :: int
  tm_mon :: int
  tm_year :: int
  tm_wday :: int

text \<open>Days since 1970 to year, month and day: Gauss' formula and its inverse.\<close>

definition gm_date :: "int \<Rightarrow> int \<times> int \<times> int" where
  "gm_date n =
     (let days = n - (31 + 28) + 719527;
          year = (days + 2) * 400 div (365 * 400 + 100 - 4 + 1);
          yday = days - (365 * year + year div 4 - year div 100 + year div 400);
          (yday, year) =
            (if yday < 0 then
               let leap = (if year mod 4 = 0 \<and> (year mod 100 \<noteq> 0 \<or> year mod 400 = 0) then 1 else 0)
               in (365 + leap + yday, year - 1)
             else (yday, year));
          mon = (yday + 31) * 10 div 306;
          mday = yday - (367 * mon div 12 - 30) + 1
      in if yday \<ge> 306 then (year + 1, mon - 10, mday) else (year, mon + 2, mday))"

definition ngx_gmtime :: "int \<Rightarrow> ngx_tm" where
  "ngx_gmtime t =
     (let t = (if t < 0 then 0 else t);
          days = t div 86400;
          secs = t mod 86400;
          (days, secs) = (if days > 2932896 then (2932896, 86399) else (days, secs));
          (year, mon, mday) = gm_date days
      in \<lparr>tm_sec = secs mod 3600 mod 60, tm_min = secs mod 3600 div 60, tm_hour = secs div 3600,
          tm_mday = mday, tm_mon = mon, tm_year = year, tm_wday = (4 + days) mod 7\<rparr>)"

subsection \<open>The calendar\<close>

definition leap_year :: "int \<Rightarrow> bool" where
  "leap_year y \<longleftrightarrow> 4 dvd y \<and> (\<not> 100 dvd y \<or> 400 dvd y)"

definition month_length :: "int \<Rightarrow> int \<Rightarrow> int" where
  "month_length y m = (if m = 2 then if leap_year y then 29 else 28 else if m \<in> {4, 6, 9, 11} then 30 else 31)"

fun next_day :: "int \<times> int \<times> int \<Rightarrow> int \<times> int \<times> int" where
  "next_day (y, m, d) =
     (if d < month_length y m then (y, m, d + 1) else if m < 12 then (y, m + 1, 1) else (y + 1, 1, 1))"

definition calendar :: "nat \<Rightarrow> int \<times> int \<times> int" where
  "calendar n = (next_day ^^ n) (1970, 1, 1)"

definition valid_date :: "int \<times> int \<times> int \<Rightarrow> bool" where
  "valid_date = (\<lambda>(y, m, d). 1 \<le> m \<and> m \<le> 12 \<and> 1 \<le> d \<and> d \<le> month_length y m)"

subsection \<open>Counting days\<close>

text \<open>The days from March 1, 1 BC, to March 1 of a year.\<close>

definition march_first :: "int \<Rightarrow> int" where
  "march_first y = 365 * y + y div 4 - y div 100 + y div 400"

lemma div_pred:
  fixes y n :: int
  assumes "0 < n"
  shows "(y - 1) div n = (if n dvd y then y div n - 1 else y div n)"
proof (cases "n dvd y")
  case True
  then obtain q where "y = n * q" by blast
  moreover have "(n * q - 1) div n = q - 1"
    by (rule int_div_pos_eq [of _ n _ "n - 1"]) (use assms in \<open>auto simp: algebra_simps\<close>)
  ultimately show ?thesis using assms by simp
next
  case False
  then have "y mod n \<noteq> 0" by (simp add: dvd_eq_mod_eq_0)
  moreover have "0 \<le> y mod n" "y mod n < n" using assms by simp_all
  moreover have "y - 1 = n * (y div n) + (y mod n - 1)" using mult_div_mod_eq [of n y] by linarith
  ultimately have "(y - 1) div n = y div n" by (intro int_div_pos_eq [of _ n _ "y mod n - 1"]) auto
  with False show ?thesis by simp
qed

lemma march_first_pred: "march_first y - march_first (y - 1) = (if leap_year y then 366 else 365)"
proof -
  have sum: "365 * y + A - B + C - (365 * (y - 1) + (if p then A - 1 else A) - (if q then B - 1 else B) + (if r then C - 1 else C)) =
      (if p \<and> (\<not> q \<or> r) then 366 else 365)" if "q \<Longrightarrow> p" "r \<Longrightarrow> q" for A B C :: int and p q r
    using that by (cases p; cases q; cases r; simp)
  have "4 dvd y" if "100 dvd y" using that by (rule dvd_trans [rotated]) simp
  moreover have "100 dvd y" if "400 dvd y" using that by (rule dvd_trans [rotated]) simp
  ultimately show ?thesis
    unfolding march_first_def leap_year_def div_pred [of 4 y, OF zero_less_numeral] div_pred [of 100 y, OF zero_less_numeral]
      div_pred [of 400 y, OF zero_less_numeral] by (rule sum)
qed

lemma floor_bounds:
  fixes y n :: int
  assumes "0 < n"
  shows "n * (y div n) \<le> y" "y < n * (y div n) + n"
  using mult_div_mod_eq [of n y] pos_mod_bound [OF assms, of y] pos_mod_sign [OF assms, of y] by linarith+

text \<open>The mean length of a year is 146097 / 400 days.\<close>

lemma march_first_bounds: "146097 * y < 400 * march_first y + 800" "400 * march_first y \<le> 146097 * y + 396"
proof -
  have sum: "146097 * y < 400 * (365 * y + A - B + C) + 800 \<and> 400 * (365 * y + A - B + C) \<le> 146097 * y + 396"
    if "4 * A \<le> y" "y < 4 * A + 4" "100 * B \<le> y" "y < 100 * B + 100" "400 * C \<le> y" "y < 400 * C + 400" for A B C :: int
    using that by (simp add: algebra_simps)
  note bounds = floor_bounds [of 4 y, OF zero_less_numeral] floor_bounds [of 100 y, OF zero_less_numeral]
    floor_bounds [of 400 y, OF zero_less_numeral]
  show "146097 * y < 400 * march_first y + 800" "400 * march_first y \<le> 146097 * y + 396"
    unfolding march_first_def using sum [OF bounds] by blast+
qed

lemma march_first_less: "y < z \<Longrightarrow> march_first y < march_first z"
proof (induction z rule: int_gr_induct [of y])
  case base
  then show ?case using march_first_pred [of "y + 1"] by (auto split: if_splits)
next
  case (step z)
  then show ?case using march_first_pred [of "z + 1"] by (auto split: if_splits)
qed

lemma march_year_unique:
  assumes "march_first y \<le> x" "x < march_first (y + 1)" "march_first z \<le> x" "x < march_first (z + 1)"
  shows "y = z"
proof (rule ccontr)
  assume "y \<noteq> z"
  then consider "y + 1 = z" | "y + 1 < z" | "z + 1 = y" | "z + 1 < y" by linarith
  then show False using assms march_first_less [of "y + 1" z] march_first_less [of "z + 1" y] by cases auto
qed

text \<open>The year found by the formula, counted from March, is the one the day lies in.\<close>

lemma year_of_day:
  assumes "Y = (x + 2) * 400 div 146097"
  shows "march_first (Y - 1) \<le> x" "x < march_first (Y + 1)"
proof -
  have "146097 * Y \<le> (x + 2) * 400" "(x + 2) * 400 < 146097 * Y + 146097"
    unfolding assms using floor_bounds [of 146097 "(x + 2) * 400", OF zero_less_numeral] by simp_all
  with march_first_bounds(2) [of "Y - 1"] march_first_bounds(1) [of "Y + 1"]
  show "march_first (Y - 1) \<le> x" "x < march_first (Y + 1)" by simp_all
qed

text \<open>The day of the year determines month and day; the months start with March.\<close>

definition march_length :: "int \<Rightarrow> int" where
  "march_length m = (if m \<in> {2, 4, 7, 9} then 30 else if m = 12 then 29 else 31)"

lemma month_cases:
  fixes m :: int
  assumes "1 \<le> m" "m \<le> 12"
  obtains "m = 1" | "m = 2" | "m = 3" | "m = 4" | "m = 5" | "m = 6" | "m = 7" | "m = 8" | "m = 9" | "m = 10" | "m = 11" | "m = 12"
proof -
  have "m = 1 \<or> m = 2 \<or> m = 3 \<or> m = 4 \<or> m = 5 \<or> m = 6 \<or> m = 7 \<or> m = 8 \<or> m = 9 \<or> m = 10 \<or> m = 11 \<or> m = 12"
    using assms by presburger
  with that show ?thesis by blast
qed

lemma month_of_day:
  assumes "1 \<le> m" "m \<le> 12" "1 \<le> d" "d \<le> march_length m" "yday = 367 * m div 12 - 30 + d - 1"
  shows "(yday + 31) * 10 div 306 = m" "yday \<ge> 306 \<longleftrightarrow> m > 10"
proof -
  have "306 * m \<le> (yday + 31) * 10 \<and> (yday + 31) * 10 < 306 * m + 306 \<and> (yday \<ge> 306 \<longleftrightarrow> m > 10)"
    using month_cases [OF assms(1, 2)] assms(3-5) by cases (auto simp: march_length_def)
  then show "(yday + 31) * 10 div 306 = m" "yday \<ge> 306 \<longleftrightarrow> m > 10"
    by (auto intro!: int_div_pos_eq [of _ 306 _ "(yday + 31) * 10 - 306 * m"])
qed

text \<open>The number of a date: the formula of \<^verbatim>\<open>ngx_parse_http_time\<close>.\<close>

fun day_number :: "int \<times> int \<times> int \<Rightarrow> int" where
  "day_number (y, m, d) =
     (let (m, y) = (if m \<le> 2 then (m + 10, y - 1) else (m - 2, y))
      in march_first y + (367 * m div 12 - 30) + d - 1 - 719527 + 31 + 28)"

lemma gm_date_day_number:
  assumes "valid_date (y, m, d)"
  shows "gm_date (day_number (y, m, d)) = (y, m, d)"
proof -
  define m' where "m' = (if m \<le> 2 then m + 10 else m - 2)"
  define y' where "y' = (if m \<le> 2 then y - 1 else y)"
  define yday where "yday = 367 * m' div 12 - 30 + d - 1"
  define x where "x = march_first y' + yday"
  have m: "1 \<le> m" "m \<le> 12" "1 \<le> d" "d \<le> month_length y m" using assms by (auto simp: valid_date_def)
  have m': "1 \<le> m'" "m' \<le> 12" "d \<le> march_length m'" "0 \<le> yday" "yday < (if leap_year (y' + 1) then 366 else 365)"
    using month_cases [OF m(1, 2)] m(3, 4)
    by (cases; simp add: m'_def y'_def yday_def march_length_def month_length_def split: if_splits)+
  note month = month_of_day [OF m'(1, 2) m(3) m'(3) yday_def]
  have x: "march_first y' \<le> x" "x < march_first (y' + 1)"
    using m'(4, 5) march_first_pred [of "y' + 1"] by (auto simp: x_def split: if_splits)
  have n: "day_number (y, m, d) - (31 + 28) + 719527 = x"
    by (auto simp: x_def yday_def y'_def m'_def)
  define Y where "Y = (x + 2) * 400 div 146097"
  note Y = year_of_day [OF Y_def]
  have year: "(if x - march_first Y < 0 then (365 + (if leap_year Y then 1 else 0) + (x - march_first Y), Y - 1) else (x - march_first Y, Y)) =
      (yday, y')"
  proof (cases "x - march_first Y < 0")
    case True
    then have "Y - 1 = y'" using march_year_unique [of "Y - 1" x y'] Y x by simp
    with True march_first_pred [of Y] show ?thesis by (auto simp: x_def)
  next
    case False
    then have "Y = y'" using march_year_unique [of Y x y'] Y x by simp
    with False show ?thesis by (auto simp: x_def)
  qed
  have leap: "year mod 4 = 0 \<and> (year mod 100 \<noteq> 0 \<or> year mod 400 = 0) \<longleftrightarrow> leap_year year" for year
    by (simp add: leap_year_def dvd_eq_mod_eq_0)
  have "gm_date (day_number (y, m, d)) =
      (case (yday, y') of (yday, year) \<Rightarrow>
         if yday \<ge> 306 then (year + 1, (yday + 31) * 10 div 306 - 10, yday - (367 * ((yday + 31) * 10 div 306) div 12 - 30) + 1)
         else (year, (yday + 31) * 10 div 306 + 2, yday - (367 * ((yday + 31) * 10 div 306) div 12 - 30) + 1))"
    unfolding gm_date_def n Let_def march_first_def [symmetric] leap
    by (simp only: year [symmetric, unfolded Y_def]) (simp add: Let_def Y_def split: prod.split)
  also have "\<dots> = (y, m, d)" using month m(1, 2) by (auto simp: yday_def y'_def m'_def)
  finally show ?thesis .
qed

lemma next_day_number:
  assumes "valid_date a"
  shows "day_number (next_day a) = day_number a + 1 \<and> valid_date (next_day a)"
proof -
  obtain y m d where a: "a = (y, m, d)" by (cases a)
  have m: "1 \<le> m" "m \<le> 12" "1 \<le> d" "d \<le> month_length y m" using assms by (auto simp: valid_date_def a)
  have one: "valid_date (y, m, 1)" if "1 \<le> m" "m \<le> 12" for y m using that by (simp add: valid_date_def month_length_def)
  show ?thesis
  proof (cases "d < month_length y m")
    case True
    with m show ?thesis by (auto simp: a valid_date_def Let_def)
  next
    case False
    then have d: "d = month_length y m" using m by simp
    have "day_number (if m < 12 then (y, m + 1, 1) else (y + 1, 1, 1)) = day_number (y, m, d) + 1"
      using month_cases [OF m(1, 2)] march_first_pred [of y] unfolding d by cases (simp_all add: month_length_def split: if_splits)
    with False m one show ?thesis by (simp add: a)
  qed
qed

lemma calendar_number: "day_number (calendar n) = int n \<and> valid_date (calendar n)"
proof (induction n)
  case 0
  then show ?case by (simp add: calendar_def valid_date_def month_length_def march_first_def)
next
  case (Suc n)
  then show ?case using next_day_number [of "calendar n"] by (simp add: calendar_def)
qed

lemma gm_date_calendar: "gm_date (int n) = calendar n"
  using calendar_number [of n] gm_date_day_number by (cases "calendar n") metis

lemma clock_parts:
  fixes s :: nat
  shows "s mod 86400 div 3600 = s div 3600 mod 24" "s mod 86400 mod 3600 div 60 = s div 60 mod 60"
    "s mod 86400 mod 3600 mod 60 = s mod 60"
proof -
  have h: "s mod 86400 = 3600 * (s div 3600 mod 24) + s mod 3600" using mod_mult2_eq [of s 3600 24] by simp
  have m: "s mod 3600 = 60 * (s div 60 mod 60) + s mod 60" using mod_mult2_eq [of s 60 60] by simp
  show "s mod 86400 div 3600 = s div 3600 mod 24" unfolding h by simp
  show "s mod 86400 mod 3600 div 60 = s div 60 mod 60" unfolding h by (simp add: m)
  show "s mod 86400 mod 3600 mod 60 = s mod 60" unfolding h by (simp add: m)
qed

lemma gmtime_nat:
  assumes "s div 86400 \<le> 2932896"
  shows "ngx_gmtime (int s) =
     (case calendar (s div 86400) of (y, m, d) \<Rightarrow>
        \<lparr>tm_sec = int (s mod 60), tm_min = int (s div 60 mod 60), tm_hour = int (s div 3600 mod 24),
         tm_mday = d, tm_mon = m, tm_year = y, tm_wday = int ((4 + s div 86400) mod 7)\<rparr>)"
proof -
  have ints: "int a mod 3600 mod 60 = int (a mod 3600 mod 60)" "int a mod 3600 div 60 = int (a mod 3600 div 60)"
    "int a div 3600 = int (a div 3600)" "(4 + int a) mod 7 = int ((4 + a) mod 7)" for a
    by (simp_all only: zmod_int zdiv_int of_nat_numeral of_nat_add)
  have "int s div 86400 = int (s div 86400)" "int s mod 86400 = int (s mod 86400)" by (simp_all add: zdiv_int zmod_int)
  moreover have "\<not> int (s div 86400) > 2932896" using assms by simp
  moreover have "int (s mod 86400) mod 3600 mod 60 = int (s mod 60)" "int (s mod 86400) mod 3600 div 60 = int (s div 60 mod 60)"
    "int (s mod 86400) div 3600 = int (s div 3600 mod 24)" "(4 + int (s div 86400)) mod 7 = int ((4 + s div 86400) mod 7)"
    by (simp_all only: ints clock_parts)
  ultimately show ?thesis
    by (simp only: ngx_gmtime_def Let_def gm_date_calendar if_False of_nat_less_0_iff prod.case)
qed

text \<open>
  Property C22: \<^verbatim>\<open>ngx_gmtime\<close> gives the date of the Gregorian calendar, counted day by day from January 1, 1970, the
  day of the week counted from Thursday, and the time of the day; times before 1970 count as its
  beginning, and times after 9999 as its end.
\<close>

theorem gmtime_calendar:
  "ngx_gmtime t =
     (let s = nat (max 0 (min t 253402300799)) in
      case calendar (s div 86400) of (y, m, d) \<Rightarrow>
        \<lparr>tm_sec = int (s mod 60), tm_min = int (s div 60 mod 60), tm_hour = int (s div 3600 mod 24),
         tm_mday = d, tm_mon = m, tm_year = y, tm_wday = int ((4 + s div 86400) mod 7)\<rparr>)"
proof -
  define s where "s = nat (max 0 (min t 253402300799))"
  have le: "s div 86400 \<le> 2932896" by (rule order_trans [OF div_le_mono [of s 253402300799]]) (simp_all add: s_def)
  have "ngx_gmtime t = ngx_gmtime (int s)"
  proof -
    consider "t < 0" | "t = int s" | "t > 253402300799" unfolding s_def by linarith
    then show ?thesis
    proof cases
      case 1
      then show ?thesis by (simp add: ngx_gmtime_def s_def)
    next
      case 3
      then have "t div 86400 > 2932896" by simp
      moreover have "int s = 253402300799" using 3 by (simp add: s_def)
      ultimately show ?thesis using 3 by (simp add: ngx_gmtime_def Let_def)
    qed simp
  qed
  with gmtime_nat [OF le] show ?thesis by (simp add: s_def [symmetric] Let_def)
qed

subsection \<open>Dates as text\<close>

definition week :: "bytes list" where
  "week = map str [''Sun'', ''Mon'', ''Tue'', ''Wed'', ''Thu'', ''Fri'', ''Sat'']"

definition months :: "bytes list" where
  "months = map str [''Jan'', ''Feb'', ''Mar'', ''Apr'', ''May'', ''Jun'', ''Jul'', ''Aug'', ''Sep'', ''Oct'', ''Nov'', ''Dec'']"

text \<open>\<^verbatim>\<open>ngx_sprintf_num\<close> for decimal numbers, with the digits written from the right, in a buffer that is large enough.\<close>

fun sprintf_digits :: "nat \<Rightarrow> bytes \<Rightarrow> bytes" where
  "sprintf_digits n p =
     (let p = (of_nat (n mod 10) + chr_0) # p in if n div 10 = 0 then p else sprintf_digits (n div 10) p)"

declare sprintf_digits.simps [simp del]

definition ngx_sprintf_num :: "int \<Rightarrow> u_char \<Rightarrow> nat \<Rightarrow> bytes" where
  "ngx_sprintf_num v zero width = (let p = sprintf_digits (nat v) [] in replicate (width - length p) zero @ p)"

definition ngx_http_time :: "int \<Rightarrow> bytes" where
  "ngx_http_time t =
     (let tm = ngx_gmtime t in
      week ! nat (tm_wday tm) @ str '', '' @ ngx_sprintf_num (tm_mday tm) chr_0 2 @ str '' '' @
      months ! nat (tm_mon tm - 1) @ str '' '' @ ngx_sprintf_num (tm_year tm) chr_space 4 @ str '' '' @
      ngx_sprintf_num (tm_hour tm) chr_0 2 @ str '':'' @ ngx_sprintf_num (tm_min tm) chr_0 2 @ str '':'' @
      ngx_sprintf_num (tm_sec tm) chr_0 2 @ str '' GMT'')"

definition ngx_http_cookie_time :: "int \<Rightarrow> bytes" where
  "ngx_http_cookie_time t =
     (let tm = ngx_gmtime t in
      week ! nat (tm_wday tm) @ str '', '' @ ngx_sprintf_num (tm_mday tm) chr_0 2 @ str ''-'' @
      months ! nat (tm_mon tm - 1) @ str ''-'' @
      (if tm_year tm > 2037 then ngx_sprintf_num (tm_year tm) chr_space 0 else ngx_sprintf_num (tm_year tm mod 100) chr_0 2) @ str '' '' @
      ngx_sprintf_num (tm_hour tm) chr_0 2 @ str '':'' @ ngx_sprintf_num (tm_min tm) chr_0 2 @ str '':'' @
      ngx_sprintf_num (tm_sec tm) chr_0 2 @ str '' GMT'')"

definition digit :: "int \<Rightarrow> u_char" where
  "digit n = of_int n + chr_0"

lemma sprintf_step: "10 \<le> n \<Longrightarrow> sprintf_digits n p = sprintf_digits (n div 10) ((of_nat (n mod 10) + chr_0) # p)"
  by (subst sprintf_digits.simps) (simp add: div_eq_0_iff Let_def)

lemma sprintf_last: "n < 10 \<Longrightarrow> sprintf_digits n p = (of_nat n + chr_0) # p"
  by (subst sprintf_digits.simps) (simp add: Let_def)

lemma sprintf_two:
  assumes "0 \<le> v" "v < 100"
  shows "ngx_sprintf_num v chr_0 2 = [digit (v div 10), digit (v mod 10)]"
proof -
  define n where "n = nat v"
  have v: "v = int n" "n < 100" using assms by (simp_all add: n_def)
  have "n div 10 div 10 = 0" "n div 10 mod 10 = n div 10" using v(2) by auto
  then have "sprintf_digits n [] =
      (if n div 10 = 0 then [of_nat (n mod 10) + chr_0] else [of_nat (n div 10) + chr_0, of_nat (n mod 10) + chr_0])"
    by (simp add: sprintf_digits.simps [of n] sprintf_digits.simps [of "n div 10"] Let_def)
  moreover have "v div 10 = int (n div 10)" "v mod 10 = int (n mod 10)" by (simp_all only: v(1) zdiv_int zmod_int of_nat_numeral)
  ultimately show ?thesis by (auto simp: ngx_sprintf_num_def v(1) digit_def Let_def)
qed

lemma sprintf_four:
  assumes "1000 \<le> v" "v < 10000" "w \<le> 4"
  shows "ngx_sprintf_num v z w = [digit (v div 1000), digit (v div 100 mod 10), digit (v div 10 mod 10), digit (v mod 10)]"
proof -
  define n where "n = nat v"
  have v: "v = int n" "1000 \<le> n" "n < 10000" using assms by (simp_all add: n_def)
  have "10 \<le> n" "10 \<le> n div 10" "10 \<le> n div 100" "n div 1000 < 10" using v by linarith+
  moreover have "n div 10 div 10 = n div 100" "n div 100 div 10 = n div 1000" by (simp_all add: div_mult2_eq [symmetric])
  ultimately have "sprintf_digits n [] =
      [of_nat (n div 1000) + chr_0, of_nat (n div 100 mod 10) + chr_0, of_nat (n div 10 mod 10) + chr_0, of_nat (n mod 10) + chr_0]"
    by (simp only: sprintf_step sprintf_last)
  moreover have "v div 1000 = int (n div 1000)" "v div 100 mod 10 = int (n div 100 mod 10)" "v div 10 mod 10 = int (n div 10 mod 10)" "v mod 10 = int (n mod 10)"
    by (simp_all only: v(1) zdiv_int zmod_int of_nat_numeral)
  ultimately have "sprintf_digits (nat v) [] = [digit (v div 1000), digit (v div 100 mod 10), digit (v div 10 mod 10), digit (v mod 10)]"
    by (simp only: n_def [symmetric] digit_def of_int_of_nat_eq)
  with assms(3) show ?thesis by (simp add: ngx_sprintf_num_def Let_def)
qed

text \<open>The fields of a date that \<^verbatim>\<open>ngx_gmtime\<close> produces.\<close>

lemma calendar_later: "1970 \<le> fst (calendar n)"
proof (induction n)
  case (Suc n)
  obtain y m d where "calendar n = (y, m, d)" by (cases "calendar n")
  with Suc show ?case by (simp add: calendar_def)
qed (simp add: calendar_def)

lemma calendar_year:
  assumes "int n < march_first (Y - 1) + 306 - 719468"
  shows "fst (calendar n) < Y"
proof (rule ccontr)
  obtain y m d where c: "calendar n = (y, m, d)" by (cases "calendar n")
  then have v: "day_number (y, m, d) = int n" "valid_date (y, m, d)" using calendar_number [of n] by auto
  have m: "1 \<le> m" "m \<le> 12" "1 \<le> d" using v(2) by (auto simp: valid_date_def)
  assume "\<not> fst (calendar n) < Y"
  then have "march_first (Y - 1) \<le> march_first (y - 1)"
    using march_first_less [of "Y - 1" "y - 1"] by (cases "y = Y") (auto simp: c)
  moreover have "march_first (y - 1) + 306 - 719468 \<le> day_number (y, m, d)"
    using month_cases [OF m(1, 2)] m(3) march_first_pred [of y] by cases (auto split: if_splits)
  ultimately show False using v(1) assms by linarith
qed

end
