(* ===== verification/Ngx_Parse_Time.thy ===== *)
theory Ngx_Parse_Time
  imports Ngx_Times
begin

text \<open>
  The reader of dates in headers, \<^verbatim>\<open>ngx_parse_http_time\<close> (\<^verbatim>\<open>src/core/ngx_parse_time.c\<close>), for the three formats
  it accepts.  A read behind the end of the value is a result of its own, so that its absence can
  be stated.  The number of seconds is computed in 64-bit words as in the code.
\<close>

subsection \<open>Reading\<close>

datatype 'a reading = Overread | Reject | Got 'a

primrec and_then :: "'a reading \<Rightarrow> ('a \<Rightarrow> 'b reading) \<Rightarrow> 'b reading" where
  "and_then Overread f = Overread"
| "and_then Reject f = Reject"
| "and_then (Got a) f = f a"

text \<open>\<^verbatim>\<open>*(p + k)\<close>, where \<open>p\<close> is the rest of the value.\<close>

definition byte :: "bytes \<Rightarrow> nat \<Rightarrow> u_char reading" where
  "byte p k = (if k < length p then Got (p ! k) else Overread)"

definition digit_at :: "bytes \<Rightarrow> nat \<Rightarrow> int reading" where
  "digit_at p k = and_then (byte p k) (\<lambda>c. if c < chr_0 \<or> c > chr_9 then Reject else Got (uint c - 0x30))"

definition two_digits :: "bytes \<Rightarrow> int reading" where
  "two_digits p = and_then (digit_at p 0) (\<lambda>a. and_then (digit_at p 1) (\<lambda>b. Got (a * 10 + b)))"

definition four_digits :: "bytes \<Rightarrow> int reading" where
  "four_digits p =
     and_then (digit_at p 0) (\<lambda>a. and_then (digit_at p 1) (\<lambda>b. and_then (digit_at p 2) (\<lambda>c. and_then (digit_at p 3) (\<lambda>d.
       Got (a * 1000 + b * 100 + c * 10 + d)))))"

definition expect :: "u_char \<Rightarrow> bytes \<Rightarrow> unit reading" where
  "expect ch p = and_then (byte p 0) (\<lambda>c. if c \<noteq> ch then Reject else Got ())"

datatype fmt = rfc822 | rfc850 | isoc

text \<open>The day of the week ends with a comma, or with a space in the third format.\<close>

fun weekday :: "bytes \<Rightarrow> bytes \<times> bool" where
  "weekday [] = ([], False)"
| "weekday (c # p) = (if c = chr_comma then (c # p, False) else if c = chr_space then (c # p, True) else weekday p)"

definition parse_day :: "bytes \<Rightarrow> (fmt \<times> int \<times> bytes) reading" where
  "parse_day p =
     and_then (two_digits p) (\<lambda>day. and_then (byte p 2) (\<lambda>c.
       if c = chr_space then if length (drop 2 p) < 18 then Reject else Got (rfc822, day, drop 3 p)
       else if c = chr_minus then Got (rfc850, day, drop 3 p)
       else Reject))"

definition parse_month :: "bytes \<Rightarrow> int reading" where
  "parse_month p =
     and_then (byte p 0) (\<lambda>c.
       if c = 0x4A then and_then (byte p 1) (\<lambda>a. if a = 0x61 then Got 0 else and_then (byte p 2) (\<lambda>b. Got (if b = 0x6E then 5 else 6)))
       else if c = 0x46 then Got 1
       else if c = 0x4D then and_then (byte p 2) (\<lambda>b. Got (if b = 0x72 then 2 else 4))
       else if c = 0x41 then and_then (byte p 1) (\<lambda>a. Got (if a = 0x70 then 3 else 7))
       else if c = 0x53 then Got 8
       else if c = 0x4F then Got 9
       else if c = 0x4E then Got 10
       else if c = 0x44 then Got 11
       else Reject)"

text \<open>What follows the month, where the year follows it.\<close>

definition parse_year :: "fmt \<Rightarrow> bytes \<Rightarrow> (int \<times> bytes) reading" where
  "parse_year fmt p =
     (if fmt = rfc822 then and_then (four_digits p) (\<lambda>year. Got (year, drop 4 p))
      else and_then (two_digits p) (\<lambda>year. Got (year + (if year < 70 then 2000 else 1900), drop 2 p)))"

text \<open>The day behind the month in the third format: one or two digits.\<close>

definition parse_isoc_day :: "bytes \<Rightarrow> (int \<times> bytes) reading" where
  "parse_isoc_day p =
     and_then (byte p 0) (\<lambda>c. let p = (if c = chr_space then drop 1 p else p) in
       and_then (digit_at p 0) (\<lambda>day. and_then (byte p 1) (\<lambda>c.
         and_then
           (if c \<noteq> chr_space then and_then (digit_at p 1) (\<lambda>b. Got (day * 10 + b, drop 2 p)) else Got (day, drop 1 p))
           (\<lambda>(day, p). if length p < 14 then Reject else Got (day, p)))))"

definition parse_clock :: "bytes \<Rightarrow> (int \<times> int \<times> int) reading" where
  "parse_clock p =
     and_then (expect chr_space p) (\<lambda>_. let p = drop 1 p in and_then (two_digits p) (\<lambda>hour. let p = drop 2 p in
       and_then (expect chr_colon p) (\<lambda>_. let p = drop 1 p in and_then (two_digits p) (\<lambda>mins. let p = drop 2 p in
         and_then (expect chr_colon p) (\<lambda>_. let p = drop 1 p in and_then (two_digits p) (\<lambda>sec. Got (hour, mins, sec)))))))"

definition mday :: "int list" where
  "mday = [31, 28, 31, 30, 31, 30, 31, 31, 30, 31, 30, 31]"

text \<open>Gauss' formula; the arguments are numbers of 64 bits, and \<open>month\<close> starts from 0.\<close>

definition gauss_seconds :: "int \<Rightarrow> int \<Rightarrow> int \<Rightarrow> int \<Rightarrow> int \<Rightarrow> int \<Rightarrow> uint64" where
  "gauss_seconds year month day hour mins sec =
     (let (month, year) = (if month - 1 \<le> 0 then (month - 1 + 12, of_int year - 1) else (month - 1, of_int year :: uint64))
      in (365 * year + year div 4 - year div 100 + year div 400 + of_int (367 * month div 12) - 30
          + of_int day - 1 - 719527 + 31 + 28) * 86400 + of_int hour * 3600 + of_int mins * 60 + of_int sec)"

definition date_seconds :: "int \<Rightarrow> int \<Rightarrow> int \<Rightarrow> int \<times> int \<times> int \<Rightarrow> int reading" where
  "date_seconds year month day = (\<lambda>(hour, mins, sec).
     if hour > 23 \<or> mins > 59 \<or> sec > 59 then Reject
     else if day = 29 \<and> month = 1 then
       if year mod 4 \<noteq> 0 \<or> year mod 100 = 0 \<and> year mod 400 \<noteq> 0 then Reject
       else Got (sint (gauss_seconds year month day hour mins sec))
     else if day > mday ! nat month then Reject
     else Got (sint (gauss_seconds year month day hour mins sec)))"

definition parse_isoc :: "bytes \<Rightarrow> int reading" where
  "parse_isoc p =
     and_then (parse_month p) (\<lambda>month. let p = drop 4 p in
       and_then (parse_isoc_day p) (\<lambda>(day, p).
         and_then (parse_clock p) (\<lambda>(hour, mins, sec). let p = drop 9 p in
           and_then (expect chr_space p) (\<lambda>_. and_then (four_digits (drop 1 p)) (\<lambda>year.
             date_seconds year month day (hour, mins, sec))))))"

definition parse_rfc :: "bytes \<Rightarrow> int reading" where
  "parse_rfc p =
     and_then (parse_day p) (\<lambda>(fmt, day, p).
       and_then (parse_month p) (\<lambda>month. let p = drop 3 p in
         and_then (expect (if fmt = rfc822 then chr_space else chr_minus) p) (\<lambda>_.
           and_then (parse_year fmt (drop 1 p)) (\<lambda>(year, p).
             and_then (parse_clock p) (date_seconds year month day)))))"

definition parse_http_date :: "bytes \<Rightarrow> int reading" where
  "parse_http_date value =
     (let (p, is_isoc) = weekday value;
          p = dropWhile (\<lambda>c. c = chr_space) (drop 1 p)
      in if length p < 18 then Reject else if is_isoc then parse_isoc p else parse_rfc p)"

text \<open>\<open>None\<close> is a read behind the end.\<close>

definition ngx_parse_http_time :: "bytes \<Rightarrow> int option" where
  "ngx_parse_http_time value =
     (case parse_http_date value of Overread \<Rightarrow> None | Reject \<Rightarrow> Some NGX_ERROR | Got t \<Rightarrow> Some t)"

subsection \<open>Reads stay inside the value\<close>

lemma and_then_Overread: "and_then m f = Overread \<longleftrightarrow> m = Overread \<or> (\<exists>a. m = Got a \<and> f a = Overread)"
  by (cases m) auto

lemma and_then_Got: "and_then m f = Got b \<longleftrightarrow> (\<exists>a. m = Got a \<and> f a = Got b)"
  by (cases m) auto

lemma byte_Overread [simp]: "byte p k = Overread \<longleftrightarrow> length p \<le> k"
  by (simp add: byte_def)

lemma digit_Overread [simp]: "digit_at p k = Overread \<longleftrightarrow> length p \<le> k"
  by (auto simp: digit_at_def and_then_Overread)

lemma two_digits_safe: "2 \<le> length p \<Longrightarrow> two_digits p \<noteq> Overread"
  by (auto simp: two_digits_def and_then_Overread)

lemma four_digits_safe: "4 \<le> length p \<Longrightarrow> four_digits p \<noteq> Overread"
  by (auto simp: four_digits_def and_then_Overread)

lemma expect_safe: "1 \<le> length p \<Longrightarrow> expect ch p \<noteq> Overread"
  by (auto simp: expect_def and_then_Overread)

lemma clock_safe: "9 \<le> length p \<Longrightarrow> parse_clock p \<noteq> Overread"
  by (simp add: parse_clock_def and_then_Overread two_digits_safe expect_safe)

lemma month_safe: "3 \<le> length p \<Longrightarrow> parse_month p \<noteq> Overread"
  by (auto simp: parse_month_def and_then_Overread split: if_splits)

lemma seconds_safe: "date_seconds year month day clock \<noteq> Overread"
  by (cases clock) (simp add: date_seconds_def)

lemma isoc_day_safe: "3 \<le> length p \<Longrightarrow> parse_isoc_day p \<noteq> Overread"
  by (auto simp: parse_isoc_day_def and_then_Overread Let_def split: if_splits prod.splits)

lemma isoc_day_rest: "parse_isoc_day p = Got (day, p') \<Longrightarrow> 14 \<le> length p'"
  by (auto simp: parse_isoc_day_def and_then_Got Let_def split: if_splits prod.splits)

lemma isoc_safe: "18 \<le> length p \<Longrightarrow> parse_isoc p \<noteq> Overread"
  by (auto simp: parse_isoc_def and_then_Overread month_safe isoc_day_safe clock_safe expect_safe four_digits_safe seconds_safe
      dest!: isoc_day_rest)

lemma day_safe: "3 \<le> length p \<Longrightarrow> parse_day p \<noteq> Overread"
  by (simp add: parse_day_def and_then_Overread two_digits_safe split: if_splits)

lemma day_rest: "parse_day p = Got (fmt, day, p') \<Longrightarrow> p' = drop 3 p \<and> (fmt = rfc822 \<longrightarrow> 20 \<le> length p)"
  by (auto simp: parse_day_def and_then_Got split: if_splits)

lemma year_safe: "(if fmt = rfc822 then 4 else 2) \<le> length p \<Longrightarrow> parse_year fmt p \<noteq> Overread"
  by (auto simp: parse_year_def and_then_Overread two_digits_safe four_digits_safe split: if_splits)

lemma year_rest: "parse_year fmt p = Got (year, p') \<Longrightarrow> p' = drop (if fmt = rfc822 then 4 else 2) p"
  by (auto simp: parse_year_def and_then_Got split: if_splits)

lemma rfc_safe: "18 \<le> length p \<Longrightarrow> parse_rfc p \<noteq> Overread"
  by (auto simp: parse_rfc_def and_then_Overread day_safe month_safe expect_safe year_safe clock_safe seconds_safe
      dest!: day_rest year_rest split: if_splits)

text \<open>
  Whatever the value of a date header, its reader reads no byte behind its end.
\<close>

theorem parse_http_time_in_bounds: "ngx_parse_http_time value \<noteq> None"
proof -
  have "parse_http_date value \<noteq> Overread"
    by (auto simp: parse_http_date_def Let_def isoc_safe rfc_safe split: prod.split)
  then show ?thesis by (simp add: ngx_parse_http_time_def split: reading.split)
qed

subsection \<open>The number of seconds\<close>

lemma of_int_div_word:
  assumes "0 \<le> y" "y < 2 ^ 63" "0 < k" "k < 2 ^ 63"
  shows "(of_int y :: uint64) div of_int k = of_int (y div k)"
proof -
  have "uint (of_int y :: uint64) = y" "uint (of_int k :: uint64) = k" using assms by (simp_all add: uint_word_of_int_eq take_bit_int_eq_self)
  then show ?thesis by (simp add: word_div_def)
qed

lemma gauss_seconds:
  assumes "1 \<le> y" "y < 10000" "0 \<le> m" "m < 12" "0 \<le> d" "d \<le> 31" "0 \<le> h" "h < 100" "0 \<le> mi" "mi < 100" "0 \<le> s" "s < 100"
  shows "sint (gauss_seconds y m d h mi s) = day_number (y, m + 1, d) * 86400 + h * 3600 + mi * 60 + s"
proof -
  define m' where "m' = (if m - 1 \<le> 0 then m - 1 + 12 else m - 1)"
  define y' where "y' = (if m - 1 \<le> 0 then y - 1 else y)"
  let ?t = "(march_first y' + 367 * m' div 12 - 30 + d - 1 - 719527 + 31 + 28) * 86400 + h * 3600 + mi * 60 + s"
  have y': "0 \<le> y'" "y' < 10000" using assms by (auto simp: y'_def)
  have w: "(of_int y' :: uint64) div 4 = of_int (y' div 4)" "(of_int y' :: uint64) div 100 = of_int (y' div 100)"
    "(of_int y' :: uint64) div 400 = of_int (y' div 400)"
    using y' of_int_div_word [of y' 4] of_int_div_word [of y' 100] of_int_div_word [of y' 400] by simp_all
  have "gauss_seconds y m d h mi s =
      (365 * of_int y' + of_int y' div 4 - of_int y' div 100 + of_int y' div 400 + of_int (367 * m' div 12) - 30
          + of_int d - 1 - 719527 + 31 + 28) * 86400 + of_int h * 3600 + of_int mi * 60 + of_int s"
    by (simp add: gauss_seconds_def m'_def y'_def)
  also have "\<dots> = word_of_int ?t" unfolding w by (simp add: march_first_def)
  finally have g: "gauss_seconds y m d h mi s = word_of_int ?t" .
  have "march_first y' < 3660000" "- 3 \<le> march_first y'"
    using march_first_bounds [of y'] y' by simp_all
  moreover have "0 \<le> 367 * m' div 12" "367 * m' div 12 \<le> 367"
    using assms(3, 4) by (auto simp: m'_def intro: order_trans [OF zdiv_mono1 [of _ "367 * 12"]])
  ultimately have "- (2 ^ 63) \<le> ?t" "?t < 2 ^ 63" using assms by (auto simp: algebra_simps)
  then have "sint (gauss_seconds y m d h mi s) = ?t"
    unfolding g sint_sbintrunc' by (intro signed_take_bit_int_eq_self) auto
  also have "march_first y' + 367 * m' div 12 - 30 + d - 1 - 719527 + 31 + 28 = day_number (y, m + 1, d)"
    using assms(3) by (auto simp: y'_def m'_def)
  finally show ?thesis .
qed

subsection \<open>Dates as the server writes them\<close>

lemma byte_Cons [simp]:
  "byte (c # p) 0 = Got c" "byte (c # p) (Suc k) = byte p k" "byte (c # p) (numeral n) = byte p (pred_numeral n)"
  by (simp_all add: byte_def numeral_eq_Suc)

lemma uint_digit: "0 \<le> n \<Longrightarrow> n < 10 \<Longrightarrow> uint (digit n) = n + 48"
proof -
  assume "0 \<le> n" "n < 10"
  then have "take_bit 8 (n + 48) = n + 48" by (intro take_bit_int_eq_self) auto
  moreover have "digit n = word_of_int (n + 48)" by (simp add: digit_def)
  ultimately show ?thesis by (simp only: uint_word_of_int_eq) simp
qed

lemma digit_range:
  assumes "0 \<le> n" "n < 10"
  shows "\<not> digit n < chr_0" "\<not> digit n > chr_9" "digit n \<noteq> chr_space"
  using uint_digit [OF assms] assms by (simp_all add: word_less_def word_uint_eq_iff)

lemma digit_at_simps [simp]:
  "0 \<le> n \<Longrightarrow> n < 10 \<Longrightarrow> digit_at (digit n # p) 0 = Got n" "digit_at (c # p) (Suc k) = digit_at p k"
  "digit_at (c # p) (numeral n') = digit_at p (pred_numeral n')"
  using digit_range [of n] uint_digit [of n] by (simp_all add: digit_at_def)

lemma weekday_text: "\<forall>c \<in> set w. c \<noteq> chr_comma \<and> c \<noteq> chr_space \<Longrightarrow> weekday (w @ chr_comma # p) = (chr_comma # p, False)"
  by (induction w) auto

lemma parse_month_text: "1 \<le> m \<Longrightarrow> m \<le> 12 \<Longrightarrow> parse_month (months ! nat (m - 1) @ p) = Got (m - 1) \<and> length (months ! nat (m - 1)) = 3"
  using month_cases [of m] by cases (simp_all add: parse_month_def months_def str_def)

lemma two_digits_text: "0 \<le> n \<Longrightarrow> n < 100 \<Longrightarrow> two_digits (digit (n div 10) # digit (n mod 10) # p) = Got n"
  by (simp add: two_digits_def)

lemma four_digits_text:
  assumes "0 \<le> n" "n < 10000"
  shows "four_digits (digit (n div 1000) # digit (n div 100 mod 10) # digit (n div 10 mod 10) # digit (n mod 10) # p) = Got n"
proof -
  have read: "four_digits (digit a # digit b # digit c # digit d # p) = Got n"
    if "0 \<le> a" "a < 10" "0 \<le> b" "b < 10" "0 \<le> c" "c < 10" "0 \<le> d" "d < 10" "10 * a + b = B" "10 * B + c = C" "10 * C + d = n"
    for a b c d B C
    using that by (simp add: four_digits_def)
  have "n div 100 = n div 10 div 10" "n div 1000 = n div 100 div 10"
    using zdiv_zmult2_eq [of 10 n 10] zdiv_zmult2_eq [of 10 n 100] by simp_all
  then have eqs: "10 * (n div 1000) + n div 100 mod 10 = n div 100" "10 * (n div 100) + n div 10 mod 10 = n div 10" "10 * (n div 10) + n mod 10 = n"
    by (simp_all only: mult_div_mod_eq)
  have bounds: "0 \<le> n div 1000" "n div 1000 < 10" using assms by simp_all
  have mod: "0 \<le> k mod 10" "k mod 10 < 10" for k :: int by simp_all
  show ?thesis by (rule read [OF bounds mod mod mod eqs])
qed

lemma clock_text:
  assumes "0 \<le> h" "h < 100" "0 \<le> mi" "mi < 100" "0 \<le> s" "s < 100"
  shows "parse_clock (chr_space # digit (h div 10) # digit (h mod 10) # chr_colon # digit (mi div 10) # digit (mi mod 10) #
    chr_colon # digit (s div 10) # digit (s mod 10) # p) = Got (h, mi, s)"
  using assms by (simp add: parse_clock_def expect_def two_digits_text)

lemma seconds_text:
  assumes "1 \<le> y" "y < 10000" "1 \<le> m" "m \<le> 12" "0 \<le> d" "0 \<le> h" "h < 100" "0 \<le> mi" "mi < 100" "0 \<le> s" "s < 100"
  shows "date_seconds y (m - 1) d (h, mi, s) =
    (if h > 23 \<or> mi > 59 \<or> s > 59 \<or> d > month_length y m then Reject
     else Got (day_number (y, m, d) * 86400 + h * 3600 + mi * 60 + s))"
proof -
  have len: "mday ! nat (m - 1) = (if m = 2 then 28 else month_length y m)"
    using month_cases [OF assms(3, 4)] by cases (simp_all add: mday_def month_length_def)
  have leap: "y mod 4 \<noteq> 0 \<or> y mod 100 = 0 \<and> y mod 400 \<noteq> 0 \<longleftrightarrow> \<not> leap_year y"
    by (simp add: leap_year_def dvd_eq_mod_eq_0)
  have "month_length y m \<le> 31" by (simp add: month_length_def)
  then have sec: "sint (gauss_seconds y (m - 1) d h mi s) = day_number (y, m, d) * 86400 + h * 3600 + mi * 60 + s"
    if "d \<le> month_length y m" using that gauss_seconds [of y "m - 1" d h mi s] assms by simp
  show ?thesis
  proof (cases "d = 29 \<and> m - 1 = 1")
    case True
    then have "d \<le> month_length y m \<longleftrightarrow> leap_year y" by (simp add: month_length_def)
    with True sec show ?thesis unfolding date_seconds_def prod.case leap if_P [OF True] by (auto simp: not_less simp del: day_number.simps)
  next
    case False
    then have "d > mday ! nat (m - 1) \<longleftrightarrow> d > month_length y m" by (auto simp: len month_length_def)
    with sec show ?thesis unfolding date_seconds_def prod.case if_not_P [OF False] by (auto simp: not_less simp del: day_number.simps)
  qed
qed

lemma rfc822_text:
  assumes "\<forall>c \<in> set w. c \<noteq> chr_comma \<and> c \<noteq> chr_space"
    and "1 \<le> y" "y < 10000" "1 \<le> m" "m \<le> 12" "0 \<le> d" "d < 100" "0 \<le> h" "h < 100" "0 \<le> mi" "mi < 100" "0 \<le> s" "s < 100"
  shows "ngx_parse_http_time (w @ str '', '' @ [digit (d div 10), digit (d mod 10)] @ str '' '' @ months ! nat (m - 1) @ str '' '' @
      [digit (y div 1000), digit (y div 100 mod 10), digit (y div 10 mod 10), digit (y mod 10)] @ str '' '' @
      [digit (h div 10), digit (h mod 10)] @ str '':'' @ [digit (mi div 10), digit (mi mod 10)] @ str '':'' @
      [digit (s div 10), digit (s mod 10)] @ rest) =
    Some (if h > 23 \<or> mi > 59 \<or> s > 59 \<or> d > month_length y m then NGX_ERROR
          else day_number (y, m, d) * 86400 + h * 3600 + mi * 60 + s)"
proof -
  let ?clock = "chr_space # digit (h div 10) # digit (h mod 10) # chr_colon # digit (mi div 10) # digit (mi mod 10) #
    chr_colon # digit (s div 10) # digit (s mod 10) # rest"
  let ?year = "digit (y div 1000) # digit (y div 100 mod 10) # digit (y div 10 mod 10) # digit (y mod 10) # ?clock"
  let ?month = "months ! nat (m - 1) @ chr_space # ?year"
  let ?day = "digit (d div 10) # digit (d mod 10) # chr_space # ?month"
  have len: "length (months ! nat (m - 1)) = 3" using parse_month_text [of m] assms by blast
  have first: "digit (d div 10) \<noteq> chr_space" using assms by (intro digit_range) auto
  have "parse_rfc ?day = date_seconds y (m - 1) d (h, mi, s)"
    using assms len parse_month_text [of m]
    by (simp add: parse_rfc_def parse_day_def two_digits_text expect_def parse_year_def four_digits_text clock_text)
  then show ?thesis using weekday_text [OF assms(1), of "chr_space # ?day"] first len seconds_text [of y m d h mi s] assms
    by (simp add: ngx_parse_http_time_def parse_http_date_def str_def)
qed

text \<open>
  A date in the preferred format is refused exactly if the time of day is out of range or the month has
  fewer days; otherwise its value is the number of the day in the calendar and the seconds of the day.
\<close>

theorem parse_http_time_rfc822:
  assumes "\<forall>c \<in> set w. c \<noteq> chr_comma \<and> c \<noteq> chr_space"
    and "1 \<le> y" "y < 10000" "1 \<le> m" "m \<le> 12" "0 \<le> d" "d < 100" "0 \<le> h" "h < 100" "0 \<le> mi" "mi < 100" "0 \<le> s" "s < 100"
  shows "ngx_parse_http_time (w @ str '', '' @ [digit (d div 10), digit (d mod 10)] @ str '' '' @ months ! nat (m - 1) @ str '' '' @
      [digit (y div 1000), digit (y div 100 mod 10), digit (y div 10 mod 10), digit (y mod 10)] @ str '' '' @
      [digit (h div 10), digit (h mod 10)] @ str '':'' @ [digit (mi div 10), digit (mi mod 10)] @ str '':'' @
      [digit (s div 10), digit (s mod 10)] @ rest) =
    Some (if h > 23 \<or> mi > 59 \<or> s > 59 \<or> d > month_length y m then NGX_ERROR
          else day_number (y, m, d) * 86400 + h * 3600 + mi * 60 + s)"
  using assms by (rule rfc822_text)

theorem parse_http_time_rfc822_witness:
  "ngx_parse_http_time (str ''Thu, 29 Feb 2024 12:00:07 GMT'') = Some 1709208007 \<and>
   ngx_parse_http_time (str ''Wed, 29 Feb 2023 12:00:07 GMT'') = Some NGX_ERROR"
  using parse_http_time_rfc822 [of "str ''Thu''" 2024 2 29 12 0 7 "str '' GMT''"]
    parse_http_time_rfc822 [of "str ''Wed''" 2023 2 29 12 0 7 "str '' GMT''"]
  by (simp add: str_def digit_def months_def month_length_def leap_year_def march_first_def)

subsection \<open>Round trips\<close>

text \<open>The fields of a date and of a time of day.\<close>

lemma gmtime_fields:
  assumes "0 \<le> t" "t \<le> 253402300799"
  obtains y m d h mi s wd where
    "ngx_gmtime t = \<lparr>tm_sec = s, tm_min = mi, tm_hour = h, tm_mday = d, tm_mon = m, tm_year = y, tm_wday = wd\<rparr>"
    "1970 \<le> y" "y < 10000" "t < 2145916800 \<Longrightarrow> y < 2038" "1 \<le> m" "m \<le> 12" "1 \<le> d" "d \<le> month_length y m"
    "0 \<le> h" "h \<le> 23" "0 \<le> mi" "mi \<le> 59" "0 \<le> s" "s \<le> 59" "0 \<le> wd" "wd < 7"
    "day_number (y, m, d) * 86400 + h * 3600 + mi * 60 + s = t"
proof -
  define n where "n = nat t"
  have t: "t = int n" "n div 86400 \<le> 2932896" using assms div_le_mono [of n 253402300799 86400] by (simp_all add: n_def)
  obtain y m d where c: "calendar (n div 86400) = (y, m, d)" by (cases "calendar (n div 86400)")
  have v: "day_number (y, m, d) = int (n div 86400)" "valid_date (y, m, d)" using calendar_number [of "n div 86400"] c by auto
  have y: "1970 \<le> y" using calendar_later [of "n div 86400"] c by simp
  have y2: "y < 10000" using calendar_year [of "n div 86400" 10000] t(2) c by (simp add: march_first_def)
  have y3: "y < 2038" if "t < 2145916800"
  proof -
    have "n div 86400 < 24837" using that t(1) by (simp add: div_less_iff_less_mult)
    then show ?thesis using calendar_year [of "n div 86400" 2038] c by (simp add: march_first_def)
  qed
  have sum: "day_number (y, m, d) * 86400 + int (n div 3600 mod 24) * 3600 + int (n div 60 mod 60) * 60 + int (n mod 60) = t"
  proof -
    have "n mod 86400 = 3600 * (n div 3600 mod 24) + n mod 3600" "n mod 3600 = 60 * (n div 60 mod 60) + n mod 60"
      using mod_mult2_eq [of n 3600 24] mod_mult2_eq [of n 60 60] by simp_all
    then have "n div 86400 * 86400 + n div 3600 mod 24 * 3600 + n div 60 mod 60 * 60 + n mod 60 = n"
      using div_mult_mod_eq [of n 86400] by linarith
    then have "int (n div 86400 * 86400 + n div 3600 mod 24 * 3600 + n div 60 mod 60 * 60 + n mod 60) = int n" by (simp only:)
    then show ?thesis unfolding t(1) v(1) by (simp only: of_nat_add of_nat_mult of_nat_numeral)
  qed
  have md: "1 \<le> m" "m \<le> 12" "1 \<le> d" "d \<le> month_length y m" using v(2) by (auto simp: valid_date_def)
  have "int (n div 3600 mod 24) \<le> 23" "int (n div 60 mod 60) \<le> 59" "int (n mod 60) \<le> 59" "int ((4 + n div 86400) mod 7) < 7"
    using mod_less_divisor [of 24 "n div 3600"] mod_less_divisor [of 60 "n div 60"] mod_less_divisor [of 60 n]
      mod_less_divisor [of 7 "4 + n div 86400"] by linarith+
  note le = this
  show ?thesis
    by (rule that [OF gmtime_nat [OF t(2), folded t(1), unfolded c prod.case] y y2 y3 md of_nat_0_le_iff le(1) of_nat_0_le_iff le(2)
        of_nat_0_le_iff le(3) of_nat_0_le_iff le(4) sum])
qed

lemma week_text: "0 \<le> wd \<Longrightarrow> wd < 7 \<Longrightarrow> \<forall>c \<in> set (week ! nat wd). c \<noteq> chr_comma \<and> c \<noteq> chr_space"
proof -
  assume "0 \<le> wd" "wd < 7"
  then have "nat wd \<in> set [0 ..< 7]" by auto
  moreover have "\<forall>i \<in> set [0 ..< 7]. \<forall>c \<in> set (week ! i). c \<noteq> chr_comma \<and> c \<noteq> chr_space"
    by (simp add: upt_rec week_def str_def)
  ultimately show ?thesis by blast
qed

text \<open>The format with a year of two digits, which cookies have.\<close>

lemma rfc850_text:
  assumes "\<forall>c \<in> set w. c \<noteq> chr_comma \<and> c \<noteq> chr_space"
    and "1970 \<le> y" "y < 2070" "1 \<le> m" "m \<le> 12" "0 \<le> d" "d < 100" "0 \<le> h" "h < 100" "0 \<le> mi" "mi < 100" "0 \<le> s" "s < 100"
  shows "ngx_parse_http_time (w @ str '', '' @ [digit (d div 10), digit (d mod 10)] @ str ''-'' @ months ! nat (m - 1) @ str ''-'' @
      [digit (y mod 100 div 10), digit (y mod 100 mod 10)] @ str '' '' @
      [digit (h div 10), digit (h mod 10)] @ str '':'' @ [digit (mi div 10), digit (mi mod 10)] @ str '':'' @
      [digit (s div 10), digit (s mod 10)] @ rest) =
    Some (if h > 23 \<or> mi > 59 \<or> s > 59 \<or> d > month_length y m then NGX_ERROR
          else day_number (y, m, d) * 86400 + h * 3600 + mi * 60 + s)"
proof -
  let ?clock = "chr_space # digit (h div 10) # digit (h mod 10) # chr_colon # digit (mi div 10) # digit (mi mod 10) #
    chr_colon # digit (s div 10) # digit (s mod 10) # rest"
  let ?day = "digit (d div 10) # digit (d mod 10) # chr_minus # months ! nat (m - 1) @ chr_minus #
    digit (y mod 100 div 10) # digit (y mod 100 mod 10) # ?clock"
  have len: "length (months ! nat (m - 1)) = 3" using parse_month_text [of m] assms by blast
  have first: "digit (d div 10) \<noteq> chr_space" using assms by (intro digit_range) auto
  have "y div 100 = 19 \<or> y div 100 = 20" using assms(2, 3) by linarith
  then have "y mod 100 = y - 1900 \<or> y mod 100 = y - 2000"
    unfolding minus_mult_div_eq_mod [of y 100, symmetric] by auto
  moreover have "0 \<le> y mod 100" "y mod 100 < 100" by simp_all
  ultimately have year: "y mod 100 + (if y mod 100 < 70 then 2000 else 1900) = y" using assms(2, 3) by (auto simp del: pos_mod_bound pos_mod_sign)
  have two: "two_digits (digit (y mod 100 div 10) # digit (y mod 100 mod 10) # ?clock) = Got (y mod 100)" by (rule two_digits_text) simp_all
  have "parse_year rfc850 (digit (y mod 100 div 10) # digit (y mod 100 mod 10) # ?clock) = Got (y, ?clock)"
    unfolding parse_year_def two by (simp add: year)
  then have "parse_rfc ?day = date_seconds y (m - 1) d (h, mi, s)"
    using assms len parse_month_text [of m]
    by (simp add: parse_rfc_def parse_day_def two_digits_text expect_def clock_text del: mod_mod_trivial)
  then show ?thesis using weekday_text [OF assms(1), of "chr_space # ?day"] first len seconds_text [of y m d h mi s] assms
    by (simp add: ngx_parse_http_time_def parse_http_date_def str_def)
qed

text \<open>
  Property C23: reading a date that the server has written for a header gives the time back, up to the year 9999; the same
  for dates in cookies before 2038.
\<close>

theorem http_time_roundtrip:
  assumes "0 \<le> t" "t \<le> 253402300799"
  shows "ngx_parse_http_time (ngx_http_time t) = Some t \<and>
    (t < 2145916800 \<longrightarrow> ngx_parse_http_time (ngx_http_cookie_time t) = Some t)"
proof -
  obtain y m d h mi s wd where tm:
    "ngx_gmtime t = \<lparr>tm_sec = s, tm_min = mi, tm_hour = h, tm_mday = d, tm_mon = m, tm_year = y, tm_wday = wd\<rparr>"
    and r: "1970 \<le> y" "y < 10000" "t < 2145916800 \<Longrightarrow> y < 2038" "1 \<le> m" "m \<le> 12" "1 \<le> d" "d \<le> month_length y m"
    "0 \<le> h" "h \<le> 23" "0 \<le> mi" "mi \<le> 59" "0 \<le> s" "s \<le> 59" "0 \<le> wd" "wd < 7"
    and eq: "day_number (y, m, d) * 86400 + h * 3600 + mi * 60 + s = t"
    by (rule gmtime_fields [OF assms], rule that)
  have "month_length y m \<le> 31" by (simp add: month_length_def)
  then have d: "d < 100" using r(7) by simp
  have header: "ngx_http_time t = week ! nat wd @ str '', '' @ [digit (d div 10), digit (d mod 10)] @ str '' '' @ months ! nat (m - 1) @ str '' '' @
      [digit (y div 1000), digit (y div 100 mod 10), digit (y div 10 mod 10), digit (y mod 10)] @ str '' '' @
      [digit (h div 10), digit (h mod 10)] @ str '':'' @ [digit (mi div 10), digit (mi mod 10)] @ str '':'' @
      [digit (s div 10), digit (s mod 10)] @ str '' GMT''"
    using r d by (simp only: ngx_http_time_def tm Let_def ngx_tm.simps) (simp add: sprintf_two sprintf_four)
  have cookie: "ngx_http_cookie_time t = week ! nat wd @ str '', '' @ [digit (d div 10), digit (d mod 10)] @ str ''-'' @ months ! nat (m - 1) @ str ''-'' @
      [digit (y mod 100 div 10), digit (y mod 100 mod 10)] @ str '' '' @
      [digit (h div 10), digit (h mod 10)] @ str '':'' @ [digit (mi div 10), digit (mi mod 10)] @ str '':'' @
      [digit (s div 10), digit (s mod 10)] @ str '' GMT''" if "y < 2038"
    using r d that sprintf_two [of "y mod 100"] by (simp only: ngx_http_cookie_time_def tm Let_def ngx_tm.simps) (simp add: sprintf_two)
  note week = week_text [OF r(14, 15)]
  have "ngx_parse_http_time (ngx_http_time t) = Some t"
    unfolding header using rfc822_text [OF week, of y m d h mi s "str '' GMT''"] r d eq by (simp del: day_number.simps)
  moreover have "ngx_parse_http_time (ngx_http_cookie_time t) = Some t" if "y < 2038"
    unfolding cookie [OF that] using rfc850_text [OF week, of y m d h mi s "str '' GMT''"] r d eq that by (simp del: day_number.simps)
  ultimately show ?thesis using r(3) by blast
qed

theorem http_time_roundtrip_witness:
  "ngx_parse_http_time (ngx_http_time 784111777) = Some 784111777 \<and> ngx_parse_http_time (ngx_http_cookie_time 784111777) = Some 784111777"
  using http_time_roundtrip [of 784111777] by simp

text \<open>The day 00 passes the test for the length of the month: it is read as the last day of the month before.\<close>

theorem parse_http_time_day_zero:
  "ngx_parse_http_time (str ''Thu, 00 Mar 2024 00:00:00 GMT'') = ngx_parse_http_time (str ''Thu, 29 Feb 2024 00:00:00 GMT'')"
  using rfc822_text [of "str ''Thu''" 2024 3 0 0 0 0 "str '' GMT''"] rfc822_text [of "str ''Thu''" 2024 2 29 0 0 0 "str '' GMT''"]
  by (simp add: str_def digit_def months_def month_length_def leap_year_def march_first_def)

end
