(* ===== verification/Ngx_Mail_Parse.thy ===== *)
theory Ngx_Mail_Parse
  imports Ngx_Prelude
begin

text \<open>
  The command lines of POP3 and SMTP clients: \<^verbatim>\<open>ngx_mail_pop3_parse_command\<close> and
  \<^verbatim>\<open>ngx_mail_smtp_parse_command\<close> of \<^verbatim>\<open>src/mail/ngx_mail_parse.c\<close>.  The two functions are the same
  state machine with different command words, a different number of arguments, and a different treatment of spaces, which are
  the parameters of \<open>mail_step\<close>.  The lemmas show that a command may arrive in any pieces, that
  what is recorded lies inside the line and has no line end in it, and that an invalid command is skipped to
  the end of its line and no further.  The build has \<^verbatim>\<open>NGX_MAIL_SSL\<close>.
\<close>

subsection \<open>Commands\<close>

abbreviation (input) NGX_POP3_USER :: nat where "NGX_POP3_USER \<equiv> 1"
abbreviation (input) NGX_POP3_PASS :: nat where "NGX_POP3_PASS \<equiv> 2"
abbreviation (input) NGX_POP3_CAPA :: nat where "NGX_POP3_CAPA \<equiv> 3"
abbreviation (input) NGX_POP3_QUIT :: nat where "NGX_POP3_QUIT \<equiv> 4"
abbreviation (input) NGX_POP3_NOOP :: nat where "NGX_POP3_NOOP \<equiv> 5"
abbreviation (input) NGX_POP3_STLS :: nat where "NGX_POP3_STLS \<equiv> 6"
abbreviation (input) NGX_POP3_APOP :: nat where "NGX_POP3_APOP \<equiv> 7"
abbreviation (input) NGX_POP3_AUTH :: nat where "NGX_POP3_AUTH \<equiv> 8"

abbreviation (input) NGX_SMTP_HELO :: nat where "NGX_SMTP_HELO \<equiv> 1"
abbreviation (input) NGX_SMTP_EHLO :: nat where "NGX_SMTP_EHLO \<equiv> 2"
abbreviation (input) NGX_SMTP_AUTH :: nat where "NGX_SMTP_AUTH \<equiv> 3"
abbreviation (input) NGX_SMTP_QUIT :: nat where "NGX_SMTP_QUIT \<equiv> 4"
abbreviation (input) NGX_SMTP_NOOP :: nat where "NGX_SMTP_NOOP \<equiv> 5"
abbreviation (input) NGX_SMTP_MAIL :: nat where "NGX_SMTP_MAIL \<equiv> 6"
abbreviation (input) NGX_SMTP_RSET :: nat where "NGX_SMTP_RSET \<equiv> 7"
abbreviation (input) NGX_SMTP_RCPT :: nat where "NGX_SMTP_RCPT \<equiv> 8"
abbreviation (input) NGX_SMTP_VRFY :: nat where "NGX_SMTP_VRFY \<equiv> 10"
abbreviation (input) NGX_SMTP_EXPN :: nat where "NGX_SMTP_EXPN \<equiv> 11"
abbreviation (input) NGX_SMTP_HELP :: nat where "NGX_SMTP_HELP \<equiv> 12"
abbreviation (input) NGX_SMTP_STARTTLS :: nat where "NGX_SMTP_STARTTLS \<equiv> 13"

abbreviation (input) NGX_MAIL_PARSE_INVALID_COMMAND :: int where "NGX_MAIL_PARSE_INVALID_COMMAND \<equiv> 20"

text \<open>The comparison of a command word with the names of the commands; \<open>None\<close> is \<^verbatim>\<open>goto invalid\<close>.\<close>

definition pop3_verb :: "bytes \<Rightarrow> nat option" where
  "pop3_verb c =
     (if length c = 4 then
        let u = map ngx_toupper c in
        if u = str ''USER'' then Some NGX_POP3_USER
        else if u = str ''PASS'' then Some NGX_POP3_PASS
        else if u = str ''APOP'' then Some NGX_POP3_APOP
        else if u = str ''QUIT'' then Some NGX_POP3_QUIT
        else if u = str ''CAPA'' then Some NGX_POP3_CAPA
        else if u = str ''AUTH'' then Some NGX_POP3_AUTH
        else if u = str ''NOOP'' then Some NGX_POP3_NOOP
        else if u = str ''STLS'' then Some NGX_POP3_STLS
        else None
      else None)"

definition either_case :: "u_char \<Rightarrow> u_char \<Rightarrow> bool" where
  "either_case upper c \<longleftrightarrow> c = upper \<or> c = upper OR 0x20"

definition smtp_verb :: "bytes \<Rightarrow> nat option" where
  "smtp_verb c =
     (if length c = 4 then
        let u = map ngx_toupper c in
        if u = str ''HELO'' then Some NGX_SMTP_HELO
        else if u = str ''EHLO'' then Some NGX_SMTP_EHLO
        else if u = str ''QUIT'' then Some NGX_SMTP_QUIT
        else if u = str ''AUTH'' then Some NGX_SMTP_AUTH
        else if u = str ''NOOP'' then Some NGX_SMTP_NOOP
        else if u = str ''MAIL'' then Some NGX_SMTP_MAIL
        else if u = str ''RSET'' then Some NGX_SMTP_RSET
        else if u = str ''RCPT'' then Some NGX_SMTP_RCPT
        else if u = str ''VRFY'' then Some NGX_SMTP_VRFY
        else if u = str ''EXPN'' then Some NGX_SMTP_EXPN
        else if u = str ''HELP'' then Some NGX_SMTP_HELP
        else None
      else if length c = 8 then
        if list_all2 either_case (str ''STARTTLS'') c then Some NGX_SMTP_STARTTLS else None
      else None)"

subsection \<open>The state machine\<close>

datatype mail_parse_state =
  sw_start | sw_command | sw_invalid | sw_spaces_before_argument | sw_argument | sw_almost_done

text \<open>
  The fields of \<^verbatim>\<open>ngx_mail_session_t\<close> the parsers use.  Pointers are positions in the buffer; a string is
  its position and its length.
\<close>

record mail_parse =
  state :: mail_parse_state
  command :: nat
  cmd_start :: nat
  arg_start :: "nat option"
  cmd :: "nat \<times> nat"
  args :: "(nat \<times> nat) list"

datatype mail_stop = Done mail_parse nat | Invalid mail_parse nat

type_synonym mail_outcome = "(mail_parse, mail_stop) outcome"

text \<open>The three bytes that end a word: \<^verbatim>\<open>switch (ch)\<close> with space, CR and LF.\<close>

definition end_of_word :: "mail_parse \<Rightarrow> nat \<Rightarrow> u_char \<Rightarrow> mail_outcome" where
  "end_of_word s p ch =
     (if ch = chr_space then Cont (s\<lparr>state := sw_spaces_before_argument\<rparr>)
      else if ch = CR then Cont (s\<lparr>state := sw_almost_done\<rparr>)
      else Stop (Done s p))"

definition mail_command :: "(bytes \<Rightarrow> nat option) \<Rightarrow> bytes \<Rightarrow> mail_parse \<Rightarrow> nat \<Rightarrow> u_char \<Rightarrow> mail_outcome" where
  "mail_command verb buf s p ch =
     (if ch = chr_space \<or> ch = CR \<or> ch = LF then
        let c = cmd_start s in
        case verb (take (p - c) (drop c buf)) of
          None \<Rightarrow> Stop (Invalid s p)
        | Some n \<Rightarrow> end_of_word (s\<lparr>command := n, cmd := (c, p - c)\<rparr>) p ch
      else if (ch < chr_A \<or> ch > chr_Z) \<and> (ch < chr_a \<or> ch > chr_z) then Stop (Invalid s p)
      else Cont (s\<lparr>state := sw_command\<rparr>))"

definition mail_spaces_before_argument :: "nat \<Rightarrow> mail_parse \<Rightarrow> nat \<Rightarrow> u_char \<Rightarrow> mail_outcome" where
  "mail_spaces_before_argument limit s p ch =
     (if ch = chr_space then Cont s
      else if ch = CR then Cont (s\<lparr>state := sw_almost_done\<rparr>)
      else if ch = LF then Stop (Done s p)
      else if length (args s) \<le> limit then Cont (s\<lparr>state := sw_argument, arg_start := Some p\<rparr>)
      else Stop (Invalid s p))"

definition mail_argument :: "(nat \<Rightarrow> bool) \<Rightarrow> mail_parse \<Rightarrow> nat \<Rightarrow> u_char \<Rightarrow> mail_outcome" where
  "mail_argument keeps_spaces s p ch =
     (if ch = chr_space \<and> keeps_spaces (command s) then Cont s
      else if ch = chr_space \<or> ch = CR \<or> ch = LF then
        let a = the (arg_start s) in
        end_of_word (s\<lparr>args := args s @ [(a, p - a)], arg_start := None\<rparr>) p ch
      else Cont s)"

definition mail_step ::
  "(bytes \<Rightarrow> nat option) \<Rightarrow> (nat \<Rightarrow> bool) \<Rightarrow> nat \<Rightarrow> bytes \<Rightarrow> mail_parse \<Rightarrow> nat \<Rightarrow> u_char \<Rightarrow> mail_outcome" where
  "mail_step verb keeps_spaces limit buf s p ch =
     (case state s of
        sw_start \<Rightarrow> mail_command verb buf (s\<lparr>cmd_start := p\<rparr>) p ch
      | sw_command \<Rightarrow> mail_command verb buf s p ch
      | sw_invalid \<Rightarrow> Stop (Invalid s p)
      | sw_spaces_before_argument \<Rightarrow> mail_spaces_before_argument limit s p ch
      | sw_argument \<Rightarrow> mail_argument keeps_spaces s p ch
      | sw_almost_done \<Rightarrow> if ch = LF then Stop (Done s p) else Stop (Invalid s p))"

text \<open>The loop behind \<^verbatim>\<open>invalid:\<close>, from \<open>p\<close> to the line feed.\<close>

fun skip_to_LF :: "nat \<Rightarrow> bytes \<Rightarrow> nat option" where
  "skip_to_LF p [] = None"
| "skip_to_LF p (c # cs) = (if c = LF then Some p else skip_to_LF (Suc p) cs)"

definition mail_done :: "nat \<Rightarrow> mail_parse \<Rightarrow> mail_parse" where
  "mail_done auth s = s\<lparr>state := if command s \<noteq> auth then sw_start else sw_argument\<rparr>"

definition mail_parse_command ::
  "(bytes \<Rightarrow> nat option) \<Rightarrow> (nat \<Rightarrow> bool) \<Rightarrow> nat \<Rightarrow> nat \<Rightarrow> mail_parse \<Rightarrow> bytes \<Rightarrow> nat \<Rightarrow> int \<times> mail_parse \<times> nat" where
  "mail_parse_command verb keeps_spaces limit auth s buf pos =
     (case scan (mail_step verb keeps_spaces limit buf) s pos (drop pos buf) of
        Cont s' \<Rightarrow> (NGX_AGAIN, s', max pos (length buf))
      | Stop (Done s' p) \<Rightarrow> (NGX_OK, mail_done auth s', Suc p)
      | Stop (Invalid s' p) \<Rightarrow>
          (case skip_to_LF p (drop p buf) of
             Some q \<Rightarrow> (NGX_MAIL_PARSE_INVALID_COMMAND, s'\<lparr>state := sw_start\<rparr>, Suc q)
           | None \<Rightarrow> (NGX_AGAIN, s'\<lparr>state := sw_invalid\<rparr>, length buf)))"

text \<open>A space belongs to the argument of \<^verbatim>\<open>USER\<close> and \<^verbatim>\<open>PASS\<close>.\<close>

definition pop3_keeps_spaces :: "nat \<Rightarrow> bool" where
  "pop3_keeps_spaces n \<longleftrightarrow> n = NGX_POP3_USER \<or> n = NGX_POP3_PASS"

definition ngx_mail_pop3_parse_command :: "mail_parse \<Rightarrow> bytes \<Rightarrow> nat \<Rightarrow> int \<times> mail_parse \<times> nat" where
  "ngx_mail_pop3_parse_command = mail_parse_command pop3_verb pop3_keeps_spaces 2 NGX_POP3_AUTH"

definition ngx_mail_smtp_parse_command :: "mail_parse \<Rightarrow> bytes \<Rightarrow> nat \<Rightarrow> int \<times> mail_parse \<times> nat" where
  "ngx_mail_smtp_parse_command = mail_parse_command smtp_verb (\<lambda>_. False) 10 NGX_SMTP_AUTH"

lemmas mail_step_defs = mail_step_def mail_command_def mail_spaces_before_argument_def mail_argument_def
  end_of_word_def Let_def

subsection \<open>One byte at a time\<close>

text \<open>
  The parser skips the rest of an invalid line in a loop of its own.  The same result comes from the
  state machine in which the invalid state goes on to the next byte, which is a resumable parser.
\<close>

definition line_step ::
  "(bytes \<Rightarrow> nat option) \<Rightarrow> (nat \<Rightarrow> bool) \<Rightarrow> nat \<Rightarrow> nat \<Rightarrow> bytes \<Rightarrow> mail_parse \<Rightarrow> nat \<Rightarrow> u_char \<Rightarrow>
   (mail_parse, int \<times> mail_parse \<times> nat) outcome" where
  "line_step verb keeps_spaces limit auth buf s p ch =
     (case mail_step verb keeps_spaces limit buf s p ch of
        Cont s' \<Rightarrow> Cont s'
      | Stop (Done s' _) \<Rightarrow> Stop (NGX_OK, mail_done auth s', Suc p)
      | Stop (Invalid s' _) \<Rightarrow>
          if ch = LF then Stop (NGX_MAIL_PARSE_INVALID_COMMAND, s'\<lparr>state := sw_start\<rparr>, Suc p)
          else Cont (s'\<lparr>state := sw_invalid\<rparr>))"

lemma mail_step_position:
  "mail_step verb keeps_spaces limit buf s p ch = Stop (Done s' q) \<Longrightarrow> q = p"
  "mail_step verb keeps_spaces limit buf s p ch = Stop (Invalid s' q) \<Longrightarrow> q = p"
  by (auto simp: mail_step_defs split: mail_parse_state.splits if_splits option.splits)

lemma line_step_invalid:
  "state s = sw_invalid \<Longrightarrow>
   scan (line_step verb keeps_spaces limit auth buf) s p xs =
     (case skip_to_LF p xs of
        None \<Rightarrow> Cont s
      | Some q \<Rightarrow> Stop (NGX_MAIL_PARSE_INVALID_COMMAND, s\<lparr>state := sw_start\<rparr>, Suc q))"
proof (induction p xs rule: skip_to_LF.induct)
  case (2 p c cs)
  moreover from "2.prems" have "s\<lparr>state := sw_invalid\<rparr> = s" by (cases s) simp
  with "2.prems" have "line_step verb keeps_spaces limit auth buf s p c =
      (if c = LF then Stop (NGX_MAIL_PARSE_INVALID_COMMAND, s\<lparr>state := sw_start\<rparr>, Suc p) else Cont s)"
    by (simp add: line_step_def mail_step_def)
  ultimately show ?case by simp
qed simp

lemma line_scan:
  "drop p buf = xs \<Longrightarrow>
   (case scan (line_step verb keeps_spaces limit auth buf) s p xs of
      Cont s' \<Rightarrow> (NGX_AGAIN, s', max p (length buf)) | Stop r \<Rightarrow> r) =
   mail_parse_command verb keeps_spaces limit auth s buf p"
proof (induction xs arbitrary: s p)
  case Nil
  then show ?case by (simp add: mail_parse_command_def)
next
  case (Cons c xs)
  then have p: "p < length buf" and rest: "drop (Suc p) buf = xs"
    by (metis drop_all list.simps(3) not_le, metis drop_Suc list.sel(3) tl_drop)
  have here: "mail_parse_command verb keeps_spaces limit auth s buf p =
      (case mail_step verb keeps_spaces limit buf s p c of
         Cont s' \<Rightarrow> mail_parse_command verb keeps_spaces limit auth s' buf (Suc p)
       | Stop (Done s' q) \<Rightarrow> (NGX_OK, mail_done auth s', Suc q)
       | Stop (Invalid s' q) \<Rightarrow>
          (case skip_to_LF q (drop q buf) of
             Some q \<Rightarrow> (NGX_MAIL_PARSE_INVALID_COMMAND, s'\<lparr>state := sw_start\<rparr>, Suc q)
           | None \<Rightarrow> (NGX_AGAIN, s'\<lparr>state := sw_invalid\<rparr>, length buf)))"
    using p Cons.prems rest by (simp add: mail_parse_command_def split: outcome.splits)
  have le: "p \<le> length buf" "Suc p \<le> length buf" using p by simp_all
  show ?case
  proof (cases "mail_step verb keeps_spaces limit buf s p c")
    case (Cont s')
    then have "line_step verb keeps_spaces limit auth buf s p c = Cont s'" by (simp add: line_step_def)
    with Cons.IH [OF rest, of s'] here Cont le show ?thesis by (auto split: outcome.splits)
  next
    case (Stop r)
    show ?thesis
    proof (cases r)
      case (Done s' q)
      with Stop mail_step_position(1) have "q = p"
        "line_step verb keeps_spaces limit auth buf s p c = Stop (NGX_OK, mail_done auth s', Suc p)"
        by (auto simp: line_step_def)
      with Stop Done here show ?thesis by simp
    next
      case (Invalid s' q)
      with Stop mail_step_position(2) have "q = p"
        "line_step verb keeps_spaces limit auth buf s p c =
          (if c = LF then Stop (NGX_MAIL_PARSE_INVALID_COMMAND, s'\<lparr>state := sw_start\<rparr>, Suc p)
           else Cont (s'\<lparr>state := sw_invalid\<rparr>))"
        by (auto simp: line_step_def)
      with Stop Invalid here Cons.prems show ?thesis
        by (auto simp: line_step_invalid le split: option.splits)
    qed
  qed
qed

lemma mail_parse_command_eq:
  "mail_parse_command verb keeps_spaces limit auth s buf pos =
   run_parser (line_step verb keeps_spaces limit auth buf) (\<lambda>_ _ r. r) s buf pos"
  unfolding run_parser_def by (simp add: line_scan)

definition line_post :: "int \<times> mail_parse \<times> nat \<Rightarrow> nat \<Rightarrow> bool" where
  "line_post res p \<longleftrightarrow> fst res \<noteq> NGX_AGAIN \<and> snd (snd res) = Suc p"

lemma take_drop_within:
  "p \<le> length buf \<Longrightarrow> take (p - c) (drop c (buf @ ys)) = take (p - c) (drop c buf)"
  by simp

interpretation line: resumable_parser "line_step verb keeps_spaces limit auth" "\<lambda>_ _. True" line_post "\<lambda>_ _ r. r"
  "\<lambda>_ s. s" "\<lambda>_. True"
  for verb keeps_spaces limit auth
proof
  show "line_post r p" if "line_step verb keeps_spaces limit auth buf s p c = Stop r" for buf s p c r
    using that by (auto simp: line_step_def line_post_def split: outcome.splits mail_stop.splits if_splits)
  show "line_step verb keeps_spaces limit auth (buf @ ys) s p c = line_step verb keeps_spaces limit auth buf s p c"
    if "p < length buf" for s p buf ys c
    using take_drop_within [of p buf _ ys] that
    by (cases "state s") (simp_all add: line_step_def mail_step_def mail_command_def del: drop_append take_append)
qed (auto simp: line_post_def)

lemma mail_any_chunks:
  "parse_chunks (mail_parse_command verb keeps_spaces limit auth) s buf (length buf) cs =
   mail_parse_command verb keeps_spaces limit auth s (buf @ concat cs) (length buf)"
  using line.any_chunks [where verb = verb and keeps_spaces = keeps_spaces and limit = limit and auth = auth and r = s and buf = buf and cs = cs]
  by (simp add: same_result_def mail_parse_command_eq [abs_def] split: prod.splits)

subsection \<open>Lines\<close>

text \<open>
  Every line feed ends a call and nothing else does, whatever the state and the bytes in front of it.  So a call
  consumes one line, valid or not.
\<close>

lemma skip_to_LF_eq:
  "skip_to_LF p xs = (if LF \<in> set xs then Some (p + length (takeWhile (\<lambda>c. c \<noteq> LF) xs)) else None)"
  by (induction p xs rule: skip_to_LF.induct) auto

lemma line_step_Stop_iff:
  "(\<exists>r. line_step verb keeps_spaces limit auth buf s p ch = Stop r) \<longleftrightarrow> ch = LF"
  by (cases "state s")
    (auto simp: line_step_def mail_step_defs split: outcome.splits mail_stop.splits if_splits option.splits)

lemma line_scan_LF:
  "case scan (line_step verb keeps_spaces limit auth buf) s p xs of
     Cont s' \<Rightarrow> LF \<notin> set xs
   | Stop r \<Rightarrow> LF \<in> set xs \<and> fst r \<noteq> NGX_AGAIN \<and> snd (snd r) = p + length (takeWhile (\<lambda>c. c \<noteq> LF) xs) + 1"
proof (induction xs arbitrary: s p)
  case (Cons c xs)
  show ?case
  proof (cases "line_step verb keeps_spaces limit auth buf s p c")
    case (Cont s')
    with line_step_Stop_iff [of verb keeps_spaces limit auth buf s p c] have "c \<noteq> LF" by auto
    with Cons.IH [of "Suc p" s'] Cont show ?thesis by (auto split: outcome.splits)
  next
    case (Stop r)
    with line_step_Stop_iff [of verb keeps_spaces limit auth buf s p c] have "c = LF" by blast
    moreover from Stop have "line_post r p"
      by (auto simp: line_step_def line_post_def split: outcome.splits mail_stop.splits if_splits)
    ultimately show ?thesis using Stop by (simp add: line_post_def)
  qed
qed simp

lemma mail_parse_framing:
  assumes "mail_parse_command verb keeps_spaces limit auth s buf pos = (rc, s', pos')" "pos \<le> length buf"
  shows "rc = NGX_AGAIN \<longleftrightarrow> LF \<notin> set (drop pos buf)"
    "pos' = (if rc = NGX_AGAIN then length buf else pos + length (takeWhile (\<lambda>c. c \<noteq> LF) (drop pos buf)) + 1)"
  using assms line_scan_LF [where verb = verb and keeps_spaces = keeps_spaces and limit = limit and auth = auth
      and buf = buf and s = s and p = pos and xs = "drop pos buf"]
  by (auto simp: mail_parse_command_eq run_parser_def split: outcome.splits)

subsection \<open>The grammar of a command line\<close>

text \<open>Words separated by spaces; \<open>open_word u l\<close> is a line that goes on in the middle of a word.\<close>

fun words :: "bytes \<Rightarrow> bytes list" and open_word :: "bytes \<Rightarrow> bytes \<Rightarrow> bytes list" where
  "words [] = []"
| "words (c # l) = (if c = chr_space then words l else open_word [c] l)"
| "open_word u [] = [u]"
| "open_word u (c # l) = (if c = chr_space then u # words l else open_word (u @ [c]) l)"

lemma open_word_append: "chr_space \<notin> set v \<Longrightarrow> open_word u (v @ l) = open_word (u @ v) l"
  by (induction v arbitrary: u) auto

text \<open>The two laws that determine the words of a line.\<close>

lemma words_single: "chr_space \<notin> set w \<Longrightarrow> w \<noteq> [] \<Longrightarrow> words w = [w]"
  using open_word_append [of "tl w" "[hd w]" "[]"] by (cases w) auto

lemma words_space: "words (u @ chr_space # l) = words u @ words l"
  "open_word v (u @ chr_space # l) = open_word v u @ words l"
  by (induction u and v u rule: words_open_word.induct) auto

definition letter :: "u_char \<Rightarrow> bool" where
  "letter c \<longleftrightarrow> \<not> ((c < chr_A \<or> c > chr_Z) \<and> (c < chr_a \<or> c > chr_z))"

text \<open>
  A command line without its line feed: an optional carriage return at the end and no other, a
  command word, and its arguments, at most \<open>limit + 1\<close> of them; or, after a command that keeps
  spaces, the rest of the line as one argument.
\<close>

definition chomp :: "bytes \<Rightarrow> bytes" where
  "chomp line = (if line \<noteq> [] \<and> last line = CR then butlast line else line)"

definition line_args :: "bool \<Rightarrow> bytes \<Rightarrow> bytes list" where
  "line_args keep r =
     (if keep then (let a = dropWhile (\<lambda>c. c = chr_space) r in if a = [] then [] else [a]) else words r)"

definition command_line ::
  "(bytes \<Rightarrow> nat option) \<Rightarrow> (nat \<Rightarrow> bool) \<Rightarrow> nat \<Rightarrow> bytes \<Rightarrow> (nat \<times> bytes list) option" where
  "command_line verb keeps_spaces limit line =
     (let l = chomp line; w = takeWhile (\<lambda>c. c \<noteq> chr_space) l; r = dropWhile (\<lambda>c. c \<noteq> chr_space) l in
      if CR \<in> set l then None
      else case verb w of
        None \<Rightarrow> None
      | Some n \<Rightarrow>
          let as = line_args (keeps_spaces n) r in if length as \<le> Suc limit then Some (n, as) else None)"

text \<open>The bytes of a recorded string.\<close>

definition arg_text :: "bytes \<Rightarrow> nat \<times> nat \<Rightarrow> bytes" where
  "arg_text buf a = take (snd a) (drop (fst a) buf)"

lemma arg_text_grow:
  assumes "a \<le> p" "drop p buf = c # xs"
  shows "arg_text buf (a, Suc p - a) = arg_text buf (a, p - a) @ [c]"
proof -
  have p: "p < length buf" "buf ! p = c"
    using assms(2) by (metis drop_all list.distinct(1) not_le, metis assms(2) hd_drop_conv_nth drop_all list.distinct(1) list.sel(1) not_le)
  then have "p - a < length (drop a buf)" "drop a buf ! (p - a) = c" using assms(1) by auto
  then show ?thesis using assms(1) by (simp add: arg_text_def Suc_diff_le take_Suc_conv_app_nth)
qed

text \<open>
  A protocol is a table of command words, all of them letters, since any other byte in the command is refused at once.
\<close>

locale mail_grammar =
  fixes verb :: "bytes \<Rightarrow> nat option" and keeps_spaces :: "nat \<Rightarrow> bool" and limit :: nat
  assumes verb_letters: "verb w = Some n \<Longrightarrow> w \<noteq> [] \<and> list_all letter w"
begin

abbreviation (input) step where "step \<equiv> mail_step verb keeps_spaces limit"

text \<open>The scan of the rest of a line with the arguments \<open>as\<close> in it.\<close>

definition ends_with :: "bytes \<Rightarrow> mail_parse \<Rightarrow> bytes list \<Rightarrow> mail_outcome \<Rightarrow> bool" where
  "ends_with buf s as out \<longleftrightarrow>
     (if length (args s) + length as \<le> Suc limit
      then \<exists>s' q. out = Stop (Done s' q) \<and> command s' = command s \<and> cmd s' = cmd s \<and>
        map (arg_text buf) (args s') = map (arg_text buf) (args s) @ as
      else \<exists>s' q. out = Stop (Invalid s' q))"

lemma at_line_end:
  assumes "t = [LF] \<or> t = [CR, LF]" "length (args s) \<le> Suc limit"
  shows "state s = sw_spaces_before_argument \<Longrightarrow> ends_with buf s [] (scan (step buf) s p t)"
    "state s = sw_argument \<Longrightarrow> arg_start s = Some a \<Longrightarrow> length (args s) \<le> limit \<Longrightarrow>
     ends_with buf s [arg_text buf (a, p - a)] (scan (step buf) s p t)"
  using assms by (auto simp: ends_with_def mail_step_defs)

lemma ends_with_cong:
  "args s' = args s \<Longrightarrow> command s' = command s \<Longrightarrow> cmd s' = cmd s \<Longrightarrow>
   ends_with buf s' as out = ends_with buf s as out"
  by (simp add: ends_with_def)

lemma ends_with_push:
  "args s' = args s @ [x] \<Longrightarrow> command s' = command s \<Longrightarrow> cmd s' = cmd s \<Longrightarrow>
   ends_with buf s' as out = ends_with buf s (arg_text buf x # as) out"
  by (simp add: ends_with_def)

lemma open_word_length: "Suc 0 \<le> length (open_word u l)"
  by (induction l arbitrary: u) auto

lemma words_scanned:
  assumes "t = [LF] \<or> t = [CR, LF]" "CR \<notin> set l" "LF \<notin> set l" "\<not> keeps_spaces (command s)"
    "drop p buf = l @ t @ rest" "length (args s) \<le> Suc limit"
  shows "(state s = sw_spaces_before_argument \<longrightarrow> ends_with buf s (words l) (scan (step buf) s p (l @ t))) \<and>
    (\<forall>a \<le> p. state s = sw_argument \<longrightarrow> arg_start s = Some a \<longrightarrow> length (args s) \<le> limit \<longrightarrow>
       ends_with buf s (open_word (arg_text buf (a, p - a)) l) (scan (step buf) s p (l @ t)))"
  using assms(2-6)
proof (induction l arbitrary: s p)
  case Nil
  then show ?case using at_line_end [OF assms(1), of s] by auto
next
  case (Cons c l)
  have rest: "drop (Suc p) buf = l @ t @ rest"
    using Cons.prems(4) by (metis append_Cons drop_Suc list.sel(3) tl_drop)
  have c: "c \<noteq> CR" "c \<noteq> LF" "CR \<notin> set l" "LF \<notin> set l" using Cons.prems(1,2) by auto
  note IH = Cons.IH [OF c(3,4) _ rest]
  note grow = arg_text_grow [OF _ Cons.prems(4) [unfolded append_Cons]]
  show ?case
  proof (intro conjI allI impI)
    assume st: "state s = sw_spaces_before_argument"
    define s1 where "s1 = s\<lparr>state := sw_argument, arg_start := Some p\<rparr>"
    have "step buf s p c = (if c = chr_space then Cont s
        else if length (args s) \<le> limit then Cont s1 else Stop (Invalid s p))"
      using st c(1,2) by (simp add: mail_step_defs s1_def)
    moreover have "ends_with buf s (words l) (scan (step buf) s (Suc p) (l @ t))"
      using IH [of s] st Cons.prems(3,5) by blast
    moreover have "ends_with buf s (open_word [c] l) (scan (step buf) s1 (Suc p) (l @ t))" if "length (args s) \<le> limit"
      using IH [of s1] grow [of p] Cons.prems(3) that ends_with_cong [of s1 s buf] by (simp add: s1_def arg_text_def)
    ultimately show "ends_with buf s (words (c # l)) (scan (step buf) s p ((c # l) @ t))"
      using open_word_length [of "[c]" l] by (cases "c = chr_space"; cases "length (args s) \<le> limit") (simp_all add: ends_with_def)
  next
    fix a assume a: "a \<le> p" and st: "state s = sw_argument" "arg_start s = Some a" "length (args s) \<le> limit"
    define s1 where
      "s1 = s\<lparr>args := args s @ [(a, p - a)], arg_start := None, state := sw_spaces_before_argument\<rparr>"
    have "step buf s p c = (if c = chr_space then Cont s1 else Cont s)"
      using st c(1,2) Cons.prems(3) by (simp add: mail_step_defs s1_def)
    moreover have "ends_with buf s (arg_text buf (a, p - a) # words l) (scan (step buf) s1 (Suc p) (l @ t))"
      using IH [of s1] Cons.prems(3) st(3) ends_with_push [of s1 s _ buf] by (simp add: s1_def)
    moreover have "ends_with buf s (open_word (arg_text buf (a, Suc p - a)) l) (scan (step buf) s (Suc p) (l @ t))"
      using IH [of s] st a Cons.prems(3,5) by auto
    ultimately show "ends_with buf s (open_word (arg_text buf (a, p - a)) (c # l)) (scan (step buf) s p ((c # l) @ t))"
      using grow [OF a] by simp
  qed
qed

lemma spaced_argument_scanned:
  assumes "t = [LF] \<or> t = [CR, LF]" "CR \<notin> set l" "LF \<notin> set l" "keeps_spaces (command s)"
    "drop p buf = l @ t @ rest" "length (args s) \<le> limit" "state s = sw_argument" "arg_start s = Some a" "a \<le> p"
  shows "ends_with buf s [arg_text buf (a, p - a) @ l] (scan (step buf) s p (l @ t))"
  using assms(2-9)
proof (induction l arbitrary: p)
  case Nil
  then show ?case using at_line_end(2) [OF assms(1), of s] by simp
next
  case (Cons c l)
  have "drop (Suc p) buf = l @ t @ rest"
    using Cons.prems(4) by (metis append_Cons drop_Suc list.sel(3) tl_drop)
  moreover have "step buf s p c = Cont s" using Cons.prems by (simp add: mail_step_defs)
  ultimately show ?case
    using Cons.IH [of "Suc p"] Cons.prems arg_text_grow [OF Cons.prems(8) Cons.prems(4) [unfolded append_Cons]] by simp
qed

lemma spaced_line_scanned:
  assumes "t = [LF] \<or> t = [CR, LF]" "CR \<notin> set l" "LF \<notin> set l" "keeps_spaces (command s)"
    "drop p buf = l @ t @ rest" "length (args s) \<le> limit" "state s = sw_spaces_before_argument"
  shows "ends_with buf s (line_args True l) (scan (step buf) s p (l @ t))"
  using assms(2-7)
proof (induction l arbitrary: p)
  case Nil
  then show ?case using at_line_end(1) [OF assms(1), of s] by (simp add: line_args_def)
next
  case (Cons c l)
  have rest: "drop (Suc p) buf = l @ t @ rest"
    using Cons.prems(4) by (metis append_Cons drop_Suc list.sel(3) tl_drop)
  show ?case
  proof (cases "c = chr_space")
    case True
    then have "step buf s p c = Cont s" using Cons.prems by (simp add: mail_step_defs)
    with Cons rest True show ?thesis by (simp add: line_args_def)
  next
    case False
    define s1 where "s1 = s\<lparr>state := sw_argument, arg_start := Some p\<rparr>"
    have "ends_with buf s1 [arg_text buf (p, Suc p - p) @ l] (scan (step buf) s1 (Suc p) (l @ t))"
      by (rule spaced_argument_scanned [OF assms(1) _ _ _ rest]) (use Cons.prems in \<open>simp_all add: s1_def\<close>)
    moreover have "step buf s p c = Cont s1" using Cons.prems False by (simp add: mail_step_defs s1_def)
    moreover have "arg_text buf (p, Suc p - p) = [c]"
      using arg_text_grow [of p p buf c] Cons.prems(4) by (simp add: arg_text_def)
    ultimately show ?thesis using False ends_with_cong [of s1 s buf] by (simp add: line_args_def s1_def)
  qed
qed

lemma arguments_scanned:
  assumes "t = [LF] \<or> t = [CR, LF]" "CR \<notin> set l" "LF \<notin> set l" "drop p buf = l @ t @ rest"
    "length (args s) \<le> limit" "state s = sw_spaces_before_argument"
  shows "ends_with buf s (line_args (keeps_spaces (command s)) l) (scan (step buf) s p (l @ t))"
  using spaced_line_scanned [OF assms(1-3) _ assms(4-6)] words_scanned [OF assms(1-3) _ assms(4)] assms(5,6)
  by (cases "keeps_spaces (command s)") (simp_all add: line_args_def)

end

text \<open>The command word, and the line as a whole.\<close>

context mail_grammar
begin

lemma letter_step:
  assumes "state s = sw_start \<or> state s = sw_command" "c \<noteq> chr_space" "c \<noteq> CR" "c \<noteq> LF"
  shows "step buf s p c =
    (let s' = s\<lparr>cmd_start := if state s = sw_start then p else cmd_start s\<rparr> in
     if letter c then Cont (s'\<lparr>state := sw_command\<rparr>) else Stop (Invalid s' p))"
  using assms by (auto simp: mail_step_def mail_command_def letter_def Let_def)

lemma letter_not_end: "letter c \<Longrightarrow> c \<noteq> chr_space \<and> c \<noteq> CR \<and> c \<noteq> LF"
  by (auto simp: letter_def)

lemma letters_scanned: "list_all letter w \<Longrightarrow> state s = sw_command \<Longrightarrow> scan (step buf) s p w = Cont s"
proof (induction w arbitrary: p)
  case (Cons c w)
  then have "step buf s p c = Cont s"
    using letter_not_end [of c] by (cases s) (simp add: letter_step)
  with Cons show ?case by simp
qed simp

lemma word_scanned:
  assumes "state s = sw_start" "w \<noteq> []" "list_all letter w"
  shows "scan (step buf) s p w = Cont (s\<lparr>cmd_start := p, state := sw_command\<rparr>)"
  using assms letter_not_end letters_scanned
  by (cases w) (auto simp: letter_step Let_def)

lemma no_word_scanned:
  assumes "state s = sw_start \<or> state s = sw_command" "list_all (\<lambda>c. c \<noteq> chr_space \<and> c \<noteq> CR \<and> c \<noteq> LF) w"
    "\<not> list_all letter w"
  shows "\<exists>s' q. scan (step buf) s p w = Stop (Invalid s' q)"
  using assms
proof (induction w arbitrary: s p)
  case (Cons c w)
  then show ?case by (cases "letter c") (simp_all add: letter_step Let_def)
qed simp

lemma word_end_step:
  assumes "c = chr_space \<or> c = CR \<or> c = LF"
  shows "state s = sw_start \<Longrightarrow> verb [] = None \<Longrightarrow> step buf s p c = Stop (Invalid (s\<lparr>cmd_start := p\<rparr>) p)"
    "state s = sw_command \<Longrightarrow> cmd_start s = b \<Longrightarrow> step buf s p c =
      (case verb (arg_text buf (b, p - b)) of None \<Rightarrow> Stop (Invalid s p)
       | Some n \<Rightarrow> end_of_word (s\<lparr>command := n, cmd := (b, p - b)\<rparr>) p c)"
  using assms by (auto simp: mail_step_def mail_command_def Let_def arg_text_def)

lemma step_without_LF: "ch \<noteq> LF \<Longrightarrow> step buf s p ch = Stop r \<Longrightarrow> \<exists>s' q. r = Invalid s' q"
  by (cases "state s") (auto simp: mail_step_defs split: if_splits option.splits)

lemma scan_without_LF: "LF \<notin> set xs \<Longrightarrow> scan (step buf) s p xs = Stop r \<Longrightarrow> \<exists>s' q. r = Invalid s' q"
  by (induction xs arbitrary: s p) (auto split: outcome.splits dest: step_without_LF)

lemma CR_step: "step buf s p CR = Cont s' \<Longrightarrow> state s' = sw_almost_done"
  by (cases "state s") (auto simp: mail_step_defs split: if_splits option.splits)

text \<open>A carriage return that is not in front of the line feed makes the line invalid.\<close>

lemma CR_inside:
  assumes "LF \<notin> set u" "c \<noteq> LF"
  shows "\<exists>s' q. scan (step buf) s p (u @ CR # c # v) = Stop (Invalid s' q)"
proof (cases "scan (step buf) s p (u @ [CR])")
  case (Cont s1)
  then have "state s1 = sw_almost_done" using CR_step by (auto simp: scan_append split: outcome.splits)
  with assms(2) have "step buf s1 (p + Suc (length u)) c = Stop (Invalid s1 (p + Suc (length u)))"
    by (simp add: mail_step_def)
  with Cont scan_append [of "step buf" s p "u @ [CR]" "c # v"] show ?thesis by simp
next
  case (Stop r)
  with assms scan_without_LF [of "u @ [CR]"] scan_append [of "step buf" s p "u @ [CR]" "c # v"] show ?thesis
    by auto
qed

end

context mail_grammar
begin

lemma line_args_space: "line_args keep (chr_space # r) = line_args keep r"
  by (simp add: line_args_def)

lemma command_scanned:
  assumes t: "t = [LF] \<or> t = [CR, LF]" and l: "CR \<notin> set l" "LF \<notin> set l" "drop p buf = l @ t @ rest"
    and s: "state s = sw_start" "args s = []"
    and w: "w = takeWhile (\<lambda>c. c \<noteq> chr_space) l" and r: "r = dropWhile (\<lambda>c. c \<noteq> chr_space) l"
  shows "case verb w of
      None \<Rightarrow> \<exists>s' q. scan (step buf) s p (l @ t) = Stop (Invalid s' q)
    | Some n \<Rightarrow> ends_with buf (s\<lparr>command := n, cmd := (p, length w)\<rparr>) (line_args (keeps_spaces n) r)
        (scan (step buf) s p (l @ t))"
proof -
  have lw: "l = w @ r" unfolding w r by simp
  have plain: "list_all (\<lambda>c. c \<noteq> chr_space \<and> c \<noteq> CR \<and> c \<noteq> LF) w"
    using l(1,2) set_takeWhileD unfolding w list_all_iff by fastforce
  have wtext: "arg_text buf (p, length w) = w" using l(3) lw by (simp add: arg_text_def)
  obtain c xs where tail: "r @ t = c # xs" "c = chr_space \<or> c = CR \<or> c = LF"
    and cases: "c = chr_space \<and> r = chr_space # tl r \<and> xs = tl r @ t \<or> r = [] \<and> t = c # xs"
  proof (cases r)
    case Nil
    with t that show ?thesis by auto
  next
    case (Cons a r')
    then have "a = chr_space" using r by (metis (lifting) dropWhile_eq_Cons_conv)
    with Cons that show ?thesis by simp
  qed
  consider "w = []" | "w \<noteq> []" "\<not> list_all letter w" | "w \<noteq> []" "list_all letter w" by blast
  then show ?thesis
  proof cases
    case 1
    have "verb [] = None" using verb_letters [of "[]"] by (cases "verb []") auto
    moreover have "step buf s p c = Stop (Invalid (s\<lparr>cmd_start := p\<rparr>) p)"
      using word_end_step(1) [OF tail(2) s(1) calculation] .
    ultimately show ?thesis using 1 lw tail(1) by simp
  next
    case 2
    have "verb w = None" using verb_letters [of w] 2 by (cases "verb w") auto
    with no_word_scanned [OF _ plain 2(2), of s buf p] s lw show ?thesis
      by (auto simp: scan_append)
  next
    case 3
    define s1 where "s1 = s\<lparr>cmd_start := p, state := sw_command\<rparr>"
    have run: "scan (step buf) s p (l @ t) = scan (step buf) s1 (p + length w) (c # xs)"
      using word_scanned [OF s(1) 3, of buf p] lw tail(1) by (simp add: scan_append s1_def)
    have step: "step buf s1 (p + length w) c =
        (case verb w of None \<Rightarrow> Stop (Invalid s1 (p + length w))
         | Some n \<Rightarrow> end_of_word (s1\<lparr>command := n, cmd := (p, length w)\<rparr>) (p + length w) c)"
      using word_end_step(2) [OF tail(2), of s1 p buf "p + length w"] wtext
      by (simp add: s1_def split: option.splits)
    show ?thesis
    proof (cases "verb w")
      case None
      with run step show ?thesis by simp
    next
      case (Some n)
      define s2 where "s2 = s1\<lparr>command := n, cmd := (p, length w), state := sw_spaces_before_argument\<rparr>"
      have same: "args s2 = []" "command s2 = n" "cmd s2 = (p, length w)" "state s2 = sw_spaces_before_argument"
        using s by (simp_all add: s2_def s1_def)
      have rest: "ends_with buf s2 (line_args (keeps_spaces n) (tl r)) (scan (step buf) s2 (Suc (p + length w)) (tl r @ t))"
        if "r = chr_space # tl r"
      proof -
        have "drop (Suc (length w)) (drop p buf) = tl r @ t @ rest"
          unfolding l(3) lw by (subst that) (simp only: append_assoc drop_append, simp)
        then have "drop (Suc (p + length w)) buf = tl r @ t @ rest" by (simp add: ac_simps)
        moreover have "set (tl r) \<subseteq> set l" unfolding lw by (subst (2) that) auto
        ultimately show ?thesis
          using arguments_scanned [OF t, of "tl r" "Suc (p + length w)" buf rest s2] l(1,2) same by auto
      qed
      from cases show ?thesis
      proof
        assume c: "c = chr_space \<and> r = chr_space # tl r \<and> xs = tl r @ t"
        then have "line_args (keeps_spaces n) r = line_args (keeps_spaces n) (tl r)" by (metis line_args_space)
        with c rest run step Some s same
          ends_with_cong [of s2 "s\<lparr>command := n, cmd := (p, length w)\<rparr>" buf] show ?thesis
          by (simp add: end_of_word_def s2_def)
      next
        assume "r = [] \<and> t = c # xs"
        with run step Some t s show ?thesis
          by (auto simp: end_of_word_def ends_with_def line_args_def s1_def mail_step_def)
      qed
    qed
  qed
qed

lemma line_scanned:
  assumes "LF \<notin> set line" "drop p buf = line @ LF # rest" "state s = sw_start" "args s = []"
  shows "case command_line verb keeps_spaces limit line of
      None \<Rightarrow> \<exists>s' q. scan (step buf) s p (line @ [LF]) = Stop (Invalid s' q)
    | Some (n, as) \<Rightarrow> \<exists>s' q. scan (step buf) s p (line @ [LF]) = Stop (Done s' q) \<and> command s' = n \<and>
        map (arg_text buf) (args s') = as \<and> verb (arg_text buf (cmd s')) = Some n"
proof -
  define l where "l = chomp line"
  define t where "t = drop (length l) line @ [LF]"
  have t: "t = [LF] \<and> l = line \<and> (line = [] \<or> last line \<noteq> CR) \<or> t = [CR, LF] \<and> line = l @ [CR]"
    unfolding l_def t_def chomp_def by (cases line rule: rev_cases) auto
  then have split: "line @ [LF] = l @ t" and sub: "LF \<notin> set l" using assms(1) by auto
  show ?thesis
  proof (cases "CR \<in> set l")
    case True
    then obtain u v where l': "l = u @ CR # v" by (meson split_list)
    define c where "c = hd (v @ t)"
    have c: "v @ t = c # tl (v @ t)" using t unfolding c_def by (cases v) auto
    have "c \<noteq> LF" using t l' sub unfolding c_def by (cases v) auto
    with CR_inside [of u c buf s p "tl (v @ t)"] sub l' c split True show ?thesis
      by (simp add: command_line_def Let_def flip: l_def)
  next
    case False
    define w r where "w = takeWhile (\<lambda>c. c \<noteq> chr_space) l" and "r = dropWhile (\<lambda>c. c \<noteq> chr_space) l"
    have buf: "drop p buf = l @ t @ rest" using assms(2) split by (metis append.assoc append_Cons append_Nil)
    have "l = w @ r" unfolding w_def r_def by simp
    with buf have "arg_text buf (p, length w) = w" by (simp add: arg_text_def)
    then show ?thesis
      using command_scanned [OF _ False sub buf assms(3,4) w_def r_def] t split False assms(4)
      by (auto simp: command_line_def Let_def ends_with_def simp flip: l_def w_def r_def
          split: option.splits if_splits)
  qed
qed

end

text \<open>The parser call on a complete line.\<close>

context mail_grammar
begin

lemma line_parsed:
  assumes "LF \<notin> set line" "drop pos buf = line @ LF # rest" "state s = sw_start" "args s = []"
  shows "case command_line verb keeps_spaces limit line of
      None \<Rightarrow> \<exists>s'. mail_parse_command verb keeps_spaces limit auth s buf pos =
          (NGX_MAIL_PARSE_INVALID_COMMAND, s', pos + length line + 1) \<and> state s' = sw_start
    | Some (n, as) \<Rightarrow> \<exists>s'. mail_parse_command verb keeps_spaces limit auth s buf pos =
          (NGX_OK, s', pos + length line + 1) \<and> command s' = n \<and> map (arg_text buf) (args s') = as \<and>
          state s' = (if n = auth then sw_argument else sw_start)"
proof -
  have drop: "drop pos buf = (line @ [LF]) @ rest" using assms(2) by simp
  then have le: "pos \<le> length buf" by (metis append_is_Nil_conv drop_all list.distinct(1) nle_le)
  have len: "length (takeWhile (\<lambda>c. c \<noteq> LF) (drop pos buf)) = length line"
    using assms(1) unfolding assms(2) by (subst takeWhile_append2) auto
  have LF: "LF \<in> set (drop pos buf)" using assms(2) by simp
  obtain rc s' pos' where call: "mail_parse_command verb keeps_spaces limit auth s buf pos = (rc, s', pos')"
    by (cases "mail_parse_command verb keeps_spaces limit auth s buf pos")
  note framing = mail_parse_framing [OF call le]
  then have again: "rc \<noteq> NGX_AGAIN" and pos': "pos' = pos + length line + 1" using LF len by auto
  show ?thesis
  proof (cases "command_line verb keeps_spaces limit line")
    case None
    with line_scanned [OF assms] obtain s1 q where "scan (step buf) s pos (line @ [LF]) = Stop (Invalid s1 q)" by auto
    then have "scan (step buf) s pos (drop pos buf) = Stop (Invalid s1 q)" unfolding drop by (rule scan_Stop_prefix)
    with call again pos' None show ?thesis by (auto simp: mail_parse_command_def split: option.splits)
  next
    case (Some x)
    obtain n as where x: "x = (n, as)" by (cases x)
    with Some line_scanned [OF assms] obtain s1 q
      where run: "scan (step buf) s pos (line @ [LF]) = Stop (Done s1 q)" and s1: "command s1 = n" "map (arg_text buf) (args s1) = as" by auto
    have "scan (step buf) s pos (drop pos buf) = Stop (Done s1 q)" unfolding drop by (rule scan_Stop_prefix [OF run])
    with call again pos' Some x s1 show ?thesis by (auto simp: mail_parse_command_def mail_done_def)
  qed
qed

end

lemma toupper_letter:
  assumes "ngx_toupper c \<ge> chr_A" "ngx_toupper c \<le> chr_Z"
  shows "letter c"
  using assms by (auto simp: letter_def ngx_toupper_def split: if_splits)

lemma pop3_verb_letters: "pop3_verb w = Some n \<Longrightarrow> w \<noteq> [] \<and> list_all letter w"
  unfolding pop3_verb_def Let_def
  by (auto simp: str_def split: if_splits intro!: toupper_letter)

lemma either_case_letter:
  assumes "either_case u c" "chr_A \<le> u" "u \<le> chr_Z"
  shows "letter c"
  using assms upper_or_0x20 [OF assms(2,3)] by (auto simp: either_case_def letter_def)

lemma smtp_verb_letters: "smtp_verb w = Some n \<Longrightarrow> w \<noteq> [] \<and> list_all letter w"
  unfolding smtp_verb_def Let_def
  by (auto simp: str_def list_all2_Cons1 split: if_splits intro!: toupper_letter elim!: either_case_letter)

interpretation pop3: mail_grammar pop3_verb pop3_keeps_spaces 2
  by unfold_locales (rule pop3_verb_letters)

interpretation smtp: mail_grammar smtp_verb "\<lambda>_. False" 10
  by unfold_locales (rule smtp_verb_letters)

subsection \<open>Properties\<close>

text \<open>
  A command line of a mail client may arrive in any pieces.  Calling the parser after each piece, where
  it stopped, gives the code, the recorded command and the position of one call on all the bytes; this
  includes the lines that are skipped as invalid.
\<close>

theorem mail_commands_any_chunks:
  "parse_chunks ngx_mail_pop3_parse_command s buf (length buf) cs =
     ngx_mail_pop3_parse_command s (buf @ concat cs) (length buf) \<and>
   parse_chunks ngx_mail_smtp_parse_command s buf (length buf) cs =
     ngx_mail_smtp_parse_command s (buf @ concat cs) (length buf)"
  unfolding ngx_mail_pop3_parse_command_def ngx_mail_smtp_parse_command_def by (simp only: mail_any_chunks)

text \<open>
  Property C32: from whatever state, a call asks for more bytes exactly if the input has no line feed, and otherwise it consumes the
  input up to its first line feed and no further: an invalid command never takes a part of the next line
  with it, and no command is read across a line end.
\<close>

theorem mail_command_consumes_line:
  "(case ngx_mail_pop3_parse_command s (before @ input) (length before) of (rc, s', pos) \<Rightarrow>
      (rc = NGX_AGAIN \<longleftrightarrow> LF \<notin> set input) \<and>
      pos = length before + (if rc = NGX_AGAIN then length input else length (takeWhile (\<lambda>c. c \<noteq> LF) input) + 1)) \<and>
   (case ngx_mail_smtp_parse_command s (before @ input) (length before) of (rc, s', pos) \<Rightarrow>
      (rc = NGX_AGAIN \<longleftrightarrow> LF \<notin> set input) \<and>
      pos = length before + (if rc = NGX_AGAIN then length input else length (takeWhile (\<lambda>c. c \<noteq> LF) input) + 1))"
proof -
  have "case mail_parse_command verb keeps_spaces limit auth s (before @ input) (length before) of (rc, s', pos) \<Rightarrow>
      (rc = NGX_AGAIN \<longleftrightarrow> LF \<notin> set input) \<and>
      pos = length before + (if rc = NGX_AGAIN then length input else length (takeWhile (\<lambda>c. c \<noteq> LF) input) + 1)"
    for verb keeps_spaces limit auth
    using mail_parse_framing [of verb keeps_spaces limit auth s "before @ input" "length before"]
    by (cases "mail_parse_command verb keeps_spaces limit auth s (before @ input) (length before)") auto
  then show ?thesis unfolding ngx_mail_pop3_parse_command_def ngx_mail_smtp_parse_command_def by (intro conjI)
qed

text \<open>
  Property C11: on a complete line the two parsers accept exactly the command lines of the grammar
  (a known command word in any case, arguments between spaces, at most three for POP3 and eleven for SMTP, one argument
  with its spaces after \<^verbatim>\<open>USER\<close> and \<^verbatim>\<open>PASS\<close>, and no carriage return but the one in front of the line feed), record the command
  and the texts of its arguments, and refuse every other line; after \<^verbatim>\<open>AUTH\<close> the next line is read as an argument.
\<close>

theorem mail_line_parsed:
  assumes "LF \<notin> set line" "state s = sw_start" "args s = []"
    and "buf = before @ line @ LF # rest" "pos = length before"
  shows "(case command_line pop3_verb pop3_keeps_spaces 2 line of
       None \<Rightarrow> \<exists>s'. ngx_mail_pop3_parse_command s buf pos =
           (NGX_MAIL_PARSE_INVALID_COMMAND, s', pos + length line + 1) \<and> state s' = sw_start
     | Some (n, as) \<Rightarrow> \<exists>s'. ngx_mail_pop3_parse_command s buf pos = (NGX_OK, s', pos + length line + 1) \<and>
           command s' = n \<and> map (arg_text buf) (args s') = as \<and>
           state s' = (if n = NGX_POP3_AUTH then sw_argument else sw_start)) \<and>
    (case command_line smtp_verb (\<lambda>_. False) 10 line of
       None \<Rightarrow> \<exists>s'. ngx_mail_smtp_parse_command s buf pos =
           (NGX_MAIL_PARSE_INVALID_COMMAND, s', pos + length line + 1) \<and> state s' = sw_start
     | Some (n, as) \<Rightarrow> \<exists>s'. ngx_mail_smtp_parse_command s buf pos = (NGX_OK, s', pos + length line + 1) \<and>
           command s' = n \<and> map (arg_text buf) (args s') = as \<and>
           state s' = (if n = NGX_SMTP_AUTH then sw_argument else sw_start))"
proof -
  have "drop pos buf = line @ LF # rest" using assms(4,5) by simp
  from pop3.line_parsed [OF assms(1) this assms(2,3)] smtp.line_parsed [OF assms(1) this assms(2,3)]
  show ?thesis unfolding ngx_mail_pop3_parse_command_def ngx_mail_smtp_parse_command_def by blast
qed

definition mail_parse_init :: mail_parse where
  "mail_parse_init = \<lparr>state = sw_start, command = 0, cmd_start = 0, arg_start = None, cmd = (0, 0), args = []\<rparr>"

lemma user_line:
  "command_line pop3_verb pop3_keeps_spaces 2 (str ''user a b'' @ [CR]) = Some (NGX_POP3_USER, [str ''a b''])"
  "command_line smtp_verb (\<lambda>_. False) 10 (str ''user a b'' @ [CR]) = None"
  by (simp_all add: command_line_def chomp_def line_args_def pop3_verb_def smtp_verb_def pop3_keeps_spaces_def str_def
      ngx_toupper_def Let_def)

theorem mail_line_parsed_witness:
  "(\<exists>s'. ngx_mail_pop3_parse_command mail_parse_init (str ''user a b'' @ [CR, LF]) 0 = (NGX_OK, s', 10) \<and>
     command s' = NGX_POP3_USER \<and> map (arg_text (str ''user a b'' @ [CR, LF])) (args s') = [str ''a b'']) \<and>
   (\<exists>s'. ngx_mail_smtp_parse_command mail_parse_init (str ''user a b'' @ [CR, LF]) 0 =
     (NGX_MAIL_PARSE_INVALID_COMMAND, s', 10))"
  using mail_line_parsed [of "str ''user a b'' @ [CR]" mail_parse_init "str ''user a b'' @ [CR, LF]" "[]" "[]" 0] user_line
  by (auto simp: mail_parse_init_def str_def)

end
