(* ===== verification/Ngx_Mail_Session.thy ===== *)
theory Ngx_Mail_Session
  imports Ngx_Mail_Parse Ngx_Base64 Ngx_String
begin

text \<open>
  The session of a mail client and the functions all mail protocols share: reading a command, the
  SASL mechanisms, and sending an answer (\<^verbatim>\<open>src/mail/ngx_mail_handler.c\<close>, \<^verbatim>\<open>ngx_mail_auth_parse\<close> of
  \<^verbatim>\<open>src/mail/ngx_mail_parse.c\<close>).  Allocation is taken to succeed; what the code writes to its logs
  is left out.
\<close>

subsection \<open>The session\<close>

abbreviation (input) NGX_MAIL_AUTH_PLAIN :: int where "NGX_MAIL_AUTH_PLAIN \<equiv> 0"
abbreviation (input) NGX_MAIL_AUTH_LOGIN :: int where "NGX_MAIL_AUTH_LOGIN \<equiv> 1"
abbreviation (input) NGX_MAIL_AUTH_LOGIN_USERNAME :: int where "NGX_MAIL_AUTH_LOGIN_USERNAME \<equiv> 2"
abbreviation (input) NGX_MAIL_AUTH_APOP :: int where "NGX_MAIL_AUTH_APOP \<equiv> 3"
abbreviation (input) NGX_MAIL_AUTH_CRAM_MD5 :: int where "NGX_MAIL_AUTH_CRAM_MD5 \<equiv> 4"
abbreviation (input) NGX_MAIL_AUTH_EXTERNAL :: int where "NGX_MAIL_AUTH_EXTERNAL \<equiv> 5"
abbreviation (input) NGX_MAIL_AUTH_NONE :: int where "NGX_MAIL_AUTH_NONE \<equiv> 6"

abbreviation (input) NGX_MAIL_AUTH_APOP_ENABLED :: uint64 where "NGX_MAIL_AUTH_APOP_ENABLED \<equiv> 0x0008"
abbreviation (input) NGX_MAIL_AUTH_CRAM_MD5_ENABLED :: uint64 where "NGX_MAIL_AUTH_CRAM_MD5_ENABLED \<equiv> 0x0010"
abbreviation (input) NGX_MAIL_AUTH_EXTERNAL_ENABLED :: uint64 where "NGX_MAIL_AUTH_EXTERNAL_ENABLED \<equiv> 0x0020"
abbreviation (input) NGX_MAIL_AUTH_NONE_ENABLED :: uint64 where "NGX_MAIL_AUTH_NONE_ENABLED \<equiv> 0x0040"

text \<open>
  The states of the dialogue with the client; \<open>ngx_pop3_start\<close> and \<open>ngx_smtp_start\<close> are both zero in the
  source, and the states of the dialogue with the backend are left out.
\<close>

datatype mail_state =
  mail_start | pop3_user | pop3_passwd | auth_login_username | auth_login_password | auth_plain
| auth_cram_md5 | auth_external

datatype starttls_mode = NGX_MAIL_STARTTLS_OFF | NGX_MAIL_STARTTLS_ON | NGX_MAIL_STARTTLS_ONLY

text \<open>
  A string that is kept: the initialised bytes from \<^verbatim>\<open>data\<close> to the end of its allocation, and \<^verbatim>\<open>len\<close>.
  The two are separate assignments in the source, so they need not fit.
\<close>

type_synonym ngx_str = "bytes \<times> nat"

definition str_fits :: "ngx_str \<Rightarrow> bool" where
  "str_fits x \<longleftrightarrow> snd x \<le> length (fst x)"

definition str_bytes :: "ngx_str \<Rightarrow> bytes" where
  "str_bytes x = take (snd x) (fst x)"

text \<open>The read handler of the connection, as far as it is a handler of the dialogue with the client.\<close>

datatype read_handler = auth_state_handler | starttls_handler | block_read_handler

text \<open>
  The part of \<^verbatim>\<open>ngx_mail_session_t\<close> and of its connection the dialogue uses.  \<open>buf\<close> holds the bytes from \<^verbatim>\<open>start\<close> to
  \<^verbatim>\<open>last\<close>, \<open>buf_end\<close> is \<^verbatim>\<open>end - start\<close>.  \<open>fault\<close> records an access to an argument that is not there.
\<close>

record mail_session =
  parser :: mail_parse
  buf :: bytes
  pos :: nat
  buf_end :: nat
  mail_state :: mail_state
  out :: bytes
  blocked :: bool
  quit :: bool
  esmtp :: bool
  auth_method :: int
  login :: ngx_str
  passwd :: ngx_str
  salt :: "bytes option"
  smtp_helo :: bytes
  smtp_from :: bytes
  smtp_to :: bytes
  errors :: nat
  login_attempt :: nat
  ssl :: bool
  handler :: read_handler
  destroyed :: bool
  fault :: bool

record mail_conf =
  starttls :: starttls_mode
  auth_methods :: uint64
  max_errors :: nat
  capability :: bytes
  starttls_capability :: bytes
  starttls_only_capability :: bytes
  auth_capability :: bytes
  server_name :: bytes
  internal_server_error :: bytes
  logs_info :: bool

text \<open>What \<^verbatim>\<open>c->recv\<close> finds; it gives at most as many bytes as there is room for, and none at the end of the input.\<close>

datatype recv = Recv bytes | Recv_again | Recv_error

text \<open>
  A read event: whether the timer ran out, what can be received, the result of
  \<^verbatim>\<open>ngx_handle_read_event\<close>, and the text of a new salt, should one be needed.
\<close>

record read_event =
  timedout :: bool
  received :: recv
  read_event_ok :: bool
  salt_text :: bytes

text \<open>How a handler ends: it waits for the next event, sends, starts an authentication request, has closed the connection, or calls the read handler.\<close>

datatype mail_next = Wait | Send | Auth | Closed | Call_read

definition ngx_mail_close_connection :: "mail_session \<Rightarrow> mail_session" where
  "ngx_mail_close_connection s = s\<lparr>destroyed := True\<rparr>"

definition ngx_mail_session_internal_server_error :: "mail_conf \<Rightarrow> mail_session \<Rightarrow> mail_session" where
  "ngx_mail_session_internal_server_error cf s = s\<lparr>out := internal_server_error cf, quit := True\<rparr>"

definition reset_buffer :: "mail_session \<Rightarrow> mail_session" where
  "reset_buffer s = s\<lparr>buf := [], pos := 0\<rparr>"

definition rewind_buffer :: "mail_session \<Rightarrow> mail_session" where
  "rewind_buffer s = (if pos s = length (buf s) then reset_buffer s else s)"

definition set_state :: "mail_parse_state \<Rightarrow> mail_session \<Rightarrow> mail_session" where
  "set_state st s = s\<lparr>parser := (parser s)\<lparr>state := st\<rparr>\<rparr>"

definition no_args :: "mail_session \<Rightarrow> mail_session" where
  "no_args s = s\<lparr>parser := (parser s)\<lparr>args := []\<rparr>\<rparr>"

definition CRLF :: bytes where "CRLF = [CR, LF]"

subsection \<open>Reading a command\<close>

text \<open>The second half of \<^verbatim>\<open>ngx_mail_read_command\<close>, from the call of the parser on.\<close>

definition mail_parse_received ::
  "(mail_parse \<Rightarrow> bytes \<Rightarrow> nat \<Rightarrow> int \<times> mail_parse \<times> nat) \<Rightarrow> mail_conf \<Rightarrow> mail_session \<Rightarrow> int \<times> mail_session" where
  "mail_parse_received parse_command cf s =
     (case parse_command (parser s) (buf s) (pos s) of (rc, ps, q) \<Rightarrow>
        let s = s\<lparr>parser := ps, pos := q\<rparr> in
        if rc = NGX_AGAIN then
          (if length (buf s) < buf_end s then (NGX_AGAIN, s)
           else (NGX_MAIL_PARSE_INVALID_COMMAND, s\<lparr>quit := True\<rparr>))
        else if rc = NGX_MAIL_PARSE_INVALID_COMMAND then
          (let s = s\<lparr>errors := errors s + 1\<rparr> in
           (rc, if errors s \<ge> max_errors cf then s\<lparr>quit := True\<rparr> else s))
        else (NGX_OK, s))"

definition ngx_mail_read_command ::
  "(mail_parse \<Rightarrow> bytes \<Rightarrow> nat \<Rightarrow> int \<times> mail_parse \<times> nat) \<Rightarrow> mail_conf \<Rightarrow> recv \<Rightarrow> mail_session \<Rightarrow> int \<times> mail_session" where
  "ngx_mail_read_command parse_command cf r s =
     (if length (buf s) < buf_end s then
        (case r of
           Recv_error \<Rightarrow> (NGX_ERROR, ngx_mail_close_connection s)
         | Recv bs \<Rightarrow>
             if bs = [] then (NGX_ERROR, ngx_mail_close_connection s)
             else mail_parse_received parse_command cf (s\<lparr>buf := buf s @ take (buf_end s - length (buf s)) bs\<rparr>)
         | Recv_again \<Rightarrow>
             if pos s = length (buf s) then (NGX_AGAIN, s) else mail_parse_received parse_command cf s)
      else mail_parse_received parse_command cf s)"

subsection \<open>SASL mechanisms\<close>

definition ngx_mail_starttls_only :: "mail_conf \<Rightarrow> mail_session \<Rightarrow> bool" where
  "ngx_mail_starttls_only cf s \<longleftrightarrow> \<not> ssl s \<and> starttls cf = NGX_MAIL_STARTTLS_ONLY"

text \<open>The argument \<^verbatim>\<open>arg[n]\<close>; an index behind the last argument is a fault.\<close>

definition with_arg :: "nat \<Rightarrow> mail_session \<Rightarrow> (bytes \<Rightarrow> int \<times> mail_session) \<Rightarrow> int \<times> mail_session" where
  "with_arg n s f =
     (if n < length (args (parser s)) then f (arg_text (buf s) (args (parser s) ! n))
      else (NGX_ERROR, s\<lparr>fault := True\<rparr>))"

text \<open>
  The two loops skip to the byte behind the first NUL and to the next NUL.  \<^verbatim>\<open>s->login.data\<close> is set between
  them, \<^verbatim>\<open>s->login.len\<close> only behind the second.
\<close>

definition plain_login :: "bytes \<Rightarrow> mail_session \<Rightarrow> int \<times> mail_session" where
  "plain_login p s =
     (if p = [] then (NGX_MAIL_PARSE_INVALID_COMMAND, s)
      else
        let s = s\<lparr>login := (p, snd (login s))\<rparr>; q = dropWhile (\<lambda>c. c \<noteq> 0) p in
        if q = [] then (NGX_MAIL_PARSE_INVALID_COMMAND, s)
        else (NGX_DONE, s\<lparr>login := (p, length p - length q), passwd := (tl q, length (tl q))\<rparr>))"

definition ngx_mail_auth_plain :: "nat \<Rightarrow> mail_session \<Rightarrow> int \<times> mail_session" where
  "ngx_mail_auth_plain n s =
     with_arg n s (\<lambda>arg.
       case ngx_decode_base64 arg of
         None \<Rightarrow> (NGX_MAIL_PARSE_INVALID_COMMAND, s)
       | Some plain \<Rightarrow> plain_login (tl (dropWhile (\<lambda>c. c \<noteq> 0) plain)) s)"

text \<open>
  A failed decoding leaves \<^verbatim>\<open>data\<close> at memory that has been allocated but not written, and \<^verbatim>\<open>len\<close> as it was.
\<close>

definition ngx_mail_auth_login_username :: "nat \<Rightarrow> mail_session \<Rightarrow> int \<times> mail_session" where
  "ngx_mail_auth_login_username n s =
     with_arg n s (\<lambda>arg.
       case ngx_decode_base64 arg of
         None \<Rightarrow> (NGX_MAIL_PARSE_INVALID_COMMAND, s\<lparr>login := ([], snd (login s))\<rparr>)
       | Some d \<Rightarrow> (NGX_OK, s\<lparr>login := (d, length d)\<rparr>))"

definition ngx_mail_auth_login_password :: "mail_session \<Rightarrow> int \<times> mail_session" where
  "ngx_mail_auth_login_password s =
     with_arg 0 s (\<lambda>arg.
       case ngx_decode_base64 arg of
         None \<Rightarrow> (NGX_MAIL_PARSE_INVALID_COMMAND, s\<lparr>passwd := ([], snd (passwd s))\<rparr>)
       | Some d \<Rightarrow> (NGX_DONE, s\<lparr>passwd := (d, length d)\<rparr>))"

definition ngx_mail_salt :: "bytes \<Rightarrow> mail_session \<Rightarrow> mail_session" where
  "ngx_mail_salt txt s = s\<lparr>salt := Some (txt @ CRLF)\<rparr>"

definition ngx_mail_auth_cram_md5_salt :: "bytes \<Rightarrow> mail_session \<Rightarrow> int \<times> mail_session" where
  "ngx_mail_auth_cram_md5_salt prefix s =
     (case salt s of
        None \<Rightarrow> (NGX_ERROR, s\<lparr>fault := True\<rparr>)
      | Some t \<Rightarrow> (NGX_OK, s\<lparr>out := prefix @ ngx_encode_base64 (take (length t - 2) t) @ CRLF\<rparr>))"

definition ngx_mail_auth_cram_md5 :: "mail_session \<Rightarrow> int \<times> mail_session" where
  "ngx_mail_auth_cram_md5 s =
     with_arg 0 s (\<lambda>arg.
       case ngx_decode_base64 arg of
         None \<Rightarrow> (NGX_MAIL_PARSE_INVALID_COMMAND, s\<lparr>login := ([], snd (login s))\<rparr>)
       | Some d \<Rightarrow>
           let u = takeWhile (\<lambda>c. c \<noteq> chr_space) d; r = dropWhile (\<lambda>c. c \<noteq> chr_space) d;
             s = (if r = [] then s\<lparr>login := (d, length d)\<rparr>
                  else s\<lparr>login := (d, length u), passwd := (tl r, length (tl r))\<rparr>) in
           if snd (passwd s) \<noteq> 32 then (NGX_MAIL_PARSE_INVALID_COMMAND, s)
           else (NGX_DONE, s\<lparr>auth_method := NGX_MAIL_AUTH_CRAM_MD5\<rparr>))"

definition ngx_mail_auth_external :: "nat \<Rightarrow> mail_session \<Rightarrow> int \<times> mail_session" where
  "ngx_mail_auth_external n s =
     with_arg n s (\<lambda>arg.
       case ngx_decode_base64 arg of
         None \<Rightarrow> (NGX_MAIL_PARSE_INVALID_COMMAND, s)
       | Some d \<Rightarrow> (NGX_DONE, s\<lparr>login := (d, length d), auth_method := NGX_MAIL_AUTH_EXTERNAL\<rparr>))"

definition ngx_mail_auth_parse :: "mail_conf \<Rightarrow> mail_session \<Rightarrow> int \<times> mail_session" where
  "ngx_mail_auth_parse cf s =
     (if ngx_mail_starttls_only cf s then (NGX_MAIL_PARSE_INVALID_COMMAND, s)
      else
        let nelts = length (args (parser s)) in
        if nelts = 0 then (NGX_MAIL_PARSE_INVALID_COMMAND, s)
        else
          let arg = arg_text (buf s) (args (parser s) ! 0); len = snd (args (parser s) ! 0) in
          if len = 5 then
            (if ngx_strncasecmp arg (str ''LOGIN'') 5 = 0 then
               (if nelts = 1 then (NGX_MAIL_AUTH_LOGIN, s)
                else if nelts = 2 then (NGX_MAIL_AUTH_LOGIN_USERNAME, s)
                else (NGX_MAIL_PARSE_INVALID_COMMAND, s))
             else if ngx_strncasecmp arg (str ''PLAIN'') 5 = 0 \<and> nelts = 1 then (NGX_MAIL_AUTH_PLAIN, s)
             else if ngx_strncasecmp arg (str ''PLAIN'') 5 = 0 \<and> nelts = 2 then ngx_mail_auth_plain 1 s
             else (NGX_MAIL_PARSE_INVALID_COMMAND, s))
          else if len = 8 then
            (if ngx_strncasecmp arg (str ''CRAM-MD5'') 8 = 0 then
               (if nelts \<noteq> 1 then (NGX_MAIL_PARSE_INVALID_COMMAND, s) else (NGX_MAIL_AUTH_CRAM_MD5, s))
             else if ngx_strncasecmp arg (str ''EXTERNAL'') 8 = 0 \<and> nelts = 1 then (NGX_MAIL_AUTH_EXTERNAL, s)
             else if ngx_strncasecmp arg (str ''EXTERNAL'') 8 = 0 \<and> nelts = 2 then ngx_mail_auth_external 1 s
             else (NGX_MAIL_PARSE_INVALID_COMMAND, s))
          else (NGX_MAIL_PARSE_INVALID_COMMAND, s))"

subsection \<open>The end of a handler\<close>

text \<open>The authentication request itself is not modelled; while it runs, the client is not read.\<close>

definition ngx_mail_auth :: "mail_session \<Rightarrow> mail_session" where
  "ngx_mail_auth s =
     (let s = set_state sw_start (rewind_buffer (no_args s)) in
      s\<lparr>login_attempt := login_attempt s + 1, handler := block_read_handler\<rparr>)"

text \<open>
  A refused login: the answer has been stored, and after the pause \<^verbatim>\<open>ngx_mail_auth_sleep_handler\<close> goes back to the
  dialogue.
\<close>

definition ngx_mail_auth_sleep_handler :: "bytes \<Rightarrow> mail_session \<Rightarrow> mail_session" where
  "ngx_mail_auth_sleep_handler err s =
     s\<lparr>out := err, handler := auth_state_handler, mail_state := mail_start, auth_method := NGX_MAIL_AUTH_PLAIN\<rparr>"

datatype send_result = Sent nat | Send_again | Send_error

text \<open>\<^verbatim>\<open>ngx_mail_send\<close>; the second result says whether it calls the read handler.\<close>

definition ngx_mail_send :: "bool \<Rightarrow> send_result \<Rightarrow> mail_session \<Rightarrow> mail_session \<times> bool" where
  "ngx_mail_send timed_out r s =
     (if timed_out then (ngx_mail_close_connection s, False)
      else if out s = [] then (s, False)
      else case r of
        Send_error \<Rightarrow> (ngx_mail_close_connection s, False)
      | Send_again \<Rightarrow> (s, False)
      | Sent n \<Rightarrow>
          let s = s\<lparr>out := drop n (out s)\<rparr> in
          if out s \<noteq> [] then (s, False)
          else if quit s then (ngx_mail_close_connection s, False)
          else (s, blocked s))"

text \<open>
  The end of the handlers of both protocols: the \<^verbatim>\<open>switch (rc)\<close> with the answer to an invalid command.
\<close>

definition mail_answer :: "mail_conf \<Rightarrow> bytes \<Rightarrow> bool \<Rightarrow> int \<times> mail_session \<Rightarrow> mail_session \<times> mail_next" where
  "mail_answer cf invalid_command event_ok res =
     (case res of (rc, s) \<Rightarrow>
        let s = (if pos s < length (buf s) then s\<lparr>blocked := True\<rparr> else s) in
        if rc = NGX_DONE then (ngx_mail_auth s, Auth)
        else if rc = NGX_ERROR then (ngx_mail_session_internal_server_error cf s, Send)
        else if rc = NGX_MAIL_PARSE_INVALID_COMMAND \<or> rc = NGX_OK then
          let s = (if rc = NGX_OK then s else set_state sw_start (s\<lparr>mail_state := mail_start, out := invalid_command\<rparr>));
            s = rewind_buffer (no_args s);
            s = (if state (parser s) = sw_start then s else s\<lparr>parser := (parser s)\<lparr>arg_start := Some (pos s)\<rparr>\<rparr>) in
          if event_ok then (s, Send) else (ngx_mail_session_internal_server_error cf s, Send)
        else (s, Wait))"

subsection \<open>The handler of the dialogue\<close>

text \<open>
  \<^verbatim>\<open>ngx_mail_pop3_auth_state\<close> and \<^verbatim>\<open>ngx_mail_smtp_auth_state\<close> differ in their parser, their answers and in the
  function that is chosen for a command, \<open>dispatch\<close>.
\<close>

definition mail_auth_state ::
  "(mail_parse \<Rightarrow> bytes \<Rightarrow> nat \<Rightarrow> int \<times> mail_parse \<times> nat) \<Rightarrow> bytes \<Rightarrow> bytes \<Rightarrow>
   (mail_conf \<Rightarrow> bytes \<Rightarrow> mail_session \<Rightarrow> int \<times> mail_session) \<Rightarrow>
   mail_conf \<Rightarrow> read_event \<Rightarrow> mail_session \<Rightarrow> mail_session \<times> mail_next" where
  "mail_auth_state parse_command ok invalid_command dispatch cf ev s =
     (if timedout ev then (ngx_mail_close_connection s, Closed)
      else if out s \<noteq> [] then
        let s = s\<lparr>blocked := True\<rparr> in
        if read_event_ok ev then (s, Wait) else (ngx_mail_close_connection s, Closed)
      else
        case ngx_mail_read_command parse_command cf (received ev) (s\<lparr>blocked := False\<rparr>) of (rc, s) \<Rightarrow>
          if rc = NGX_AGAIN then
            (if read_event_ok ev then (s, Wait) else (ngx_mail_session_internal_server_error cf s, Send))
          else if rc = NGX_ERROR then (s, Closed)
          else
            let s = s\<lparr>out := ok\<rparr> in
            mail_answer cf invalid_command (read_event_ok ev)
              (if rc = NGX_OK then dispatch cf (salt_text ev) s else (rc, s)))"

text \<open>
  The life of a connection in front of a login: read events, the sending of answers, which may call the read handler again at
  once (\<open>Call_read\<close>), the refusal of a login, and the end of a TLS handshake after
  \<^verbatim>\<open>STARTTLS\<close>, which starts the protocol anew.
\<close>

inductive mail_run ::
  "(mail_conf \<Rightarrow> read_event \<Rightarrow> mail_session \<Rightarrow> mail_session \<times> mail_next) \<Rightarrow> mail_conf \<Rightarrow>
   mail_session \<times> mail_next \<Rightarrow> mail_session \<times> mail_next \<Rightarrow> bool"
  for auth_state :: "mail_conf \<Rightarrow> read_event \<Rightarrow> mail_session \<Rightarrow> mail_session \<times> mail_next" and cf :: mail_conf where
  read: "\<not> destroyed s \<Longrightarrow> c = Wait \<or> c = Call_read \<Longrightarrow> handler s = auth_state_handler \<Longrightarrow>
    auth_state cf ev s = res \<Longrightarrow> mail_run auth_state cf (s, c) res"
| send: "\<not> destroyed s \<Longrightarrow> c = Send \<or> c = Wait \<Longrightarrow> ngx_mail_send t r s = (s', again) \<Longrightarrow>
    mail_run auth_state cf (s, c) (s', if again then Call_read else Wait)"
| refused: "mail_run auth_state cf (s, Auth) (ngx_mail_auth_sleep_handler err s, Send)"
| handshake: "\<not> destroyed s \<Longrightarrow> c = Wait \<or> c = Call_read \<Longrightarrow> handler s = starttls_handler \<Longrightarrow>
    mail_run auth_state cf (s, c) (s\<lparr>ssl := True, mail_state := mail_start, handler := auth_state_handler\<rparr>, Call_read)"

inductive_cases mail_runE: "mail_run auth_state cf x y"

text \<open>A new connection: the buffer and the arguments are empty, and nothing of the client is known.\<close>

definition mail_connected :: "nat \<Rightarrow> bytes option \<Rightarrow> bytes \<Rightarrow> bool \<Rightarrow> mail_session" where
  "mail_connected room slt greeting tls =
     \<lparr>parser = mail_parse_init, buf = [], pos = 0, buf_end = room, mail_state = mail_start, out = greeting, blocked = False,
      quit = False, esmtp = False, auth_method = NGX_MAIL_AUTH_PLAIN, login = ([], 0), passwd = ([], 0), salt = slt,
      smtp_helo = [], smtp_from = [], smtp_to = [], errors = 0, login_attempt = 0, ssl = tls,
      handler = auth_state_handler, destroyed = False, fault = False\<rparr>"

subsection \<open>What the code does not intend\<close>

text \<open>
  \<^verbatim>\<open>AUTH PLAIN\<close> without a password moves \<^verbatim>\<open>s->login.data\<close> to the new bytes and keeps the length of an earlier
  login.  The log line about it, which prints the login, then reads behind the allocation.
\<close>

theorem auth_plain_keeps_length:
  assumes "n < length (args (parser s))" "ngx_decode_base64 (arg_text (buf s) (args (parser s) ! n)) = Some (0 # u)"
    "u \<noteq> []" "0 \<notin> set u" "length u < snd (login s)" "ngx_mail_auth_plain n s = (rc, s')"
  shows "rc = NGX_MAIL_PARSE_INVALID_COMMAND \<and> \<not> str_fits (login s')"
proof -
  have "dropWhile (\<lambda>c. c \<noteq> 0) u = []" using assms(4) by auto
  then show ?thesis
    using assms by (auto simp: ngx_mail_auth_plain_def with_arg_def plain_login_def str_fits_def Let_def)
qed

text \<open>A failed decoding in \<^verbatim>\<open>AUTH LOGIN\<close> does the same with memory that has not been written.\<close>

theorem auth_login_keeps_length:
  assumes "args (parser s) \<noteq> []" "ngx_decode_base64 (arg_text (buf s) (args (parser s) ! 0)) = None"
    "ngx_mail_auth_login_password s = (rc, s')" "0 < snd (passwd s)"
  shows "rc = NGX_MAIL_PARSE_INVALID_COMMAND \<and> snd (passwd s') = snd (passwd s) \<and> \<not> str_fits (passwd s')"
  using assms by (auto simp: ngx_mail_auth_login_password_def with_arg_def str_fits_def)

text \<open>
  A CRAM-MD5 answer without a space leaves the password of an earlier attempt in place, and if that has 32
  bytes the answer is accepted with it.
\<close>

theorem auth_cram_md5_old_password:
  assumes "args (parser s) \<noteq> []" "ngx_decode_base64 (arg_text (buf s) (args (parser s) ! 0)) = Some d"
    "chr_space \<notin> set d" "snd (passwd s) = 32" "ngx_mail_auth_cram_md5 s = (rc, s')"
  shows "rc = NGX_DONE \<and> passwd s' = passwd s"
proof -
  have "dropWhile (\<lambda>c. c \<noteq> chr_space) d = []" using assms(3) by auto
  then show ?thesis using assms by (auto simp: ngx_mail_auth_cram_md5_def with_arg_def Let_def)
qed

end
