(* ===== verification/Ngx_Mail_Safety.thy ===== *)
theory Ngx_Mail_Safety
  imports Ngx_Mail_Session
begin

text \<open>
  What every reachable state of a mail session satisfies, for any protocol whose commands keep their part
  of the contract: the arguments a handler reads are there and lie in the buffer, a SASL answer is read as an argument,
  the buffer, the arguments and the parser are empty when TLS begins, and where TLS is required no
  credentials are taken without it.  Where TLS is only offered, credentials that were given before it stay in the
  session; the theories of the protocols show runs that do so.  The contract of the commands is the locale \<open>mail_protocol\<close>.
\<close>

subsection \<open>The parser\<close>

definition sasl :: "mail_state \<Rightarrow> bool" where
  "sasl st \<longleftrightarrow> st \<notin> {mail_start, pop3_user, pop3_passwd}"

definition args_in :: "mail_parse \<Rightarrow> nat \<Rightarrow> bool" where
  "args_in ps p \<longleftrightarrow> list_all (\<lambda>x. fst x + snd x \<le> p) (args ps)"

definition args_behind :: "mail_parse \<Rightarrow> bool" where
  "args_behind ps \<longleftrightarrow> list_all (\<lambda>x. fst (cmd ps) \<le> fst x) (args ps)"

text \<open>A line that is read as the answer to a SASL challenge, and a line that is read as a command.\<close>

definition in_response :: "nat \<Rightarrow> mail_parse \<Rightarrow> nat \<Rightarrow> bool" where
  "in_response auth ps p \<longleftrightarrow>
     args_in ps p \<and> command ps = auth \<and>
     (case state ps of
        sw_argument \<Rightarrow> \<exists>a \<le> p. arg_start ps = Some a
      | sw_invalid \<Rightarrow> True
      | sw_spaces_before_argument \<Rightarrow> args ps \<noteq> []
      | sw_almost_done \<Rightarrow> args ps \<noteq> []
      | _ \<Rightarrow> False)"

definition in_command :: "mail_parse \<Rightarrow> nat \<Rightarrow> bool" where
  "in_command ps p \<longleftrightarrow>
     args_in ps p \<and>
     (case state ps of
        sw_start \<Rightarrow> args ps = []
      | sw_command \<Rightarrow> args ps = [] \<and> cmd_start ps \<le> p
      | sw_invalid \<Rightarrow> True
      | sw_argument \<Rightarrow> args_behind ps \<and> (\<exists>a \<le> p. arg_start ps = Some a \<and> fst (cmd ps) \<le> a)
      | _ \<Rightarrow> args_behind ps \<and> fst (cmd ps) \<le> p)"

definition response_read :: "nat \<Rightarrow> mail_parse \<Rightarrow> nat \<Rightarrow> bool" where
  "response_read auth ps p \<longleftrightarrow> args_in ps p \<and> args ps \<noteq> [] \<and> command ps = auth \<and> state ps = sw_argument"

definition command_read :: "nat \<Rightarrow> mail_parse \<Rightarrow> nat \<Rightarrow> bool" where
  "command_read auth ps p \<longleftrightarrow>
     args_in ps p \<and> args_behind ps \<and> state ps = (if command ps = auth then sw_argument else sw_start)"

lemma args_in_mono: "p \<le> q \<Longrightarrow> list_all (\<lambda>x. fst x + snd x \<le> p) xs \<Longrightarrow> list_all (\<lambda>x. fst x + snd x \<le> (q :: nat)) xs"
  by (auto elim: list.pred_mono_strong)

lemmas args_in_Suc = args_in_mono [OF le_SucI [OF order_refl]]

lemmas parse_inv_defs = in_response_def in_command_def response_read_def command_read_def args_in_def args_behind_def

text \<open>The contract of a step, once for each kind of line.\<close>

definition read_post :: "(mail_parse \<Rightarrow> nat \<Rightarrow> bool) \<Rightarrow> int \<times> mail_parse \<times> nat \<Rightarrow> nat \<Rightarrow> bool" where
  "read_post Q res p \<longleftrightarrow>
     (case res of (rc, ps, q) \<Rightarrow> q = Suc p \<and> (rc = NGX_OK \<and> Q ps q \<or> rc = NGX_MAIL_PARSE_INVALID_COMMAND))"

interpretation resp: scan_contract "line_step verb keeps_spaces limit auth buf" "in_response auth"
    "read_post (response_read auth)"
  for verb keeps_spaces limit auth buf
proof
  fix s p c s'
  assume "in_response auth s p" "line_step verb keeps_spaces limit auth buf s p c = Cont s'"
  then show "in_response auth s' (Suc p)"
    by (cases "state s")
      (auto simp: line_step_def mail_step_defs parse_inv_defs split: if_splits intro: le_SucI args_in_Suc)
next
  fix s p c r
  assume "in_response auth s p" "line_step verb keeps_spaces limit auth buf s p c = Stop r"
  then show "read_post (response_read auth) r p"
    by (cases "state s")
      (auto simp: line_step_def mail_step_defs mail_done_def parse_inv_defs read_post_def split: if_splits intro: le_SucI args_in_Suc)
qed

interpretation comm: scan_contract "line_step verb keeps_spaces limit auth buf" in_command "read_post (command_read auth)"
  for verb keeps_spaces limit auth buf
proof
  fix s p c s'
  assume "in_command s p" "line_step verb keeps_spaces limit auth buf s p c = Cont s'"
  then show "in_command s' (Suc p)"
    by (cases "state s")
      (auto simp: line_step_def mail_step_defs parse_inv_defs split: if_splits option.splits intro: le_SucI args_in_Suc)
next
  fix s p c r
  assume "in_command s p" "line_step verb keeps_spaces limit auth buf s p c = Stop r"
  then show "read_post (command_read auth) r p"
    by (cases "state s")
      (auto simp: line_step_def mail_step_defs mail_done_def parse_inv_defs read_post_def
        split: if_splits option.splits intro: le_SucI args_in_Suc)
qed

lemma read_line:
  assumes "scan_contract (line_step verb keeps_spaces limit auth b) I (read_post Q)" "I ps p" "p \<le> length b"
    "mail_parse_command verb keeps_spaces limit auth ps b p = (rc, ps', p')"
  shows "p' \<le> length b \<and>
    (rc = NGX_AGAIN \<and> I ps' p' \<or> rc = NGX_OK \<and> Q ps' p' \<or> rc = NGX_MAIL_PARSE_INVALID_COMMAND)"
proof (cases "scan (line_step verb keeps_spaces limit auth b) ps p (drop p b)")
  case (Cont t)
  with scan_contract.scan_Cont [OF assms(1,2) Cont] assms(3,4) show ?thesis
    by (auto simp: mail_parse_command_eq run_parser_def)
next
  case (Stop r)
  from scan_contract.scan_Stop [OF assms(1,2) Stop] obtain i where "i < length (drop p b)" "read_post Q r (p + i)" by blast
  with Stop assms(4) show ?thesis by (auto simp: mail_parse_command_eq run_parser_def read_post_def)
qed

subsection \<open>Reading a command\<close>

text \<open>What a read leaves alone.\<close>

definition envelope :: "mail_session \<Rightarrow> bytes \<times> bytes \<times> bytes" where
  "envelope s = (smtp_helo s, smtp_from s, smtp_to s)"

definition unread :: "mail_session \<Rightarrow> mail_session \<Rightarrow> bool" where
  "unread s s' \<longleftrightarrow> mail_state s' = mail_state s \<and> out s' = out s \<and> login s' = login s \<and> passwd s' = passwd s \<and>
     salt s' = salt s \<and> envelope s' = envelope s \<and> login_attempt s' = login_attempt s \<and> ssl s' = ssl s \<and>
     handler s' = handler s \<and> fault s' = fault s \<and> buf_end s' = buf_end s"

definition buffer_ok :: "mail_session \<Rightarrow> bool" where
  "buffer_ok s \<longleftrightarrow> pos s \<le> length (buf s) \<and> length (buf s) \<le> buf_end s"

lemma parse_received:
  assumes parse: "\<And>b. scan_contract (line_step verb keeps_spaces limit auth b) I (read_post Q)"
    and s: "I (parser s) (pos s)" "buffer_ok s"
    and call: "mail_parse_received (mail_parse_command verb keeps_spaces limit auth) cf s = (rc, s')"
  shows "buffer_ok s' \<and> unread s s' \<and>
    (rc = NGX_AGAIN \<and> I (parser s') (pos s') \<or> rc = NGX_OK \<and> Q (parser s') (pos s') \<or>
     rc = NGX_MAIL_PARSE_INVALID_COMMAND)"
proof -
  obtain c ps q where p: "mail_parse_command verb keeps_spaces limit auth (parser s) (buf s) (pos s) = (c, ps, q)"
    by (metis prod_cases3)
  have "q \<le> length (buf s)" "c = NGX_AGAIN \<and> I ps q \<or> c = NGX_OK \<and> Q ps q \<or> c = NGX_MAIL_PARSE_INVALID_COMMAND"
    using read_line [OF parse s(1) _ p] s(2) by (simp_all add: buffer_ok_def)
  with call p s(2) show ?thesis
    by (auto simp: mail_parse_received_def buffer_ok_def unread_def envelope_def Let_def split: if_splits)
qed

lemma unread_trans: "unread s t \<Longrightarrow> unread t u \<Longrightarrow> unread s u"
  by (simp add: unread_def)

lemma read_command:
  assumes parse: "\<And>b. scan_contract (line_step verb keeps_spaces limit auth b) I (read_post Q)"
    and s: "I (parser s) (pos s)" "buffer_ok s"
    and call: "ngx_mail_read_command (mail_parse_command verb keeps_spaces limit auth) cf r s = (rc, s')"
  shows "buffer_ok s' \<and> unread s s' \<and>
    (rc = NGX_AGAIN \<and> I (parser s') (pos s') \<or> rc = NGX_OK \<and> Q (parser s') (pos s') \<or>
     rc = NGX_MAIL_PARSE_INVALID_COMMAND \<or> rc = NGX_ERROR \<and> I (parser s') (pos s'))"
proof -
  define stop where "stop \<longleftrightarrow> length (buf s) < buf_end s \<and>
    (r = Recv_error \<or> r = Recv [] \<or> r = Recv_again \<and> pos s = length (buf s))"
  define t where "t = (case r of Recv bs \<Rightarrow>
      if length (buf s) < buf_end s then s\<lparr>buf := buf s @ take (buf_end s - length (buf s)) bs\<rparr> else s | _ \<Rightarrow> s)"
  have t: "I (parser t) (pos t)" "buffer_ok t" "unread s t"
    using s by (auto simp: t_def buffer_ok_def unread_def envelope_def split: recv.splits)
  show ?thesis
  proof (cases stop)
    case True
    with call s show ?thesis
      by (auto simp: stop_def ngx_mail_read_command_def ngx_mail_close_connection_def buffer_ok_def unread_def envelope_def)
  next
    case False
    with call have "mail_parse_received (mail_parse_command verb keeps_spaces limit auth) cf t = (rc, s')"
      by (cases r) (simp_all add: ngx_mail_read_command_def stop_def t_def split: if_splits)
    from parse_received [OF parse t(1,2) this] unread_trans [OF t(3)] show ?thesis by blast
  qed
qed

subsection \<open>The contract of the commands\<close>

text \<open>What a command may rely on: the line has been read, and its arguments are in the buffer.\<close>

definition command_ready :: "nat \<Rightarrow> (mail_conf \<Rightarrow> bytes option \<Rightarrow> mail_state \<Rightarrow> bool) \<Rightarrow> mail_conf \<Rightarrow> mail_session \<Rightarrow> bool" where
  "command_ready auth known cf s \<longleftrightarrow>
     \<not> fault s \<and> buffer_ok s \<and> known cf (salt s) (mail_state s) \<and> handler s = auth_state_handler \<and>
     (if sasl (mail_state s) then response_read auth (parser s) (pos s) else command_read auth (parser s) (pos s))"

definition no_credentials :: "mail_session \<Rightarrow> bool" where
  "no_credentials s \<longleftrightarrow> login s = ([], 0) \<and> passwd s = ([], 0) \<and> mail_state s = mail_start"

text \<open>
  What a command promises.  If the dialogue goes on, the next line is read as an argument exactly in a SASL exchange; a command that
  leaves the handler leaves an empty buffer and \<open>clean\<close> envelope to TLS; and where TLS is required, it
  takes no credentials, nor does it start an authentication if the protocol is \<open>strict\<close>.
\<close>

definition command_done ::
  "nat \<Rightarrow> (mail_conf \<Rightarrow> bytes option \<Rightarrow> mail_state \<Rightarrow> bool) \<Rightarrow> (bytes \<times> bytes \<times> bytes \<Rightarrow> bool) \<Rightarrow> bool \<Rightarrow> mail_conf \<Rightarrow>
   mail_session \<Rightarrow> int \<Rightarrow> mail_session \<Rightarrow> bool" where
  "command_done auth known clean strict cf s rc s' \<longleftrightarrow>
     \<not> fault s' \<and> buffer_ok s' \<and> known cf (salt s') (mail_state s') \<and> ssl s' = ssl s \<and> login_attempt s' = login_attempt s \<and>
     (rc = NGX_DONE \<and> handler s' = auth_state_handler \<or>
      rc = NGX_MAIL_PARSE_INVALID_COMMAND \<and> handler s' = auth_state_handler \<or>
      rc = NGX_OK \<and>
        (if sasl (mail_state s') then command (parser s') = auth \<and> state (parser s') = sw_argument
         else state (parser s') = sw_start) \<and>
        (handler s' = auth_state_handler \<or>
         handler s' = starttls_handler \<and> \<not> sasl (mail_state s') \<and> buf s' = [] \<and> pos s' = 0 \<and> clean (envelope s'))) \<and>
     (if ngx_mail_starttls_only cf s \<and> no_credentials s then no_credentials s' \<and> (strict \<longrightarrow> rc \<noteq> NGX_DONE) else True)"

text \<open>The invariant of a session at the end of a handler.\<close>

definition session_ok ::
  "nat \<Rightarrow> (mail_conf \<Rightarrow> bytes option \<Rightarrow> mail_state \<Rightarrow> bool) \<Rightarrow> (bytes \<times> bytes \<times> bytes \<Rightarrow> bool) \<Rightarrow> bool \<Rightarrow> mail_conf \<Rightarrow>
   mail_session \<times> mail_next \<Rightarrow> bool" where
  "session_ok auth known clean strict cf x \<longleftrightarrow>
     (case x of (s, c) \<Rightarrow>
        \<not> fault s \<and> buffer_ok s \<and> known cf (salt s) (mail_state s) \<and>
        (if sasl (mail_state s) \<and> c \<noteq> Auth then in_response auth (parser s) (pos s) else in_command (parser s) (pos s)) \<and>
        (if c = Auth then handler s = block_read_handler
         else handler s = auth_state_handler \<or>
           handler s = starttls_handler \<and> \<not> sasl (mail_state s) \<and> buf s = [] \<and> pos s = 0 \<and>
           state (parser s) = sw_start \<and> args (parser s) = [] \<and> clean (envelope s)) \<and>
        (if ngx_mail_starttls_only cf s then no_credentials s \<and> (strict \<longrightarrow> c \<noteq> Auth \<and> login_attempt s = 0) else True))"

lemmas session_defs = session_ok_def command_done_def command_ready_def no_credentials_def buffer_ok_def envelope_def

locale mail_protocol =
  fixes verb :: "bytes \<Rightarrow> nat option" and keeps_spaces :: "nat \<Rightarrow> bool" and limit auth :: nat
    and ok invalid_command :: bytes
    and dispatch :: "mail_conf \<Rightarrow> bytes \<Rightarrow> mail_session \<Rightarrow> int \<times> mail_session"
    and known :: "mail_conf \<Rightarrow> bytes option \<Rightarrow> mail_state \<Rightarrow> bool" and clean :: "bytes \<times> bytes \<times> bytes \<Rightarrow> bool" and strict :: bool
  assumes dispatch_done: "command_ready auth known cf s \<Longrightarrow> dispatch cf txt s = (rc, s') \<Longrightarrow>
      command_done auth known clean strict cf s rc s'"
    and known_states: "known cf slt st \<Longrightarrow> st' = mail_start \<or> sasl st' \<Longrightarrow> known cf slt st'"
begin

abbreviation (input) auth_state where
  "auth_state \<equiv> mail_auth_state (mail_parse_command verb keeps_spaces limit auth) ok invalid_command dispatch"

abbreviation (input) Inv where "Inv \<equiv> session_ok auth known clean strict"

lemma answer_ok:
  assumes cmd: "command_done auth known clean strict cf s rc s'"
    and tls: "ngx_mail_starttls_only cf s \<Longrightarrow> no_credentials s \<and> (strict \<longrightarrow> login_attempt s = 0)"
  shows "Inv cf (mail_answer cf invalid_command event_ok (rc, s'))"
proof -
  define t where "t = (if pos s' < length (buf s') then s'\<lparr>blocked := True\<rparr> else s')"
  have t: "command_done auth known clean strict cf s rc t"
    using cmd by (auto simp: t_def session_defs ngx_mail_starttls_only_def)
  have ans: "mail_answer cf invalid_command event_ok (rc, s') = mail_answer cf invalid_command event_ok (rc, t)"
    by (simp add: mail_answer_def t_def)
  consider "rc = NGX_DONE" | "rc = NGX_MAIL_PARSE_INVALID_COMMAND" | "rc = NGX_OK"
    using cmd unfolding command_done_def by blast
  then show ?thesis
  proof cases
    case 1
    with t tls show ?thesis unfolding ans
      by (auto simp: mail_answer_def session_defs Let_def ngx_mail_auth_def set_state_def rewind_buffer_def reset_buffer_def
          no_args_def in_command_def args_in_def ngx_mail_starttls_only_def)
  next
    case 2
    with t tls known_states [of cf "salt t" "mail_state t" mail_start] show ?thesis unfolding ans
      by (auto simp: mail_answer_def session_defs Let_def set_state_def rewind_buffer_def reset_buffer_def sasl_def
          no_args_def in_command_def args_in_def ngx_mail_starttls_only_def ngx_mail_session_internal_server_error_def)
  next
    case 3
    with t tls show ?thesis unfolding ans
      by (auto simp: mail_answer_def session_defs Let_def set_state_def rewind_buffer_def reset_buffer_def
          no_args_def in_command_def in_response_def args_in_def ngx_mail_starttls_only_def
          ngx_mail_session_internal_server_error_def)
  qed
qed

end

context mail_protocol
begin

lemma control: "Inv cf (s, c) \<Longrightarrow> c \<noteq> Auth \<Longrightarrow> c' \<noteq> Auth \<Longrightarrow> Inv cf (s, c')"
  by (auto simp: session_ok_def)

lemma same_session:
  assumes "Inv cf (s, c)" "unread s s'" "parser s' = parser s" "buf s' = buf s" "pos s' = pos s"
  shows "Inv cf (s', c)"
  using assms by (auto simp: session_defs unread_def ngx_mail_starttls_only_def)

lemma same_session_out:
  assumes "Inv cf (s, c)" "unread (s\<lparr>out := out s'\<rparr>) s'" "parser s' = parser s" "buf s' = buf s" "pos s' = pos s"
  shows "Inv cf (s', c)"
  using assms by (auto simp: session_defs unread_def ngx_mail_starttls_only_def)

text \<open>The read of a line, whichever kind of line it is.\<close>

lemma line_read:
  assumes inv: "Inv cf (s, c)" "c \<noteq> Auth" "handler s = auth_state_handler"
    and call: "ngx_mail_read_command (mail_parse_command verb keeps_spaces limit auth) cf r s = (rc, s')"
  shows "unread s s' \<and>
    (rc = NGX_AGAIN \<and> Inv cf (s', c) \<or> rc = NGX_OK \<and> command_ready auth known cf s' \<or>
     rc = NGX_MAIL_PARSE_INVALID_COMMAND \<and> buffer_ok s' \<or> rc = NGX_ERROR \<and> Inv cf (s', c))"
proof -
  define I where "I = (if sasl (mail_state s) then in_response auth else in_command)"
  define Q where "Q = (if sasl (mail_state s) then response_read auth else command_read auth)"
  have step: "scan_contract (line_step verb keeps_spaces limit auth b) I (read_post Q)" for b
    by (cases "sasl (mail_state s)") (simp_all add: I_def Q_def resp.scan_contract_axioms comm.scan_contract_axioms)
  have "I (parser s) (pos s)" "buffer_ok s" using inv(1,2) by (auto simp: session_ok_def I_def)
  note read = read_command [OF step this call]
  then have u: "unread s s'" and b: "buffer_ok s'" by blast+
  from u inv have keep: "\<not> fault s'" "known cf (salt s') (mail_state s')" "handler s' = auth_state_handler"
    "mail_state s' = mail_state s" by (simp_all add: session_ok_def unread_def)
  have "Inv cf (s', c)" if "I (parser s') (pos s')"
  proof -
    have "if ngx_mail_starttls_only cf s' then no_credentials s' \<and> (strict \<longrightarrow> c \<noteq> Auth \<and> login_attempt s' = 0) else True"
      using u inv(1)
      by (auto simp: session_ok_def unread_def ngx_mail_starttls_only_def no_credentials_def split: if_splits)
    with keep b that inv(2) show ?thesis by (cases "sasl (mail_state s)") (simp_all add: session_ok_def I_def)
  qed
  moreover have "command_ready auth known cf s'" if "Q (parser s') (pos s')"
    using keep b that by (cases "sasl (mail_state s)") (simp_all add: command_ready_def Q_def)
  ultimately show ?thesis using read u b by blast
qed

lemma auth_state_ok:
  assumes inv: "Inv cf (s, c)" "c \<noteq> Auth" "handler s = auth_state_handler"
  shows "Inv cf (auth_state cf ev s)"
proof -
  have idle: "Inv cf (s\<lparr>blocked := b\<rparr>, c')" "Inv cf (ngx_mail_close_connection (s\<lparr>blocked := b\<rparr>), c')"
    "Inv cf (ngx_mail_close_connection s, c')" if "c' \<noteq> Auth" for b c'
    by (rule same_session [OF control [OF inv(1,2) that]],
        simp_all add: unread_def envelope_def ngx_mail_close_connection_def)+
  define s0 where "s0 = s\<lparr>blocked := False\<rparr>"
  obtain rc s1 where call: "ngx_mail_read_command (mail_parse_command verb keeps_spaces limit auth) cf (received ev) s0 = (rc, s1)"
    by (cases "ngx_mail_read_command (mail_parse_command verb keeps_spaces limit auth) cf (received ev) s0")
  have s0: "Inv cf (s0, c)" "handler s0 = auth_state_handler" using idle(1) [of c False] inv by (simp_all add: s0_def)
  note line = line_read [OF s0(1) inv(2) s0(2) call]
  define s2 where "s2 = s1\<lparr>out := ok\<rparr>"
  have tls: "no_credentials s2 \<and> (strict \<longrightarrow> login_attempt s2 = 0)" if "ngx_mail_starttls_only cf s2"
    using s0(1) line that by (auto simp: s2_def session_ok_def unread_def ngx_mail_starttls_only_def no_credentials_def)
  have "Inv cf (mail_answer cf invalid_command (read_event_ok ev)
      (if rc = NGX_OK then dispatch cf (salt_text ev) s2 else (rc, s2)))" if "rc \<noteq> NGX_AGAIN" "rc \<noteq> NGX_ERROR"
  proof (cases "rc = NGX_OK")
    case True
    then have "command_ready auth known cf s2" using line by (auto simp: s2_def session_defs)
    moreover obtain rc' s' where d: "dispatch cf (salt_text ev) s2 = (rc', s')" by (cases "dispatch cf (salt_text ev) s2")
    ultimately show ?thesis using True answer_ok [OF dispatch_done tls] by simp
  next
    case False
    then have "command_done auth known clean strict cf s2 NGX_MAIL_PARSE_INVALID_COMMAND s2"
      using line that s0 by (auto simp: s2_def session_defs unread_def)
    from answer_ok [OF this tls] line that False show ?thesis by auto
  qed
  moreover have idle1: "Inv cf (s1, c')" if "rc = NGX_AGAIN \<or> rc = NGX_ERROR" "c' \<noteq> Auth" for c'
    using line that inv(2) by (intro control [of cf s1 c c']) auto
  moreover have "Inv cf (ngx_mail_session_internal_server_error cf s1, Send)" if "rc = NGX_AGAIN"
    using that
    by (intro same_session_out [OF idle1 [of Send]])
      (simp_all add: unread_def envelope_def ngx_mail_session_internal_server_error_def)
  moreover have "auth_state cf ev s =
     (if timedout ev then (ngx_mail_close_connection s, Closed)
      else if out s \<noteq> [] then if read_event_ok ev then (s\<lparr>blocked := True\<rparr>, Wait)
        else (ngx_mail_close_connection (s\<lparr>blocked := True\<rparr>), Closed)
      else if rc = NGX_AGAIN then
        if read_event_ok ev then (s1, Wait) else (ngx_mail_session_internal_server_error cf s1, Send)
      else if rc = NGX_ERROR then (s1, Closed)
      else mail_answer cf invalid_command (read_event_ok ev)
        (if rc = NGX_OK then dispatch cf (salt_text ev) s2 else (rc, s2)))"
    using call by (simp add: mail_auth_state_def Let_def s2_def s0_def)
  ultimately show ?thesis using idle by simp
qed

lemma run_ok:
  assumes "Inv cf x" "mail_run auth_state cf x y"
  shows "Inv cf y"
  using assms(2,1)
proof cases
  case (read s c ev)
  with assms(1) auth_state_ok show ?thesis by auto
next
  case (send s c t r s' again)
  have "unread (s\<lparr>out := out s'\<rparr>) s'" "parser s' = parser s" "buf s' = buf s" "pos s' = pos s"
    using send by (auto simp: ngx_mail_send_def ngx_mail_close_connection_def unread_def envelope_def Let_def
        split: if_splits send_result.splits)
  with send assms(1) same_session_out [of cf s c s'] control show ?thesis by auto
next
  case (refused s err)
  with assms(1) known_states [of cf "salt s" "mail_state s" mail_start] show ?thesis
    by (auto simp: session_defs ngx_mail_auth_sleep_handler_def sasl_def ngx_mail_starttls_only_def)
next
  case (handshake s c)
  with assms(1) known_states [of cf "salt s" "mail_state s" mail_start] show ?thesis
    by (auto simp: session_defs sasl_def ngx_mail_starttls_only_def)
qed

end

subsection \<open>The SASL mechanisms\<close>

text \<open>They change the credentials and nothing else, given that their argument is there.\<close>

definition takes_login :: "mail_session \<Rightarrow> mail_session \<Rightarrow> bool" where
  "takes_login s s' \<longleftrightarrow> unread (s\<lparr>login := login s', passwd := passwd s'\<rparr>) s' \<and>
     parser s' = parser s \<and> buf s' = buf s \<and> pos s' = pos s"

lemma takes_login_updates [simp]:
  "takes_login s s" "takes_login s (t\<lparr>login := l\<rparr>) = takes_login s t" "takes_login s (t\<lparr>passwd := p\<rparr>) = takes_login s t"
  "takes_login s (t\<lparr>auth_method := m\<rparr>) = takes_login s t"
  by (simp_all add: takes_login_def unread_def envelope_def)

lemma takes_loginD:
  assumes "takes_login s t"
  shows "parser t = parser s" "buf t = buf s" "pos t = pos s" "buf_end t = buf_end s" "mail_state t = mail_state s"
    "salt t = salt s" "ssl t = ssl s" "login_attempt t = login_attempt s" "handler t = handler s" "fault t = fault s"
    "envelope t = envelope s"
  using assms by (simp_all add: takes_login_def unread_def envelope_def)

lemma auth_plain_mechanism:
  assumes "n < length (args (parser s))"
  shows "case ngx_mail_auth_plain n s of (rc, s') \<Rightarrow>
    takes_login s s' \<and> (rc = NGX_DONE \<or> rc = NGX_MAIL_PARSE_INVALID_COMMAND)"
proof -
  have "case plain_login p s of (rc, s') \<Rightarrow> takes_login s s' \<and> (rc = NGX_DONE \<or> rc = NGX_MAIL_PARSE_INVALID_COMMAND)" for p
    by (simp add: plain_login_def Let_def)
  then show ?thesis using assms by (simp add: ngx_mail_auth_plain_def with_arg_def split: option.split)
qed

lemma auth_external_mechanism:
  assumes "n < length (args (parser s))"
  shows "case ngx_mail_auth_external n s of (rc, s') \<Rightarrow>
    takes_login s s' \<and> (rc = NGX_DONE \<or> rc = NGX_MAIL_PARSE_INVALID_COMMAND)"
  using assms by (simp add: ngx_mail_auth_external_def with_arg_def Let_def split: option.splits)

lemma auth_login_username_mechanism:
  assumes "n < length (args (parser s))"
  shows "case ngx_mail_auth_login_username n s of (rc, s') \<Rightarrow>
    takes_login s s' \<and> (rc = NGX_OK \<or> rc = NGX_MAIL_PARSE_INVALID_COMMAND)"
  using assms by (simp add: ngx_mail_auth_login_username_def with_arg_def Let_def split: option.splits)

lemma auth_login_password_mechanism:
  assumes "0 < length (args (parser s))"
  shows "case ngx_mail_auth_login_password s of (rc, s') \<Rightarrow>
    takes_login s s' \<and> (rc = NGX_DONE \<or> rc = NGX_MAIL_PARSE_INVALID_COMMAND)"
  using assms by (simp add: ngx_mail_auth_login_password_def with_arg_def Let_def split: option.splits)

lemma auth_cram_md5_mechanism:
  assumes "0 < length (args (parser s))"
  shows "case ngx_mail_auth_cram_md5 s of (rc, s') \<Rightarrow>
    takes_login s s' \<and> (rc = NGX_DONE \<or> rc = NGX_MAIL_PARSE_INVALID_COMMAND)"
  using assms by (simp add: ngx_mail_auth_cram_md5_def with_arg_def Let_def split: option.splits)

definition auth_parsed :: "mail_session \<Rightarrow> int \<times> mail_session \<Rightarrow> bool" where
  "auth_parsed s res \<longleftrightarrow> takes_login s (snd res) \<and>
     (fst res = NGX_MAIL_PARSE_INVALID_COMMAND \<or> fst res = NGX_DONE \<or> fst res = NGX_MAIL_AUTH_LOGIN \<or>
      fst res = NGX_MAIL_AUTH_LOGIN_USERNAME \<and> length (args (parser s)) = 2 \<or> fst res = NGX_MAIL_AUTH_PLAIN \<or>
      fst res = NGX_MAIL_AUTH_CRAM_MD5 \<or> fst res = NGX_MAIL_AUTH_EXTERNAL)"

lemma auth_parse: "auth_parsed s (ngx_mail_auth_parse cf s)"
proof -
  have "auth_parsed s (ngx_mail_auth_plain 1 s)" "auth_parsed s (ngx_mail_auth_external 1 s)"
    if "length (args (parser s)) = 2"
    using auth_plain_mechanism [of 1 s] auth_external_mechanism [of 1 s] that by (auto simp: auth_parsed_def split: prod.splits)
  moreover have "auth_parsed s (c, s)" if "c = NGX_MAIL_PARSE_INVALID_COMMAND \<or> c = NGX_MAIL_AUTH_LOGIN \<or>
      c = NGX_MAIL_AUTH_LOGIN_USERNAME \<and> length (args (parser s)) = 2 \<or> c = NGX_MAIL_AUTH_PLAIN \<or>
      c = NGX_MAIL_AUTH_CRAM_MD5 \<or> c = NGX_MAIL_AUTH_EXTERNAL" for c
    using that by (auto simp: auth_parsed_def)
  ultimately show ?thesis by (simp add: ngx_mail_auth_parse_def Let_def)
qed

text \<open>The SASL exchange, which is the same for all protocols.\<close>

definition sasl_dispatch :: "bytes \<Rightarrow> mail_session \<Rightarrow> int \<times> mail_session" where
  "sasl_dispatch password s =
     (case mail_state s of
        auth_login_username \<Rightarrow>
          (case ngx_mail_auth_login_username 0 s of (rc, s) \<Rightarrow> (rc, s\<lparr>out := password, mail_state := auth_login_password\<rparr>))
      | auth_login_password \<Rightarrow> ngx_mail_auth_login_password s
      | auth_plain \<Rightarrow> ngx_mail_auth_plain 0 s
      | auth_cram_md5 \<Rightarrow> ngx_mail_auth_cram_md5 s
      | auth_external \<Rightarrow> ngx_mail_auth_external 0 s
      | _ \<Rightarrow> (NGX_OK, s))"

lemma login_command_done:
  assumes ready: "command_ready auth known cf s" "sasl (mail_state s)" and t: "takes_login s t"
    and s': "s' = t \<or> s' = t\<lparr>out := txt, mail_state := auth_login_password\<rparr>"
    and rc: "rc = NGX_OK \<or> rc = NGX_DONE \<or> rc = NGX_MAIL_PARSE_INVALID_COMMAND"
    and known: "\<And>st. sasl st \<Longrightarrow> known cf (salt s) st"
  shows "command_done auth known clean strict cf s rc s'"
proof -
  have same: "parser s' = parser s" "buf s' = buf s" "pos s' = pos s" "buf_end s' = buf_end s" "salt s' = salt s"
    "ssl s' = ssl s" "login_attempt s' = login_attempt s" "handler s' = handler s" "fault s' = fault s"
    "sasl (mail_state s')" "\<not> no_credentials s"
    using s' takes_loginD [OF t] ready(2) by (auto simp: sasl_def no_credentials_def)
  show ?thesis using rc ready unfolding command_done_def command_ready_def buffer_ok_def response_read_def same
    using known [OF same(10)] by (auto simp: same)
qed

lemma sasl_dispatch_done:
  assumes "command_ready auth known cf s" "sasl (mail_state s)" "sasl_dispatch password s = (rc, s')"
    and known: "\<And>st. sasl st \<Longrightarrow> known cf (salt s) st"
  shows "command_done auth known clean strict cf s rc s'"
proof -
  have n: "0 < length (args (parser s))" using assms(1,2) by (auto simp: command_ready_def response_read_def)
  have "\<exists>t. takes_login s t \<and> (s' = t \<or> s' = t\<lparr>out := password, mail_state := auth_login_password\<rparr>) \<and>
      (rc = NGX_OK \<or> rc = NGX_DONE \<or> rc = NGX_MAIL_PARSE_INVALID_COMMAND)"
    using assms(2,3) auth_plain_mechanism [OF n] auth_external_mechanism [OF n] auth_login_username_mechanism [OF n]
      auth_login_password_mechanism [OF n] auth_cram_md5_mechanism [OF n]
    by (cases "mail_state s"; cases "ngx_mail_auth_login_username 0 s") (auto simp: sasl_dispatch_def sasl_def)
  with login_command_done [OF assms(1,2) _ _ _ known] show ?thesis by blast
qed

subsection \<open>Commands that leave the line alone\<close>

definition quiet :: "mail_session \<Rightarrow> mail_session \<Rightarrow> bool" where
  "quiet s s' \<longleftrightarrow> parser s' = parser s \<and> buf s' = buf s \<and> pos s' = pos s \<and> buf_end s' = buf_end s \<and> ssl s' = ssl s \<and>
     login_attempt s' = login_attempt s \<and> handler s' = handler s \<and> fault s' = fault s"

lemma quiet_updates [simp]:
  "quiet s s" "quiet s (t\<lparr>out := x\<rparr>) = quiet s t" "quiet s (t\<lparr>quit := q\<rparr>) = quiet s t"
  "quiet s (t\<lparr>login := l\<rparr>) = quiet s t" "quiet s (t\<lparr>passwd := p\<rparr>) = quiet s t" "quiet s (t\<lparr>auth_method := m\<rparr>) = quiet s t"
  "quiet s (t\<lparr>mail_state := st\<rparr>) = quiet s t" "quiet s (t\<lparr>esmtp := e\<rparr>) = quiet s t" "quiet s (t\<lparr>salt := slt\<rparr>) = quiet s t"
  "quiet s (t\<lparr>smtp_helo := x\<rparr>) = quiet s t" "quiet s (t\<lparr>smtp_from := x\<rparr>) = quiet s t" "quiet s (t\<lparr>smtp_to := x\<rparr>) = quiet s t"
  by (simp_all add: quiet_def)

lemma takes_login_quiet: "takes_login s t \<Longrightarrow> quiet s t"
  by (simp add: quiet_def takes_loginD)

text \<open>A command outside a SASL exchange that does not change the parser: it may begin an exchange if it is \<^verbatim>\<open>AUTH\<close>, and must if it succeeds.\<close>

lemma quiet_done:
  assumes ready: "command_ready auth known cf s" "\<not> sasl (mail_state s)"
    and s': "quiet s s'" "known cf (salt s') (mail_state s')"
    and rc: "rc = NGX_DONE \<or> rc = NGX_MAIL_PARSE_INVALID_COMMAND \<or>
      rc = NGX_OK \<and> (sasl (mail_state s') \<longleftrightarrow> command (parser s) = auth)"
    and tls: "ngx_mail_starttls_only cf s \<Longrightarrow> no_credentials s \<Longrightarrow>
      login s' = login s \<and> passwd s' = passwd s \<and> mail_state s' = mail_state s \<and> (strict \<longrightarrow> rc \<noteq> NGX_DONE)"
  shows "command_done auth known clean strict cf s rc s'"
  using assms unfolding command_done_def command_ready_def quiet_def buffer_ok_def no_credentials_def command_read_def
  by auto

lemma cleared_done:
  assumes "command_ready auth known cf s" "\<not> sasl (mail_state s)"
  shows "command_done auth known clean strict cf s NGX_OK (set_state sw_start (s\<lparr>out := x\<rparr>))"
  using assms unfolding command_done_def command_ready_def buffer_ok_def no_credentials_def set_state_def by simp

lemma starttls_done:
  assumes "command_ready auth known cf s" "\<not> sasl (mail_state s)" "command (parser s) \<noteq> auth"
    and "s' = t\<lparr>buf := [], pos := 0, handler := starttls_handler\<rparr>" "quiet s t" "salt t = salt s" "login t = login s"
    "passwd t = passwd s" "mail_state t = mail_state s" "clean (envelope t)"
  shows "command_done auth known clean strict cf s NGX_OK s'"
  using assms unfolding command_done_def command_ready_def buffer_ok_def no_credentials_def quiet_def command_read_def
    envelope_def by simp

text \<open>\<^verbatim>\<open>AUTH\<close> with a mechanism, from the answer of \<^verbatim>\<open>ngx_mail_auth_parse\<close> on.\<close>

lemma auth_command_done:
  assumes ready: "command_ready auth known cf s" "\<not> sasl (mail_state s)" "command (parser s) = auth"
    and tls: "\<not> ngx_mail_starttls_only cf s"
    and t: "takes_login s t" and s': "quiet t s'" "known cf (salt s') (mail_state s')"
    and rc: "rc = NGX_DONE \<or> rc = NGX_MAIL_PARSE_INVALID_COMMAND \<or> rc = NGX_OK \<and> sasl (mail_state s')"
  shows "command_done auth known clean strict cf s rc s'"
proof (rule quiet_done [OF ready(1,2)])
  show "quiet s s'" using takes_login_quiet [OF t] s'(1) by (simp add: quiet_def)
qed (use s'(2) rc tls ready(3) in auto)

lemma username_command_done:
  assumes ready: "command_ready auth known cf s" "\<not> sasl (mail_state s)" "command (parser s) = auth"
    and tls: "\<not> ngx_mail_starttls_only cf s"
    and t: "takes_login s t" "length (args (parser s)) = 2"
    and call: "ngx_mail_auth_login_username 1 (t\<lparr>out := x, mail_state := auth_login_password\<rparr>) = (rc, s')"
    and known: "known cf (salt s) auth_login_password"
  shows "command_done auth known clean strict cf s rc s'"
proof -
  define u where "u = t\<lparr>out := x, mail_state := auth_login_password\<rparr>"
  have "1 < length (args (parser u))" using t takes_loginD [OF t(1)] by (simp add: u_def)
  from auth_login_username_mechanism [OF this] call
  have u: "takes_login u s'" "rc = NGX_OK \<or> rc = NGX_MAIL_PARSE_INVALID_COMMAND" by (simp_all add: u_def)
  from known u takes_loginD [OF t(1)] takes_login_quiet [OF u(1)] takes_loginD [OF u(1)] show ?thesis
    by (intro auth_command_done [OF ready tls t(1)]) (auto simp: u_def sasl_def quiet_def)
qed

lemma connected_ok:
  assumes "known cf slt mail_start"
  shows "session_ok auth known clean strict cf (mail_connected room slt greeting tls, Send)"
  using assms
  by (simp add: session_ok_def mail_connected_def mail_parse_init_def buffer_ok_def in_command_def args_in_def sasl_def
      no_credentials_def)

subsection \<open>Conversations\<close>

text \<open>
  A run of a connection that can be evaluated: a client that waits for each answer and then sends a line, and a server of logins
  that refuses every login with the answer \<open>err\<close>.  There is no result if the connection is closed or TLS begins before the
  last line.
\<close>

definition read_line :: "bytes \<Rightarrow> read_event" where
  "read_line line = \<lparr>timedout = False, received = Recv (line @ CRLF), read_event_ok = True, salt_text = []\<rparr>"

fun converse ::
  "(mail_conf \<Rightarrow> read_event \<Rightarrow> mail_session \<Rightarrow> mail_session \<times> mail_next) \<Rightarrow> mail_conf \<Rightarrow> bytes \<Rightarrow> bytes list \<Rightarrow>
   mail_session \<times> mail_next \<Rightarrow> (mail_session \<times> mail_next) option" where
  "converse auth_state cf err [] x = Some x"
| "converse auth_state cf err (line # lines) (s, c) =
     (let s = (if c = Auth then ngx_mail_auth_sleep_handler err s else s) in
      if c \<noteq> Auth \<and> c \<noteq> Send \<or> destroyed s then None
      else
        case ngx_mail_send False (Sent (length (out s))) s of (s, again) \<Rightarrow>
          if again \<or> destroyed s \<or> handler s \<noteq> auth_state_handler then None
          else converse auth_state cf err lines (auth_state cf (read_line line) s))"

lemma converse_reachable:
  "converse auth_state cf err lines x = Some y \<Longrightarrow> reachable init (mail_run auth_state cf) x \<Longrightarrow>
   reachable init (mail_run auth_state cf) y"
proof (induction auth_state cf err lines x rule: converse.induct)
  case (2 auth_state cf err line lines s c)
  define t where "t = (if c = Auth then ngx_mail_auth_sleep_handler err s else s)"
  obtain u again where send: "ngx_mail_send False (Sent (length (out t))) t = (u, again)"
    by (cases "ngx_mail_send False (Sent (length (out t))) t")
  have g: "c = Auth \<or> c = Send" "\<not> destroyed t" "\<not> again" "\<not> destroyed u" "handler u = auth_state_handler"
    and rest: "converse auth_state cf err lines (auth_state cf (read_line line) u) = Some y"
    using "2.prems"(1) send by (auto simp: t_def [symmetric] Let_def split: if_splits)
  let ?R = "reachable init (mail_run auth_state cf)"
  have "?R (t, Send)"
    using g(1) "2.prems"(2) by (auto simp: t_def intro: reachable.next_state mail_run.refused)
  then have "?R (u, Wait)"
    using mail_run.send [OF g(2) _ send, of Send auth_state cf] g(3) by (auto intro: reachable.next_state)
  then have "?R (auth_state cf (read_line line) u)"
    using g(4,5) by (auto intro: reachable.next_state mail_run.read)
  with rest send g show ?case by (intro "2.IH") (auto simp: t_def)
qed simp

end
