(* ===== verification/Ngx_Mail_Pop3.thy ===== *)
theory Ngx_Mail_Pop3
  imports Ngx_Mail_Safety
begin

text \<open>
  The POP3 dialogue in front of a login: \<^verbatim>\<open>src/mail/ngx_mail_pop3_handler.c\<close>.  Its commands keep the contract of
  \<open>mail_protocol\<close>, which makes the session safe in every reachable state, and a run shows what a session keeps over \<^verbatim>\<open>STLS\<close>.
  The line end of \<open>pop3_greeting\<close> is added where it is sent.
\<close>

subsection \<open>Commands\<close>

definition pop3_greeting :: bytes where "pop3_greeting = str ''+OK POP3 ready''"
definition pop3_ok :: bytes where "pop3_ok = str ''+OK'' @ CRLF"
definition pop3_next :: bytes where "pop3_next = str ''+ '' @ CRLF"
definition pop3_username :: bytes where "pop3_username = str ''+ VXNlcm5hbWU6'' @ CRLF"
definition pop3_password :: bytes where "pop3_password = str ''+ UGFzc3dvcmQ6'' @ CRLF"
definition pop3_invalid_command :: bytes where "pop3_invalid_command = str ''-ERR invalid command'' @ CRLF"

definition ngx_mail_pop3_user :: "mail_conf \<Rightarrow> mail_session \<Rightarrow> int \<times> mail_session" where
  "ngx_mail_pop3_user cf s =
     (if ngx_mail_starttls_only cf s then (NGX_MAIL_PARSE_INVALID_COMMAND, s)
      else if length (args (parser s)) \<noteq> 1 then (NGX_MAIL_PARSE_INVALID_COMMAND, s)
      else with_arg 0 s (\<lambda>arg. (NGX_OK, s\<lparr>login := (arg, length arg), mail_state := pop3_user\<rparr>)))"

definition ngx_mail_pop3_pass :: "mail_session \<Rightarrow> int \<times> mail_session" where
  "ngx_mail_pop3_pass s =
     (if length (args (parser s)) \<noteq> 1 then (NGX_MAIL_PARSE_INVALID_COMMAND, s)
      else with_arg 0 s (\<lambda>arg. (NGX_DONE, s\<lparr>passwd := (arg, length arg)\<rparr>)))"

definition ngx_mail_pop3_capa :: "mail_conf \<Rightarrow> bool \<Rightarrow> mail_session \<Rightarrow> int \<times> mail_session" where
  "ngx_mail_pop3_capa cf stls s =
     (if stls \<and> \<not> ssl s \<and> starttls cf = NGX_MAIL_STARTTLS_ON then (NGX_OK, s\<lparr>out := starttls_capability cf\<rparr>)
      else if stls \<and> \<not> ssl s \<and> starttls cf = NGX_MAIL_STARTTLS_ONLY then (NGX_OK, s\<lparr>out := starttls_only_capability cf\<rparr>)
      else (NGX_OK, s\<lparr>out := capability cf\<rparr>))"

definition ngx_mail_pop3_stls :: "mail_conf \<Rightarrow> mail_session \<Rightarrow> int \<times> mail_session" where
  "ngx_mail_pop3_stls cf s =
     (if \<not> ssl s \<and> starttls cf \<noteq> NGX_MAIL_STARTTLS_OFF then (NGX_OK, (reset_buffer s)\<lparr>handler := starttls_handler\<rparr>)
      else (NGX_MAIL_PARSE_INVALID_COMMAND, s))"

definition ngx_mail_pop3_apop :: "mail_conf \<Rightarrow> mail_session \<Rightarrow> int \<times> mail_session" where
  "ngx_mail_pop3_apop cf s =
     (if ngx_mail_starttls_only cf s then (NGX_MAIL_PARSE_INVALID_COMMAND, s)
      else if length (args (parser s)) \<noteq> 2 then (NGX_MAIL_PARSE_INVALID_COMMAND, s)
      else if auth_methods cf AND NGX_MAIL_AUTH_APOP_ENABLED = 0 then (NGX_MAIL_PARSE_INVALID_COMMAND, s)
      else with_arg 0 s (\<lambda>arg0. with_arg 1 s (\<lambda>arg1.
        (NGX_DONE, s\<lparr>login := (arg0, length arg0), passwd := (arg1, length arg1), auth_method := NGX_MAIL_AUTH_APOP\<rparr>))))"

definition ngx_mail_pop3_auth :: "mail_conf \<Rightarrow> mail_session \<Rightarrow> int \<times> mail_session" where
  "ngx_mail_pop3_auth cf s =
     (if ngx_mail_starttls_only cf s then (NGX_MAIL_PARSE_INVALID_COMMAND, s)
      else if args (parser s) = [] then (NGX_OK, set_state sw_start (s\<lparr>out := auth_capability cf\<rparr>))
      else
        case ngx_mail_auth_parse cf s of (rc, s) \<Rightarrow>
          if rc = NGX_MAIL_AUTH_LOGIN then (NGX_OK, s\<lparr>out := pop3_username, mail_state := auth_login_username\<rparr>)
          else if rc = NGX_MAIL_AUTH_LOGIN_USERNAME then
            ngx_mail_auth_login_username 1 (s\<lparr>out := pop3_password, mail_state := auth_login_password\<rparr>)
          else if rc = NGX_MAIL_AUTH_PLAIN then (NGX_OK, s\<lparr>out := pop3_next, mail_state := auth_plain\<rparr>)
          else if rc = NGX_MAIL_AUTH_CRAM_MD5 then
            (if auth_methods cf AND NGX_MAIL_AUTH_CRAM_MD5_ENABLED = 0 then (NGX_MAIL_PARSE_INVALID_COMMAND, s)
             else case ngx_mail_auth_cram_md5_salt (str ''+ '') s of (rc, s) \<Rightarrow>
               if rc = NGX_OK then (NGX_OK, s\<lparr>mail_state := auth_cram_md5\<rparr>) else (NGX_ERROR, s))
          else if rc = NGX_MAIL_AUTH_EXTERNAL then
            (if auth_methods cf AND NGX_MAIL_AUTH_EXTERNAL_ENABLED = 0 then (NGX_MAIL_PARSE_INVALID_COMMAND, s)
             else (NGX_OK, s\<lparr>out := pop3_username, mail_state := auth_external\<rparr>))
          else (rc, s))"

subsection \<open>The handler\<close>

definition pop3_start_command :: "mail_conf \<Rightarrow> mail_session \<Rightarrow> int \<times> mail_session" where
  "pop3_start_command cf s =
     (let n = command (parser s) in
      if n = NGX_POP3_USER then ngx_mail_pop3_user cf s
      else if n = NGX_POP3_CAPA then ngx_mail_pop3_capa cf True s
      else if n = NGX_POP3_APOP then ngx_mail_pop3_apop cf s
      else if n = NGX_POP3_AUTH then ngx_mail_pop3_auth cf s
      else if n = NGX_POP3_QUIT then (NGX_OK, s\<lparr>quit := True\<rparr>)
      else if n = NGX_POP3_NOOP then (NGX_OK, s)
      else if n = NGX_POP3_STLS then ngx_mail_pop3_stls cf s
      else (NGX_MAIL_PARSE_INVALID_COMMAND, s))"

definition pop3_user_command :: "mail_conf \<Rightarrow> mail_session \<Rightarrow> int \<times> mail_session" where
  "pop3_user_command cf s =
     (let n = command (parser s) in
      if n = NGX_POP3_PASS then ngx_mail_pop3_pass s
      else if n = NGX_POP3_CAPA then ngx_mail_pop3_capa cf False s
      else if n = NGX_POP3_QUIT then (NGX_OK, s\<lparr>quit := True\<rparr>)
      else if n = NGX_POP3_NOOP then (NGX_OK, s)
      else (NGX_MAIL_PARSE_INVALID_COMMAND, s))"

definition pop3_dispatch :: "mail_conf \<Rightarrow> bytes \<Rightarrow> mail_session \<Rightarrow> int \<times> mail_session" where
  "pop3_dispatch cf _ s =
     (case mail_state s of
        mail_start \<Rightarrow> pop3_start_command cf s
      | pop3_user \<Rightarrow> pop3_user_command cf s
      | pop3_passwd \<Rightarrow> (NGX_OK, s)
      | auth_login_username \<Rightarrow>
          (case ngx_mail_auth_login_username 0 s of (rc, s) \<Rightarrow>
             (rc, s\<lparr>out := pop3_password, mail_state := auth_login_password\<rparr>))
      | auth_login_password \<Rightarrow> ngx_mail_auth_login_password s
      | auth_plain \<Rightarrow> ngx_mail_auth_plain 0 s
      | auth_cram_md5 \<Rightarrow> ngx_mail_auth_cram_md5 s
      | auth_external \<Rightarrow> ngx_mail_auth_external 0 s)"

definition ngx_mail_pop3_auth_state :: "mail_conf \<Rightarrow> read_event \<Rightarrow> mail_session \<Rightarrow> mail_session \<times> mail_next" where
  "ngx_mail_pop3_auth_state =
     mail_auth_state ngx_mail_pop3_parse_command pop3_ok pop3_invalid_command pop3_dispatch"

text \<open>
  \<^verbatim>\<open>ngx_mail_pop3_init_session\<close> writes the greeting, with a salt if one can be needed, and the first read event makes the buffer of
  128 bytes (\<^verbatim>\<open>ngx_mail_pop3_init_protocol\<close>).
\<close>

definition ngx_mail_pop3_init_session :: "mail_conf \<Rightarrow> bytes \<Rightarrow> bool \<Rightarrow> mail_session" where
  "ngx_mail_pop3_init_session cf txt tls =
     (if auth_methods cf AND (NGX_MAIL_AUTH_APOP_ENABLED OR NGX_MAIL_AUTH_CRAM_MD5_ENABLED) \<noteq> 0 then
        let slt = txt @ CRLF in mail_connected 128 (Some slt) (pop3_greeting @ [chr_space] @ slt) tls
      else mail_connected 128 None (pop3_greeting @ CRLF) tls)"

subsection \<open>The contract\<close>

text \<open>A salt is there whenever it can be needed, and the password state, which belongs to the dialogue with the backend, does not occur.\<close>

definition pop3_known :: "mail_conf \<Rightarrow> bytes option \<Rightarrow> mail_state \<Rightarrow> bool" where
  "pop3_known cf slt st \<longleftrightarrow>
     (auth_methods cf AND NGX_MAIL_AUTH_CRAM_MD5_ENABLED \<noteq> 0 \<longrightarrow> slt \<noteq> None) \<and> st \<noteq> pop3_passwd"

abbreviation (input) pop3_ready where "pop3_ready \<equiv> command_ready NGX_POP3_AUTH pop3_known"
abbreviation (input) pop3_done where "pop3_done \<equiv> command_done NGX_POP3_AUTH pop3_known (\<lambda>_. True) True"

lemma pop3_auth_done:
  assumes ready: "pop3_ready cf s" "\<not> sasl (mail_state s)" "command (parser s) = NGX_POP3_AUTH"
    and call: "ngx_mail_pop3_auth cf s = (rc, s')"
  shows "pop3_done cf s rc s'"
proof -
  have slt: "pop3_known cf (salt s) (mail_state s)" using ready(1) by (simp add: command_ready_def)
  consider "ngx_mail_starttls_only cf s" | "\<not> ngx_mail_starttls_only cf s" "args (parser s) = []"
    | "\<not> ngx_mail_starttls_only cf s" "args (parser s) \<noteq> []" by blast
  then show ?thesis
  proof cases
    case 1
    with call have "rc = NGX_MAIL_PARSE_INVALID_COMMAND" "s' = s" by (simp_all add: ngx_mail_pop3_auth_def)
    with quiet_done [OF ready(1,2), of s] slt show ?thesis by simp
  next
    case 2
    with call cleared_done [OF ready(1,2)] show ?thesis by (auto simp: ngx_mail_pop3_auth_def)
  next
    case 3
    obtain c t where p: "ngx_mail_auth_parse cf s = (c, t)" by (cases "ngx_mail_auth_parse cf s")
    with auth_parse [of s cf] have t: "takes_login s t" by (simp add: auth_parsed_def)
    note fin = auth_command_done [OF ready 3(1) t]
    have slt': "pop3_known cf (salt t) (mail_state t)" using slt takes_loginD [OF t] by simp
    show ?thesis
    proof (cases "c = NGX_MAIL_AUTH_LOGIN_USERNAME")
      case True
      with auth_parse [of s cf] p have "length (args (parser s)) = 2" by (simp add: auth_parsed_def)
      from username_command_done [OF ready 3(1) t this] call 3 p True slt show ?thesis
        by (simp add: ngx_mail_pop3_auth_def pop3_known_def)
    next
      case False
      show ?thesis
      proof (rule fin)
        have "quiet t s' \<and> pop3_known cf (salt s') (mail_state s') \<and>
          (rc = NGX_DONE \<or> rc = NGX_MAIL_PARSE_INVALID_COMMAND \<or> rc = NGX_OK \<and> sasl (mail_state s'))"
          using call 3 p False slt' auth_parse [of s cf]
          by (auto simp: ngx_mail_pop3_auth_def ngx_mail_auth_cram_md5_salt_def auth_parsed_def pop3_known_def sasl_def
              split: if_splits option.splits)
        then show "quiet t s'" "pop3_known cf (salt s') (mail_state s')"
          "rc = NGX_DONE \<or> rc = NGX_MAIL_PARSE_INVALID_COMMAND \<or> rc = NGX_OK \<and> sasl (mail_state s')" by auto
      qed
    qed
  qed
qed

lemma pop3_stls_done:
  assumes ready: "pop3_ready cf s" "\<not> sasl (mail_state s)" "command (parser s) \<noteq> NGX_POP3_AUTH"
    and call: "ngx_mail_pop3_stls cf s = (rc, s')"
  shows "pop3_done cf s rc s'"
proof -
  have slt: "pop3_known cf (salt s) (mail_state s)" using ready(1) by (simp add: command_ready_def)
  show ?thesis
    using call slt starttls_done [OF ready, of _ s "\<lambda>_. True" True] quiet_done [OF ready(1,2), of s]
    by (auto simp: ngx_mail_pop3_stls_def reset_buffer_def split: if_splits)
qed

lemma pop3_quiet_commands:
  assumes ready: "pop3_ready cf s" "\<not> sasl (mail_state s)" "command (parser s) \<noteq> NGX_POP3_AUTH"
  shows "ngx_mail_pop3_user cf s = (rc, s') \<Longrightarrow> pop3_done cf s rc s'"
    "ngx_mail_pop3_capa cf b s = (rc, s') \<Longrightarrow> pop3_done cf s rc s'"
    "ngx_mail_pop3_apop cf s = (rc, s') \<Longrightarrow> pop3_done cf s rc s'"
    "mail_state s = pop3_user \<Longrightarrow> ngx_mail_pop3_pass s = (rc, s') \<Longrightarrow> pop3_done cf s rc s'"
    "pop3_done cf s NGX_OK (s\<lparr>quit := True\<rparr>)" "pop3_done cf s NGX_OK s" "pop3_done cf s NGX_MAIL_PARSE_INVALID_COMMAND s"
proof -
  have slt: "pop3_known cf (salt s) (mail_state s)" using ready(1) by (simp add: command_ready_def)
  note q = quiet_done [OF ready(1,2)]
  show "pop3_done cf s rc s'" if "ngx_mail_pop3_user cf s = (rc, s')"
    using that slt ready(2,3) by (intro q) (auto simp: ngx_mail_pop3_user_def with_arg_def sasl_def pop3_known_def split: if_splits)
  show "pop3_done cf s rc s'" if "ngx_mail_pop3_capa cf b s = (rc, s')"
    using that slt ready(2,3) by (intro q) (auto simp: ngx_mail_pop3_capa_def split: if_splits)
  show "pop3_done cf s rc s'" if "ngx_mail_pop3_apop cf s = (rc, s')"
    using that slt ready(2,3) by (intro q) (auto simp: ngx_mail_pop3_apop_def with_arg_def split: if_splits)
  show "pop3_done cf s rc s'" if "mail_state s = pop3_user" "ngx_mail_pop3_pass s = (rc, s')"
    using that slt ready(2,3)
    by (intro q) (auto simp: ngx_mail_pop3_pass_def with_arg_def no_credentials_def split: if_splits)
  show "pop3_done cf s NGX_OK (s\<lparr>quit := True\<rparr>)" "pop3_done cf s NGX_OK s" "pop3_done cf s NGX_MAIL_PARSE_INVALID_COMMAND s"
    using slt ready(2,3) by (intro q; simp)+
qed

lemma pop3_invalid_done:
  "pop3_ready cf s \<Longrightarrow> \<not> sasl (mail_state s) \<Longrightarrow> pop3_done cf s NGX_MAIL_PARSE_INVALID_COMMAND s"
  by (rule quiet_done) (auto simp: command_ready_def)

lemma pop3_dispatch_done:
  assumes ready: "pop3_ready cf s" and call: "pop3_dispatch cf txt s = (rc, s')"
  shows "pop3_done cf s rc s'"
proof (cases "sasl (mail_state s)")
  case True
  then have "pop3_dispatch cf txt s = sasl_dispatch pop3_password s"
    by (cases "mail_state s") (simp_all add: pop3_dispatch_def sasl_dispatch_def sasl_def)
  with sasl_dispatch_done [OF ready True] call ready show ?thesis
    by (auto simp: command_ready_def pop3_known_def sasl_def)
next
  case False
  then consider "mail_state s = mail_start" | "mail_state s = pop3_user"
    using ready by (auto simp: sasl_def command_ready_def pop3_known_def)
  then show ?thesis
  proof cases
    case 1
    show ?thesis
    proof (cases "command (parser s) = NGX_POP3_AUTH")
      case True
      with pop3_auth_done [OF ready False] call 1 show ?thesis
        by (simp add: pop3_dispatch_def pop3_start_command_def)
    next
      case no_auth: False
      with pop3_quiet_commands [OF ready False] pop3_stls_done [OF ready False] call 1 show ?thesis
        by (auto simp: pop3_dispatch_def pop3_start_command_def Let_def split: if_splits)
    qed
  next
    case 2
    show ?thesis
    proof (cases "command (parser s) = NGX_POP3_AUTH")
      case True
      with pop3_invalid_done [OF ready False] call 2 show ?thesis
        by (auto simp: pop3_dispatch_def pop3_user_command_def)
    next
      case no_auth: False
      with pop3_quiet_commands [OF ready False] call 2 show ?thesis
        by (auto simp: pop3_dispatch_def pop3_user_command_def Let_def split: if_splits)
    qed
  qed
qed

interpretation pop3_session: mail_protocol pop3_verb pop3_keeps_spaces 2 NGX_POP3_AUTH pop3_ok pop3_invalid_command
    pop3_dispatch pop3_known "\<lambda>_. True" True
  by unfold_locales (auto intro: pop3_dispatch_done simp: pop3_known_def sasl_def)

subsection \<open>Properties\<close>

definition pop3_init :: "mail_conf \<Rightarrow> mail_session \<times> mail_next \<Rightarrow> bool" where
  "pop3_init cf x \<longleftrightarrow> (\<exists>txt tls. x = (ngx_mail_pop3_init_session cf txt tls, Send))"

lemma pop3_parse_command_eq:
  "ngx_mail_pop3_auth_state = mail_auth_state (mail_parse_command pop3_verb pop3_keeps_spaces 2 NGX_POP3_AUTH) pop3_ok
     pop3_invalid_command pop3_dispatch"
  by (simp add: ngx_mail_pop3_auth_state_def ngx_mail_pop3_parse_command_def)

lemma pop3_init_ok:
  assumes "pop3_init cf x"
  shows "session_ok NGX_POP3_AUTH pop3_known (\<lambda>_. True) True cf x"
proof -
  have "auth_methods cf AND NGX_MAIL_AUTH_CRAM_MD5_ENABLED = 0"
    if "auth_methods cf AND (NGX_MAIL_AUTH_APOP_ENABLED OR NGX_MAIL_AUTH_CRAM_MD5_ENABLED) = 0"
  proof -
    have "auth_methods cf AND 0x10 = auth_methods cf AND (0x8 OR 0x10) AND 0x10" by simp
    also have "\<dots> = (auth_methods cf AND (0x8 OR 0x10)) AND 0x10" by (simp only: and.assoc)
    finally show ?thesis using that by (simp only: and_zero_eq zero_and_eq)
  qed
  then have "\<exists>slt. pop3_known cf slt mail_start \<and>
      (\<exists>greeting. ngx_mail_pop3_init_session cf r tls = mail_connected 128 slt greeting tls)" for r tls
    by (auto simp: ngx_mail_pop3_init_session_def pop3_known_def Let_def)
  with connected_ok [of pop3_known cf] show ?thesis using assms unfolding pop3_init_def by metis
qed

interpretation pop3_run: invariant_system "pop3_init cf" "mail_run ngx_mail_pop3_auth_state cf"
    "session_ok NGX_POP3_AUTH pop3_known (\<lambda>_. True) True cf" for cf
  by unfold_locales (auto intro: pop3_init_ok pop3_session.run_ok simp: pop3_parse_command_eq)

text \<open>
  Property C10: in every state a POP3 session can reach, whatever the client sends and however it is cut into reads, no
  handler has accessed an argument that is not there, the buffer is not overrun, and in a session that is about to
  start TLS the buffer, the arguments and the state of the parser are empty.  A login named before \<^verbatim>\<open>STLS\<close> may be
  kept where TLS is only offered; a session that requires TLS has neither credentials nor a login attempt before TLS is there.
\<close>

theorem pop3_session_safe:
  assumes "reachable (pop3_init cf) (mail_run ngx_mail_pop3_auth_state cf) (s, c)"
  shows "\<not> fault s \<and> pos s \<le> length (buf s) \<and> length (buf s) \<le> buf_end s \<and>
    (handler s = starttls_handler \<longrightarrow> buf s = [] \<and> args (parser s) = [] \<and> state (parser s) = sw_start) \<and>
    (starttls cf = NGX_MAIL_STARTTLS_ONLY \<and> \<not> ssl s \<longrightarrow>
       login s = ([], 0) \<and> passwd s = ([], 0) \<and> login_attempt s = 0 \<and> c \<noteq> Auth)"
  using pop3_run.reachable_Inv [OF assms]
  by (auto simp: session_ok_def buffer_ok_def ngx_mail_starttls_only_def no_credentials_def split: if_splits)

text \<open>A server that requires TLS, one that offers it, and conversations with them.\<close>

definition tls_conf :: mail_conf where
  "tls_conf = \<lparr>starttls = NGX_MAIL_STARTTLS_ONLY, auth_methods = 2, max_errors = 5, capability = [], starttls_capability = [],
     starttls_only_capability = [], auth_capability = [], server_name = [], internal_server_error = [], logs_info = True\<rparr>"

definition tls_offered :: mail_conf where
  "tls_offered = tls_conf\<lparr>starttls := NGX_MAIL_STARTTLS_ON\<rparr>"

definition pop3_talk :: "mail_conf \<Rightarrow> bytes list \<Rightarrow> (mail_session \<times> mail_next) option" where
  "pop3_talk cf lines =
     converse ngx_mail_pop3_auth_state cf [] lines (ngx_mail_pop3_init_session cf [] False, Send)"

lemma pop3_talk_reachable:
  "pop3_talk cf lines = Some x \<Longrightarrow> reachable (pop3_init cf) (mail_run ngx_mail_pop3_auth_state cf) x"
  unfolding pop3_talk_def by (erule converse_reachable, rule reachable.start) (auto simp: pop3_init_def)

text \<open>The client asks for TLS and sends a command with it; and it names a login before it asks for TLS twice.\<close>

definition stls_lines :: "bytes list" where
  "stls_lines = [str ''STLS'' @ CRLF @ str ''USER x'']"

definition user_stls_lines :: "bytes list" where
  "user_stls_lines = [str ''USER a'', str ''STLS'', str ''STLS'']"

lemma stls_talk:
  "map_option (\<lambda>(s, c). (handler s, ssl s)) (pop3_talk tls_conf stls_lines) = Some (starttls_handler, False)"
  by code_simp

lemma user_stls_talk:
  "map_option (\<lambda>(s, c). (handler s, login s)) (pop3_talk tls_offered user_stls_lines) = Some (starttls_handler, ([97], 1))"
  by code_simp

theorem pop3_session_safe_witness:
  "(\<exists>s c. pop3_talk tls_conf stls_lines = Some (s, c) \<and> handler s = starttls_handler \<and>
      buf s = [] \<and> args (parser s) = [] \<and> state (parser s) = sw_start \<and> login s = ([], 0) \<and> \<not> fault s) \<and>
   (\<exists>s c. pop3_talk tls_offered user_stls_lines = Some (s, c) \<and> handler s = starttls_handler \<and>
      buf s = [] \<and> args (parser s) = [] \<and> state (parser s) = sw_start \<and> \<not> fault s)"
proof -
  obtain s c where r: "pop3_talk tls_conf stls_lines = Some (s, c)" and s: "handler s = starttls_handler" "\<not> ssl s"
    using stls_talk by auto
  have "starttls tls_conf = NGX_MAIL_STARTTLS_ONLY" by (simp add: tls_conf_def)
  note one = pop3_session_safe [OF pop3_talk_reachable [OF r]]
  obtain t d where q: "pop3_talk tls_offered user_stls_lines = Some (t, d)" and t: "handler t = starttls_handler"
    using user_stls_talk by auto
  note two = pop3_session_safe [OF pop3_talk_reachable [OF q]]
  from one two r q s t \<open>starttls tls_conf = _\<close> show ?thesis by blast
qed

subsection \<open>What is kept\<close>

text \<open>
  A login named in plain text is still in the session when TLS begins: the second command of the run is refused, because it is
  not allowed behind \<^verbatim>\<open>USER\<close>, and takes the dialogue back to its start; the third is accepted and clears the buffer only.
\<close>

theorem pop3_login_survives_stls:
  "\<exists>s c. reachable (pop3_init tls_offered) (mail_run ngx_mail_pop3_auth_state tls_offered) (s, c) \<and>
     handler s = starttls_handler \<and> login s = ([97], 1)"
proof -
  obtain s c where "pop3_talk tls_offered user_stls_lines = Some (s, c)" "handler s = starttls_handler" "login s = ([97], 1)"
    using user_stls_talk by auto
  with pop3_talk_reachable show ?thesis by blast
qed

end
