(* ===== verification/Ngx_Mail_Smtp.thy ===== *)
theory Ngx_Mail_Smtp
  imports Ngx_Mail_Safety
begin

text \<open>
  The SMTP dialogue in front of a login: \<^verbatim>\<open>src/mail/ngx_mail_smtp_handler.c\<close> from \<^verbatim>\<open>ngx_mail_smtp_init_protocol\<close> on.
  Its commands keep the contract of \<open>mail_protocol\<close>, which makes the session safe in every reachable state, and runs show where the
  code departs from its intention.
\<close>

subsection \<open>Commands\<close>

definition smtp_ok :: bytes where "smtp_ok = str ''250 2.0.0 OK'' @ CRLF"
definition smtp_bye :: bytes where "smtp_bye = str ''221 2.0.0 Bye'' @ CRLF"
definition smtp_starttls :: bytes where "smtp_starttls = str ''220 2.0.0 Start TLS'' @ CRLF"
definition smtp_next :: bytes where "smtp_next = str ''334 '' @ CRLF"
definition smtp_username :: bytes where "smtp_username = str ''334 VXNlcm5hbWU6'' @ CRLF"
definition smtp_password :: bytes where "smtp_password = str ''334 UGFzc3dvcmQ6'' @ CRLF"
definition smtp_invalid_command :: bytes where "smtp_invalid_command = str ''500 5.5.1 Invalid command'' @ CRLF"
definition smtp_invalid_pipelining :: bytes where
  "smtp_invalid_pipelining = str ''503 5.5.0 Improper use of SMTP command pipelining'' @ CRLF"
definition smtp_invalid_argument :: bytes where "smtp_invalid_argument = str ''501 5.5.4 Invalid argument'' @ CRLF"
definition smtp_auth_required :: bytes where "smtp_auth_required = str ''530 5.7.1 Authentication required'' @ CRLF"
definition smtp_bad_sequence :: bytes where "smtp_bad_sequence = str ''503 5.5.1 Bad sequence of commands'' @ CRLF"

text \<open>A refused command is logged on one line, for which its line ends are overwritten in the buffer itself.\<close>

definition ngx_mail_smtp_log_rejected_command :: "mail_conf \<Rightarrow> mail_session \<Rightarrow> mail_session" where
  "ngx_mail_smtp_log_rejected_command cf s =
     (if logs_info cf then s\<lparr>buf := map (\<lambda>ch. if ch \<noteq> CR \<and> ch \<noteq> LF then ch else chr_underscore) (buf s)\<rparr> else s)"

definition ngx_mail_smtp_helo :: "mail_conf \<Rightarrow> mail_session \<Rightarrow> int \<times> mail_session" where
  "ngx_mail_smtp_helo cf s =
     (if length (args (parser s)) \<noteq> 1 then (NGX_OK, set_state sw_start (s\<lparr>out := smtp_invalid_argument\<rparr>))
      else with_arg 0 s (\<lambda>arg.
        let s = s\<lparr>smtp_helo := arg, smtp_from := [], smtp_to := []\<rparr> in
        if command (parser s) = NGX_SMTP_HELO then (NGX_OK, s\<lparr>out := server_name cf\<rparr>)
        else
          let s = s\<lparr>esmtp := True\<rparr> in
          if \<not> ssl s \<and> starttls cf = NGX_MAIL_STARTTLS_ON then (NGX_OK, s\<lparr>out := starttls_capability cf\<rparr>)
          else if \<not> ssl s \<and> starttls cf = NGX_MAIL_STARTTLS_ONLY then (NGX_OK, s\<lparr>out := starttls_only_capability cf\<rparr>)
          else (NGX_OK, s\<lparr>out := capability cf\<rparr>)))"

definition ngx_mail_smtp_auth :: "mail_conf \<Rightarrow> bytes \<Rightarrow> mail_session \<Rightarrow> int \<times> mail_session" where
  "ngx_mail_smtp_auth cf txt s =
     (if ngx_mail_starttls_only cf s then (NGX_MAIL_PARSE_INVALID_COMMAND, s)
      else if args (parser s) = [] then (NGX_OK, set_state sw_start (s\<lparr>out := smtp_invalid_argument\<rparr>))
      else
        case ngx_mail_auth_parse cf s of (rc, s) \<Rightarrow>
          if rc = NGX_MAIL_AUTH_LOGIN then (NGX_OK, s\<lparr>out := smtp_username, mail_state := auth_login_username\<rparr>)
          else if rc = NGX_MAIL_AUTH_LOGIN_USERNAME then
            ngx_mail_auth_login_username 1 (s\<lparr>out := smtp_password, mail_state := auth_login_password\<rparr>)
          else if rc = NGX_MAIL_AUTH_PLAIN then (NGX_OK, s\<lparr>out := smtp_next, mail_state := auth_plain\<rparr>)
          else if rc = NGX_MAIL_AUTH_CRAM_MD5 then
            (if auth_methods cf AND NGX_MAIL_AUTH_CRAM_MD5_ENABLED = 0 then (NGX_MAIL_PARSE_INVALID_COMMAND, s)
             else
               let s = (if salt s = None then ngx_mail_salt txt s else s) in
               case ngx_mail_auth_cram_md5_salt (str ''334 '') s of (rc, s) \<Rightarrow>
                 if rc = NGX_OK then (NGX_OK, s\<lparr>mail_state := auth_cram_md5\<rparr>) else (NGX_ERROR, s))
          else if rc = NGX_MAIL_AUTH_EXTERNAL then
            (if auth_methods cf AND NGX_MAIL_AUTH_EXTERNAL_ENABLED = 0 then (NGX_MAIL_PARSE_INVALID_COMMAND, s)
             else (NGX_OK, s\<lparr>out := smtp_username, mail_state := auth_external\<rparr>))
          else (rc, s))"

text \<open>
  The command from its first byte to the end of its last argument.  Its length is a difference of pointers,
  which would be negative if the argument ended in front of the command.
\<close>

definition with_command :: "mail_session \<Rightarrow> (bytes \<Rightarrow> int \<times> mail_session) \<Rightarrow> int \<times> mail_session" where
  "with_command s f =
     (let arg = last (args (parser s)); e = fst arg + snd arg; c = fst (cmd (parser s)) in
      if e < c then (NGX_ERROR, s\<lparr>fault := True\<rparr>) else f (take (e - c) (drop c (buf s))))"

definition ngx_mail_smtp_mail :: "mail_conf \<Rightarrow> mail_session \<Rightarrow> int \<times> mail_session" where
  "ngx_mail_smtp_mail cf s =
     (if auth_methods cf AND NGX_MAIL_AUTH_NONE_ENABLED = 0 then
        (NGX_OK, (ngx_mail_smtp_log_rejected_command cf s)\<lparr>out := smtp_auth_required\<rparr>)
      else if smtp_from s \<noteq> [] then (NGX_OK, s\<lparr>out := smtp_bad_sequence\<rparr>)
      else if args (parser s) = [] then (NGX_OK, s\<lparr>out := smtp_invalid_argument\<rparr>)
      else with_command s (\<lambda>line. (NGX_OK, s\<lparr>smtp_from := line, out := smtp_ok\<rparr>)))"

definition ngx_mail_smtp_rcpt :: "mail_session \<Rightarrow> int \<times> mail_session" where
  "ngx_mail_smtp_rcpt s =
     (if smtp_from s = [] then (NGX_OK, s\<lparr>out := smtp_bad_sequence\<rparr>)
      else if args (parser s) = [] then (NGX_OK, s\<lparr>out := smtp_invalid_argument\<rparr>)
      else with_command s (\<lambda>line. (NGX_DONE, s\<lparr>smtp_to := line, auth_method := NGX_MAIL_AUTH_NONE\<rparr>)))"

definition ngx_mail_smtp_rset :: "mail_session \<Rightarrow> int \<times> mail_session" where
  "ngx_mail_smtp_rset s = (NGX_OK, s\<lparr>smtp_from := [], smtp_to := [], out := smtp_ok\<rparr>)"

definition ngx_mail_smtp_starttls :: "mail_conf \<Rightarrow> mail_session \<Rightarrow> int \<times> mail_session" where
  "ngx_mail_smtp_starttls cf s =
     (if \<not> ssl s \<and> starttls cf \<noteq> NGX_MAIL_STARTTLS_OFF then
        (NGX_OK, (reset_buffer (s\<lparr>smtp_helo := [], smtp_from := [], smtp_to := []\<rparr>))\<lparr>handler := starttls_handler\<rparr>)
      else (NGX_MAIL_PARSE_INVALID_COMMAND, s))"

subsection \<open>The handler\<close>

definition smtp_start_command :: "mail_conf \<Rightarrow> bytes \<Rightarrow> mail_session \<Rightarrow> int \<times> mail_session" where
  "smtp_start_command cf txt s =
     (let n = command (parser s) in
      if n = NGX_SMTP_HELO \<or> n = NGX_SMTP_EHLO then ngx_mail_smtp_helo cf s
      else if n = NGX_SMTP_AUTH then ngx_mail_smtp_auth cf txt s
      else if n = NGX_SMTP_QUIT then (NGX_OK, s\<lparr>quit := True, out := smtp_bye\<rparr>)
      else if n = NGX_SMTP_MAIL then ngx_mail_smtp_mail cf s
      else if n = NGX_SMTP_RCPT then ngx_mail_smtp_rcpt s
      else if n = NGX_SMTP_RSET then ngx_mail_smtp_rset s
      else if n = NGX_SMTP_NOOP then (NGX_OK, s)
      else if n = NGX_SMTP_STARTTLS then
        (case ngx_mail_smtp_starttls cf s of (rc, s) \<Rightarrow> (rc, s\<lparr>out := smtp_starttls\<rparr>))
      else (NGX_MAIL_PARSE_INVALID_COMMAND, s))"

definition smtp_dispatch :: "mail_conf \<Rightarrow> bytes \<Rightarrow> mail_session \<Rightarrow> int \<times> mail_session" where
  "smtp_dispatch cf txt s =
     (case mail_state s of
        mail_start \<Rightarrow> smtp_start_command cf txt s
      | auth_login_username \<Rightarrow>
          (case ngx_mail_auth_login_username 0 s of (rc, s) \<Rightarrow>
             (rc, s\<lparr>out := smtp_password, mail_state := auth_login_password\<rparr>))
      | auth_login_password \<Rightarrow> ngx_mail_auth_login_password s
      | auth_plain \<Rightarrow> ngx_mail_auth_plain 0 s
      | auth_cram_md5 \<Rightarrow> ngx_mail_auth_cram_md5 s
      | auth_external \<Rightarrow> ngx_mail_auth_external 0 s
      | _ \<Rightarrow> (NGX_OK, s))"

definition ngx_mail_smtp_auth_state :: "mail_conf \<Rightarrow> read_event \<Rightarrow> mail_session \<Rightarrow> mail_session \<times> mail_next" where
  "ngx_mail_smtp_auth_state =
     mail_auth_state ngx_mail_smtp_parse_command smtp_ok smtp_invalid_command smtp_dispatch"

text \<open>
  The session behind the greeting, with the buffer of \<^verbatim>\<open>ngx_mail_smtp_create_buffer\<close>; the salt is made when a client asks for it.
\<close>

definition ngx_mail_smtp_init_protocol :: "nat \<Rightarrow> bytes \<Rightarrow> bool \<Rightarrow> mail_session" where
  "ngx_mail_smtp_init_protocol client_buffer_size greeting tls = mail_connected client_buffer_size None greeting tls"

text \<open>
  Bytes of a client in front of the greeting, when there is a delay: they are read and thrown away, and the session ends.
\<close>

definition ngx_mail_smtp_discard_command :: "mail_conf \<Rightarrow> read_event \<Rightarrow> mail_session \<Rightarrow> int \<times> mail_session" where
  "ngx_mail_smtp_discard_command cf ev s =
     (case received ev of
        Recv_error \<Rightarrow> (NGX_ERROR, ngx_mail_close_connection s)
      | Recv bs \<Rightarrow>
          let got = take (buf_end s - length (buf s)) bs in
          if got = [] then (NGX_ERROR, ngx_mail_close_connection s)
          else (NGX_OK, reset_buffer (ngx_mail_smtp_log_rejected_command cf (s\<lparr>buf := buf s @ got\<rparr>)))
      | Recv_again \<Rightarrow>
          if read_event_ok ev then (NGX_AGAIN, s) else (NGX_ERROR, ngx_mail_session_internal_server_error cf s))"

definition ngx_mail_smtp_invalid_pipelining ::
  "mail_conf \<Rightarrow> bytes \<Rightarrow> read_event \<Rightarrow> mail_session \<Rightarrow> mail_session \<times> mail_next" where
  "ngx_mail_smtp_invalid_pipelining cf greeting ev s =
     (if timedout ev then
        let s = s\<lparr>handler := auth_state_handler\<rparr> in
        if read_event_ok ev then (s\<lparr>out := greeting\<rparr>, Send) else (ngx_mail_close_connection s, Closed)
      else
        case ngx_mail_smtp_discard_command cf ev s of (rc, s) \<Rightarrow>
          if rc = NGX_AGAIN then (s, Wait)
          else if rc = NGX_ERROR then (s, if destroyed s then Closed else Send)
          else (s\<lparr>out := smtp_invalid_pipelining, quit := True\<rparr>, Send))"

subsection \<open>The contract\<close>

definition smtp_known :: "mail_conf \<Rightarrow> bytes option \<Rightarrow> mail_state \<Rightarrow> bool" where
  "smtp_known cf slt st \<longleftrightarrow> st = mail_start \<or> sasl st"

abbreviation (input) no_envelope :: "bytes \<times> bytes \<times> bytes \<Rightarrow> bool" where "no_envelope e \<equiv> e = ([], [], [])"
abbreviation (input) smtp_ready where "smtp_ready \<equiv> command_ready NGX_SMTP_AUTH smtp_known"
abbreviation (input) smtp_done where "smtp_done \<equiv> command_done NGX_SMTP_AUTH smtp_known (\<lambda>e. no_envelope e) False"

lemma smtp_auth_done:
  assumes ready: "smtp_ready cf s" "\<not> sasl (mail_state s)" "command (parser s) = NGX_SMTP_AUTH"
    and call: "ngx_mail_smtp_auth cf txt s = (rc, s')"
  shows "smtp_done cf s rc s'"
proof -
  have start: "mail_state s = mail_start" using ready(1,2) by (simp add: command_ready_def smtp_known_def)
  consider "ngx_mail_starttls_only cf s" | "\<not> ngx_mail_starttls_only cf s" "args (parser s) = []"
    | "\<not> ngx_mail_starttls_only cf s" "args (parser s) \<noteq> []" by blast
  then show ?thesis
  proof cases
    case 1
    with call have "rc = NGX_MAIL_PARSE_INVALID_COMMAND" "s' = s" by (simp_all add: ngx_mail_smtp_auth_def)
    with quiet_done [OF ready(1,2), of s] start show ?thesis by (simp add: smtp_known_def)
  next
    case 2
    with call cleared_done [OF ready(1,2)] show ?thesis by (auto simp: ngx_mail_smtp_auth_def)
  next
    case 3
    obtain c t where p: "ngx_mail_auth_parse cf s = (c, t)" by (cases "ngx_mail_auth_parse cf s")
    with auth_parse [of s cf] have t: "takes_login s t" by (simp add: auth_parsed_def)
    note fin = auth_command_done [OF ready 3(1) t]
    have start': "mail_state t = mail_start" using start takes_loginD [OF t] by simp
    show ?thesis
    proof (cases "c = NGX_MAIL_AUTH_LOGIN_USERNAME")
      case True
      with auth_parse [of s cf] p have "length (args (parser s)) = 2" by (simp add: auth_parsed_def)
      from username_command_done [OF ready 3(1) t this] call 3 p True show ?thesis
        by (simp add: ngx_mail_smtp_auth_def smtp_known_def sasl_def)
    next
      case False
      show ?thesis
      proof (rule fin)
        have "quiet t s' \<and> smtp_known cf (salt s') (mail_state s') \<and>
          (rc = NGX_DONE \<or> rc = NGX_MAIL_PARSE_INVALID_COMMAND \<or> rc = NGX_OK \<and> sasl (mail_state s'))"
          using call 3 p False start' auth_parse [of s cf]
          by (auto simp: ngx_mail_smtp_auth_def ngx_mail_auth_cram_md5_salt_def ngx_mail_salt_def auth_parsed_def
              smtp_known_def sasl_def Let_def split: if_splits option.splits)
        then show "quiet t s'" "smtp_known cf (salt s') (mail_state s')"
          "rc = NGX_DONE \<or> rc = NGX_MAIL_PARSE_INVALID_COMMAND \<or> rc = NGX_OK \<and> sasl (mail_state s')" by auto
      qed
    qed
  qed
qed

lemma smtp_starttls_done:
  assumes ready: "smtp_ready cf s" "\<not> sasl (mail_state s)" "command (parser s) \<noteq> NGX_SMTP_AUTH"
    and call: "ngx_mail_smtp_starttls cf s = (rc, t)" "s' = t\<lparr>out := x\<rparr>"
  shows "smtp_done cf s rc s'"
proof -
  have start: "mail_state s = mail_start" using ready(1,2) by (simp add: command_ready_def smtp_known_def)
  show ?thesis
  proof (cases "\<not> ssl s \<and> starttls cf \<noteq> NGX_MAIL_STARTTLS_OFF")
    case True
    define u where "u = s\<lparr>smtp_helo := [], smtp_from := [], smtp_to := [], out := x\<rparr>"
    have "s' = u\<lparr>buf := [], pos := 0, handler := starttls_handler\<rparr>" "rc = NGX_OK"
      using call True by (auto simp: ngx_mail_smtp_starttls_def reset_buffer_def u_def)
    then show ?thesis
      using starttls_done [OF ready, of s' u "\<lambda>e. no_envelope e" False] by (simp add: u_def envelope_def)
  next
    case False
    with call have "rc = NGX_MAIL_PARSE_INVALID_COMMAND" "s' = s\<lparr>out := x\<rparr>"
      by (auto simp: ngx_mail_smtp_starttls_def)
    with start show ?thesis by (intro quiet_done [OF ready(1,2)]) (auto simp: smtp_known_def)
  qed
qed

text \<open>The last argument of a command ends behind the beginning of the command.\<close>

lemma command_before_args:
  assumes "smtp_ready cf s" "\<not> sasl (mail_state s)" "args (parser s) \<noteq> []"
  shows "with_command s f = f (take (fst (last (args (parser s))) + snd (last (args (parser s))) - fst (cmd (parser s)))
    (drop (fst (cmd (parser s))) (buf s)))"
proof -
  have "list_all (\<lambda>x. fst (cmd (parser s)) \<le> fst x) (args (parser s))"
    using assms(1,2) by (simp add: command_ready_def command_read_def args_behind_def)
  with assms(3) have "fst (cmd (parser s)) \<le> fst (last (args (parser s)))" by (simp add: list_all_iff)
  then show ?thesis by (simp add: with_command_def Let_def)
qed

lemma smtp_mail_done:
  assumes ready: "smtp_ready cf s" "\<not> sasl (mail_state s)" "command (parser s) \<noteq> NGX_SMTP_AUTH"
    and call: "ngx_mail_smtp_mail cf s = (rc, s')"
  shows "smtp_done cf s rc s'"
proof -
  have start: "mail_state s = mail_start" using ready(1,2) by (simp add: command_ready_def smtp_known_def)
  show ?thesis
  proof (cases "auth_methods cf AND NGX_MAIL_AUTH_NONE_ENABLED = 0")
    case True
    with call ready start show ?thesis
      by (auto simp: ngx_mail_smtp_mail_def ngx_mail_smtp_log_rejected_command_def command_done_def command_ready_def
          buffer_ok_def command_read_def no_credentials_def smtp_known_def split: if_splits)
  next
    case False
    then have "rc = NGX_OK \<and> quiet s s' \<and> login s' = login s \<and> passwd s' = passwd s \<and> mail_state s' = mail_state s"
      using call command_before_args [OF ready(1,2)] by (auto simp: ngx_mail_smtp_mail_def split: if_splits)
    with start ready(3) show ?thesis by (intro quiet_done [OF ready(1,2)]) (auto simp: smtp_known_def sasl_def)
  qed
qed

lemma smtp_quiet_commands:
  assumes ready: "smtp_ready cf s" "\<not> sasl (mail_state s)" "command (parser s) \<noteq> NGX_SMTP_AUTH"
  shows "ngx_mail_smtp_helo cf s = (rc, s') \<Longrightarrow> smtp_done cf s rc s'"
    "ngx_mail_smtp_rcpt s = (rc, s') \<Longrightarrow> smtp_done cf s rc s'"
    "ngx_mail_smtp_rset s = (rc, s') \<Longrightarrow> smtp_done cf s rc s'"
    "smtp_done cf s NGX_OK (s\<lparr>quit := True, out := x\<rparr>)" "smtp_done cf s NGX_OK s"
    "smtp_done cf s NGX_MAIL_PARSE_INVALID_COMMAND s"
proof -
  have start: "mail_state s = mail_start" using ready(1,2) by (simp add: command_ready_def smtp_known_def)
  note q = quiet_done [OF ready(1,2)]
  show "smtp_done cf s rc s'" if call: "ngx_mail_smtp_helo cf s = (rc, s')"
  proof (cases "length (args (parser s)) = 1")
    case True
    with call have "rc = NGX_OK \<and> quiet s s' \<and> login s' = login s \<and> passwd s' = passwd s \<and> mail_state s' = mail_state s"
      by (auto simp: ngx_mail_smtp_helo_def with_arg_def Let_def split: if_splits)
    with start ready(3) show ?thesis by (intro q) (auto simp: smtp_known_def sasl_def)
  next
    case False
    with call cleared_done [OF ready(1,2)] show ?thesis by (auto simp: ngx_mail_smtp_helo_def)
  qed
  show "smtp_done cf s rc s'" if "ngx_mail_smtp_rcpt s = (rc, s')"
    using that start ready(3) command_before_args [OF ready(1,2)]
    by (intro q) (auto simp: ngx_mail_smtp_rcpt_def smtp_known_def sasl_def split: if_splits)
  show "smtp_done cf s rc s'" if "ngx_mail_smtp_rset s = (rc, s')"
    using that start ready(3) by (intro q) (auto simp: ngx_mail_smtp_rset_def smtp_known_def sasl_def)
  show "smtp_done cf s NGX_OK (s\<lparr>quit := True, out := x\<rparr>)" "smtp_done cf s NGX_OK s"
    "smtp_done cf s NGX_MAIL_PARSE_INVALID_COMMAND s"
    using start ready(3) by (intro q; simp add: smtp_known_def sasl_def)+
qed

lemma smtp_dispatch_done:
  assumes ready: "smtp_ready cf s" and call: "smtp_dispatch cf txt s = (rc, s')"
  shows "smtp_done cf s rc s'"
proof (cases "sasl (mail_state s)")
  case True
  then have "smtp_dispatch cf txt s = sasl_dispatch smtp_password s"
    by (cases "mail_state s") (simp_all add: smtp_dispatch_def sasl_dispatch_def sasl_def)
  with sasl_dispatch_done [OF ready True] call show ?thesis by (auto simp: smtp_known_def)
next
  case False
  then have start: "mail_state s = mail_start" using ready by (simp add: command_ready_def smtp_known_def)
  show ?thesis
  proof (cases "command (parser s) = NGX_SMTP_AUTH")
    case True
    with smtp_auth_done [OF ready False] call start show ?thesis by (simp add: smtp_dispatch_def smtp_start_command_def)
  next
    case no_auth: False
    with smtp_quiet_commands [OF ready False] smtp_mail_done [OF ready False] smtp_starttls_done [OF ready False] call start
    show ?thesis
      by (auto simp: smtp_dispatch_def smtp_start_command_def Let_def split: if_splits prod.splits)
  qed
qed

interpretation smtp_session: mail_protocol smtp_verb "\<lambda>_. False" 10 NGX_SMTP_AUTH smtp_ok smtp_invalid_command
    smtp_dispatch smtp_known "\<lambda>e. no_envelope e" False
  by unfold_locales (auto intro: smtp_dispatch_done simp: smtp_known_def)

subsection \<open>Properties\<close>

definition smtp_init :: "mail_conf \<Rightarrow> mail_session \<times> mail_next \<Rightarrow> bool" where
  "smtp_init cf x \<longleftrightarrow> (\<exists>room greeting tls. x = (ngx_mail_smtp_init_protocol room greeting tls, Send))"

lemma smtp_auth_state_eq:
  "ngx_mail_smtp_auth_state = mail_auth_state (mail_parse_command smtp_verb (\<lambda>_. False) 10 NGX_SMTP_AUTH) smtp_ok
     smtp_invalid_command smtp_dispatch"
  by (simp add: ngx_mail_smtp_auth_state_def ngx_mail_smtp_parse_command_def)

interpretation smtp_run: invariant_system "smtp_init cf" "mail_run ngx_mail_smtp_auth_state cf"
    "session_ok NGX_SMTP_AUTH smtp_known (\<lambda>e. no_envelope e) False cf" for cf
  by unfold_locales
    (auto intro: smtp_session.run_ok simp: smtp_auth_state_eq smtp_init_def ngx_mail_smtp_init_protocol_def connected_ok
      smtp_known_def)

text \<open>
  Property C31: in every state an SMTP session can reach, no handler has accessed an argument that is not there or measured a
  command that ends before it begins, the buffer is not overrun, and in a session that is about to start TLS the buffer, the
  arguments, the state of the parser, the name of the client and the envelope are empty.  The credentials of a refused login and
  the flag for extended SMTP are not cleared where TLS is only offered; a session that requires TLS has no credentials without it.
\<close>

theorem smtp_session_safe:
  assumes "reachable (smtp_init cf) (mail_run ngx_mail_smtp_auth_state cf) (s, c)"
  shows "\<not> fault s \<and> pos s \<le> length (buf s) \<and> length (buf s) \<le> buf_end s \<and>
    (handler s = starttls_handler \<longrightarrow> buf s = [] \<and> args (parser s) = [] \<and> state (parser s) = sw_start \<and>
       smtp_helo s = [] \<and> smtp_from s = [] \<and> smtp_to s = []) \<and>
    (starttls cf = NGX_MAIL_STARTTLS_ONLY \<and> \<not> ssl s \<longrightarrow>
       login s = ([], 0) \<and> passwd s = ([], 0) \<and> mail_state s = mail_start)"
  using smtp_run.reachable_Inv [OF assms]
  by (auto simp: session_ok_def buffer_ok_def ngx_mail_starttls_only_def no_credentials_def envelope_def split: if_splits)

text \<open>A server that requires TLS, one that offers it, and conversations with them; logins are refused.\<close>

definition smtp_tls_conf :: mail_conf where
  "smtp_tls_conf = \<lparr>starttls = NGX_MAIL_STARTTLS_ONLY, auth_methods = 2, max_errors = 5, capability = [],
     starttls_capability = [], starttls_only_capability = str ''250 ok'', auth_capability = [], server_name = [],
     internal_server_error = [], logs_info = True\<rparr>"

definition smtp_tls_offered :: mail_conf where
  "smtp_tls_offered =
     smtp_tls_conf\<lparr>starttls := NGX_MAIL_STARTTLS_ON, capability := str ''250 ok'', starttls_capability := str ''250 ok''\<rparr>"

definition smtp_talk :: "mail_conf \<Rightarrow> bytes list \<Rightarrow> (mail_session \<times> mail_next) option" where
  "smtp_talk cf lines = converse ngx_mail_smtp_auth_state cf (str ''535 no'' @ CRLF) lines
     (ngx_mail_smtp_init_protocol 4096 (str ''220 ready'' @ CRLF) False, Send)"

lemma smtp_talk_reachable:
  "smtp_talk cf lines = Some x \<Longrightarrow> reachable (smtp_init cf) (mail_run ngx_mail_smtp_auth_state cf) x"
  unfolding smtp_talk_def by (erule converse_reachable, rule reachable.start) (auto simp: smtp_init_def)

text \<open>
  The client asks for TLS and sends a command with it; and it asks for TLS after a refused login of the user \<open>a\<close> with the
  password \<open>b\<close>.
\<close>

definition starttls_lines :: "bytes list" where
  "starttls_lines = [str ''EHLO x'', str ''STARTTLS'' @ CRLF @ str ''MAIL FROM:<y>'']"

definition auth_starttls_lines :: "bytes list" where
  "auth_starttls_lines = [str ''EHLO x'', str ''AUTH PLAIN AGEAYg=='', str ''STARTTLS'']"

lemma starttls_talk:
  "map_option (\<lambda>(s, c). (handler s, ssl s)) (smtp_talk smtp_tls_conf starttls_lines) = Some (starttls_handler, False)"
  by code_simp

lemma auth_starttls_talk:
  "map_option (\<lambda>(s, c). (handler s, login s, passwd s, esmtp s)) (smtp_talk smtp_tls_offered auth_starttls_lines) =
   Some (starttls_handler, ([97, 0, 98], 1), ([98], 1), True)"
  by code_simp

theorem smtp_session_safe_witness:
  "(\<exists>s c. smtp_talk smtp_tls_conf starttls_lines = Some (s, c) \<and> handler s = starttls_handler \<and> buf s = [] \<and>
      args (parser s) = [] \<and> smtp_helo s = [] \<and> smtp_from s = [] \<and> smtp_to s = [] \<and> login s = ([], 0) \<and> passwd s = ([], 0)) \<and>
   (\<exists>s c. smtp_talk smtp_tls_offered auth_starttls_lines = Some (s, c) \<and> handler s = starttls_handler \<and> buf s = [] \<and>
      args (parser s) = [] \<and> smtp_helo s = [] \<and> smtp_from s = [] \<and> smtp_to s = [])"
proof -
  obtain s c where r: "smtp_talk smtp_tls_conf starttls_lines = Some (s, c)" and s: "handler s = starttls_handler" "\<not> ssl s"
    using starttls_talk by auto
  have "starttls smtp_tls_conf = NGX_MAIL_STARTTLS_ONLY" by (simp add: smtp_tls_conf_def)
  note one = smtp_session_safe [OF smtp_talk_reachable [OF r]]
  obtain t d where q: "smtp_talk smtp_tls_offered auth_starttls_lines = Some (t, d)" and t: "handler t = starttls_handler"
    using auth_starttls_talk by auto
  note two = smtp_session_safe [OF smtp_talk_reachable [OF q]]
  from one two r q s t \<open>starttls smtp_tls_conf = _\<close> show ?thesis by blast
qed

subsection \<open>What the code does not intend\<close>

text \<open>
  The comment in \<^verbatim>\<open>ngx_mail_smtp_starttls\<close> says that any knowledge obtained from the client before \<^verbatim>\<open>STARTTLS\<close> is
  discarded, as RFC 3207 requires.  The user name and the password of a refused login and the flag for extended SMTP stay.
\<close>

theorem smtp_credentials_survive_starttls:
  "\<exists>s c. reachable (smtp_init smtp_tls_offered) (mail_run ngx_mail_smtp_auth_state smtp_tls_offered) (s, c) \<and>
     handler s = starttls_handler \<and> str_bytes (login s) = str ''a'' \<and> str_bytes (passwd s) = str ''b'' \<and> esmtp s"
proof -
  obtain s c where "smtp_talk smtp_tls_offered auth_starttls_lines = Some (s, c)" "handler s = starttls_handler"
    "login s = ([97, 0, 98], 1)" "passwd s = ([98], 1)" "esmtp s"
    using auth_starttls_talk by auto
  moreover have "str_bytes ([97, 0, 98], 1) = str ''a''" "str_bytes ([98], 1) = str ''b''" by code_simp+
  ultimately show ?thesis using smtp_talk_reachable by metis
qed

text \<open>
  The log line of a refused \<^verbatim>\<open>MAIL\<close> overwrites the line ends of the commands that follow it in the buffer.  The parser finds no
  line in them any more and waits, while a client that sent them together waits for their answers.
\<close>

theorem smtp_rejected_mail_joins_lines:
  assumes "auth_methods cf AND NGX_MAIL_AUTH_NONE_ENABLED = 0" "logs_info cf" "ngx_mail_smtp_mail cf s = (rc, s')"
    and "pos s \<le> length (buf s)"
  shows "rc = NGX_OK \<and> length (buf s') = length (buf s) \<and>
    fst (ngx_mail_smtp_parse_command ps (buf s') (pos s')) = NGX_AGAIN"
proof -
  have s': "rc = NGX_OK" "buf s' = map (\<lambda>ch. if ch \<noteq> CR \<and> ch \<noteq> LF then ch else chr_underscore) (buf s)" "pos s' = pos s"
    using assms(1-3) by (auto simp: ngx_mail_smtp_mail_def ngx_mail_smtp_log_rejected_command_def)
  have "LF \<notin> set (buf s')" unfolding s' by auto
  then have none: "LF \<notin> set (drop (pos s') (buf s'))" by (meson in_set_dropD)
  obtain rc' ps' p' where call: "ngx_mail_smtp_parse_command ps (buf s') (pos s') = (rc', ps', p')" by (metis prod_cases3)
  from mail_parse_framing(1) [OF call [unfolded ngx_mail_smtp_parse_command_def]] none assms(4) s' call show ?thesis
    by simp
qed

text \<open>
  With \<^verbatim>\<open>starttls only\<close> and the method \<^verbatim>\<open>none\<close>, a session without TLS may still start an authentication request: unlike \<^verbatim>\<open>AUTH\<close>,
  neither \<^verbatim>\<open>MAIL\<close> nor \<^verbatim>\<open>RCPT\<close> asks \<^verbatim>\<open>ngx_mail_starttls_only\<close>.
\<close>

theorem smtp_none_without_tls:
  assumes "smtp_ready cf s" "mail_state s = mail_start" "command (parser s) = NGX_SMTP_RCPT" "smtp_from s \<noteq> []"
    "args (parser s) \<noteq> []" "ngx_mail_starttls_only cf s"
  shows "snd (mail_answer cf smtp_invalid_command True (smtp_dispatch cf x s)) = Auth"
proof -
  have "fst (smtp_dispatch cf x s) = NGX_DONE"
    using assms command_before_args [of cf s]
    by (simp add: smtp_dispatch_def smtp_start_command_def ngx_mail_smtp_rcpt_def sasl_def)
  then show ?thesis by (cases "smtp_dispatch cf x s") (simp add: mail_answer_def Let_def)
qed

end
