(* ===== verification/Ngx_Mail_Login.thy ===== *)
theory Ngx_Mail_Login
  imports Ngx_Mail_Pop3 Ngx_Mail_Smtp
begin

text \<open>
  A login from the bytes of the client to the credentials, through the parser, the SASL mechanism and the
  base64 decoder.
\<close>

subsection \<open>The line\<close>

lemma basis64_nth: "x < 64 \<Longrightarrow> basis64 ! unat x \<in> set basis64" for x :: u_char
proof -
  assume "x < 64"
  then have "unat x < length basis64" by (simp add: basis64_def str_def word_less_nat_alt)
  then show ?thesis by simp
qed

lemma base64_chars: "set (ngx_encode_base64 src) \<subseteq> insert chr_eq (set basis64)"
  unfolding ngx_encode_base64_def
  by (induction src rule: triple_induct) (auto intro!: basis64_nth byte_less_64I simp: bit_simps)

lemma base64_no_separator: "chr_space \<notin> set (ngx_encode_base64 src)" "CR \<notin> set (ngx_encode_base64 src)"
  "LF \<notin> set (ngx_encode_base64 src)"
proof -
  have "chr_space \<notin> insert chr_eq (set basis64)" "CR \<notin> insert chr_eq (set basis64)" "LF \<notin> insert chr_eq (set basis64)"
    by (simp_all add: basis64_def str_def)
  then show "chr_space \<notin> set (ngx_encode_base64 src)" "CR \<notin> set (ngx_encode_base64 src)"
    "LF \<notin> set (ngx_encode_base64 src)" using base64_chars [of src] by blast+
qed

definition auth_plain_line :: "bytes \<Rightarrow> bytes \<Rightarrow> bytes" where
  "auth_plain_line user pass = str ''AUTH PLAIN '' @ ngx_encode_base64 (0 # user @ 0 # pass) @ [CR]"

lemma encode_not_Nil: "ngx_encode_base64 (a # src) \<noteq> []"
  using base64_buffers [of "a # src"] by (auto simp: ngx_base64_encoded_length_def)

lemma auth_plain_command:
  assumes "verb (str ''AUTH'') = Some n" "\<not> keeps_spaces n" "1 \<le> limit"
  shows "command_line verb keeps_spaces limit (auth_plain_line user pass) =
    Some (n, [str ''PLAIN'', ngx_encode_base64 (0 # user @ 0 # pass)])"
proof -
  define e where "e = ngx_encode_base64 (0 # user @ 0 # pass)"
  have e: "chr_space \<notin> set e" "CR \<notin> set e" "e \<noteq> []" using base64_no_separator encode_not_Nil by (simp_all add: e_def)
  have l: "chomp (auth_plain_line user pass) = str ''AUTH'' @ chr_space # str ''PLAIN'' @ chr_space # e"
    by (simp add: chomp_def auth_plain_line_def e_def str_def)
  have "words (chr_space # str ''PLAIN'' @ chr_space # e) = [str ''PLAIN'', e]"
    using words_single [OF e(1,3)] words_space(1) [of "str ''PLAIN''" e] by (simp add: str_def)
  then show ?thesis
    using assms e unfolding command_line_def l e_def [symmetric] by (simp add: Let_def line_args_def str_def)
qed

subsection \<open>The session\<close>

text \<open>A session that waits for a command with an empty buffer.\<close>

definition waiting :: "mail_session \<Rightarrow> bool" where
  "waiting s \<longleftrightarrow> state (parser s) = sw_start \<and> args (parser s) = [] \<and> buf s = [] \<and> pos s = 0 \<and> out s = [] \<and>
     mail_state s = mail_start"

context mail_grammar
begin

lemma auth_plain_read:
  assumes verb: "verb (str ''AUTH'') = Some auth" "\<not> keeps_spaces auth" "1 \<le> limit"
    and s: "waiting s" "length (auth_plain_line user pass) < buf_end s"
  shows "\<exists>s1. ngx_mail_read_command (mail_parse_command verb keeps_spaces limit auth) cf
      (Recv (auth_plain_line user pass @ [LF])) (s\<lparr>blocked := b\<rparr>) = (NGX_OK, s1) \<and> unread s s1 \<and>
      command (parser s1) = auth \<and> length (args (parser s1)) = 2 \<and> snd (args (parser s1) ! 0) = 5 \<and>
      map (arg_text (buf s1)) (args (parser s1)) = [str ''PLAIN'', ngx_encode_base64 (0 # user @ 0 # pass)]"
proof -
  define line where "line = auth_plain_line user pass"
  have LF: "LF \<notin> set line"
    using base64_no_separator(3) [of "0 # user @ 0 # pass"] by (simp add: line_def auth_plain_line_def str_def)
  have cl: "command_line verb keeps_spaces limit line = Some (auth, [str ''PLAIN'', ngx_encode_base64 (0 # user @ 0 # pass)])"
    using auth_plain_command [of verb auth keeps_spaces limit user pass, OF verb] by (simp add: line_def)
  have "drop 0 (line @ [LF]) = line @ LF # []" by simp
  from line_parsed [OF LF this, of "parser s" auth] cl s(1) obtain ps where
    call: "mail_parse_command verb keeps_spaces limit auth (parser s) (line @ [LF]) 0 = (NGX_OK, ps, length line + 1)"
    and ps: "command ps = auth"
      "map (arg_text (line @ [LF])) (args ps) = [str ''PLAIN'', ngx_encode_base64 (0 # user @ 0 # pass)]"
    by (auto simp: waiting_def)
  have "in_command (parser s) 0" using s(1) by (simp add: waiting_def in_command_def args_in_def)
  from read_line [OF comm.scan_contract_axioms this _ call] have "args_in ps (length line + 1)"
    by (simp add: command_read_def)
  moreover from ps(2) have len: "length (args ps) = 2"
    by (metis length_map length_Cons list.size(3) numeral_2_eq_2)
  ultimately have "fst (args ps ! 0) + snd (args ps ! 0) \<le> length (line @ [LF])"
    by (simp add: args_in_def list_all_length)
  then have "length (arg_text (line @ [LF]) (args ps ! 0)) = snd (args ps ! 0)" by (simp add: arg_text_def)
  moreover have "arg_text (line @ [LF]) (args ps ! 0) = str ''PLAIN''"
    using ps(2) len by (metis length_greater_0_conv list.size(3) nth_Cons_0 nth_map zero_neq_numeral)
  ultimately have five: "snd (args ps ! 0) = 5" by (simp add: str_def)
  have room: "take (buf_end s - length (buf s)) (line @ [LF]) = line @ [LF]" "length (buf s) < buf_end s"
    using s by (simp_all add: line_def waiting_def)
  show ?thesis
    using call ps len five room s(1) unfolding line_def [symmetric]
    by (simp add: ngx_mail_read_command_def mail_parse_received_def waiting_def unread_def envelope_def)
qed

end

lemma auth_parse_plain:
  assumes "\<not> ngx_mail_starttls_only cf s" "length (args (parser s)) = 2" "snd (args (parser s) ! 0) = 5"
    "map (arg_text (buf s)) (args (parser s)) = [str ''PLAIN'', ngx_encode_base64 (0 # user @ 0 # pass)]" "0 \<notin> set user"
  shows "ngx_mail_auth_parse cf s =
    (NGX_DONE, s\<lparr>login := (user @ 0 # pass, length user), passwd := (pass, length pass)\<rparr>)"
proof -
  from assms(2,4) have texts: "arg_text (buf s) (args (parser s) ! 0) = str ''PLAIN''"
    "arg_text (buf s) (args (parser s) ! 1) = ngx_encode_base64 (0 # user @ 0 # pass)"
    by (cases "args (parser s)"; cases "tl (args (parser s))"; auto)+
  have "dropWhile (\<lambda>c. c \<noteq> 0) (user @ 0 # pass) = 0 # pass" using assms(5) by (auto simp: dropWhile_append3)
  then have "ngx_mail_auth_plain 1 s =
      (NGX_DONE, s\<lparr>login := (user @ 0 # pass, length user), passwd := (pass, length pass)\<rparr>)"
    using texts(2) assms(2)
    by (simp add: ngx_mail_auth_plain_def with_arg_def base64_std.decode_encode ngx_decode_base64_def ngx_encode_base64_def
        plain_login_def)
  moreover have "ngx_strncasecmp (str ''PLAIN'') (str ''LOGIN'') 5 \<noteq> 0" "ngx_strncasecmp (str ''PLAIN'') (str ''PLAIN'') 5 = 0"
    by (simp_all add: ngx_strncasecmp_eq str_def ngx_tolower_def)
  ultimately show ?thesis using assms(1-3) texts(1) by (simp add: ngx_mail_auth_parse_def Let_def)
qed

text \<open>A handler that ends with an authentication request keeps the credentials.\<close>

lemma answer_auth:
  "mail_answer cf invalid ok (NGX_DONE, s) = (s', c) \<Longrightarrow> c = Auth \<and> login s' = login s \<and> passwd s' = passwd s"
  by (auto simp: mail_answer_def ngx_mail_auth_def set_state_def rewind_buffer_def reset_buffer_def no_args_def Let_def
      split: if_splits)

subsection \<open>Property\<close>

text \<open>
  Property C12: a client that sends \<^verbatim>\<open>AUTH PLAIN\<close> with the base64 text of an empty identity, a user name without NUL and any
  password gets a login with exactly that name and password, in both protocols, unless the line does not fit the buffer or TLS is
  required and not there.
\<close>

theorem auth_plain_logs_in:
  assumes "waiting s" "0 \<notin> set user" "\<not> ngx_mail_starttls_only cf s" "length (auth_plain_line user pass) < buf_end s"
    and "\<not> timedout ev" "received ev = Recv (auth_plain_line user pass @ [LF])"
  shows "(case ngx_mail_pop3_auth_state cf ev s of (s', c) \<Rightarrow>
       c = Auth \<and> str_bytes (login s') = user \<and> str_bytes (passwd s') = pass) \<and>
    (case ngx_mail_smtp_auth_state cf ev s of (s', c) \<Rightarrow>
       c = Auth \<and> str_bytes (login s') = user \<and> str_bytes (passwd s') = pass)"
proof
  have pop3_auth: "pop3_verb (str ''AUTH'') = Some NGX_POP3_AUTH" "\<not> pop3_keeps_spaces NGX_POP3_AUTH"
    by (simp_all add: pop3_verb_def pop3_keeps_spaces_def str_def ngx_toupper_def)
  from pop3.auth_plain_read [OF pop3_auth _ assms(1,4), of cf False] obtain s1 where
    read: "ngx_mail_read_command ngx_mail_pop3_parse_command cf (received ev) (s\<lparr>blocked := False\<rparr>) = (NGX_OK, s1)"
    and s1: "unread s s1" "command (parser s1) = NGX_POP3_AUTH" "length (args (parser s1)) = 2" "snd (args (parser s1) ! 0) = 5"
      "map (arg_text (buf s1)) (args (parser s1)) = [str ''PLAIN'', ngx_encode_base64 (0 # user @ 0 # pass)]"
    by (auto simp: assms(6) ngx_mail_pop3_parse_command_def)
  define s2 where "s2 = s1\<lparr>out := pop3_ok\<rparr>"
  have s2: "\<not> ngx_mail_starttls_only cf s2" "mail_state s2 = mail_start" "args (parser s2) \<noteq> []"
    using s1 assms(1,3) by (auto simp: s2_def unread_def ngx_mail_starttls_only_def waiting_def)
  then have "pop3_dispatch cf (salt_text ev) s2 =
      (NGX_DONE, s2\<lparr>login := (user @ 0 # pass, length user), passwd := (pass, length pass)\<rparr>)"
    using s1 auth_parse_plain [of cf s2] assms(2)
    by (simp add: s2_def pop3_dispatch_def pop3_start_command_def ngx_mail_pop3_auth_def)
  then show "case ngx_mail_pop3_auth_state cf ev s of (s', c) \<Rightarrow>
      c = Auth \<and> str_bytes (login s') = user \<and> str_bytes (passwd s') = pass"
    using answer_auth read assms(1,5)
    by (auto simp: ngx_mail_pop3_auth_state_def mail_auth_state_def waiting_def str_bytes_def Let_def simp flip: s2_def)
next
  have smtp_auth: "smtp_verb (str ''AUTH'') = Some NGX_SMTP_AUTH" by (simp add: smtp_verb_def str_def ngx_toupper_def)
  from smtp.auth_plain_read [OF smtp_auth _ _ assms(1,4), of cf False] obtain s1 where
    read: "ngx_mail_read_command ngx_mail_smtp_parse_command cf (received ev) (s\<lparr>blocked := False\<rparr>) = (NGX_OK, s1)"
    and s1: "unread s s1" "command (parser s1) = NGX_SMTP_AUTH" "length (args (parser s1)) = 2" "snd (args (parser s1) ! 0) = 5"
      "map (arg_text (buf s1)) (args (parser s1)) = [str ''PLAIN'', ngx_encode_base64 (0 # user @ 0 # pass)]"
    by (auto simp: assms(6) ngx_mail_smtp_parse_command_def)
  define s2 where "s2 = s1\<lparr>out := smtp_ok\<rparr>"
  have s2: "\<not> ngx_mail_starttls_only cf s2" "mail_state s2 = mail_start" "args (parser s2) \<noteq> []"
    using s1 assms(1,3) by (auto simp: s2_def unread_def ngx_mail_starttls_only_def waiting_def)
  then have "smtp_dispatch cf (salt_text ev) s2 =
      (NGX_DONE, s2\<lparr>login := (user @ 0 # pass, length user), passwd := (pass, length pass)\<rparr>)"
    using s1 auth_parse_plain [of cf s2] assms(2)
    by (simp add: s2_def smtp_dispatch_def smtp_start_command_def ngx_mail_smtp_auth_def)
  then show "case ngx_mail_smtp_auth_state cf ev s of (s', c) \<Rightarrow>
      c = Auth \<and> str_bytes (login s') = user \<and> str_bytes (passwd s') = pass"
    using answer_auth read assms(1,5)
    by (auto simp: ngx_mail_smtp_auth_state_def mail_auth_state_def waiting_def str_bytes_def Let_def simp flip: s2_def)
qed

theorem auth_plain_logs_in_witness:
  "(let s = mail_connected 4096 None [] True; u = str ''joe''; p = str ''secret'';
      ev = \<lparr>timedout = False, received = Recv (auth_plain_line u p @ [LF]), read_event_ok = True, salt_text = []\<rparr> in
    waiting s \<and> 0 \<notin> set u \<and> \<not> ngx_mail_starttls_only tls_conf s \<and> length (auth_plain_line u p) < buf_end s \<and>
    (case ngx_mail_smtp_auth_state tls_conf ev s of (s', c) \<Rightarrow>
       c = Auth \<and> str_bytes (login s') = u \<and> str_bytes (passwd s') = p))"
proof -
  let ?u = "str ''joe''" and ?p = "str ''secret''" and ?s = "mail_connected 4096 None [] True"
  have h: "waiting ?s" "0 \<notin> set ?u" "\<not> ngx_mail_starttls_only tls_conf ?s" "length (auth_plain_line ?u ?p) < buf_end ?s"
    by (simp_all add: waiting_def mail_connected_def mail_parse_init_def str_def ngx_mail_starttls_only_def auth_plain_line_def
        ngx_encode_base64_def)
  from auth_plain_logs_in [OF h, of "\<lparr>timedout = False, received = Recv (auth_plain_line ?u ?p @ [LF]), read_event_ok = True,
      salt_text = []\<rparr>"] h show ?thesis unfolding Let_def by simp
qed

end
