(* ===== verification/Ngx_Sprintf.thy ===== *)
theory Ngx_Sprintf
  imports Ngx_Number Ngx_Times
begin

text \<open>
  The numbers that \<^verbatim>\<open>ngx_sprintf\<close> writes (\<open>ngx_sprintf_num\<close> of the theory of dates) have the value they are written for, and as many digits as they need.
\<close>

lemma digit_of_nat:
  assumes "k < 10"
  shows "is_digit (of_nat k + chr_0) \<and> digit_val (of_nat k + chr_0) = int k"
proof -
  from assms have "k \<in> {0, 1, 2, 3, 4, 5, 6, 7, 8, 9}" by auto
  then show ?thesis by (auto simp: is_digit_def digit_val_def)
qed

lemma sprintf_digits_value:
  "list_all is_digit ds \<Longrightarrow> list_all is_digit (sprintf_digits n ds) \<and> dec_value 0 (sprintf_digits n ds) = dec_value (int n) ds"
proof (induction n ds rule: sprintf_digits.induct)
  case (1 n ds)
  have d: "is_digit (of_nat (n mod 10) + chr_0)" "digit_val (of_nat (n mod 10) + chr_0) = int (n mod 10)"
    using digit_of_nat [of "n mod 10"] by simp_all
  show ?case
  proof (cases "n div 10 = 0")
    case True
    then have "n < 10" by simp
    with d 1(2) show ?thesis by (simp add: sprintf_digits.simps [of n ds] Let_def)
  next
    case False
    with 1(1) [OF refl False] 1(2) d have "list_all is_digit (sprintf_digits n ds)" 
      "dec_value 0 (sprintf_digits n ds) = dec_value (int (n div 10) * 10 + int (n mod 10)) ds"
      by (simp_all add: sprintf_digits.simps [of n ds] Let_def)
    moreover have "int (n div 10) * 10 + int (n mod 10) = int n" by presburger
    ultimately show ?thesis by simp
  qed
qed

lemma sprintf_num_value:
  assumes "0 \<le> v"
  shows "list_all is_digit (ngx_sprintf_num v chr_space 0)" "dec_value 0 (ngx_sprintf_num v chr_space 0) = v"
    "ngx_sprintf_num v chr_space 0 \<noteq> []"
proof -
  have p: "ngx_sprintf_num v chr_space 0 = sprintf_digits (nat v) []" by (simp add: ngx_sprintf_num_def Let_def)
  from sprintf_digits_value [of "[]" "nat v"] assms
  show "list_all is_digit (ngx_sprintf_num v chr_space 0)" "dec_value 0 (ngx_sprintf_num v chr_space 0) = v"
    by (simp_all add: p)
  have "length ds \<le> length (sprintf_digits n ds)" for n ds
    by (induction n ds rule: sprintf_digits.induct) (subst sprintf_digits.simps, force simp: Let_def)
  then have "sprintf_digits n (d # ds) \<noteq> []" for n d ds by (metis length_Cons list.size(3) not_less_eq_eq zero_le)
  then show "ngx_sprintf_num v chr_space 0 \<noteq> []" unfolding p by (subst sprintf_digits.simps) (simp add: Let_def)
qed

lemma sprintf_digits_length: "n < 10 ^ k \<Longrightarrow> 0 < k \<Longrightarrow> length (sprintf_digits n p) \<le> k + length p"
proof (induction n p arbitrary: k rule: sprintf_digits.induct)
  case (1 n p)
  show ?case
  proof (cases "n div 10 = 0")
    case True
    then show ?thesis using 1(3) by (simp add: sprintf_digits.simps [of n p] Let_def)
  next
    case False
    then have "1 < k" using 1(2,3) by (cases "k = 1") auto
    then have "n div 10 < 10 ^ (k - 1)" using 1(2) by (cases k) (auto simp: div_less_iff_less_mult mult.commute)
    with 1(1) [OF refl False, of "k - 1"] \<open>1 < k\<close> False show ?thesis by (simp add: sprintf_digits.simps [of n p] Let_def)
  qed
qed

end
