(* ===== verification/Ngx_Http_Range.thy ===== *)
theory Ngx_Http_Range
  imports Ngx_Sprintf Ngx_String Ngx_Parse_Time
begin

text \<open>
  The ranges of a request for parts of a response: \<^verbatim>\<open>ngx_http_range_parse\<close> of
  \<^verbatim>\<open>src/http/modules/ngx_http_range_filter_module.c\<close>.  The lemmas show that accepted ranges lie inside the response and add up to no
  more than it, and that every list of ranges is read as it was written.  An \<^verbatim>\<open>off_t\<close> is an integer, which the tests in the code
  keep in its bounds; allocation is taken to succeed.
\<close>

subsection \<open>Reading ranges\<close>

abbreviation (input) NGX_HTTP_OK :: int where "NGX_HTTP_OK \<equiv> 200"
abbreviation (input) NGX_HTTP_PARTIAL_CONTENT :: int where "NGX_HTTP_PARTIAL_CONTENT \<equiv> 206"
abbreviation (input) NGX_HTTP_RANGE_NOT_SATISFIABLE :: int where "NGX_HTTP_RANGE_NOT_SATISFIABLE \<equiv> 416"

text \<open>
  The value of a header ends with a NUL in the buffer of the request; \<open>byte_at\<close> is \<^verbatim>\<open>*p\<close> for the rest \<open>p\<close> of the value.
  A number is read with the same test against overflow for the start and for the end of a range.
\<close>

fun range_digits :: "int \<Rightarrow> bytes \<Rightarrow> (int \<times> bytes) option" where
  "range_digits v [] = Some (v, [])"
| "range_digits v (c # p) =
     (if chr_0 \<le> c \<and> c \<le> chr_9 then
        let cutoff = NGX_MAX_OFF_T_VALUE div 10; cutlim = NGX_MAX_OFF_T_VALUE mod 10 in
        if v \<ge> cutoff \<and> (v > cutoff \<or> digit_val c > cutlim) then None
        else range_digits (v * 10 + digit_val c) p
      else Some (v, c # p))"

definition skip_spaces :: "bytes \<Rightarrow> bytes" where
  "skip_spaces p = dropWhile (\<lambda>c. c = chr_space) p"

text \<open>From the test in front of the second number on.\<close>

definition range_end :: "int \<Rightarrow> bool \<Rightarrow> int \<Rightarrow> bytes \<Rightarrow> (int \<times> int \<times> bytes) option" where
  "range_end content_length suffix start p =
     (if byte_at p < chr_0 \<or> byte_at p > chr_9 then None
      else case range_digits 0 p of
        None \<Rightarrow> None
      | Some (fin, p) \<Rightarrow>
          let p = skip_spaces p in
          if byte_at p \<noteq> chr_comma \<and> byte_at p \<noteq> 0 then None
          else
            let (start, fin) =
              (if suffix then (if fin < content_length then content_length - fin else 0, content_length - 1)
               else (start, fin)) in
            Some (start, if fin \<ge> content_length then content_length else fin + 1, p))"

text \<open>One range; \<open>None\<close> is \<^verbatim>\<open>NGX_HTTP_RANGE_NOT_SATISFIABLE\<close>.\<close>

definition range_spec :: "int \<Rightarrow> bytes \<Rightarrow> (int \<times> int \<times> bytes) option" where
  "range_spec content_length p =
     (let p = skip_spaces p in
      if byte_at p \<noteq> chr_minus then
        if byte_at p < chr_0 \<or> byte_at p > chr_9 then None
        else case range_digits 0 p of
          None \<Rightarrow> None
        | Some (start, p) \<Rightarrow>
            let p = skip_spaces p in
            if byte_at p \<noteq> chr_minus then None
            else
              let p = skip_spaces (tl p) in
              if byte_at p = chr_comma \<or> byte_at p = 0 then Some (start, content_length, p)
              else range_end content_length False start p
      else range_end content_length True 0 (tl p))"

text \<open>Behind \<^verbatim>\<open>found:\<close>.  The left result is a return from the function.\<close>

definition range_add ::
  "int \<Rightarrow> int \<Rightarrow> int \<Rightarrow> nat \<Rightarrow> (int \<times> int) list \<Rightarrow> int \<times> (int \<times> int) list + int \<times> nat \<times> (int \<times> int) list" where
  "range_add start fin len ranges rs =
     (if start < fin then
        let rs = rs @ [(start, fin)] in
        if len > NGX_MAX_OFF_T_VALUE - (fin - start) then Inl (NGX_HTTP_RANGE_NOT_SATISFIABLE, rs)
        else if ranges = 0 then Inl (NGX_DECLINED, rs)
        else Inr (len + (fin - start), ranges - 1, rs)
      else if start = 0 then Inl (NGX_DECLINED, rs)
      else Inr (len, ranges, rs))"

definition range_done :: "int \<Rightarrow> int \<Rightarrow> (int \<times> int) list \<Rightarrow> int \<times> (int \<times> int) list" where
  "range_done content_length len rs =
     (if rs = [] then (NGX_HTTP_RANGE_NOT_SATISFIABLE, rs)
      else if len > content_length then (NGX_DECLINED, rs)
      else (NGX_OK, rs))"

lemma range_digits_rest: "range_digits v p = Some (v', q) \<Longrightarrow> length q \<le> length p"
  by (induction p arbitrary: v) (auto simp: Let_def split: if_splits intro: le_SucI)

lemma skip_spaces_rest: "length (skip_spaces p) \<le> length p"
  by (simp add: skip_spaces_def length_dropWhile_le)

lemma range_end_rest: "range_end cl suffix start p = Some (s, e, q) \<Longrightarrow> length q \<le> length p"
  using skip_spaces_rest
  by (fastforce simp: range_end_def Let_def split: if_splits option.splits dest!: range_digits_rest intro: order_trans)

lemma range_spec_rest:
  assumes "range_spec cl p = Some (s, e, q)"
  shows "length q \<le> length p"
proof -
  have tl: "length (skip_spaces (tl x)) \<le> length x" "length (tl x) \<le> length x" for x :: bytes
    using skip_spaces_rest [of "tl x"] by simp_all
  note le = skip_spaces_rest [of p]
  show ?thesis
  proof (cases "byte_at (skip_spaces p) = chr_minus")
    case True
    with assms have "range_end cl True 0 (tl (skip_spaces p)) = Some (s, e, q)" by (simp add: range_spec_def Let_def)
    from range_end_rest [OF this] tl(2) [of "skip_spaces p"] le show ?thesis by linarith
  next
    case False
    with assms obtain v r where v: "range_digits 0 (skip_spaces p) = Some (v, r)"
      and q: "q = skip_spaces (tl (skip_spaces r)) \<or> range_end cl False v (skip_spaces (tl (skip_spaces r))) = Some (s, e, q)"
      by (auto simp: range_spec_def Let_def split: if_splits option.splits)
    have "length q \<le> length (skip_spaces (tl (skip_spaces r)))" using q range_end_rest by blast
    with range_digits_rest [OF v] tl(1) [of "skip_spaces r"] skip_spaces_rest [of r] le show ?thesis by linarith
  qed
qed

lemma comma_rest: "byte_at q = chr_comma \<Longrightarrow> length (tl q) < length q"
  by (cases q) (simp_all add: byte_at_def)

function range_loop :: "int \<Rightarrow> bytes \<Rightarrow> int \<Rightarrow> nat \<Rightarrow> (int \<times> int) list \<Rightarrow> int \<times> (int \<times> int) list" where
  "range_loop content_length p len ranges rs =
     (case range_spec content_length p of
        None \<Rightarrow> (NGX_HTTP_RANGE_NOT_SATISFIABLE, rs)
      | Some (start, fin, q) \<Rightarrow>
          (case range_add start fin len ranges rs of
             Inl res \<Rightarrow> res
           | Inr (len, ranges, rs) \<Rightarrow>
               if byte_at q = chr_comma then range_loop content_length (tl q) len ranges rs
               else range_done content_length len rs))"
  by pat_completeness auto
termination
  by (relation "measure (\<lambda>(cl, p, len, ranges, rs). length p)")
    (auto dest!: range_spec_rest comma_rest)

declare range_loop.simps [simp del]

text \<open>
  \<open>main_ranges\<close> are the ranges of the main request, when a subrequest finds them; \<open>value\<close> is the value of the header, whose
  first six bytes are \<^verbatim>\<open>bytes=\<close>.
\<close>

definition ngx_http_range_parse ::
  "(int \<times> int) list option \<Rightarrow> int \<Rightarrow> bytes \<Rightarrow> nat \<Rightarrow> int \<times> (int \<times> int) list" where
  "ngx_http_range_parse main_ranges content_length value ranges =
     (case main_ranges of
        Some rs \<Rightarrow> (NGX_OK, rs)
      | None \<Rightarrow> range_loop content_length (drop 6 value) 0 ranges [])"

lemma range_digits_bounds:
  assumes "range_digits v p = Some (v', q)" "0 \<le> v" "v \<le> NGX_MAX_OFF_T_VALUE"
  shows "0 \<le> v' \<and> v' \<le> NGX_MAX_OFF_T_VALUE"
  using assms
proof (induction v p rule: range_digits.induct)
  case (2 v c p)
  show ?case
  proof (cases "chr_0 \<le> c \<and> c \<le> chr_9")
    case True
    then have d: "0 \<le> digit_val c" "digit_val c \<le> 9" using digit_val_bounds [of c] by (auto simp: is_digit_iff not_less)
    let ?cut = "v \<ge> NGX_MAX_OFF_T_VALUE div 10 \<and> (v > NGX_MAX_OFF_T_VALUE div 10 \<or> digit_val c > NGX_MAX_OFF_T_VALUE mod 10)"
    have ncut: "\<not> ?cut" and next_v: "range_digits (v * 10 + digit_val c) p = Some (v', q)"
      using 2(2) True by (auto simp: Let_def split: if_splits)
    from ncut d have "v * 10 + digit_val c \<le> NGX_MAX_OFF_T_VALUE" by (auto simp: NGX_MAX_OFF_T_VALUE_def)
    with 2(1) [OF True refl refl ncut next_v] 2(3) d show ?thesis by simp
  next
    case False
    with 2 show ?thesis by auto
  qed
qed simp

text \<open>A range ends inside the response and no start is negative.\<close>

lemma range_end_bounds:
  assumes "range_end cl suffix start p = Some (s, e, q)" "0 \<le> start" "0 \<le> cl"
  shows "0 \<le> s \<and> e \<le> cl"
  using assms range_digits_bounds [of 0 p]
  by (auto simp: range_end_def Let_def NGX_MAX_OFF_T_VALUE_def split: if_splits option.splits)

lemma range_spec_bounds:
  assumes "range_spec cl p = Some (s, e, q)" "0 \<le> cl"
  shows "0 \<le> s \<and> e \<le> cl"
proof (cases "byte_at (skip_spaces p) = chr_minus")
  case True
  with assms(1) have "range_end cl True 0 (tl (skip_spaces p)) = Some (s, e, q)" by (simp add: range_spec_def Let_def)
  from range_end_bounds [OF this] assms(2) show ?thesis by simp
next
  case False
  with assms(1) obtain v r where v: "range_digits 0 (skip_spaces p) = Some (v, r)"
    and e: "s = v \<and> e = cl \<or> range_end cl False v (skip_spaces (tl (skip_spaces r))) = Some (s, e, q)"
    by (auto simp: range_spec_def Let_def split: if_splits option.splits)
  from range_digits_bounds [OF v] have "0 \<le> v" by (simp add: NGX_MAX_OFF_T_VALUE_def)
  with e range_end_bounds assms(2) show ?thesis by blast
qed

definition ranges_ok :: "int \<Rightarrow> (int \<times> int) list \<Rightarrow> bool" where
  "ranges_ok content_length rs \<longleftrightarrow> list_all (\<lambda>(start, fin). 0 \<le> start \<and> start < fin \<and> fin \<le> content_length) rs"

definition ranges_length :: "(int \<times> int) list \<Rightarrow> int" where
  "ranges_length rs = sum_list (map (\<lambda>(start, fin). fin - start) rs)"

lemma ranges_length_simps [simp]:
  "ranges_length [] = 0" "ranges_length ((s, e) # rs) = e - s + ranges_length rs"
  "ranges_length (rs @ rs') = ranges_length rs + ranges_length rs'"
  by (simp_all add: ranges_length_def)

text \<open>Everything the loop keeps: the ranges, their sum and how many more there may be.\<close>

lemma range_add_ok:
  assumes "range_add s e len ranges rs = Inr (len', ranges', rs')" "0 \<le> s" "e \<le> cl" "ranges_ok cl rs" "len = ranges_length rs"
  shows "ranges_ok cl rs' \<and> len' = ranges_length rs' \<and> ranges' + length rs' = ranges + length rs"
  using assms by (auto simp: range_add_def ranges_ok_def Let_def split: if_splits)

lemma range_add_stop: "range_add s e len ranges rs = Inl (rc, rs') \<Longrightarrow> rc \<noteq> NGX_OK"
  by (auto simp: range_add_def Let_def split: if_splits)

lemma range_loop_ok:
  assumes "range_loop cl p len ranges rs = (NGX_OK, rs')" "0 \<le> cl" "ranges_ok cl rs" "len = ranges_length rs"
  shows "rs' \<noteq> [] \<and> ranges_ok cl rs' \<and> length rs' \<le> ranges + length rs \<and> ranges_length rs' \<le> cl"
  using assms
proof (induction cl p len ranges rs rule: range_loop.induct)
  case (1 cl p len ranges rs)
  from 1(2) obtain s e q where spec: "range_spec cl p = Some (s, e, q)"
    by (subst (asm) range_loop.simps) (auto split: option.splits)
  from 1(2) spec obtain len' ranges' rs1 where add: "range_add s e len ranges rs = Inr (len', ranges', rs1)"
    by (subst (asm) range_loop.simps) (auto split: sum.splits dest: range_add_stop)
  have ok: "ranges_ok cl rs1" "len' = ranges_length rs1" "ranges' + length rs1 = ranges + length rs"
    using range_add_ok [OF add] range_spec_bounds [OF spec] 1(3-5) by auto
  show ?case
  proof (cases "byte_at q = chr_comma")
    case True
    with 1(2) spec add have "range_loop cl (tl q) len' ranges' rs1 = (NGX_OK, rs')"
      by (subst (asm) range_loop.simps) simp
    with 1(1) [OF spec refl refl add refl refl True _ 1(3) ok(1,2)] ok(3) show ?thesis by simp
  next
    case False
    with 1(2) spec add have "range_done cl len' rs1 = (NGX_OK, rs')" by (subst (asm) range_loop.simps) simp
    with ok show ?thesis by (auto simp: range_done_def split: if_splits)
  qed
qed


subsection \<open>Ranges as they are written\<close>

datatype byte_range = From_To int int | From int | Suffix int

fun range_numbers :: "byte_range \<Rightarrow> int list" where
  "range_numbers (From_To a b) = [a, b]"
| "range_numbers (From a) = [a]"
| "range_numbers (Suffix n) = [n]"

fun print_range :: "byte_range \<Rightarrow> bytes" where
  "print_range (From_To a b) = ngx_sprintf_num a chr_space 0 @ str ''-'' @ ngx_sprintf_num b chr_space 0"
| "print_range (From a) = ngx_sprintf_num a chr_space 0 @ str ''-''"
| "print_range (Suffix n) = str ''-'' @ ngx_sprintf_num n chr_space 0"

fun print_ranges :: "byte_range list \<Rightarrow> bytes" where
  "print_ranges [] = []"
| "print_ranges [r] = print_range r"
| "print_ranges (r # r' # rs) = print_range r @ str '','' @ print_ranges (r' # rs)"

text \<open>The part of a response of \<open>cl\<close> bytes that a range asks for, the end excluded.\<close>

fun wanted :: "int \<Rightarrow> byte_range \<Rightarrow> int \<times> int" where
  "wanted cl (From_To a b) = (a, min cl (b + 1))"
| "wanted cl (From a) = (a, cl)"
| "wanted cl (Suffix n) = (max 0 (cl - n), cl)"

definition satisfiable :: "int \<Rightarrow> byte_range list \<Rightarrow> (int \<times> int) list" where
  "satisfiable cl rs = filter (\<lambda>(s, e). s < e) (map (wanted cl) rs)"

lemma range_digits_exact:
  assumes "list_all is_digit ds" "rest = [] \<or> \<not> is_digit (hd rest)" "0 \<le> v" "dec_value v ds \<le> NGX_MAX_OFF_T_VALUE"
  shows "range_digits v (ds @ rest) = Some (dec_value v ds, rest)"
  using assms
proof (induction ds arbitrary: v)
  case Nil
  then show ?case by (cases rest) (auto simp: is_digit_iff not_less)
next
  case (Cons c ds)
  then have c: "chr_0 \<le> c" "c \<le> chr_9" and d: "0 \<le> digit_val c"
    using digit_val_bounds [of c] by (auto simp: is_digit_iff not_less)
  have "v * 10 + digit_val c \<le> dec_value (v * 10 + digit_val c) ds"
    using Cons.prems d by (intro dec_value_ge) (auto simp: list_all_iff)
  then have "\<not> (v \<ge> NGX_MAX_OFF_T_VALUE div 10 \<and> (v > NGX_MAX_OFF_T_VALUE div 10 \<or> digit_val c > NGX_MAX_OFF_T_VALUE mod 10))"
    using Cons.prems(4) d by (auto simp: NGX_MAX_OFF_T_VALUE_def)
  with Cons c d show ?case by (auto simp: Let_def)
qed

text \<open>A number in front of a byte that is no digit, with no spaces to skip.\<close>

lemma range_number:
  assumes "0 \<le> v" "v \<le> NGX_MAX_OFF_T_VALUE" "rest = [] \<or> \<not> is_digit (hd rest)"
  defines "p \<equiv> ngx_sprintf_num v chr_space 0 @ rest"
  shows "range_digits 0 p = Some (v, rest)" "\<not> (byte_at p < chr_0 \<or> byte_at p > chr_9)" "byte_at p \<noteq> chr_minus"
    "skip_spaces p = p"
proof -
  note num = sprintf_num_value [OF assms(1)]
  show "range_digits 0 p = Some (v, rest)"
    using range_digits_exact [OF num(1) assms(3), of 0] num(2) assms(2) by (simp add: p_def)
  obtain c ds where c: "ngx_sprintf_num v chr_space 0 = c # ds" "is_digit c" using num(1,3) by (cases "ngx_sprintf_num v chr_space 0") auto
  then show "\<not> (byte_at p < chr_0 \<or> byte_at p > chr_9)" by (simp add: p_def byte_at_def is_digit_iff)
  from c show "byte_at p \<noteq> chr_minus" "skip_spaces p = p" by (auto simp: p_def byte_at_def is_digit_def skip_spaces_def)
qed

lemma range_spec_printed:
  assumes "list_all (\<lambda>v. 0 \<le> v \<and> v \<le> NGX_MAX_OFF_T_VALUE) (range_numbers r)" "rest = [] \<or> hd rest = chr_comma" "0 < cl"
  shows "range_spec cl (print_range r @ rest) = Some (fst (wanted cl r), snd (wanted cl r), rest)"
proof -
  have rest: "rest = [] \<or> \<not> is_digit (hd rest)" "skip_spaces rest = rest" "byte_at rest = chr_comma \<or> byte_at rest = 0"
    using assms(2) by (cases rest; auto simp: is_digit_def skip_spaces_def byte_at_def)+
  have minus: "\<not> is_digit (hd (str ''-'' @ x))" "skip_spaces (chr_minus # x) = chr_minus # x" "byte_at (chr_minus # x) = chr_minus" for x
    by (simp_all add: str_def is_digit_def skip_spaces_def byte_at_def)
  have fin: "range_end cl suffix a (ngx_sprintf_num b chr_space 0 @ rest) =
      Some (if suffix then (max 0 (cl - b), cl, rest) else (a, min cl (b + 1), rest))"
    if "0 \<le> b" "b \<le> NGX_MAX_OFF_T_VALUE" for suffix a b
    using range_number [OF that rest(1)] rest(2,3) assms(3) by (auto simp: range_end_def)
  show ?thesis
  proof (cases r)
    case (From_To a b)
    have a: "0 \<le> a" "a \<le> NGX_MAX_OFF_T_VALUE" and b: "0 \<le> b" "b \<le> NGX_MAX_OFF_T_VALUE" using assms(1) From_To by auto
    note first = range_number [OF a, of "str ''-'' @ ngx_sprintf_num b chr_space 0 @ rest"]
    note second = range_number [OF b rest(1)]
    have "\<not> (byte_at (ngx_sprintf_num b chr_space 0 @ rest) = chr_comma \<or> byte_at (ngx_sprintf_num b chr_space 0 @ rest) = 0)"
      using second(2) by auto
    with first second fin [OF b, of False a] minus show ?thesis by (auto simp: From_To range_spec_def str_def)
  next
    case (From a)
    then have a: "0 \<le> a" "a \<le> NGX_MAX_OFF_T_VALUE" using assms(1) by auto
    from range_number [OF a, of "str ''-'' @ rest"] rest minus show ?thesis by (auto simp: From range_spec_def str_def)
  next
    case (Suffix n)
    then have n: "0 \<le> n" "n \<le> NGX_MAX_OFF_T_VALUE" using assms(1) by auto
    from fin [OF n, of True 0] minus show ?thesis by (simp add: Suffix range_spec_def str_def)
  qed
qed

lemma wanted_bounds:
  assumes "list_all (\<lambda>v. 0 \<le> v \<and> v \<le> NGX_MAX_OFF_T_VALUE) (range_numbers r)" "0 < cl"
  shows "0 \<le> fst (wanted cl r) \<and> (fst (wanted cl r) = 0 \<longrightarrow> 0 < snd (wanted cl r))"
  using assms by (cases r) auto

lemma satisfiable_Cons:
  "satisfiable cl (r # rs) = (if fst (wanted cl r) < snd (wanted cl r) then [wanted cl r] else []) @ satisfiable cl rs"
  by (cases "wanted cl r") (simp add: satisfiable_def)

lemma satisfiable_length: "0 \<le> ranges_length (satisfiable cl rs)"
  by (induction rs) (auto simp: satisfiable_def)

lemma range_add_printed:
  assumes "list_all (\<lambda>v. 0 \<le> v \<and> v \<le> NGX_MAX_OFF_T_VALUE) (range_numbers r)" "0 < cl" "len = ranges_length rs"
    and "length (satisfiable cl [r]) \<le> ranges" "ranges_length (rs @ satisfiable cl [r]) \<le> NGX_MAX_OFF_T_VALUE"
  shows "range_add (fst (wanted cl r)) (snd (wanted cl r)) len ranges rs =
    Inr (ranges_length (rs @ satisfiable cl [r]), ranges - length (satisfiable cl [r]), rs @ satisfiable cl [r])"
  using wanted_bounds [OF assms(1,2)] assms(3-5)
  by (cases "wanted cl r") (auto simp: range_add_def satisfiable_def Let_def)

lemma range_loop_printed:
  assumes "rs \<noteq> []" "list_all (\<lambda>r. list_all (\<lambda>v. 0 \<le> v \<and> v \<le> NGX_MAX_OFF_T_VALUE) (range_numbers r)) rs" "0 < cl"
    and "length (satisfiable cl rs) \<le> ranges" "ranges_length (got @ satisfiable cl rs) \<le> NGX_MAX_OFF_T_VALUE"
  shows "range_loop cl (print_ranges rs) (ranges_length got) ranges got =
    range_done cl (ranges_length (got @ satisfiable cl rs)) (got @ satisfiable cl rs)"
  using assms
proof (induction rs arbitrary: ranges got rule: print_ranges.induct)
  case (2 r)
  then have "range_spec cl (print_range r) = Some (fst (wanted cl r), snd (wanted cl r), [])"
    using range_spec_printed [of r "[]" cl] by simp
  moreover have "byte_at [] \<noteq> chr_comma" by (simp add: byte_at_def)
  ultimately show ?case using 2 range_add_printed [of r cl "ranges_length got" got ranges]
    by (subst range_loop.simps) simp
next
  case (3 r r' rs)
  let ?rest = "str '','' @ print_ranges (r' # rs)" and ?got = "got @ satisfiable cl [r]"
  have sat: "satisfiable cl (r # r' # rs) = satisfiable cl [r] @ satisfiable cl (r' # rs)" by (simp add: satisfiable_def)
  have r: "list_all (\<lambda>v. 0 \<le> v \<and> v \<le> NGX_MAX_OFF_T_VALUE) (range_numbers r)" using 3(3) by simp
  have spec: "range_spec cl (print_range r @ ?rest) = Some (fst (wanted cl r), snd (wanted cl r), ?rest)"
    using range_spec_printed [of r ?rest cl] r 3(4) by (simp add: str_def)
  have len: "ranges_length ?got \<le> NGX_MAX_OFF_T_VALUE"
    using 3(6) satisfiable_length [of cl "r' # rs"] by (simp add: sat)
  have "length (satisfiable cl [r]) \<le> ranges" using 3(5) by (simp add: sat)
  note add = range_add_printed [OF r 3(4) refl this len]
  have "byte_at ?rest = chr_comma" "tl ?rest = print_ranges (r' # rs)" by (simp_all add: str_def byte_at_def)
  then have "range_loop cl (print_ranges (r # r' # rs)) (ranges_length got) ranges got =
      range_loop cl (print_ranges (r' # rs)) (ranges_length ?got) (ranges - length (satisfiable cl [r])) ?got"
    using spec add by (subst range_loop.simps) simp
  also have "\<dots> = range_done cl (ranges_length (?got @ satisfiable cl (r' # rs))) (?got @ satisfiable cl (r' # rs))"
    using 3(3-6) by (intro 3(1)) (simp_all add: sat)
  finally show ?case by (simp add: sat)
qed simp

text \<open>
  Property C33: ranges of a request that are accepted are not empty and lie inside the response, there are no more of them than is
  allowed, and together they are no longer than the response.
\<close>

theorem accepted_ranges_inside:
  assumes "ngx_http_range_parse None content_length value ranges = (NGX_OK, rs)" "0 \<le> content_length"
  shows "rs \<noteq> [] \<and> length rs \<le> ranges \<and> ranges_length rs \<le> content_length \<and>
    (\<forall>(start, fin) \<in> set rs. 0 \<le> start \<and> start < fin \<and> fin \<le> content_length)"
proof -
  have "range_loop content_length (drop 6 value) 0 ranges [] = (NGX_OK, rs)"
    using assms(1) by (simp add: ngx_http_range_parse_def)
  from range_loop_ok [OF this assms(2)] show ?thesis by (simp add: ranges_ok_def list_all_iff)
qed

theorem accepted_ranges_inside_witness:
  "length [(0 :: int, 10 :: int), (995, 1000)] \<le> 5 \<and> ranges_length [(0, 10), (995, 1000)] \<le> 1000 \<and>
   ngx_http_range_parse None 1000 (str ''bytes=0-9, -5'') 5 = (NGX_OK, [(0, 10), (995, 1000)])"
proof -
  have "ngx_http_range_parse None 1000 (str ''bytes=0-9, -5'') 5 = (NGX_OK, [(0, 10), (995, 1000)])"
    by (simp add: ngx_http_range_parse_def range_loop.simps range_spec_def range_end_def range_add_def range_done_def skip_spaces_def
        byte_at_def str_def digit_val_def NGX_MAX_OFF_T_VALUE_def)
  with accepted_ranges_inside [of 1000 "str ''bytes=0-9, -5''" 5 "[(0, 10), (995, 1000)]"] show ?thesis by simp
qed

text \<open>
  Property C9: a request for any list of ranges, of the three forms \<^verbatim>\<open>a-b\<close>, \<^verbatim>\<open>a-\<close> and \<^verbatim>\<open>-n\<close>, is read as the parts of the response that it
  asks for, cut at the end of the response, without those that lie behind the end.  When nothing is left the answer is
  that the request cannot be satisfied, and when the parts are together longer than the response, the whole response is sent.
\<close>

theorem ranges_read_as_written:
  assumes "rs \<noteq> []" "\<forall>r \<in> set rs. \<forall>v \<in> set (range_numbers r). 0 \<le> v \<and> v \<le> NGX_MAX_OFF_T_VALUE"
    and "0 < content_length" "length (satisfiable content_length rs) \<le> ranges"
    and "ranges_length (satisfiable content_length rs) \<le> NGX_MAX_OFF_T_VALUE"
  shows "ngx_http_range_parse None content_length (str ''bytes='' @ print_ranges rs) ranges =
    (if satisfiable content_length rs = [] then NGX_HTTP_RANGE_NOT_SATISFIABLE
     else if ranges_length (satisfiable content_length rs) > content_length then NGX_DECLINED
     else NGX_OK, satisfiable content_length rs)"
proof -
  have "drop 6 (str ''bytes='' @ print_ranges rs) = print_ranges rs" by (simp add: str_def)
  then show ?thesis
    using range_loop_printed [of rs content_length ranges "[]"] assms
    by (simp add: ngx_http_range_parse_def list_all_iff range_done_def)
qed

theorem ranges_read_as_written_witness:
  "ngx_http_range_parse None 1000 (str ''bytes='' @ print_ranges [From_To 0 9, Suffix 5, From 2000]) 5 = (NGX_OK, [(0, 10), (995, 1000)])"
  using ranges_read_as_written [of "[From_To 0 9, Suffix 5, From 2000]" 1000 5] 
  by (simp add: satisfiable_def NGX_MAX_OFF_T_VALUE_def)

end
