(* ===== verification/Ngx_Http_Range_Body.thy ===== *)
theory Ngx_Http_Range_Body
  imports Ngx_Http_Range
begin

text \<open>
  The body filter of \<^verbatim>\<open>src/http/modules/ngx_http_range_filter_module.c\<close>, which cuts the ranges of a request out of the buffers of the body,
  and the buffers of \<^verbatim>\<open>src/core/ngx_buf.h\<close>.  The lemmas show that the filter sends exactly the bytes of a range, however the body is
  cut into buffers and calls, and closes the response with the end of the range.  The filter that comes next is outside the model: what it is given is the
  result.
\<close>

subsection \<open>Buffers\<close>

text \<open>
  A buffer names bytes in memory, in a file or in both: \<open>bmem\<close> is the memory that \<^verbatim>\<open>pos\<close> and \<^verbatim>\<open>last\<close> point into and \<open>bfile\<close> the content of
  the file.  The buffers of a chain are different objects.
\<close>

record ngx_buf =
  bmem :: bytes
  bpos :: int
  blast :: int
  bfile :: bytes
  file_pos :: int
  file_last :: int
  temporary :: bool
  memory :: bool
  mmap :: bool
  in_file :: bool
  flush :: bool
  sync :: bool
  last_buf :: bool
  last_in_chain :: bool

definition ngx_buf_in_memory :: "ngx_buf \<Rightarrow> bool" where
  "ngx_buf_in_memory b \<longleftrightarrow> temporary b \<or> memory b \<or> mmap b"

definition ngx_buf_special :: "ngx_buf \<Rightarrow> bool" where
  "ngx_buf_special b \<longleftrightarrow> (flush b \<or> last_buf b \<or> sync b) \<and> \<not> ngx_buf_in_memory b \<and> \<not> in_file b"

definition ngx_buf_size :: "ngx_buf \<Rightarrow> int" where
  "ngx_buf_size b = (if ngx_buf_in_memory b then blast b - bpos b else file_last b - file_pos b)"

definition ngx_calloc_buf :: ngx_buf where
  "ngx_calloc_buf = \<lparr>bmem = [], bpos = 0, blast = 0, bfile = [], file_pos = 0, file_last = 0, temporary = False, memory = False,
     mmap = False, in_file = False, flush = False, sync = False, last_buf = False, last_in_chain = False\<rparr>"

subsection \<open>The body of a partial response\<close>

record ngx_http_range =
  rstart :: int
  rend :: int
  content_range :: bytes

record ngx_http_range_filter_ctx =
  offset :: int
  boundary_header :: bytes
  ctx_ranges :: "ngx_http_range list"

text \<open>One buffer of a chain: the buffer as it is left, and whether it goes into the chain for the next filter.\<close>

definition singlepart_buf :: "bool \<Rightarrow> ngx_http_range \<Rightarrow> int \<Rightarrow> ngx_buf \<Rightarrow> ngx_buf \<times> bool" where
  "singlepart_buf main rg start buf =
     (let fin = start + ngx_buf_size buf in
      if ngx_buf_special buf then (buf, \<not> rend rg \<le> start)
      else if rend rg \<le> start \<or> rstart rg \<ge> fin then
        (let buf = (if in_file buf then buf\<lparr>file_pos := file_last buf\<rparr> else buf) in
         (buf\<lparr>bpos := blast buf, sync := True\<rparr>, False))
      else
        let buf =
          (if rstart rg > start then
             let buf = (if in_file buf then buf\<lparr>file_pos := file_pos buf + (rstart rg - start)\<rparr> else buf) in
             if ngx_buf_in_memory buf then buf\<lparr>bpos := bpos buf + (rstart rg - start)\<rparr> else buf
           else buf) in
        if rend rg \<le> fin then
          let buf = (if in_file buf then buf\<lparr>file_last := file_last buf - (fin - rend rg)\<rparr> else buf);
              buf = (if ngx_buf_in_memory buf then buf\<lparr>blast := blast buf - (fin - rend rg)\<rparr> else buf) in
          (buf\<lparr>last_buf := main, last_in_chain := True\<rparr>, True)
        else (buf, True))"

fun singlepart_loop :: "bool \<Rightarrow> ngx_http_range \<Rightarrow> int \<Rightarrow> ngx_buf list \<Rightarrow> int \<times> ngx_buf list \<times> ngx_buf list" where
  "singlepart_loop main rg start [] = (start, [], [])"
| "singlepart_loop main rg start (buf # cl) =
     (let (buf', sent) = singlepart_buf main rg start buf;
          (start', cl', out) = singlepart_loop main rg (start + ngx_buf_size buf) cl in
      (start', buf' # cl', if sent then buf' # out else out))"

text \<open>What the filter does with a chain: the chain for the next filter, or an error.\<close>

datatype body_result = Next_body "ngx_buf list" | Body_error

text \<open>The context and the buffers of the chain are changed in place, so both are results.\<close>

definition ngx_http_range_singlepart_body ::
  "bool \<Rightarrow> ngx_http_range_filter_ctx \<Rightarrow> ngx_buf list \<Rightarrow> ngx_http_range_filter_ctx \<times> ngx_buf list \<times> body_result" where
  "ngx_http_range_singlepart_body main ctx bufs =
     (let (start, bufs, out) = singlepart_loop main (ctx_ranges ctx ! 0) (offset ctx) bufs in
      (ctx\<lparr>offset := start\<rparr>, bufs, Next_body out))"

definition ngx_http_range_test_overlapped :: "ngx_http_range_filter_ctx \<Rightarrow> ngx_buf \<Rightarrow> ngx_http_range_filter_ctx option" where
  "ngx_http_range_test_overlapped ctx buf =
     (if offset ctx \<noteq> 0 then None
      else if \<not> last_buf buf \<and>
        list_ex (\<lambda>rg. offset ctx > rstart rg \<or> offset ctx + ngx_buf_size buf < rend rg) (ctx_ranges ctx) then None
      else Some (ctx\<lparr>offset := ngx_buf_size buf\<rparr>))"

definition NGX_ATOMIC_T_LEN :: nat where "NGX_ATOMIC_T_LEN = 20"

definition multipart_range :: "bytes \<Rightarrow> ngx_buf \<Rightarrow> ngx_http_range \<Rightarrow> ngx_buf list" where
  "multipart_range bh buf rg =
     (let hb = ngx_calloc_buf\<lparr>memory := True, bmem := bh, bpos := 0, blast := int (length bh)\<rparr>;
          rb = ngx_calloc_buf\<lparr>temporary := True, bmem := content_range rg, bpos := 0, blast := int (length (content_range rg))\<rparr>;
          b = ngx_calloc_buf\<lparr>in_file := in_file buf, temporary := temporary buf, memory := memory buf, mmap := mmap buf, bfile := bfile buf\<rparr>;
          b = (if in_file buf then b\<lparr>file_pos := file_pos buf + rstart rg, file_last := file_pos buf + rend rg\<rparr> else b);
          b = (if ngx_buf_in_memory buf then b\<lparr>bmem := bmem buf, bpos := bpos buf + rstart rg, blast := bpos buf + rend rg\<rparr> else b) in
      [hb, rb, b])"

definition multipart_last :: "bytes \<Rightarrow> ngx_buf" where
  "multipart_last bh =
     (let data = take (4 + NGX_ATOMIC_T_LEN) bh @ [chr_minus, chr_minus, CR, LF] in
      ngx_calloc_buf\<lparr>temporary := True, last_buf := True, bmem := data, bpos := 0, blast := int (length data)\<rparr>)"

definition ngx_http_range_multipart_body :: "ngx_http_range_filter_ctx \<Rightarrow> ngx_buf \<Rightarrow> body_result" where
  "ngx_http_range_multipart_body ctx buf =
     Next_body (concat (map (multipart_range (boundary_header ctx) buf) (ctx_ranges ctx)) @ [multipart_last (boundary_header ctx)])"

text \<open>\<open>ctx\<close> is the context of the module in the request, when the header filter has made one.\<close>

definition ngx_http_range_body_filter ::
  "bool \<Rightarrow> ngx_http_range_filter_ctx option \<Rightarrow> ngx_buf list \<Rightarrow>
   ngx_http_range_filter_ctx option \<times> ngx_buf list \<times> body_result" where
  "ngx_http_range_body_filter main ctx bufs =
     (case (bufs, ctx) of
        ([], _) \<Rightarrow> (ctx, bufs, Next_body bufs)
      | (_, None) \<Rightarrow> (ctx, bufs, Next_body bufs)
      | (buf # _, Some c) \<Rightarrow>
          if length (ctx_ranges c) = 1 then
            let (c, bufs, out) = ngx_http_range_singlepart_body main c bufs in (Some c, bufs, out)
          else if ngx_buf_special buf then (ctx, bufs, Next_body bufs)
          else (case ngx_http_range_test_overlapped c buf of
              None \<Rightarrow> (ctx, bufs, Body_error)
            | Some c \<Rightarrow> (Some c, bufs, ngx_http_range_multipart_body c buf)))"

text \<open>The filter is called with one chain after the other.\<close>

fun body_filter_calls ::
  "bool \<Rightarrow> ngx_http_range_filter_ctx option \<Rightarrow> ngx_buf list list \<Rightarrow> ngx_buf list option" where
  "body_filter_calls main ctx [] = Some []"
| "body_filter_calls main ctx (bufs # calls) =
     (case ngx_http_range_body_filter main ctx bufs of
        (ctx, _, Next_body out) \<Rightarrow> map_option (\<lambda>out'. out @ out') (body_filter_calls main ctx calls)
      | (_, _, Body_error) \<Rightarrow> None)"

subsection \<open>The bytes of a range\<close>

definition buf_slice :: "bytes \<Rightarrow> int \<Rightarrow> int \<Rightarrow> bytes" where
  "buf_slice m i j = take (nat (j - i)) (drop (nat i) m)"

definition buf_data :: "ngx_buf \<Rightarrow> bytes" where
  "buf_data b =
     (if ngx_buf_in_memory b then buf_slice (bmem b) (bpos b) (blast b)
      else if in_file b then buf_slice (bfile b) (file_pos b) (file_last b)
      else [])"

text \<open>A buffer as the filters keep it: a buffer in memory and in a file has the same bytes in both.\<close>

definition buf_ok :: "ngx_buf \<Rightarrow> bool" where
  "buf_ok b \<longleftrightarrow>
     (ngx_buf_in_memory b \<longrightarrow> 0 \<le> bpos b \<and> bpos b \<le> blast b \<and> blast b \<le> int (length (bmem b))) \<and>
     (in_file b \<longrightarrow> 0 \<le> file_pos b \<and> file_pos b \<le> file_last b \<and> file_last b \<le> int (length (bfile b))) \<and>
     (ngx_buf_in_memory b \<and> in_file b \<longrightarrow> buf_slice (bmem b) (bpos b) (blast b) = buf_slice (bfile b) (file_pos b) (file_last b)) \<and>
     (\<not> ngx_buf_in_memory b \<and> \<not> in_file b \<longrightarrow> file_pos b = file_last b)"

text \<open>The bytes of \<open>xs\<close> from \<open>lo\<close> to \<open>hi\<close>, where \<open>xs\<close> begins at \<open>start\<close>.\<close>

definition cut_range :: "int \<Rightarrow> int \<Rightarrow> int \<Rightarrow> bytes \<Rightarrow> bytes" where
  "cut_range lo hi start xs = drop (nat (lo - start)) (take (nat (hi - start)) xs)"

lemma buf_slice_length: "0 \<le> i \<Longrightarrow> i \<le> j \<Longrightarrow> j \<le> int (length m) \<Longrightarrow> int (length (buf_slice m i j)) = j - i"
  by (simp add: buf_slice_def)

lemma buf_slice_slice:
  assumes "0 \<le> i" "0 \<le> a" "i + a \<le> j - c" "0 \<le> c"
  shows "buf_slice m (i + a) (j - c) = drop (nat a) (take (nat (j - i - c)) (buf_slice m i j))"
proof -
  have "nat (j - i - c) \<le> nat (j - i)" using assms by simp
  then have "drop (nat a) (take (nat (j - i - c)) (buf_slice m i j)) = drop (nat a) (take (nat (j - i - c)) (drop (nat i) m))"
    by (simp add: buf_slice_def min_def)
  also have "\<dots> = take (nat (j - i - c) - nat a) (drop (nat a + nat i) m)" by (simp add: drop_take)
  also have "\<dots> = buf_slice m (i + a) (j - c)"
    using assms by (simp add: buf_slice_def nat_add_distrib nat_diff_distrib algebra_simps flip: nat_diff_distrib)
  finally show ?thesis by simp
qed

lemma buf_data_length: "buf_ok b \<Longrightarrow> int (length (buf_data b)) = ngx_buf_size b"
  by (simp add: buf_ok_def buf_data_def ngx_buf_size_def buf_slice_length)

lemma cut_range_append: "cut_range lo hi start (xs @ ys) = cut_range lo hi start xs @ cut_range lo hi (start + int (length xs)) ys"
proof -
  have n: "nat (hi - start) - length xs = nat (hi - (start + int (length xs)))"
    "nat (lo - start) - length xs = nat (lo - (start + int (length xs)))" by linarith+
  show ?thesis
  proof (cases "nat (hi - start) \<le> length xs")
    case True
    then show ?thesis by (simp add: cut_range_def)
  next
    case False
    then show ?thesis by (simp add: cut_range_def n min_def)
  qed
qed

text \<open>A buffer without its first \<open>a\<close> and its last \<open>c\<close> bytes.\<close>

definition narrow :: "int \<Rightarrow> int \<Rightarrow> ngx_buf \<Rightarrow> ngx_buf" where
  "narrow a c b = b\<lparr>
     file_pos := (if in_file b then file_pos b + a else file_pos b), bpos := (if ngx_buf_in_memory b then bpos b + a else bpos b),
     file_last := (if in_file b then file_last b - c else file_last b), blast := (if ngx_buf_in_memory b then blast b - c else blast b)\<rparr>"

lemma buf_in_memory_updates [simp]:
  "ngx_buf_in_memory (b\<lparr>file_pos := i\<rparr>) = ngx_buf_in_memory b" "ngx_buf_in_memory (b\<lparr>file_last := i\<rparr>) = ngx_buf_in_memory b"
  "ngx_buf_in_memory (b\<lparr>bpos := i\<rparr>) = ngx_buf_in_memory b" "ngx_buf_in_memory (b\<lparr>blast := i\<rparr>) = ngx_buf_in_memory b"
  "ngx_buf_in_memory (b\<lparr>sync := x\<rparr>) = ngx_buf_in_memory b" "ngx_buf_in_memory (b\<lparr>last_buf := x\<rparr>) = ngx_buf_in_memory b"
  "ngx_buf_in_memory (b\<lparr>last_in_chain := x\<rparr>) = ngx_buf_in_memory b"
  by (simp_all add: ngx_buf_in_memory_def)

lemma narrow_ok:
  assumes "buf_ok b" "0 \<le> a" "0 \<le> c" "a + c \<le> ngx_buf_size b"
  shows "buf_ok (narrow a c b) \<and> buf_data (narrow a c b) = drop (nat a) (take (nat (ngx_buf_size b - c)) (buf_data b))"
proof (cases "ngx_buf_in_memory b")
  case True
  have mem: "ngx_buf_in_memory (narrow a c b)" using True by (simp add: ngx_buf_in_memory_def narrow_def)
  have bounds: "0 \<le> bpos b" "bpos b + a \<le> blast b - c" "blast b \<le> int (length (bmem b))"
    using assms True by (auto simp: buf_ok_def ngx_buf_size_def)
  note m = buf_slice_slice [OF bounds(1) assms(2) bounds(2) assms(3), of "bmem b"]
  show ?thesis
  proof (cases "in_file b")
    case True
    have same: "buf_slice (bmem b) (bpos b) (blast b) = buf_slice (bfile b) (file_pos b) (file_last b)"
      and f: "0 \<le> file_pos b" "file_pos b \<le> file_last b" "file_last b \<le> int (length (bfile b))"
      using assms(1) True \<open>ngx_buf_in_memory b\<close> by (auto simp: buf_ok_def)
    have len: "blast b - bpos b = file_last b - file_pos b"
      using arg_cong [OF same, of "\<lambda>xs. int (length xs)"] bounds f assms(2,3) by (simp add: buf_slice_length)
    then have "file_pos b + a \<le> file_last b - c" using bounds by simp
    note fs = buf_slice_slice [OF f(1) assms(2) this assms(3), of "bfile b"]
    from mem True \<open>ngx_buf_in_memory b\<close> bounds f len assms(2,3) m fs same show ?thesis
      by (auto simp: buf_ok_def buf_data_def ngx_buf_size_def narrow_def)
  next
    case False
    with mem \<open>ngx_buf_in_memory b\<close> bounds assms(2,3) m show ?thesis
      by (auto simp: buf_ok_def buf_data_def ngx_buf_size_def narrow_def)
  qed
next
  case False
  have mem: "\<not> ngx_buf_in_memory (narrow a c b)" using False by (simp add: ngx_buf_in_memory_def narrow_def)
  show ?thesis
  proof (cases "in_file b")
    case True
    have bounds: "0 \<le> file_pos b" "file_pos b + a \<le> file_last b - c" "file_last b \<le> int (length (bfile b))"
      using assms True False by (auto simp: buf_ok_def ngx_buf_size_def)
    note m = buf_slice_slice [OF bounds(1) assms(2) bounds(2) assms(3), of "bfile b"]
    from mem False True bounds assms(2,3) m show ?thesis
      by (auto simp: buf_ok_def buf_data_def ngx_buf_size_def narrow_def)
  next
    case no_file: False
    with mem False assms show ?thesis by (auto simp: buf_ok_def buf_data_def ngx_buf_size_def narrow_def)
  qed
qed

lemma buf_flags [simp]:
  "buf_ok (b\<lparr>last_buf := x, last_in_chain := y\<rparr>) = buf_ok b" "buf_data (b\<lparr>last_buf := x, last_in_chain := y\<rparr>) = buf_data b"
  "buf_ok (b\<lparr>sync := x\<rparr>) = buf_ok b" "buf_data (b\<lparr>sync := x\<rparr>) = buf_data b"
  by (simp_all add: buf_ok_def buf_data_def ngx_buf_in_memory_def)

lemma singlepart_buf_skip:
  assumes "\<not> ngx_buf_special b" "rend rg \<le> start \<or> rstart rg \<ge> start + ngx_buf_size b" "buf_ok b"
  shows "\<not> snd (singlepart_buf main rg start b) \<and> buf_ok (fst (singlepart_buf main rg start b)) \<and>
    buf_data (fst (singlepart_buf main rg start b)) = []"
proof -
  have "singlepart_buf main rg start b =
      (b\<lparr>file_pos := (if in_file b then file_last b else file_pos b), bpos := blast b, sync := True\<rparr>, False)"
    using assms(1,2) by (cases b) (auto simp: singlepart_buf_def Let_def)
  then show ?thesis using assms(3) by (auto simp: buf_ok_def buf_data_def buf_slice_def)
qed

lemma singlepart_buf_sent:
  assumes "\<not> ngx_buf_special b" "start < rend rg" "rstart rg < start + ngx_buf_size b"
  defines "b' \<equiv> narrow (max 0 (rstart rg - start)) (max 0 (start + ngx_buf_size b - rend rg)) b"
  shows "singlepart_buf main rg start b =
    (if rend rg \<le> start + ngx_buf_size b then b'\<lparr>last_buf := main, last_in_chain := True\<rparr> else b', True)"
  using assms(1-3) unfolding b'_def
  by (cases b) (auto simp: singlepart_buf_def Let_def narrow_def ngx_buf_in_memory_def)

lemma special_data: "ngx_buf_special b \<Longrightarrow> buf_ok b \<Longrightarrow> buf_data b = [] \<and> ngx_buf_size b = 0"
  by (auto simp: ngx_buf_special_def buf_data_def buf_ok_def ngx_buf_size_def)

lemma singlepart_buf_data:
  fixes main start
  assumes "buf_ok b" "rstart rg < rend rg"
  defines "res \<equiv> singlepart_buf main rg start b"
  shows "buf_ok (fst res) \<and> (if snd res then buf_data (fst res) else []) = cut_range (rstart rg) (rend rg) start (buf_data b)"
proof (cases "ngx_buf_special b")
  case True
  then show ?thesis using special_data [OF True assms(1)] assms(1) by (simp add: res_def singlepart_buf_def Let_def cut_range_def)
next
  case False
  note size = buf_data_length [OF assms(1)]
  show ?thesis
  proof (cases "rend rg \<le> start \<or> rstart rg \<ge> start + ngx_buf_size b")
    case True
    then have "cut_range (rstart rg) (rend rg) start (buf_data b) = []" using size by (auto simp: cut_range_def)
    with singlepart_buf_skip [OF False True assms(1)] show ?thesis by (auto simp: res_def)
  next
    case sent: False
    let ?a = "max 0 (rstart rg - start)" and ?c = "max 0 (start + ngx_buf_size b - rend rg)"
    have "?a + ?c \<le> ngx_buf_size b" using sent assms(2) size by linarith
    from narrow_ok [OF assms(1) _ _ this] have ok: "buf_ok (narrow ?a ?c b)"
      and data: "buf_data (narrow ?a ?c b) = drop (nat ?a) (take (nat (ngx_buf_size b - ?c)) (buf_data b))" by simp_all
    have "take (nat (ngx_buf_size b - ?c)) (buf_data b) = take (nat (rend rg - start)) (buf_data b)"
      using size by (cases "rend rg \<le> start + ngx_buf_size b") auto
    with data have "buf_data (narrow ?a ?c b) = cut_range (rstart rg) (rend rg) start (buf_data b)"
      by (simp add: cut_range_def max_def)
    moreover have "snd res" "fst res = narrow ?a ?c b \<or> fst res = narrow ?a ?c b\<lparr>last_buf := main, last_in_chain := True\<rparr>"
      using sent singlepart_buf_sent [OF False, of start rg main] by (auto simp del: max.absorb1 max.absorb2 max.absorb3 max.absorb4 simp: res_def)
    ultimately show ?thesis using ok by auto
  qed
qed

abbreviation chain_data :: "ngx_buf list \<Rightarrow> bytes" where
  "chain_data bufs \<equiv> concat (map buf_data bufs)"

lemma singlepart_loop_data:
  assumes "list_all buf_ok bufs" "rstart rg < rend rg" "singlepart_loop main rg start bufs = (start', bufs', out)"
  shows "start' = start + int (length (chain_data bufs)) \<and> chain_data out = cut_range (rstart rg) (rend rg) start (chain_data bufs)"
  using assms
proof (induction bufs arbitrary: start bufs' out)
  case (Cons b bufs)
  obtain b' sent where b: "singlepart_buf main rg start b = (b', sent)" by force
  obtain bufs1 out1 where l: "singlepart_loop main rg (start + ngx_buf_size b) bufs = (start', bufs1, out1)"
    using Cons.prems(3) b by (auto split: prod.splits)
  have out: "chain_data out = (if sent then buf_data b' else []) @ chain_data out1" using Cons.prems(3) b l by auto
  have size: "int (length (buf_data b)) = ngx_buf_size b" using Cons.prems(1) by (simp add: buf_data_length)
  have "buf_ok b" using Cons.prems(1) by simp
  from singlepart_buf_data [OF this Cons.prems(2), of main start]
  have "(if sent then buf_data b' else []) = cut_range (rstart rg) (rend rg) start (buf_data b)" by (simp only: b fst_conv snd_conv)
  with Cons.IH [OF _ Cons.prems(2) l] Cons.prems(1) out show ?case by (simp add: cut_range_append size)
qed (simp add: cut_range_def)

text \<open>The calls of the filter for one range are one loop over all the buffers.\<close>

lemma singlepart_loop_append:
  "singlepart_loop main rg start (xs @ ys) =
     (let (s1, xs', out1) = singlepart_loop main rg start xs; (s2, ys', out2) = singlepart_loop main rg s1 ys in
      (s2, xs' @ ys', out1 @ out2))"
  by (induction xs arbitrary: start) (auto split: prod.splits)

lemma single_range_calls:
  assumes "ctx_ranges c = [rg]"
  shows "body_filter_calls main (Some c) calls = Some (snd (snd (singlepart_loop main rg (offset c) (concat calls))))"
  using assms
proof (induction calls arbitrary: c)
  case (Cons bufs calls)
  obtain s1 bufs' out where l: "singlepart_loop main rg (offset c) bufs = (s1, bufs', out)" by (cases "singlepart_loop main rg (offset c) bufs") auto
  have "ngx_http_range_body_filter main (Some c) bufs = (Some (c\<lparr>offset := s1\<rparr>), bufs', Next_body out)"
    using l Cons.prems by (cases bufs) (auto simp: ngx_http_range_body_filter_def ngx_http_range_singlepart_body_def)
  moreover have "body_filter_calls main (Some (c\<lparr>offset := s1\<rparr>)) calls = Some (snd (snd (singlepart_loop main rg s1 (concat calls))))"
    using Cons.IH [of "c\<lparr>offset := s1\<rparr>"] Cons.prems by simp
  ultimately show ?case using l by (simp add: singlepart_loop_append split: prod.splits)
qed simp

text \<open>Before the end of the range the flags of the buffers stay, after it nothing is sent.\<close>

lemma singlepart_loop_after:
  assumes "list_all buf_ok bufs" "rend rg \<le> start"
  shows "snd (snd (singlepart_loop main rg start bufs)) = []"
  using assms
proof (induction bufs arbitrary: start)
  case (Cons b bufs)
  have "0 \<le> ngx_buf_size b" using Cons.prems(1) buf_data_length [of b] by simp
  with Cons have "snd (snd (singlepart_loop main rg (start + ngx_buf_size b) bufs)) = []" by simp
  moreover have "\<not> snd (singlepart_buf main rg start b)" using Cons.prems(2) by (simp add: singlepart_buf_def Let_def)
  ultimately show ?case by (auto split: prod.splits)
qed simp

lemma singlepart_buf_flag:
  assumes "start + ngx_buf_size b < rend rg" "snd (singlepart_buf main rg start b)"
  shows "last_buf (fst (singlepart_buf main rg start b)) = last_buf b"
  using assms by (auto simp: singlepart_buf_def Let_def split: if_splits)

lemma singlepart_loop_before:
  assumes "list_all buf_ok bufs" "start + int (length (chain_data bufs)) < rend rg" "\<forall>b \<in> set bufs. \<not> last_buf b"
  shows "\<forall>b \<in> set (snd (snd (singlepart_loop main rg start bufs))). \<not> last_buf b"
  using assms
proof (induction bufs arbitrary: start)
  case (Cons b bufs)
  have size: "ngx_buf_size b = int (length (buf_data b))" using Cons.prems(1) by (simp add: buf_data_length)
  have "\<forall>b \<in> set (snd (snd (singlepart_loop main rg (start + ngx_buf_size b) bufs))). \<not> last_buf b"
    using Cons.prems by (intro Cons.IH) (simp_all add: size)
  moreover have "snd (singlepart_buf main rg start b) \<longrightarrow> \<not> last_buf (fst (singlepart_buf main rg start b))"
    using singlepart_buf_flag [of start b rg main] Cons.prems(2,3) by (simp add: size)
  ultimately show ?case by (auto split: prod.splits)
qed simp

text \<open>The buffer with the end of the range.\<close>

lemma end_buffer:
  assumes "list_all buf_ok bufs" "start < e" "e \<le> start + int (length (chain_data bufs))"
  shows "\<exists>pre b post. bufs = pre @ b # post \<and> start + int (length (chain_data pre)) < e \<and>
    e \<le> start + int (length (chain_data pre)) + ngx_buf_size b"
  using assms
proof (induction bufs arbitrary: start)
  case (Cons b bufs)
  have size: "ngx_buf_size b = int (length (buf_data b))" using Cons.prems(1) by (simp add: buf_data_length)
  show ?case
  proof (cases "e \<le> start + ngx_buf_size b")
    case True
    with Cons.prems(2) have "b # bufs = [] @ b # bufs \<and> start + int (length (chain_data [])) < e \<and>
        e \<le> start + int (length (chain_data [])) + ngx_buf_size b" by simp
    then show ?thesis by blast
  next
    case False
    with Cons.IH [of "start + ngx_buf_size b"] Cons.prems obtain pre x post where
      "bufs = pre @ x # post" "start + ngx_buf_size b + int (length (chain_data pre)) < e"
      "e \<le> start + ngx_buf_size b + int (length (chain_data pre)) + ngx_buf_size x" by (auto simp: size)
    then have "b # bufs = (b # pre) @ x # post \<and> start + int (length (chain_data (b # pre))) < e \<and>
        e \<le> start + int (length (chain_data (b # pre))) + ngx_buf_size x" by (simp add: size)
    then show ?thesis by blast
  qed
qed simp

text \<open>
  Property C7: the body of a response with one range.  However the body is cut into buffers and into calls of the filter, what goes
  to the next filter are exactly the bytes of the range; the last buffer that is sent, and no other, is marked as the last one
  of the response.
\<close>

theorem single_range_body:
  assumes "\<forall>b \<in> set (concat calls). buf_ok b" "ctx_ranges ctx = [rg]" "offset ctx = 0"
    and "0 \<le> rstart rg" "rstart rg < rend rg" "rend rg \<le> int (length (chain_data (concat calls)))"
    and "\<forall>b \<in> set (butlast (concat calls)). \<not> last_buf b"
  shows "\<exists>out z. body_filter_calls True (Some ctx) calls = Some (out @ [z]) \<and>
    chain_data (out @ [z]) = take (nat (rend rg - rstart rg)) (drop (nat (rstart rg)) (chain_data (concat calls))) \<and>
    last_buf z \<and> last_in_chain z \<and> (\<forall>b \<in> set out. \<not> last_buf b)"
proof -
  let ?bufs = "concat calls"
  have ok: "list_all buf_ok ?bufs" using assms(1) by (simp add: list_all_iff)
  obtain pre b post where split: "?bufs = pre @ b # post"
    and cross: "int (length (chain_data pre)) < rend rg" "rend rg \<le> int (length (chain_data pre)) + ngx_buf_size b"
    using end_buffer [OF ok, of 0 "rend rg"] assms(4-6) by auto
  have oks: "list_all buf_ok pre" "buf_ok b" "list_all buf_ok post" using ok by (simp_all add: split)
  obtain s1 pre' out where l: "singlepart_loop True rg 0 pre = (s1, pre', out)" by (cases "singlepart_loop True rg 0 pre") auto
  have s1: "s1 = int (length (chain_data pre))" using singlepart_loop_data [OF oks(1) assms(5) l] by simp
  have "\<not> ngx_buf_special b" using special_data [OF _ oks(2)] cross by auto
  from singlepart_buf_sent [OF this, of s1 rg True] cross assms(5) obtain z where
    z: "singlepart_buf True rg s1 b = (z, True)" "last_buf z" "last_in_chain z" by (auto simp: s1)
  have "snd (snd (singlepart_loop True rg (s1 + ngx_buf_size b) post)) = []"
    using singlepart_loop_after [OF oks(3)] cross by (simp add: s1)
  then obtain s' post' where "singlepart_loop True rg (s1 + ngx_buf_size b) post = (s', post', [])"
    by (cases "singlepart_loop True rg (s1 + ngx_buf_size b) post") auto
  with l z(1) have all: "singlepart_loop True rg 0 ?bufs = (s', pre' @ z # post', out @ [z])"
    by (simp add: split singlepart_loop_append)
  have "\<forall>b \<in> set pre. \<not> last_buf b" using assms(7) by (auto simp: split butlast_append)
  with singlepart_loop_before [OF oks(1), of 0 rg True] cross(1) l have "\<forall>b \<in> set out. \<not> last_buf b" by simp
  moreover have "chain_data (out @ [z]) = take (nat (rend rg - rstart rg)) (drop (nat (rstart rg)) (chain_data ?bufs))"
    using singlepart_loop_data [OF ok assms(5) all] assms(4,5) by (simp add: cut_range_def drop_take nat_diff_distrib)
  moreover have "body_filter_calls True (Some ctx) calls = Some (out @ [z])"
    using single_range_calls [OF assms(2), of True calls] all assms(3) by simp
  ultimately show ?thesis using z(2,3) by blast
qed

definition example_calls :: "ngx_buf list list" where
  "example_calls =
     (let b = ngx_calloc_buf\<lparr>memory := True, bmem := [1, 2, 3, 4], blast := 4\<rparr>;
          f = ngx_calloc_buf\<lparr>in_file := True, bfile := [0, 5, 6, 7, 8], file_pos := 1, file_last := 5\<rparr> in
      [[b], [f, ngx_calloc_buf\<lparr>last_buf := True\<rparr>]])"

theorem single_range_body_witness:
  "\<exists>out z. body_filter_calls True (Some \<lparr>offset = 0, boundary_header = [], ctx_ranges = [\<lparr>rstart = 2, rend = 6, content_range = []\<rparr>]\<rparr>)
     example_calls = Some (out @ [z]) \<and> chain_data (out @ [z]) = [3, 4, 5, 6] \<and> last_buf z \<and> (\<forall>b \<in> set out. \<not> last_buf b)"
proof -
  let ?rg = "\<lparr>rstart = 2, rend = 6, content_range = []\<rparr>"
  let ?ctx = "\<lparr>offset = 0, boundary_header = [], ctx_ranges = [?rg]\<rparr>"
  have ok: "\<forall>b \<in> set (concat example_calls). buf_ok b" "\<forall>b \<in> set (butlast (concat example_calls)). \<not> last_buf b"
    by (auto simp: example_calls_def ngx_calloc_buf_def buf_ok_def ngx_buf_in_memory_def Let_def)
  have data: "chain_data (concat example_calls) = [1, 2, 3, 4, 5, 6, 7, 8]"
    by (simp add: example_calls_def ngx_calloc_buf_def buf_data_def buf_slice_def ngx_buf_in_memory_def Let_def)
  from single_range_body [OF ok(1) _ _ _ _ _ ok(2), of ?ctx ?rg] show ?thesis unfolding data by force
qed

subsection \<open>Several ranges\<close>

lemma buf_slice_part:
  assumes "0 \<le> i" "i \<le> j" "j \<le> int (length m)" "0 \<le> s" "s \<le> e" "e \<le> j - i"
  shows "buf_slice m (i + s) (i + e) = take (nat (e - s)) (drop (nat s) (buf_slice m i j))"
proof -
  have "buf_slice m (i + s) (j - (j - (i + e))) = drop (nat s) (take (nat e) (buf_slice m i j))"
    using buf_slice_slice [of i s j "j - (i + e)" m] assms by (simp add: algebra_simps)
  then show ?thesis using assms by (simp add: drop_take nat_diff_distrib)
qed

lemma multipart_range_data:
  assumes "buf_ok b" "0 \<le> rstart rg" "rstart rg < rend rg" "rend rg \<le> int (length (buf_data b))"
  shows "chain_data (multipart_range bh b rg) =
    bh @ content_range rg @ take (nat (rend rg - rstart rg)) (drop (nat (rstart rg)) (buf_data b))"
proof -
  let ?mem = "ngx_buf_in_memory b"
  have some: "?mem \<or> in_file b" using assms by (auto simp: buf_data_def split: if_splits)
  have size: "int (length (buf_data b)) = ngx_buf_size b" using buf_data_length [OF assms(1)] .
  obtain x where x: "multipart_range bh b rg =
      [ngx_calloc_buf\<lparr>memory := True, bmem := bh, bpos := 0, blast := int (length bh)\<rparr>,
       ngx_calloc_buf\<lparr>temporary := True, bmem := content_range rg, bpos := 0, blast := int (length (content_range rg))\<rparr>, x]"
    and xd: "buf_data x = (if ?mem then buf_slice (bmem b) (bpos b + rstart rg) (bpos b + rend rg)
       else buf_slice (bfile b) (file_pos b + rstart rg) (file_pos b + rend rg))"
    using some by (auto simp: multipart_range_def Let_def ngx_calloc_buf_def buf_data_def ngx_buf_in_memory_def)
  have "buf_data x = take (nat (rend rg - rstart rg)) (drop (nat (rstart rg)) (buf_data b))"
  proof (cases ?mem)
    case True
    with assms size have "buf_slice (bmem b) (bpos b + rstart rg) (bpos b + rend rg) =
        take (nat (rend rg - rstart rg)) (drop (nat (rstart rg)) (buf_slice (bmem b) (bpos b) (blast b)))"
      by (intro buf_slice_part) (auto simp: buf_ok_def ngx_buf_size_def)
    with True xd show ?thesis by (simp add: buf_data_def)
  next
    case False
    with assms size some have "buf_slice (bfile b) (file_pos b + rstart rg) (file_pos b + rend rg) =
        take (nat (rend rg - rstart rg)) (drop (nat (rstart rg)) (buf_slice (bfile b) (file_pos b) (file_last b)))"
      by (intro buf_slice_part) (auto simp: buf_ok_def ngx_buf_size_def)
    with False some xd show ?thesis by (simp add: buf_data_def)
  qed
  moreover have "buf_data (ngx_calloc_buf\<lparr>memory := True, bmem := m, bpos := 0, blast := int (length m)\<rparr>) = m"
    "buf_data (ngx_calloc_buf\<lparr>temporary := True, bmem := m, bpos := 0, blast := int (length m)\<rparr>) = m" for m
    by (simp_all add: ngx_calloc_buf_def buf_data_def buf_slice_def ngx_buf_in_memory_def)
  ultimately show ?thesis by (simp add: x)
qed

lemma multipart_last_data:
  "buf_data (multipart_last bh) = take (4 + NGX_ATOMIC_T_LEN) bh @ [chr_minus, chr_minus, CR, LF] \<and> last_buf (multipart_last bh)"
proof -
  have data: "buf_data (ngx_calloc_buf\<lparr>temporary := True, last_buf := True, bmem := m, bpos := 0, blast := int (length m)\<rparr>) = m" for m
    by (simp add: ngx_calloc_buf_def buf_data_def buf_slice_def ngx_buf_in_memory_def)
  show ?thesis unfolding multipart_last_def Let_def data by simp
qed

text \<open>The body of a response with several ranges, as the format wants it.\<close>

definition multipart_text :: "bytes \<Rightarrow> bytes \<Rightarrow> ngx_http_range list \<Rightarrow> bytes" where
  "multipart_text bh body rs =
     concat (map (\<lambda>rg. bh @ content_range rg @ take (nat (rend rg - rstart rg)) (drop (nat (rstart rg)) body)) rs) @
     take (4 + NGX_ATOMIC_T_LEN) bh @ [chr_minus, chr_minus, CR, LF]"

lemma multi_range_calls:
  assumes "buf_ok b" "length (ctx_ranges ctx) \<ge> 2" "offset ctx = 0"
    and "\<forall>rg \<in> set (ctx_ranges ctx). 0 \<le> rstart rg \<and> rstart rg < rend rg \<and> rend rg \<le> int (length (buf_data b))"
  shows "\<exists>out z. body_filter_calls main (Some ctx) [b # rest] = Some (out @ [z]) \<and> last_buf z \<and> (\<forall>x \<in> set out. \<not> last_buf x) \<and>
    chain_data (out @ [z]) = multipart_text (boundary_header ctx) (buf_data b) (ctx_ranges ctx)"
proof -
  let ?bh = "boundary_header ctx" and ?c = "ctx\<lparr>offset := ngx_buf_size b\<rparr>"
  let ?out = "concat (map (multipart_range ?bh b) (ctx_ranges ctx))"
  have size: "int (length (buf_data b)) = ngx_buf_size b" using buf_data_length [OF assms(1)] .
  obtain rg where "rg \<in> set (ctx_ranges ctx)" using assms(2) by (cases "ctx_ranges ctx") auto
  then have "buf_data b \<noteq> []" using assms(4) by fastforce
  then have "\<not> ngx_buf_special b" using special_data [OF _ assms(1)] by blast
  moreover have "ngx_http_range_test_overlapped ctx b = Some ?c"
    using assms(3,4) size by (auto simp: ngx_http_range_test_overlapped_def list_ex_iff)
  ultimately have calls: "body_filter_calls main (Some ctx) [b # rest] = Some (?out @ [multipart_last ?bh])"
    using assms(2) by (simp add: ngx_http_range_body_filter_def ngx_http_range_multipart_body_def)
  have "\<not> last_buf x" if "x \<in> set (multipart_range ?bh b rg)" for x rg
    using that by (auto simp: multipart_range_def Let_def ngx_calloc_buf_def split: if_splits)
  then have flags: "\<forall>x \<in> set ?out. \<not> last_buf x" by auto
  have "chain_data (concat (map (multipart_range ?bh b) rs)) =
      concat (map (\<lambda>rg. ?bh @ content_range rg @ take (nat (rend rg - rstart rg)) (drop (nat (rstart rg)) (buf_data b))) rs)"
    if "set rs \<subseteq> set (ctx_ranges ctx)" for rs
    using that assms(4) by (induction rs) (simp_all add: multipart_range_data [OF assms(1)])
  with multipart_last_data [of ?bh] have "chain_data (?out @ [multipart_last ?bh]) = multipart_text ?bh (buf_data b) (ctx_ranges ctx)"
    by (simp add: multipart_text_def)
  with calls flags multipart_last_data [of ?bh] show ?thesis by blast
qed

end
