(* ===== verification/Ngx_Http_Range_Header.thy ===== *)
theory Ngx_Http_Range_Header
  imports Ngx_Http_Range_Body
begin

text \<open>
  The header filter of \<^verbatim>\<open>src/http/modules/ngx_http_range_filter_module.c\<close>: it decides whether a response is partial, and writes the header
  of a partial response.  The lemmas show when a response may become partial, what its header says, and that
  the length in the header is the length of the body that the body filter sends.
\<close>

subsection \<open>The request\<close>

text \<open>
  The headers of the response are a list, and some fields of \<^verbatim>\<open>headers_out\<close> point into it; a header with \<^verbatim>\<open>hash\<close> zero is not sent.
\<close>

record table_elt =
  live :: bool
  hkey :: bytes
  hvalue :: bytes

record range_request =
  http_version :: nat
  is_main :: bool
  subrequest_ranges :: bool
  allow_ranges :: bool
  single_range :: bool
  max_ranges :: nat
  in_range :: "bytes option"
  in_if_range :: "bytes option"
  status :: int
  status_line :: bytes
  headers :: "table_elt list"
  out_content_range :: "nat option"
  out_content_length :: "nat option"
  out_accept_ranges :: "nat option"
  out_etag :: "bytes option"
  last_modified_time :: int
  content_length_n :: int
  content_offset :: int
  content_type :: bytes
  content_type_len :: nat
  content_type_lowcase :: "bytes option"
  charset :: bytes

definition drop_header :: "nat option \<Rightarrow> table_elt list \<Rightarrow> table_elt list" where
  "drop_header p hs = (case p of None \<Rightarrow> hs | Some i \<Rightarrow> hs[i := (hs ! i)\<lparr>live := False\<rparr>])"

definition clear_content_length :: "range_request \<Rightarrow> range_request" where
  "clear_content_length r = r\<lparr>headers := drop_header (out_content_length r) (headers r), out_content_length := None\<rparr>"

definition ngx_http_clear_content_length :: "range_request \<Rightarrow> range_request" where
  "ngx_http_clear_content_length r = clear_content_length (r\<lparr>content_length_n := - 1\<rparr>)"

text \<open>A new header \<^verbatim>\<open>Content-Range\<close>, which replaces an old one.\<close>

definition push_content_range :: "bytes \<Rightarrow> range_request \<Rightarrow> range_request" where
  "push_content_range v r =
     r\<lparr>headers := drop_header (out_content_range r) (headers r) @ [\<lparr>live = True, hkey = str ''Content-Range'', hvalue = v\<rparr>],
       out_content_range := Some (length (headers r))\<rparr>"

text \<open>\<^verbatim>\<open>%O\<close> and \<^verbatim>\<open>%0muA\<close> of \<^verbatim>\<open>ngx_sprintf\<close>.\<close>

definition fmt_O :: "int \<Rightarrow> bytes" where
  "fmt_O v = (if v < 0 then chr_minus # ngx_sprintf_num (- v) chr_space 0 else ngx_sprintf_num v chr_space 0)"

definition fmt_0muA :: "64 word \<Rightarrow> bytes" where
  "fmt_0muA n = ngx_sprintf_num (uint n) chr_0 NGX_ATOMIC_T_LEN"

fun ngx_strncmp :: "bytes \<Rightarrow> bytes \<Rightarrow> nat \<Rightarrow> int" where
  "ngx_strncmp s t 0 = 0"
| "ngx_strncmp s t (Suc n) =
     (if byte_at s \<noteq> byte_at t then uint (byte_at s) - uint (byte_at t)
      else if byte_at s = 0 then 0 else ngx_strncmp (tl s) (tl t) n)"

subsection \<open>The header of a partial response\<close>

text \<open>What the filter does: the next filter is called, or the function returns.\<close>

datatype header_result = Next_header | Return int

definition CRLF :: bytes where "CRLF = [CR, LF]"

definition ngx_http_range_singlepart_header ::
  "ngx_http_range_filter_ctx \<Rightarrow> range_request \<Rightarrow> range_request \<times> header_result" where
  "ngx_http_range_singlepart_header ctx r =
     (if \<not> is_main r then (r, Next_header)
      else
        let rg = ctx_ranges ctx ! 0;
            r = push_content_range
              (str ''bytes '' @ fmt_O (rstart rg) @ str ''-'' @ fmt_O (rend rg - 1) @ str ''/'' @ fmt_O (content_length_n r)) r;
            r = r\<lparr>content_length_n := rend rg - rstart rg, content_offset := rstart rg\<rparr> in
        (clear_content_length r, Next_header))"

definition boundary_text :: "64 word \<Rightarrow> range_request \<Rightarrow> bytes" where
  "boundary_text boundary r =
     CRLF @ str ''--'' @ fmt_0muA boundary @ CRLF @
     (if content_type_len r = length (content_type r) \<and> charset r \<noteq> [] then
        str ''Content-Type: '' @ content_type r @ str ''; charset='' @ charset r @ CRLF
      else if content_type r \<noteq> [] then str ''Content-Type: '' @ content_type r @ CRLF
      else []) @
     str ''Content-Range: bytes ''"

text \<open>The size of the memory that is allocated for it.\<close>

definition boundary_size :: "range_request \<Rightarrow> nat" where
  "boundary_size r =
     4 + NGX_ATOMIC_T_LEN + 16 + length (content_type r) + 23 +
     (if content_type_len r = length (content_type r) \<and> charset r \<noteq> [] then 10 + length (charset r) else 0)"

definition range_text :: "int \<Rightarrow> ngx_http_range \<Rightarrow> bytes" where
  "range_text total_len rg =
     fmt_O (rstart rg) @ str ''-'' @ fmt_O (rend rg - 1) @ str ''/'' @ fmt_O total_len @ CRLF @ CRLF"

text \<open>\<open>boundary\<close> is the result of \<^verbatim>\<open>ngx_next_temp_number\<close>.\<close>

definition ngx_http_range_multipart_header ::
  "64 word \<Rightarrow> ngx_http_range_filter_ctx \<Rightarrow> range_request \<Rightarrow> ngx_http_range_filter_ctx \<times> range_request \<times> header_result" where
  "ngx_http_range_multipart_header boundary ctx r =
     (let bh = boundary_text boundary r;
          ct = str ''multipart/byteranges; boundary='' @ fmt_0muA boundary;
          rs = map (\<lambda>rg. rg\<lparr>content_range := range_text (content_length_n r) rg\<rparr>) (ctx_ranges ctx);
          len = foldl (\<lambda>len rg. len + (int (length bh) + int (length (content_range rg)) + (rend rg - rstart rg)))
            (4 + int NGX_ATOMIC_T_LEN + 4) rs;
          r = r\<lparr>content_type := ct, content_type_lowcase := None, content_type_len := length ct, charset := [], content_length_n := len\<rparr>;
          r = clear_content_length r;
          r = r\<lparr>headers := drop_header (out_content_range r) (headers r), out_content_range := None\<rparr> in
      (ctx\<lparr>boundary_header := bh, ctx_ranges := rs\<rparr>, r, Next_header))"

definition ngx_http_range_not_satisfiable :: "range_request \<Rightarrow> range_request \<times> header_result" where
  "ngx_http_range_not_satisfiable r =
     (let r = r\<lparr>status := NGX_HTTP_RANGE_NOT_SATISFIABLE\<rparr>;
          r = push_content_range (str ''bytes */'' @ fmt_O (content_length_n r)) r in
      (ngx_http_clear_content_length r, Return NGX_HTTP_RANGE_NOT_SATISFIABLE))"

subsection \<open>The header filter\<close>

definition NGX_HTTP_VERSION_10 :: nat where "NGX_HTTP_VERSION_10 = 1000"

text \<open>The conditions in front of \<^verbatim>\<open>parse:\<close> under which the response is not changed at all, and those that lead to \<^verbatim>\<open>next_filter:\<close>.\<close>

definition no_ranges :: "range_request \<Rightarrow> bool" where
  "no_ranges r \<longleftrightarrow>
     http_version r < NGX_HTTP_VERSION_10 \<or> status r \<noteq> NGX_HTTP_OK \<or> (\<not> is_main r \<and> \<not> subrequest_ranges r) \<or>
     content_length_n r = - 1 \<or> \<not> allow_ranges r \<or> max_ranges r = 0"

definition if_range_fails :: "bytes \<Rightarrow> range_request \<Rightarrow> bool" where
  "if_range_fails if_range r \<longleftrightarrow>
     (if length if_range \<ge> 2 \<and> if_range ! (length if_range - 1) = chr_quot then
        (case out_etag r of
           None \<Rightarrow> True
         | Some etag \<Rightarrow> length if_range \<noteq> length etag \<or> ngx_strncmp if_range etag (length etag) \<noteq> 0)
      else last_modified_time r = - 1 \<or> ngx_parse_http_time if_range \<noteq> Some (last_modified_time r))"

definition skip_ranges :: "range_request \<Rightarrow> bool" where
  "skip_ranges r \<longleftrightarrow>
     (case in_range r of
        None \<Rightarrow> True
      | Some v \<Rightarrow> length v < 7 \<or> ngx_strncasecmp v (str ''bytes='') 6 \<noteq> 0) \<or>
     (case in_if_range r of None \<Rightarrow> False | Some v \<Rightarrow> if_range_fails v r)"

definition accept_ranges :: "range_request \<Rightarrow> range_request" where
  "accept_ranges r =
     r\<lparr>headers := headers r @ [\<lparr>live = True, hkey = str ''Accept-Ranges'', hvalue = str ''bytes''\<rparr>],
       out_accept_ranges := Some (length (headers r))\<rparr>"

text \<open>
  \<open>mctx\<close> is the context of the main request, \<open>ctx\<close> the one of this request that is left to the body filter.  A subrequest shares
  the array of the ranges with its main request; here it has a copy.
\<close>

definition ngx_http_range_header_filter ::
  "ngx_http_range_filter_ctx option \<Rightarrow> 64 word \<Rightarrow> ngx_http_range_filter_ctx option \<Rightarrow> range_request \<Rightarrow>
   ngx_http_range_filter_ctx option \<times> range_request \<times> header_result" where
  "ngx_http_range_header_filter mctx boundary ctx r =
     (if no_ranges r then (ctx, r, Next_header)
      else if skip_ranges r then (ctx, accept_ranges r, Next_header)
      else
        let ranges = (if single_range r then 1 else max_ranges r);
            main_ranges = (if is_main r then None else map_option (\<lambda>c. map (\<lambda>rg. (rstart rg, rend rg)) (ctx_ranges c)) mctx);
            (rc, rs) = ngx_http_range_parse main_ranges (content_length_n r) (the (in_range r)) ranges;
            c = \<lparr>offset = content_offset r, boundary_header = [], ctx_ranges = map (\<lambda>(s, e). \<lparr>rstart = s, rend = e, content_range = []\<rparr>) rs\<rparr> in
        if rc = NGX_OK then
          let r = r\<lparr>status := NGX_HTTP_PARTIAL_CONTENT, status_line := []\<rparr> in
          if length (ctx_ranges c) = 1 then
            let (r, res) = ngx_http_range_singlepart_header c r in (Some c, r, res)
          else
            let (c, r, res) = ngx_http_range_multipart_header boundary c r in (Some c, r, res)
        else if rc = NGX_HTTP_RANGE_NOT_SATISFIABLE then
          let (r, res) = ngx_http_range_not_satisfiable r in (ctx, r, res)
        else (ctx, accept_ranges r, Next_header))"

subsection \<open>Lengths of the texts\<close>

lemma fmt_0muA_length: "length (fmt_0muA n) = NGX_ATOMIC_T_LEN"
proof -
  have "unat n < 2 ^ LENGTH(64)" by (rule unsigned_less)
  then have "nat (uint n) < 10 ^ 20" by simp
  from sprintf_digits_length [OF this, of "[]"] show ?thesis
    by (simp add: fmt_0muA_def ngx_sprintf_num_def NGX_ATOMIC_T_LEN_def Let_def)
qed

definition NGX_OFF_T_LEN :: nat where "NGX_OFF_T_LEN = 20"

lemma fmt_O_length:
  assumes "\<bar>v\<bar> \<le> NGX_MAX_OFF_T_VALUE"
  shows "length (fmt_O v) \<le> NGX_OFF_T_LEN"
proof -
  have "nat \<bar>v\<bar> < 10 ^ 19" using assms by (simp add: NGX_MAX_OFF_T_VALUE_def nat_less_iff)
  from sprintf_digits_length [OF this, of "[]"] show ?thesis
    by (auto simp: fmt_O_def ngx_sprintf_num_def NGX_OFF_T_LEN_def Let_def abs_if split: if_splits)
qed

lemma ngx_strncmp_same:
  "ngx_strncmp s t (length t) = 0 \<Longrightarrow> length s = length t \<Longrightarrow> 0 \<notin> set s \<Longrightarrow> s = t"
proof (induction t arbitrary: s)
  case (Cons c t)
  then show ?case by (cases s) (auto simp: byte_at_def word_uint_eq_iff split: if_splits)
qed simp

subsection \<open>Partial responses\<close>

abbreviation range_ctx :: "range_request \<Rightarrow> (int \<times> int) list \<Rightarrow> ngx_http_range_filter_ctx" where
  "range_ctx r rs \<equiv>
     \<lparr>offset = content_offset r, boundary_header = [], ctx_ranges = map (\<lambda>(s, e). \<lparr>rstart = s, rend = e, content_range = []\<rparr>) rs\<rparr>"

abbreviation partial :: "range_request \<Rightarrow> range_request" where
  "partial r \<equiv> r\<lparr>status := NGX_HTTP_PARTIAL_CONTENT, status_line := []\<rparr>"

text \<open>What has happened when a main request gets a context.\<close>

lemma header_filter_partial:
  assumes "ngx_http_range_header_filter mctx boundary None r = (Some ctx, r', res)" "is_main r"
  obtains rs where "\<not> no_ranges r" "\<not> skip_ranges r"
    and "ngx_http_range_parse None (content_length_n r) (the (in_range r)) (if single_range r then 1 else max_ranges r) = (NGX_OK, rs)"
    and "if length rs = 1 then ctx = range_ctx r rs \<and> ngx_http_range_singlepart_header ctx (partial r) = (r', res)
      else ngx_http_range_multipart_header boundary (range_ctx r rs) (partial r) = (ctx, r', res)"
  using assms by (auto simp: ngx_http_range_header_filter_def Let_def split: if_splits prod.splits)

lemma parse_ok:
  assumes "ngx_http_range_parse None cl v n = (NGX_OK, rs)" "0 \<le> cl"
  shows "rs \<noteq> [] \<and> ranges_ok cl rs"
  using assms range_loop_ok [of cl "drop 6 v" 0 n "[]" rs] by (simp add: ngx_http_range_parse_def ranges_ok_def)

lemma multipart_header_ctx:
  assumes "ngx_http_range_multipart_header boundary c r = (ctx, r', res)"
  shows "offset ctx = offset c" "boundary_header ctx = boundary_text boundary r"
    "ctx_ranges ctx = map (\<lambda>rg. rg\<lparr>content_range := range_text (content_length_n r) rg\<rparr>) (ctx_ranges c)"
  using assms by (auto simp: ngx_http_range_multipart_header_def Let_def)

lemma multipart_announced:
  assumes "ngx_http_range_multipart_header boundary c r = (ctx, r', res)"
    and "\<forall>rg \<in> set (ctx_ranges ctx). 0 \<le> rstart rg \<and> rstart rg < rend rg \<and> rend rg \<le> int (length body)"
  shows "content_length_n r' = int (length (multipart_text (boundary_header ctx) body (ctx_ranges ctx)))"
proof -
  let ?bh = "boundary_header ctx"
  have sum: "foldl (\<lambda>len rg. len + (int (length ?bh) + int (length (content_range rg)) + (rend rg - rstart rg))) n rs =
      n + int (length (concat (map (\<lambda>rg. ?bh @ content_range rg @ take (nat (rend rg - rstart rg)) (drop (nat (rstart rg)) body)) rs)))"
    if "set rs \<subseteq> set (ctx_ranges ctx)" for n rs
    using that assms(2) by (induction rs arbitrary: n) (auto simp: of_nat_diff min_def)
  have "length (take (4 + NGX_ATOMIC_T_LEN) ?bh) = 4 + NGX_ATOMIC_T_LEN"
    using fmt_0muA_length [of boundary] by (simp add: multipart_header_ctx(2) [OF assms(1)] boundary_text_def CRLF_def str_def)
  moreover have "content_length_n r' = foldl (\<lambda>len rg. len + (int (length ?bh) + int (length (content_range rg)) + (rend rg - rstart rg)))
      (4 + int NGX_ATOMIC_T_LEN + 4) (ctx_ranges ctx)"
    using assms(1) by (auto simp: ngx_http_range_multipart_header_def clear_content_length_def Let_def)
  ultimately show ?thesis using sum [OF order_refl] by (simp add: multipart_text_def)
qed

text \<open>
  Property C8: the length in the header of a partial response is the length of the body that is sent, for one range and any division of
  the body into buffers and calls, and for several ranges when the body is one buffer, which the filter demands.
\<close>

theorem partial_response_length:
  assumes "ngx_http_range_header_filter mctx boundary None r = (Some ctx, r', res)" "is_main r" "content_offset r = 0"
    and "content_length_n r = int (length (chain_data (concat calls)))" "\<forall>b \<in> set (concat calls). buf_ok b"
    and "length (ctx_ranges ctx) = 1 \<or> (\<exists>b. calls = [[b]])"
  shows "\<exists>out. body_filter_calls True (Some ctx) calls = Some out \<and> content_length_n r' = int (length (chain_data out))"
proof -
  obtain rs where parse: "ngx_http_range_parse None (content_length_n r) (the (in_range r)) (if single_range r then 1 else max_ranges r) = (NGX_OK, rs)"
    and hdr: "if length rs = 1 then ctx = range_ctx r rs \<and> ngx_http_range_singlepart_header ctx (partial r) = (r', res)
      else ngx_http_range_multipart_header boundary (range_ctx r rs) (partial r) = (ctx, r', res)"
    using header_filter_partial [OF assms(1,2)] by blast
  have rs: "rs \<noteq> []" "ranges_ok (content_length_n r) rs" using parse_ok [OF parse] assms(4) by simp_all
  show ?thesis
  proof (cases "length rs = 1")
    case True
    then obtain s e where se: "rs = [(s, e)]" by (cases rs) auto
    let ?rg = "\<lparr>rstart = s, rend = e, content_range = []\<rparr>"
    have ctx: "ctx_ranges ctx = [?rg]" "offset ctx = 0" and len: "content_length_n r' = e - s"
      using hdr assms(2,3) by (auto simp: se ngx_http_range_singlepart_header_def clear_content_length_def Let_def)
    have b: "0 \<le> s" "s < e" "e \<le> int (length (chain_data (concat calls)))" using rs(2) assms(4) by (simp_all add: se ranges_ok_def)
    obtain s' bufs' out where l: "singlepart_loop True ?rg 0 (concat calls) = (s', bufs', out)" by (cases "singlepart_loop True ?rg 0 (concat calls)") auto
    have "chain_data out = cut_range s e 0 (chain_data (concat calls))"
      using singlepart_loop_data [OF _ _ l] assms(5) b by (simp add: list_all_iff)
    then have "int (length (chain_data out)) = e - s" using b by (simp add: cut_range_def)
    with single_range_calls [OF ctx(1), of True calls] ctx(2) l len show ?thesis by simp
  next
    case False
    then have mh: "ngx_http_range_multipart_header boundary (range_ctx r rs) (partial r) = (ctx, r', res)" using hdr by simp
    note c = multipart_header_ctx [OF mh]
    from False rs(1) have two: "2 \<le> length (ctx_ranges ctx)" using c(3) by (cases rs; cases "tl rs") auto
    with assms(6) obtain b where b: "calls = [[b]]" by auto
    have inside: "\<forall>rg \<in> set (ctx_ranges ctx). 0 \<le> rstart rg \<and> rstart rg < rend rg \<and> rend rg \<le> int (length (buf_data b))"
      using rs(2) assms(4) c(3) b by (auto simp: ranges_ok_def list_all_iff)
    obtain out z where "body_filter_calls True (Some ctx) [[b]] = Some (out @ [z])"
      "chain_data (out @ [z]) = multipart_text (boundary_header ctx) (buf_data b) (ctx_ranges ctx)"
      using multi_range_calls [of b ctx True "[]"] assms(3,5) b c(1) two inside by auto
    with multipart_announced [OF mh inside] b show ?thesis by auto
  qed
qed

text \<open>A header that a field points to is the only one of its name that is sent.\<close>

definition header_at :: "nat option \<Rightarrow> bytes \<Rightarrow> table_elt list \<Rightarrow> bool" where
  "header_at p key hs \<longleftrightarrow> (\<forall>j < length hs. live (hs ! j) \<and> hkey (hs ! j) = key \<longrightarrow> p = Some j)"

definition live_values :: "bytes \<Rightarrow> table_elt list \<Rightarrow> bytes list" where
  "live_values key hs = map hvalue (filter (\<lambda>h. live h \<and> hkey h = key) hs)"

lemma live_values_append [simp]: "live_values key (hs @ hs') = live_values key hs @ live_values key hs'"
  by (simp add: live_values_def)

lemma live_values_none: "live_values key hs = [] \<longleftrightarrow> (\<forall>j < length hs. \<not> (live (hs ! j) \<and> hkey (hs ! j) = key))"
  by (auto simp: live_values_def filter_empty_conv all_set_conv_all_nth)

lemma length_drop_header [simp]: "length (drop_header p hs) = length hs"
  by (simp add: drop_header_def split: option.split)

lemma drop_header_nth:
  "j < length hs \<Longrightarrow> drop_header p hs ! j = (if p = Some j then (hs ! j)\<lparr>live := False\<rparr> else hs ! j)"
  by (auto simp: drop_header_def nth_list_update split: option.split)

lemma drop_header_at: "header_at p key hs \<Longrightarrow> live_values key (drop_header p hs) = []"
  by (auto simp: live_values_none drop_header_nth header_at_def)

lemma drop_header_keeps_none: "live_values key hs = [] \<Longrightarrow> live_values key (drop_header p hs) = []"
  by (auto simp: live_values_none drop_header_nth)

lemma header_at_drop: "header_at p key hs \<Longrightarrow> header_at p key (drop_header q hs)"
  by (auto simp: header_at_def drop_header_nth)

lemma header_at_append:
  "header_at p key hs \<Longrightarrow> hkey h \<noteq> key \<Longrightarrow> header_at p key (hs @ [h])"
  by (auto simp: header_at_def nth_append less_Suc_eq)

lemma drop_header_append: "p \<noteq> Some (length hs) \<Longrightarrow> drop_header p (hs @ [h]) = drop_header p hs @ [h]"
  by (auto simp: drop_header_def list_update_append nth_append list_update_beyond not_less split: option.split nat.split)

text \<open>
  Property C35: the header of a partial response of a main request.  The status is 206, no header \<^verbatim>\<open>Content-Length\<close> of the whole response is left, and
  for one range there is exactly one header \<^verbatim>\<open>Content-Range\<close>, with the first and the last byte of the range and the length of the whole response; for
  several ranges there is none.
\<close>

theorem partial_response_header:
  assumes "ngx_http_range_header_filter mctx boundary None r = (Some ctx, r', res)" "is_main r" "0 \<le> content_length_n r"
    and "header_at (out_content_range r) (str ''Content-Range'') (headers r)"
    and "header_at (out_content_length r) (str ''Content-Length'') (headers r)"
    and "\<forall>i. out_content_length r = Some i \<longrightarrow> i < length (headers r)"
  shows "status r' = NGX_HTTP_PARTIAL_CONTENT \<and> res = Next_header \<and> live_values (str ''Content-Length'') (headers r') = [] \<and>
    live_values (str ''Content-Range'') (headers r') =
      (if length (ctx_ranges ctx) = 1 then
         let rg = hd (ctx_ranges ctx) in
         [str ''bytes '' @ fmt_O (rstart rg) @ str ''-'' @ fmt_O (rend rg - 1) @ str ''/'' @ fmt_O (content_length_n r)]
       else [])"
proof -
  obtain rs where parse: "ngx_http_range_parse None (content_length_n r) (the (in_range r)) (if single_range r then 1 else max_ranges r) = (NGX_OK, rs)"
    and hdr: "if length rs = 1 then ctx = range_ctx r rs \<and> ngx_http_range_singlepart_header ctx (partial r) = (r', res)
      else ngx_http_range_multipart_header boundary (range_ctx r rs) (partial r) = (ctx, r', res)"
    using header_filter_partial [OF assms(1,2)] by blast
  have names: "str ''Content-Range'' \<noteq> str ''Content-Length''" by (simp add: str_def)
  let ?hs = "drop_header (out_content_range r) (headers r)"
  note at = drop_header_at [OF assms(4)] drop_header_at [OF header_at_drop [OF assms(5)], of "out_content_range r"]
  show ?thesis
  proof (cases "length rs = 1")
    case True
    note single = hdr [unfolded if_P [OF True]]
    note ctx = conjunct1 [OF single] conjunct2 [OF single]
    let ?rg = "ctx_ranges ctx ! 0"
    let ?v = "str ''bytes '' @ fmt_O (rstart ?rg) @ str ''-'' @ fmt_O (rend ?rg - 1) @ str ''/'' @ fmt_O (content_length_n r)"
    let ?h = "\<lparr>live = True, hkey = str ''Content-Range'', hvalue = ?v\<rparr>"
    have "headers r' = drop_header (out_content_length r) (?hs @ [?h])" "status r' = NGX_HTTP_PARTIAL_CONTENT" "res = Next_header"
      using ctx(2) assms(2) by (auto simp: ngx_http_range_singlepart_header_def clear_content_length_def push_content_range_def Let_def)
    moreover have "drop_header (out_content_length r) (?hs @ [?h]) = drop_header (out_content_length r) ?hs @ [?h]"
      using assms(6) by (intro drop_header_append) auto
    moreover have "live_values (str ''Content-Range'') [?h] = [?v]" "live_values (str ''Content-Length'') [?h] = []"
      using names by (simp_all add: live_values_def)
    moreover have "length (ctx_ranges ctx) = 1" "hd (ctx_ranges ctx) = ?rg" using True ctx(1) by (simp, cases rs) auto
    ultimately show ?thesis using at drop_header_keeps_none [OF at(1), of "out_content_length r"] by (simp add: Let_def)
  next
    case False
    then have mh: "ngx_http_range_multipart_header boundary (range_ctx r rs) (partial r) = (ctx, r', res)" using hdr by simp
    then have "headers r' = drop_header (out_content_range r) (drop_header (out_content_length r) (headers r))"
      "status r' = NGX_HTTP_PARTIAL_CONTENT" "res = Next_header"
      by (auto simp: ngx_http_range_multipart_header_def clear_content_length_def Let_def)
    moreover have "length (ctx_ranges ctx) \<noteq> 1" using False multipart_header_ctx(3) [OF mh] by simp
    ultimately show ?thesis
      using drop_header_at [OF header_at_drop [OF assms(4)], of "out_content_length r"]
        drop_header_keeps_none [OF drop_header_at [OF assms(5)], of "out_content_range r"] by simp
  qed
qed

text \<open>
  Property C34: a response becomes partial only when the client may combine it with what it has: the request is of HTTP/1.0 or later, the
  response is a complete one of known length, and with \<^verbatim>\<open>If-Range\<close> the tag that the client knows is the tag of the
  response, byte by byte, or the date it knows is the date of the last change.
\<close>

theorem partial_only_if_unchanged:
  assumes "ngx_http_range_header_filter mctx boundary None r = (ctx, r', res)" "status r' = NGX_HTTP_PARTIAL_CONTENT"
    and "status r \<noteq> NGX_HTTP_PARTIAL_CONTENT" "\<forall>tag. in_if_range r = Some tag \<longrightarrow> 0 \<notin> set tag"
  shows "NGX_HTTP_VERSION_10 \<le> http_version r \<and> status r = NGX_HTTP_OK \<and> content_length_n r \<noteq> - 1 \<and>
    (\<exists>v. in_range r = Some v \<and> ngx_strncasecmp v (str ''bytes='') 6 = 0) \<and>
    (\<forall>v. in_if_range r = Some v \<longrightarrow>
       out_etag r = Some v \<or> last_modified_time r \<noteq> - 1 \<and> ngx_parse_http_time v = Some (last_modified_time r))"
proof -
  have n: "\<not> no_ranges r" "\<not> skip_ranges r"
    using assms(1-3) by (auto simp: ngx_http_range_header_filter_def accept_ranges_def Let_def split: if_splits)
  have "out_etag r = Some v \<or> last_modified_time r \<noteq> - 1 \<and> ngx_parse_http_time v = Some (last_modified_time r)"
    if v: "in_if_range r = Some v" for v
  proof -
    have "\<not> if_range_fails v r" using n(2) v by (simp add: skip_ranges_def)
    moreover have "ngx_strncmp v etag (length etag) = 0 \<Longrightarrow> length v = length etag \<Longrightarrow> v = etag" for etag
      using assms(4) v ngx_strncmp_same [of v etag] by auto
    ultimately show ?thesis by (auto simp: if_range_fails_def split: if_splits option.splits)
  qed
  with n show ?thesis by (auto simp: no_ranges_def skip_ranges_def split: option.splits)
qed

text \<open>
  Every text of a partial response fits into the memory that is allocated for it: the header of a part, the new content type, and
  the range of a part and of the whole header, whose numbers have as many digits as an offset may have.
\<close>

theorem range_texts_fit:
  assumes "\<bar>rstart rg\<bar> \<le> NGX_MAX_OFF_T_VALUE" "\<bar>rend rg - 1\<bar> \<le> NGX_MAX_OFF_T_VALUE" "\<bar>n\<bar> \<le> NGX_MAX_OFF_T_VALUE"
  shows "length (boundary_text boundary r) \<le> boundary_size r \<and>
    length (str ''multipart/byteranges; boundary='' @ fmt_0muA boundary) \<le> 45 + NGX_ATOMIC_T_LEN \<and>
    length (range_text n rg) \<le> 3 * NGX_OFF_T_LEN + 2 + 4 \<and>
    length (str ''bytes '' @ fmt_O (rstart rg) @ str ''-'' @ fmt_O (rend rg - 1) @ str ''/'' @ fmt_O n) \<le> 8 + 3 * NGX_OFF_T_LEN"
  using fmt_O_length [OF assms(1)] fmt_O_length [OF assms(2)] fmt_O_length [OF assms(3)] fmt_0muA_length [of boundary]
  by (auto simp: boundary_text_def boundary_size_def range_text_def CRLF_def str_def)

subsection \<open>An example\<close>

definition example_request :: "bytes \<Rightarrow> range_request" where
  "example_request v =
     \<lparr>http_version = 1001, is_main = True, subrequest_ranges = False, allow_ranges = True, single_range = False, max_ranges = 5,
      in_range = Some v, in_if_range = Some (str ''\"t\"''), status = NGX_HTTP_OK, status_line = [],
      headers = [\<lparr>live = True, hkey = str ''Content-Length'', hvalue = str ''8''\<rparr>],
      out_content_range = None, out_content_length = Some 0, out_accept_ranges = None, out_etag = Some (str ''\"t\"''), last_modified_time = - 1,
      content_length_n = 8, content_offset = 0, content_type = str ''text/plain'', content_type_len = 10,
      content_type_lowcase = None, charset = []\<rparr>"

lemma example_request_filter:
  assumes "v = str ''bytes=2-5'' \<or> v = str ''bytes=0-1,-2''"
  shows "ngx_http_range_header_filter None 7 None (example_request v) =
    (if v = str ''bytes=2-5'' then
       let c = range_ctx (example_request v) [(2, 6)];
           (r, res) = ngx_http_range_singlepart_header c (partial (example_request v)) in (Some c, r, res)
     else
       let (c, r, res) = ngx_http_range_multipart_header 7 (range_ctx (example_request v) [(0, 2), (6, 8)]) (partial (example_request v)) in
       (Some c, r, res))"
proof -
  have parse: "ngx_http_range_parse None 8 (str ''bytes=2-5'') 5 = (NGX_OK, [(2, 6)])"
    "ngx_http_range_parse None 8 (str ''bytes=0-1,-2'') 5 = (NGX_OK, [(0, 2), (6, 8)])"
    by (simp_all add: ngx_http_range_parse_def range_loop.simps range_spec_def range_end_def range_add_def range_done_def skip_spaces_def
        byte_at_def str_def digit_val_def NGX_MAX_OFF_T_VALUE_def)
  have "\<not> no_ranges (example_request v)" by (simp add: no_ranges_def example_request_def NGX_HTTP_VERSION_10_def)
  moreover have "\<not> skip_ranges (example_request v)"
    using assms by (auto simp: skip_ranges_def if_range_fails_def example_request_def str_def ngx_strncasecmp_eq byte_at_def numeral_eq_Suc
        ngx_tolower_def)
  ultimately show ?thesis using assms parse
    by (auto simp: ngx_http_range_header_filter_def example_request_def str_def Let_def split: prod.splits)
qed

theorem partial_response_length_witness:
  "\<exists>ctx r' res out. ngx_http_range_header_filter None 7 None (example_request (str ''bytes=0-1,-2'')) = (Some ctx, r', res) \<and>
     length (ctx_ranges ctx) = 2 \<and>
     body_filter_calls True (Some ctx) [[ngx_calloc_buf\<lparr>memory := True, bmem := [1, 2, 3, 4, 5, 6, 7, 8], blast := 8\<rparr>]] = Some out \<and>
     content_length_n r' = int (length (chain_data out))"
proof -
  let ?r = "example_request (str ''bytes=0-1,-2'')" and ?b = "ngx_calloc_buf\<lparr>memory := True, bmem := [1, 2, 3, 4, 5, 6, 7, 8], blast := 8\<rparr>"
  obtain ctx r' res where m: "ngx_http_range_multipart_header 7 (range_ctx ?r [(0, 2), (6, 8)]) (partial ?r) = (ctx, r', res)"
    by (cases "ngx_http_range_multipart_header 7 (range_ctx ?r [(0, 2), (6, 8)]) (partial ?r)") auto
  have "str ''bytes=0-1,-2'' \<noteq> str ''bytes=2-5''" by (simp add: str_def)
  with m have f: "ngx_http_range_header_filter None 7 None ?r = (Some ctx, r', res)"
    using example_request_filter [of "str ''bytes=0-1,-2''"] by simp
  have b: "buf_ok ?b" "buf_data ?b = [1, 2, 3, 4, 5, 6, 7, 8]"
    by (simp_all add: ngx_calloc_buf_def buf_ok_def buf_data_def buf_slice_def ngx_buf_in_memory_def)
  have r: "is_main ?r" "content_offset ?r = 0" "content_length_n ?r = 8" by (simp_all add: example_request_def)
  have "\<exists>out. body_filter_calls True (Some ctx) [[?b]] = Some out \<and> content_length_n r' = int (length (chain_data out))"
    using b r by (intro partial_response_length [OF f]) simp_all
  then show ?thesis using f multipart_header_ctx(3) [OF m] by fastforce
qed

theorem partial_response_header_witness:
  "\<exists>ctx r' res. ngx_http_range_header_filter None 7 None (example_request (str ''bytes=2-5'')) = (Some ctx, r', res) \<and>
     status r' = NGX_HTTP_PARTIAL_CONTENT \<and> live_values (str ''Content-Length'') (headers r') = [] \<and>
     live_values (str ''Content-Range'') (headers r') = [str ''bytes 2-5/8'']"
proof -
  let ?r = "example_request (str ''bytes=2-5'')"
  let ?c = "range_ctx ?r [(2, 6)]"
  obtain r' res where m: "ngx_http_range_singlepart_header ?c (partial ?r) = (r', res)"
    by (cases "ngx_http_range_singlepart_header ?c (partial ?r)") auto
  then have f: "ngx_http_range_header_filter None 7 None ?r = (Some ?c, r', res)"
    using example_request_filter [of "str ''bytes=2-5''"] by (simp add: Let_def)
  have r: "is_main ?r" "content_length_n ?r = 8"
    "header_at (out_content_range ?r) (str ''Content-Range'') (headers ?r)"
    "header_at (out_content_length ?r) (str ''Content-Length'') (headers ?r)"
    "\<forall>i. out_content_length ?r = Some i \<longrightarrow> i < length (headers ?r)"
    by (simp_all add: example_request_def header_at_def str_def)
  have "fmt_O 2 = str ''2''" "fmt_O 5 = str ''5''" "fmt_O 8 = str ''8''"
    by (simp_all add: fmt_O_def ngx_sprintf_num_def sprintf_digits.simps str_def Let_def)
  with partial_response_header [OF f r(1) _ r(3-5)] r(2) f show ?thesis by (auto simp: str_def)
qed

theorem partial_only_if_unchanged_witness:
  "\<exists>ctx r' res. ngx_http_range_header_filter None 7 None (example_request (str ''bytes=2-5'')) = (ctx, r', res) \<and>
     status r' = NGX_HTTP_PARTIAL_CONTENT \<and>
     out_etag (example_request (str ''bytes=2-5'')) = Some (str ''\"t\"'')"
proof -
  let ?r = "example_request (str ''bytes=2-5'')"
  let ?c = "range_ctx ?r [(2, 6)]"
  obtain r' res where m: "ngx_http_range_singlepart_header ?c (partial ?r) = (r', res)"
    by (cases "ngx_http_range_singlepart_header ?c (partial ?r)") auto
  then have f: "ngx_http_range_header_filter None 7 None ?r = (Some ?c, r', res)"
    using example_request_filter [of "str ''bytes=2-5''"] by (simp add: Let_def)
  have s: "status r' = NGX_HTTP_PARTIAL_CONTENT" "status ?r \<noteq> NGX_HTTP_PARTIAL_CONTENT" "in_if_range ?r = Some (str ''\"t\"'')"
    "last_modified_time ?r = - 1" "\<forall>tag. in_if_range ?r = Some tag \<longrightarrow> 0 \<notin> set tag"
    using m by (auto simp: ngx_http_range_singlepart_header_def clear_content_length_def push_content_range_def example_request_def Let_def str_def)
  from partial_only_if_unchanged [OF f s(1,2,5)] s f show ?thesis by blast
qed

end
