(* ===== verification/Ngx_Inet.thy ===== *)
theory Ngx_Inet
  imports Ngx_Sprintf Ngx_String
begin

text \<open>
  Internet addresses as text and as bytes: the readers and the writers of \<^verbatim>\<open>src/core/ngx_inet.c\<close>.  The lemmas show which texts are
  IPv4 addresses, that written IPv4 addresses are read back, and that the reader of IPv6 addresses writes sixteen bytes and no more.  An
  \<^verbatim>\<open>in_addr_t\<close> is the list of its four bytes in memory, an address of IPv6 the list of its sixteen.
\<close>

subsection \<open>IPv4 addresses\<close>

definition INADDR_NONE :: bytes where "INADDR_NONE = [255, 255, 255, 255]"

definition htonl :: "32 word \<Rightarrow> bytes" where
  "htonl x = [of_int (uint x div 2 ^ 24), of_int (uint x div 2 ^ 16), of_int (uint x div 2 ^ 8), of_int (uint x)]"

definition ntohl :: "bytes \<Rightarrow> nat" where
  "ntohl b = foldl (\<lambda>v x. v * 256 + unat x) 0 b"

fun inet_loop :: "32 word \<Rightarrow> int \<Rightarrow> nat \<Rightarrow> bytes \<Rightarrow> (32 word \<times> int \<times> nat) option" where
  "inet_loop addr octet n [] = Some (addr, octet, n)"
| "inet_loop addr octet n (c # p) =
     (if chr_0 \<le> c \<and> c \<le> chr_9 then
        let octet = octet * 10 + digit_val c in
        if octet > 255 then None else inet_loop addr octet n p
      else if c = chr_dot then inet_loop (push_bit 8 addr + of_int octet) 0 (n + 1) p
      else None)"

definition ngx_inet_addr :: "bytes \<Rightarrow> bytes" where
  "ngx_inet_addr text =
     (case inet_loop 0 0 0 text of
        None \<Rightarrow> INADDR_NONE
      | Some (addr, octet, n) \<Rightarrow> if n = 3 then htonl (push_bit 8 addr + of_int octet) else INADDR_NONE)"

subsection \<open>IPv6 addresses\<close>

text \<open>
  The variables of the reader: what has been written through \<^verbatim>\<open>addr\<close>, \<^verbatim>\<open>zero\<close> as a position in it, \<^verbatim>\<open>digit\<close> as the text behind the
  pointer, of which \<^verbatim>\<open>len4 - 1\<close> bytes are left, and the counters.
\<close>

record inet6_state =
  addr6 :: bytes
  zero6 :: "nat option"
  digit6 :: "bytes option"
  len4 :: nat
  left6 :: nat
  nibbles :: nat
  word6 :: nat

definition put_word :: "inet6_state \<Rightarrow> inet6_state" where
  "put_word s = s\<lparr>addr6 := addr6 s @ [of_nat (word6 s div 2 ^ 8), of_nat (word6 s)]\<rparr>"

definition inet6_colon :: "bytes \<Rightarrow> inet6_state \<Rightarrow> inet6_state option" where
  "inet6_colon p s =
     (if nibbles s \<noteq> 0 then
        let s = put_word (s\<lparr>digit6 := Some p, len4 := length p + 1\<rparr>);
            s = s\<lparr>left6 := left6 s - 1\<rparr> in
        if left6 s \<noteq> 0 then Some (s\<lparr>nibbles := 0, word6 := 0\<rparr>) else None
      else if zero6 s = None then
        Some (s\<lparr>digit6 := Some p, len4 := length p + 1, zero6 := Some (length (addr6 s))\<rparr>)
      else None)"

definition inet6_dot :: "inet6_state \<Rightarrow> inet6_state option" where
  "inet6_dot s =
     (case digit6 s of
        None \<Rightarrow> None
      | Some d \<Rightarrow>
          if left6 s < 2 then None
          else
            let a = ngx_inet_addr (take (len4 s - 1) d) in
            if a = INADDR_NONE then None
            else
              let w = ntohl a in
              Some (s\<lparr>word6 := w, addr6 := addr6 s @ [of_nat (w div 2 ^ 24), of_nat (w div 2 ^ 16)], left6 := left6 s - 1\<rparr>))"

definition inet6_nibble :: "u_char \<Rightarrow> inet6_state \<Rightarrow> inet6_state option" where
  "inet6_nibble c s =
     (let s = s\<lparr>nibbles := nibbles s + 1\<rparr> in
      if nibbles s > 4 then None
      else if chr_0 \<le> c \<and> c \<le> chr_9 then Some (s\<lparr>word6 := word6 s * 16 + unat (c - chr_0)\<rparr>)
      else
        let c = c OR 0x20 in
        if chr_a \<le> c \<and> c \<le> chr_f then Some (s\<lparr>word6 := word6 s * 16 + (unat (c - chr_a) + 10)\<rparr>)
        else None)"

text \<open>The loop; behind the \<^verbatim>\<open>break\<close> of a dotted address nothing more is read.\<close>

fun inet6_loop :: "inet6_state \<Rightarrow> bytes \<Rightarrow> inet6_state option" where
  "inet6_loop s [] = Some s"
| "inet6_loop s (c # p) =
     (if c = chr_colon then (case inet6_colon p s of None \<Rightarrow> None | Some s \<Rightarrow> inet6_loop s p)
      else if c = chr_dot \<and> nibbles s \<noteq> 0 then inet6_dot s
      else (case inet6_nibble c s of None \<Rightarrow> None | Some s \<Rightarrow> inet6_loop s p))"

text \<open>Behind the loop: the bytes from \<^verbatim>\<open>zero\<close> on move up and the gap is cleared.\<close>

definition inet6_end :: "inet6_state \<Rightarrow> bytes option" where
  "inet6_end s =
     (if nibbles s = 0 \<and> zero6 s = None then None
      else
        let s = put_word s; n = left6 s - 1 in
        if n \<noteq> 0 then
          (case zero6 s of
             None \<Rightarrow> None
           | Some z \<Rightarrow> Some (take z (addr6 s) @ replicate (n * 2) 0 @ drop z (addr6 s)))
        else if zero6 s = None then Some (addr6 s)
        else None)"

text \<open>\<open>None\<close> is \<^verbatim>\<open>NGX_ERROR\<close>.\<close>

definition inet6_start :: inet6_state where
  "inet6_start = \<lparr>addr6 = [], zero6 = None, digit6 = None, len4 = 0, left6 = 8, nibbles = 0, word6 = 0\<rparr>"

definition ngx_inet6_addr :: "bytes \<Rightarrow> bytes option" where
  "ngx_inet6_addr p =
     (if length p = 0 then None
      else
        let p = (if hd p = chr_colon then tl p else p) in
        Option.bind (inet6_loop inet6_start p) inet6_end)"

subsection \<open>Addresses as text\<close>

text \<open>\<^verbatim>\<open>%xd\<close> of \<^verbatim>\<open>ngx_sprintf\<close>, the loop of \<^verbatim>\<open>ngx_sprintf_num\<close> for hexadecimal digits.\<close>

fun sprintf_hex :: "nat \<Rightarrow> bytes \<Rightarrow> bytes" where
  "sprintf_hex n p =
     (let p = (str ''0123456789abcdef'' ! (n mod 16)) # p in if n div 16 = 0 then p else sprintf_hex (n div 16) p)"

declare sprintf_hex.simps [simp del]

definition fmt_ud :: "u_char \<Rightarrow> bytes" where
  "fmt_ud c = ngx_sprintf_num (uint c) chr_space 0"

definition dotted :: "bytes \<Rightarrow> bytes" where
  "dotted p = fmt_ud (p ! 0) @ str ''.'' @ fmt_ud (p ! 1) @ str ''.'' @ fmt_ud (p ! 2) @ str ''.'' @ fmt_ud (p ! 3)"

text \<open>The search for the longest run of zero words, with its variables \<^verbatim>\<open>zero\<close>, \<^verbatim>\<open>last\<close>, \<^verbatim>\<open>max\<close> and \<^verbatim>\<open>n\<close>.\<close>

definition zero_step :: "bytes \<Rightarrow> nat option \<times> nat \<times> nat \<times> nat \<Rightarrow> nat \<Rightarrow> nat option \<times> nat \<times> nat \<times> nat" where
  "zero_step p st i =
     (case st of (z, l, m, n) \<Rightarrow>
        if p ! i \<noteq> 0 \<or> p ! (i + 1) \<noteq> 0 then (if m < n then (Some l, l, n, 0) else (z, l, m, 0))
        else (z, if n = 0 then i else l, m, n + 1))"

definition zero_search :: "bytes \<Rightarrow> nat option \<times> nat" where
  "zero_search p =
     (case foldl (zero_step p) (None, 0, 1, 0) [0, 2, 4, 6, 8, 10, 12, 14] of
        (z, l, m, n) \<Rightarrow> if m < n then (Some l, n) else (z, m))"

function ntop_loop :: "bytes \<Rightarrow> nat option \<Rightarrow> nat \<Rightarrow> nat \<Rightarrow> nat \<Rightarrow> bytes" where
  "ntop_loop p z m n i =
     (if i < n then
        if z = Some i then chr_colon # ntop_loop p z m n (i + (m - 1) * 2 + 2)
        else sprintf_hex (unat (p ! i) * 256 + unat (p ! (i + 1))) [] @ (if i < 14 then [chr_colon] else []) @ ntop_loop p z m n (i + 2)
      else [])"
  by pat_completeness auto
termination
  by (relation "measure (\<lambda>(p, z, m, n, i). n - i)") auto

declare ntop_loop.simps [simp del]

text \<open>\<open>cap\<close> is the size \<^verbatim>\<open>len\<close> of the memory for the text.\<close>

definition NGX_INET6_ADDRSTRLEN :: nat where "NGX_INET6_ADDRSTRLEN = 45"

definition ngx_inet6_ntop :: "bytes \<Rightarrow> nat \<Rightarrow> bytes" where
  "ngx_inet6_ntop p cap =
     (if cap < NGX_INET6_ADDRSTRLEN then []
      else case zero_search p of (z, m) \<Rightarrow>
        let n = (if z = Some 0 \<and>
                   (m = 5 \<and> p ! 10 = 0xff \<and> p ! 11 = 0xff \<or> m = 6 \<or> m = 7 \<and> p ! 14 \<noteq> 0 \<and> p ! 15 \<noteq> 1) then 12 else 16) in
        (if z = Some 0 then [chr_colon] else []) @ ntop_loop p z m n 0 @ (if n = 12 then dotted (drop 12 p) else []))"

text \<open>\<open>ngx_inet_ntop\<close> for the two families; \<^verbatim>\<open>ngx_snprintf\<close> stops at the end of the memory.\<close>

definition ngx_inet_ntop :: "bool \<Rightarrow> bytes \<Rightarrow> nat \<Rightarrow> bytes" where
  "ngx_inet_ntop inet6 addr cap = (if inet6 then ngx_inet6_ntop addr cap else take cap (dotted addr))"

subsection \<open>Which texts are IPv4 addresses\<close>

fun split_dots :: "bytes \<Rightarrow> bytes list" where
  "split_dots [] = [[]]"
| "split_dots (c # p) = (if c = chr_dot then [] # split_dots p else (c # hd (split_dots p)) # tl (split_dots p))"

lemma split_dots_nonempty [simp]: "split_dots p \<noteq> []"
  by (cases p) simp_all

text \<open>The numbers between the dots, the first of them behind \<open>octet\<close>.\<close>

definition octets :: "int \<Rightarrow> bytes \<Rightarrow> int list" where
  "octets octet p = dec_value octet (hd (split_dots p)) # map (dec_value 0) (tl (split_dots p))"

definition octets_ok :: "int \<Rightarrow> bytes \<Rightarrow> bool" where
  "octets_ok octet p \<longleftrightarrow> list_all (list_all is_digit) (split_dots p) \<and> list_all (\<lambda>v. v \<le> 255) (octets octet p)"

lemma octets_dot [simp]: "octets v (chr_dot # p) = v # octets 0 p"
  by (cases "split_dots p") (simp_all add: octets_def)

lemma octets_digit [simp]: "c \<noteq> chr_dot \<Longrightarrow> octets v (c # p) = octets (v * 10 + digit_val c) p"
  by (simp add: octets_def)

lemma octets_ok_dot [simp]: "octets_ok v (chr_dot # p) \<longleftrightarrow> v \<le> 255 \<and> octets_ok 0 p"
  by (auto simp: octets_ok_def)

lemma octets_ok_digit:
  "c \<noteq> chr_dot \<Longrightarrow> octets_ok v (c # p) \<longleftrightarrow> is_digit c \<and> octets_ok (v * 10 + digit_val c) p"
  by (cases "split_dots p") (auto simp: octets_ok_def)

lemma octets_ge: "octets_ok v p \<Longrightarrow> 0 \<le> v \<Longrightarrow> v \<le> 255"
  using dec_value_ge [of v "hd (split_dots p)"]
  by (cases "split_dots p") (auto simp: octets_ok_def octets_def list_all_iff)

lemma inet_loop_exact:
  assumes "0 \<le> octet" "octet \<le> 255"
  shows "inet_loop addr octet n p =
    (if octets_ok octet p then
       Some (foldl (\<lambda>a v. push_bit 8 a + of_int v) addr (butlast (octets octet p)), last (octets octet p), n + length (octets octet p) - 1)
     else None)"
  using assms
proof (induction p arbitrary: addr octet n)
  case Nil
  then show ?case by (simp add: octets_def octets_ok_def)
next
  case (Cons c p)
  have ne: "octets v p \<noteq> []" for v by (simp add: octets_def)
  consider (digit) "is_digit c" | (dot) "c = chr_dot" | (other) "\<not> is_digit c" "c \<noteq> chr_dot" by blast
  then show ?case
  proof cases
    case digit
    then have c: "chr_0 \<le> c" "c \<le> chr_9" "c \<noteq> chr_dot" "0 \<le> digit_val c"
      using digit_val_bounds [of c] by (auto simp: is_digit_def)
    show ?thesis
    proof (cases "octet * 10 + digit_val c \<le> 255")
      case True
      with Cons.IH [of "octet * 10 + digit_val c" addr n] Cons.prems c digit show ?thesis
        by (simp add: octets_ok_digit Let_def)
    next
      case False
      then have "\<not> octets_ok (octet * 10 + digit_val c) p" using octets_ge [of "octet * 10 + digit_val c" p] Cons.prems(1) c(4) by auto
      with False c show ?thesis by (simp add: octets_ok_digit)
    qed
  next
    case dot
    with Cons.IH [of 0 "push_bit 8 addr + of_int octet" "Suc n"] Cons.prems ne [of 0] show ?thesis
      by (auto simp: Suc_diff_le)
  next
    case other
    then show ?thesis by (auto simp: is_digit_def octets_ok_digit)
  qed
qed

lemma htonl_octets:
  assumes "0 \<le> a" "a \<le> 255" "0 \<le> b" "b \<le> 255" "0 \<le> c" "c \<le> 255" "0 \<le> d" "d \<le> 255"
  shows "htonl (push_bit 8 (push_bit 8 (push_bit 8 (of_int a) + of_int b) + of_int c) + of_int d) = [of_int a, of_int b, of_int c, of_int d]"
proof -
  let ?t = "((a * 256 + b) * 256 + c) * 256 + d"
  have "push_bit 8 (push_bit 8 (push_bit 8 (of_int a) + of_int b) + of_int c) + of_int d = (of_int ?t :: 32 word)"
    by (simp add: push_bit_eq_mult)
  moreover have "uint (of_int t :: 32 word) = t" if "0 \<le> t" "t < 2 ^ 32" for t
    using that by (simp add: uint_word_of_int take_bit_eq_mod)
  then have "uint (of_int ?t :: 32 word) = ?t" using assms by (simp del: of_int_add of_int_mult)
  moreover note this
  moreover have "?t div 2 ^ 24 = a" "?t div 2 ^ 16 = a * 256 + b" "?t div 2 ^ 8 = (a * 256 + b) * 256 + c" using assms by auto
  ultimately have "htonl (push_bit 8 (push_bit 8 (push_bit 8 (of_int a) + of_int b) + of_int c) + of_int d) =
      [of_int a, of_int (a * 256 + b), of_int ((a * 256 + b) * 256 + c), of_int ?t]" by (simp only: htonl_def)
  moreover have z: "(256 :: u_char) = 0" by simp
  ultimately show ?thesis by (simp only: of_int_add of_int_mult of_int_numeral z mult_zero_right add_0)
qed

lemma octets_nonneg: "octets_ok v p \<Longrightarrow> 0 \<le> v \<Longrightarrow> list_all (\<lambda>x. 0 \<le> x \<and> x \<le> 255) (octets v p)"
  using dec_value_ge [of v "hd (split_dots p)"] dec_value_ge [of 0]
  by (cases "split_dots p") (fastforce simp: octets_ok_def octets_def list_all_iff)+

lemma octets_0: "octets 0 p = map (dec_value 0) (split_dots p)"
  by (cases "split_dots p") (simp_all add: octets_def)

lemma ngx_inet_addr_octets:
  "ngx_inet_addr p = (if octets_ok 0 p \<and> length (octets 0 p) = 4 then map of_int (octets 0 p) else INADDR_NONE)"
proof (cases "octets_ok 0 p \<and> length (octets 0 p) = 4")
  case True
  then obtain a b c d where o: "octets 0 p = [a, b, c, d]" by (auto simp: numeral_eq_Suc length_Suc_conv)
  then have "list_all (\<lambda>x. 0 \<le> x \<and> x \<le> 255) [a, b, c, d]" using octets_nonneg [of 0 p] True by simp
  then show ?thesis using True inet_loop_exact [of 0 0 0 p] htonl_octets [of a b c d] by (simp add: ngx_inet_addr_def o)
next
  case False
  have "octets 0 p \<noteq> []" by (simp add: octets_def)
  with False have "\<not> octets_ok 0 p \<or> length (octets 0 p) - 1 \<noteq> 3" by (cases "octets 0 p") auto
  then show ?thesis using False inet_loop_exact [of 0 0 0 p] by (auto simp: ngx_inet_addr_def)
qed

text \<open>
  Exactly which texts the reader of IPv4 addresses accepts, and the bytes it returns: four fields between dots, each a numeral up to
  255 or empty.  The address 255.255.255.255 has the value of an error.
\<close>

theorem inet_addr_exact:
  "ngx_inet_addr text =
     (if length (split_dots text) = 4 \<and> list_all (\<lambda>f. list_all is_digit f \<and> dec_value 0 f \<le> 255) (split_dots text)
      then map (\<lambda>f. of_int (dec_value 0 f)) (split_dots text) else INADDR_NONE)"
  unfolding ngx_inet_addr_octets by (auto simp: octets_ok_def octets_0 list_all_iff)

lemma inet_addr_empty_octet: "ngx_inet_addr (str ''1..2.3'') = [1, 0, 2, 3]"
  by (simp add: ngx_inet_addr_octets octets_ok_def octets_0 str_def is_digit_def digit_val_def)

subsection \<open>Written IPv4 addresses are read back\<close>

lemma split_dots_digits:
  "list_all is_digit ds \<Longrightarrow> split_dots (ds @ chr_dot # p) = ds # split_dots p" "list_all is_digit ds \<Longrightarrow> split_dots ds = [ds]"
  by (induction ds) (auto simp: is_digit_def)

lemma fmt_ud_value: "list_all is_digit (fmt_ud c)" "dec_value 0 (fmt_ud c) = uint c" "fmt_ud c \<noteq> []"
  using sprintf_num_value [of "uint c"] by (simp_all add: fmt_ud_def)

lemma split_dotted: "split_dots (dotted [a, b, c, d]) = [fmt_ud a, fmt_ud b, fmt_ud c, fmt_ud d]"
  by (simp add: dotted_def str_def split_dots_digits fmt_ud_value)

lemma inet_addr_dotted: "ngx_inet_addr (dotted [a, b, c, d]) = [a, b, c, d]"
proof -
  have "uint x \<le> 255" for x :: u_char using uint_lt2p [of x] by simp
  then have "octets_ok 0 (dotted [a, b, c, d])" "octets 0 (dotted [a, b, c, d]) = [uint a, uint b, uint c, uint d]"
    by (simp_all add: octets_ok_def octets_0 split_dotted fmt_ud_value)
  then show ?thesis by (simp add: ngx_inet_addr_octets)
qed

subsection \<open>The reader of IPv6 addresses\<close>

text \<open>There is always room for the next word, and the words that are missing are counted.\<close>

definition inet6_inv :: "inet6_state \<Rightarrow> bool" where
  "inet6_inv s \<longleftrightarrow> length (addr6 s) + 2 * left6 s = 16 \<and> 0 < left6 s \<and> (\<forall>z. zero6 s = Some z \<longrightarrow> z \<le> length (addr6 s))"

lemma inet6_loop_inv: "inet6_loop s p = Some s' \<Longrightarrow> inet6_inv s \<Longrightarrow> inet6_inv s'"
proof (induction s p rule: inet6_loop.induct)
  case (2 s c p)
  have colon: "inet6_inv s1" if "inet6_colon p s = Some s1" for s1
    using that 2(4) by (fastforce simp: inet6_colon_def put_word_def inet6_inv_def Let_def split: if_splits)
  have dot: "inet6_inv s1" if "inet6_dot s = Some s1" for s1
    using that 2(4) by (fastforce simp: inet6_dot_def inet6_inv_def Let_def split: if_splits option.splits)
  have nibble: "inet6_inv s1" if "inet6_nibble c s = Some s1" for s1
    using that 2(4) by (auto simp: inet6_nibble_def inet6_inv_def Let_def split: if_splits)
  consider "c = chr_colon" | "c \<noteq> chr_colon" "c = chr_dot \<and> nibbles s \<noteq> 0" | "c \<noteq> chr_colon" "\<not> (c = chr_dot \<and> nibbles s \<noteq> 0)" by blast
  then show ?case
  proof cases
    case 1
    with 2(3) obtain s1 where "inet6_colon p s = Some s1" "inet6_loop s1 p = Some s'" by (auto split: option.splits)
    with 2(1) [OF 1] colon show ?thesis by blast
  next
    case case2: 2
    with 2(3) dot show ?thesis by auto
  next
    case 3
    with 2(3) obtain s1 where "inet6_nibble c s = Some s1" "inet6_loop s1 p = Some s'" by (auto split: option.splits if_splits)
    with 2(2) [OF 3] nibble show ?thesis by blast
  qed
qed simp

lemma inet6_start_inv: "inet6_inv inet6_start"
  by (simp add: inet6_inv_def inet6_start_def)

lemma inet6_end_length: "inet6_end s = Some a \<Longrightarrow> inet6_inv s \<Longrightarrow> length a = 16"
  by (auto simp: inet6_end_def inet6_inv_def put_word_def Let_def split: if_splits option.splits)

text \<open>
  Property C38: the reader of IPv6 addresses never writes behind the sixteen bytes of an address: whenever it goes on reading there is room
  for one more word, and an address that is accepted is complete.
\<close>

theorem inet6_addr_in_bounds:
  "(inet6_loop inet6_start q = Some s \<longrightarrow> length (addr6 s) + 2 \<le> 16) \<and> (ngx_inet6_addr p = Some a \<longrightarrow> length a = 16)"
proof (intro conjI impI)
  assume "inet6_loop inet6_start q = Some s"
  from inet6_loop_inv [OF this inet6_start_inv] show "length (addr6 s) + 2 \<le> 16" by (simp add: inet6_inv_def)
next
  assume "ngx_inet6_addr p = Some a"
  then obtain q s where "inet6_loop inet6_start q = Some s" "inet6_end s = Some a"
    by (auto simp: ngx_inet6_addr_def Let_def bind_eq_Some_conv split: if_splits)
  then show "length a = 16" using inet6_loop_inv inet6_start_inv inet6_end_length by blast
qed

theorem inet6_addr_in_bounds_witness:
  "\<exists>s a. inet6_loop inet6_start (str ''1:2:'') = Some s \<and> length (addr6 s) + 2 \<le> 16 \<and> ngx_inet6_addr (str ''::'') = Some a \<and> length a = 16"
proof -
  have "\<exists>s. inet6_loop inet6_start (str ''1:2:'') = Some s" "\<exists>a. ngx_inet6_addr (str ''::'') = Some a"
    by (simp_all add: ngx_inet6_addr_def inet6_start_def inet6_colon_def inet6_nibble_def inet6_end_def put_word_def str_def)
  then show ?thesis using inet6_addr_in_bounds [of "str ''1:2:''" _ "str ''::''"] by blast
qed

end
