(* ===== verification/Ngx_Inet6_Text.thy ===== *)
theory Ngx_Inet6_Text
  imports Ngx_Inet
begin

text \<open>
  An address of IPv6 that is written as text is read back: the text is words in hexadecimal with colons, around a gap for the longest run of
  zero words, or with an address of IPv4 at its end, and the reader of \<^verbatim>\<open>src/core/ngx_inet.c\<close> follows these shapes.
\<close>

subsection \<open>Written IPv6 addresses are read back\<close>

abbreviation hexd :: "nat \<Rightarrow> bytes" where "hexd n \<equiv> sprintf_hex n []"

lemma sprintf_hex_append: "sprintf_hex n p = hexd n @ p"
proof (induction n arbitrary: p rule: less_induct)
  case (less n)
  show ?case
  proof (cases "n div 16 = 0")
    case True
    then show ?thesis by (simp add: sprintf_hex.simps [of n p] sprintf_hex.simps [of n "[]"] Let_def)
  next
    case False
    then have lt: "n div 16 < n" by (cases n) auto
    have rec: "sprintf_hex n q = sprintf_hex (n div 16) ((str ''0123456789abcdef'' ! (n mod 16)) # q)" for q
      using False by (subst sprintf_hex.simps) (simp add: Let_def)
    show ?thesis unfolding rec less [OF lt, of "_ # _"] by simp
  qed
qed

lemma hexd_step: "hexd n = (if n div 16 = 0 then [] else hexd (n div 16)) @ [str ''0123456789abcdef'' ! (n mod 16)]"
  using sprintf_hex_append [of "n div 16" "[str ''0123456789abcdef'' ! (n mod 16)]"]
  by (subst sprintf_hex.simps) (simp add: Let_def)

lemma hexd_length: "n < 16 ^ k \<Longrightarrow> 0 < k \<Longrightarrow> 0 < length (hexd n) \<and> length (hexd n) \<le> k"
proof (induction k arbitrary: n)
  case (Suc k)
  show ?case
  proof (cases "n div 16 = 0")
    case True
    then show ?thesis by (subst (1 2) hexd_step) simp
  next
    case False
    then have "k \<noteq> 0" using Suc.prems(1) by (cases k) auto
    moreover have "n div 16 < 16 ^ k" using Suc.prems(1) by (simp add: div_less_iff_less_mult mult.commute)
    ultimately have "length (hexd (n div 16)) \<le> k" using Suc.IH by blast
    then show ?thesis by (subst (1 2) hexd_step) simp
  qed
qed simp

lemma nibble_digit:
  assumes "k < 16" "nibbles s < 4"
  shows "inet6_loop s ((str ''0123456789abcdef'' ! k) # p) = inet6_loop (s\<lparr>nibbles := nibbles s + 1, word6 := word6 s * 16 + k\<rparr>) p"
proof -
  have "k \<in> {0, 1, 2, 3, 4, 5, 6, 7, 8, 9, 10, 11, 12, 13, 14, 15}" using assms(1) by simp presburger
  then show ?thesis using assms(2) by (elim insertE) (simp_all add: str_def inet6_nibble_def Let_def)
qed

lemma inet6_hexd:
  "nibbles s + length (hexd n) \<le> 4 \<Longrightarrow>
   inet6_loop s (hexd n @ p) = inet6_loop (s\<lparr>nibbles := nibbles s + length (hexd n), word6 := word6 s * 16 ^ length (hexd n) + n\<rparr>) p"
proof (induction n arbitrary: s p rule: less_induct)
  case (less n)
  show ?case
  proof (cases "n div 16 = 0")
    case True
    then have h: "hexd n = [str ''0123456789abcdef'' ! n]" using hexd_step [of n] by simp
    with less.prems nibble_digit [of n s p] True show ?thesis by simp
  next
    case False
    then have lt: "n div 16 < n" by (cases n) auto
    have h: "hexd n = hexd (n div 16) @ [str ''0123456789abcdef'' ! (n mod 16)]" using hexd_step [of n] False by simp
    let ?s = "s\<lparr>nibbles := nibbles s + length (hexd (n div 16)), word6 := word6 s * 16 ^ length (hexd (n div 16)) + n div 16\<rparr>"
    have "inet6_loop s (hexd n @ p) = inet6_loop ?s ((str ''0123456789abcdef'' ! (n mod 16)) # p)"
      using less.IH [OF lt, of s] less.prems unfolding h by simp
    also have "\<dots> = inet6_loop (?s\<lparr>nibbles := nibbles ?s + 1, word6 := word6 ?s * 16 + n mod 16\<rparr>) p"
      using less.prems h by (intro nibble_digit) simp_all
    also have "word6 ?s * 16 + n mod 16 = word6 s * 16 ^ length (hexd n) + n" by (simp add: h algebra_simps)
    finally show ?thesis by (simp add: h)
  qed
qed

text \<open>The state between two words.\<close>

abbreviation between :: "bytes \<Rightarrow> nat option \<Rightarrow> bytes option \<Rightarrow> nat \<Rightarrow> nat \<Rightarrow> inet6_state" where
  "between out z d l n \<equiv> \<lparr>addr6 = out, zero6 = z, digit6 = d, len4 = l, left6 = n, nibbles = 0, word6 = 0\<rparr>"

definition word_bytes :: "nat \<Rightarrow> bytes" where
  "word_bytes w = [of_nat (w div 2 ^ 8), of_nat w]"

definition hexs :: "nat list \<Rightarrow> bytes" where
  "hexs ws = concat (map (\<lambda>w. hexd w @ [chr_colon]) ws)"

abbreviation words_bytes :: "nat list \<Rightarrow> bytes" where
  "words_bytes ws \<equiv> concat (map word_bytes ws)"

lemma word_bytes_length [simp]: "length (word_bytes w) = 2"
  by (simp add: word_bytes_def)

lemma words_bytes_length [simp]: "length (words_bytes ws) = 2 * length ws"
  by (induction ws) simp_all

lemma inet6_word:
  assumes "w < 65536"
  shows "inet6_loop (between out z d l n) (hexd w @ p) =
    inet6_loop ((between out z d l n)\<lparr>nibbles := length (hexd w), word6 := w\<rparr>) p"
  using inet6_hexd [of "between out z d l n" w p] hexd_length [of w 4] assms by simp

lemma inet6_word_colon:
  assumes "w < 65536" "2 \<le> n"
  shows "inet6_loop (between out z d l n) (hexd w @ chr_colon # p) =
    inet6_loop (between (out @ word_bytes w) z (Some p) (length p + 1) (n - 1)) p"
  using inet6_word [OF assms(1), of out z d l n "chr_colon # p"] hexd_length [of w 4] assms
  by (simp add: inet6_colon_def put_word_def word_bytes_def Let_def)

lemma inet6_words:
  assumes "list_all (\<lambda>w. w < 65536) ws" "length ws < n"
  shows "inet6_loop (between out z d l n) (hexs ws @ p) =
    inet6_loop (between (out @ words_bytes ws) z (if ws = [] then d else Some p) (if ws = [] then l else length p + 1) (n - length ws)) p"
  using assms
proof (induction ws arbitrary: out d l n)
  case (Cons w ws)
  have "inet6_loop (between out z d l n) (hexs (w # ws) @ p) =
      inet6_loop (between (out @ word_bytes w) z (Some (hexs ws @ p)) (length (hexs ws @ p) + 1) (n - 1)) (hexs ws @ p)"
    using inet6_word_colon [of w n out z d l "hexs ws @ p"] Cons.prems by (simp add: hexs_def)
  also have "\<dots> = inet6_loop (between (out @ words_bytes (w # ws)) z (Some p) (length p + 1) (n - length (w # ws))) p"
    using Cons.IH [of "n - 1" "out @ word_bytes w"] Cons.prems by (cases ws) (simp_all add: hexs_def)
  finally show ?case by simp
qed (simp add: hexs_def)

text \<open>The words of a text without a colon behind the last one.\<close>

fun join_hex :: "nat list \<Rightarrow> bytes" where
  "join_hex [] = []"
| "join_hex [w] = hexd w"
| "join_hex (w # w' # ws) = hexd w @ chr_colon # join_hex (w' # ws)"

lemma join_hex_snoc: "join_hex (ws @ [w]) = hexs ws @ hexd w"
  by (induction ws rule: join_hex.induct) (simp_all add: hexs_def)

lemma inet6_join_end:
  assumes "list_all (\<lambda>w. w < 65536) (ws @ [w])" "length ws < n"
  shows "Option.bind (inet6_loop (between out z d l n) (join_hex (ws @ [w]))) inet6_end =
    (let out' = out @ words_bytes (ws @ [w]); k = n - length ws - 1 in
     if k \<noteq> 0 then map_option (\<lambda>z. take z out' @ replicate (k * 2) 0 @ drop z out') z
     else if z = None then Some out' else None)"
proof -
  let ?d = "if ws = [] then d else Some (hexd w)" and ?l = "if ws = [] then l else length (hexd w) + 1"
  have "inet6_loop (between out z d l n) (join_hex (ws @ [w])) = inet6_loop (between (out @ words_bytes ws) z ?d ?l (n - length ws)) (hexd w @ [])"
    using inet6_words [of ws n out z d l "hexd w"] assms by (simp add: join_hex_snoc)
  also have "\<dots> = Some ((between (out @ words_bytes ws) z ?d ?l (n - length ws))\<lparr>nibbles := length (hexd w), word6 := w\<rparr>)"
    using assms by (subst inet6_word) simp_all
  finally show ?thesis using hexd_length [of w 4] assms
    by (cases z) (auto simp: inet6_end_def put_word_def word_bytes_def Let_def)
qed

lemma hexd_no_colon: "list_all (\<lambda>c. c \<noteq> chr_colon) (hexd n)"
proof (induction n rule: less_induct)
  case (less n)
  have d: "list_all (\<lambda>c. c \<noteq> chr_colon) (str ''0123456789abcdef'')" by (simp add: str_def)
  have "str ''0123456789abcdef'' ! (n mod 16) \<in> set (str ''0123456789abcdef'')" by (intro nth_mem) (simp add: str_def)
  with d have c: "str ''0123456789abcdef'' ! (n mod 16) \<noteq> chr_colon" unfolding list_all_iff by blast
  have "n div 16 \<noteq> 0 \<Longrightarrow> n div 16 < n" by (cases n) auto
  with less c show ?case by (subst hexd_step) auto
qed

lemma hexd_hd: "hexd n \<noteq> []" "hd (hexd n @ p) \<noteq> chr_colon"
proof -
  show ne: "hexd n \<noteq> []" by (subst hexd_step) simp
  then show "hd (hexd n @ p) \<noteq> chr_colon" using hexd_no_colon [of n] by (cases "hexd n") auto
qed

lemma inet6_addr_text:
  assumes "p \<noteq> []" "hd p \<noteq> chr_colon"
  shows "ngx_inet6_addr p = Option.bind (inet6_loop (between [] None None 0 8) p) inet6_end"
  using assms by (simp add: ngx_inet6_addr_def inet6_start_def)

lemma inet6_all_words:
  assumes "length ws = 8" "list_all (\<lambda>w. w < 65536) ws"
  shows "ngx_inet6_addr (join_hex ws) = Some (words_bytes ws)"
proof -
  obtain us w where ws: "ws = us @ [w]" using assms(1) by (cases ws rule: rev_cases) auto
  have first: "join_hex ws \<noteq> []" "hd (join_hex ws) \<noteq> chr_colon"
    using assms(1) hexd_hd by (cases ws rule: join_hex.cases; simp)+
  show ?thesis using inet6_join_end [of us w 8 "[]" None None 0] inet6_addr_text [OF first] assms by (simp add: ws)
qed

lemma inet6_zero_words:
  assumes "length as + m + length bs = 8" "2 \<le> m" "list_all (\<lambda>w. w < 65536) as" "list_all (\<lambda>w. w < 65536) bs"
  shows "ngx_inet6_addr ((if as = [] then [chr_colon] else []) @ hexs as @ chr_colon # join_hex bs) =
    Some (words_bytes as @ replicate (2 * m) 0 @ words_bytes bs)"
proof -
  let ?rest = "chr_colon # join_hex bs"
  have written: "ngx_inet6_addr ((if as = [] then [chr_colon] else []) @ hexs as @ ?rest) =
      Option.bind (inet6_loop (between [] None None 0 8) (hexs as @ ?rest)) inet6_end"
  proof (cases as)
    case Nil
    then show ?thesis by (simp add: ngx_inet6_addr_def inet6_start_def hexs_def)
  next
    case (Cons w us)
    then have "hexs as @ ?rest = hexd w @ chr_colon # hexs us @ ?rest" by (simp add: hexs_def)
    with Cons hexd_hd [of w] show ?thesis by (simp add: inet6_addr_text)
  qed
  obtain d l where loop: "inet6_loop (between [] None None 0 8) (hexs as @ ?rest) =
      inet6_loop (between (words_bytes as) (Some (2 * length as)) d l (8 - length as)) (join_hex bs)"
    using inet6_words [OF assms(3), of 8 "[]" None None 0 ?rest] assms(1,2)
    by (cases "as = []") (auto simp: inet6_colon_def)
  show ?thesis
  proof (cases bs rule: rev_cases)
    case Nil
    have "replicate ((m - 1) * 2 + 2) (0 :: u_char) = replicate ((m - 1) * 2) 0 @ [0, 0]"
      unfolding replicate_add by (simp add: numeral_2_eq_2)
    moreover have "(m - 1) * 2 + 2 = 2 * m" using assms(2) by simp
    ultimately have "replicate (2 * m) (0 :: u_char) = replicate ((m - 1) * 2) 0 @ [0, 0]" by (simp only:)
    moreover have "8 - length as - 1 = m - 1" using assms(1) Nil by simp
    ultimately show ?thesis unfolding written loop using assms(2) Nil by (simp add: inet6_end_def put_word_def Let_def)
  next
    case (snoc us w)
    then have "8 - length as - length us - 1 = m" "length us < 8 - length as" using assms(1,2) by simp_all
    then show ?thesis unfolding written loop
      using inet6_join_end [of us w "8 - length as" "words_bytes as" "Some (2 * length as)" d l] assms(2,4) snoc
      by (simp add: mult.commute)
  qed
qed

text \<open>An address that ends with the four numbers of an IPv4 address.\<close>

lemma inet6_digits:
  "list_all is_digit ds \<Longrightarrow> nibbles s + length ds \<le> 4 \<Longrightarrow>
   \<exists>w. inet6_loop s (ds @ p) = inet6_loop (s\<lparr>nibbles := nibbles s + length ds, word6 := w\<rparr>) p"
proof (induction ds arbitrary: s)
  case Nil
  have "s = s\<lparr>nibbles := nibbles s + length ([] :: bytes), word6 := word6 s\<rparr>" by simp
  then show ?case by (metis append_Nil)
next
  case (Cons c ds)
  then have "chr_0 \<le> c" "c \<le> chr_9" by (simp_all add: is_digit_def)
  then have "inet6_loop s ((c # ds) @ p) = inet6_loop (s\<lparr>nibbles := nibbles s + 1, word6 := word6 s * 16 + unat (c - chr_0)\<rparr>) (ds @ p)"
    using Cons.prems(2) by (auto simp: inet6_nibble_def Let_def)
  with Cons.IH [of "s\<lparr>nibbles := nibbles s + 1, word6 := word6 s * 16 + unat (c - chr_0)\<rparr>"] Cons.prems show ?case by auto
qed

lemma fmt_ud_length: "length (fmt_ud c) \<le> 3"
proof -
  have "unat c < 2 ^ LENGTH(8)" by (rule unsigned_less)
  then have "nat (uint c) < 10 ^ 3" by simp
  from sprintf_digits_length [OF this, of "[]"] show ?thesis by (simp add: fmt_ud_def ngx_sprintf_num_def Let_def)
qed

lemma dotted_length: "length (dotted [a, b, c, d]) \<le> 15"
  using fmt_ud_length [of a] fmt_ud_length [of b] fmt_ud_length [of c] fmt_ud_length [of d] by (simp add: dotted_def str_def)

lemma unat_byte: "unat (x :: u_char) < 256"
  using unsigned_less [where 'a = nat, of x] by simp

lemma byte_low: "of_nat (n * 256 + unat x) = (x :: u_char)"
proof -
  have "(256 :: u_char) = 0" by simp
  then show ?thesis by (simp only: of_nat_add of_nat_mult of_nat_numeral) simp
qed

lemma ntohl_bytes:
  "of_nat (ntohl [a, b, c, d] div 2 ^ 24) = a" "of_nat (ntohl [a, b, c, d] div 2 ^ 16) = b"
  "of_nat (ntohl [a, b, c, d] div 2 ^ 8) = c" "of_nat (ntohl [a, b, c, d]) = d"
proof -
  have e: "ntohl [a, b, c, d] = ((unat a * 256 + unat b) * 256 + unat c) * 256 + unat d" by (simp add: ntohl_def)
  have q: "ntohl [a, b, c, d] div 2 ^ 24 = unat a" "ntohl [a, b, c, d] div 2 ^ 16 = unat a * 256 + unat b"
    "ntohl [a, b, c, d] div 2 ^ 8 = (unat a * 256 + unat b) * 256 + unat c"
    unfolding e using unat_byte [of a] unat_byte [of b] unat_byte [of c] unat_byte [of d] by auto
  show "of_nat (ntohl [a, b, c, d] div 2 ^ 24) = a" "of_nat (ntohl [a, b, c, d] div 2 ^ 16) = b"
    "of_nat (ntohl [a, b, c, d] div 2 ^ 8) = c" "of_nat (ntohl [a, b, c, d]) = d"
    unfolding q by (simp_all only: e byte_low) simp
qed

text \<open>What is left to the reader of IPv4 addresses.\<close>

lemma inet6_dotted_loop:
  fixes a b c d :: u_char
  assumes "list_all (\<lambda>w. w < 65536) as" "length as \<le> 5"
  defines "q \<equiv> dotted [a, b, c, d]"
  obtains w where "ngx_inet6_addr (chr_colon # chr_colon # hexs as @ q) =
    Option.bind (inet6_dot ((between (words_bytes as) (Some 0) (Some q) (length q + 1) (8 - length as))\<lparr>nibbles := length (fmt_ud a), word6 := w\<rparr>)) inet6_end"
proof -
  let ?n = "8 - length as"
  let ?s = "between (words_bytes as) (Some 0) (Some q) (length q + 1) ?n"
  have colon: "inet6_loop (between [] None None 0 8) (chr_colon # hexs as @ q) =
      inet6_loop (between [] (Some 0) (Some (hexs as @ q)) (length (hexs as @ q) + 1) 8) (hexs as @ q)"
    by (simp add: inet6_colon_def)
  have words: "inet6_loop (between [] (Some 0) (Some (hexs as @ q)) (length (hexs as @ q) + 1) 8) (hexs as @ q) = inet6_loop ?s q"
    using inet6_words [OF assms(1), of 8 "[]" "Some 0"] assms(2) by (cases as) (simp_all add: hexs_def)
  obtain r where q: "q = fmt_ud a @ chr_dot # r" by (simp add: q_def dotted_def str_def)
  obtain w where digits: "inet6_loop ?s (fmt_ud a @ chr_dot # r) =
      inet6_loop (?s\<lparr>nibbles := length (fmt_ud a), word6 := w\<rparr>) (chr_dot # r)"
    using inet6_digits [of "fmt_ud a" ?s "chr_dot # r"] fmt_ud_value(1) [of a] fmt_ud_length [of a]
    by (auto simp del: inet6_loop.simps)
  have "inet6_loop (between [] None None 0 8) (chr_colon # hexs as @ q) = inet6_dot (?s\<lparr>nibbles := length (fmt_ud a), word6 := w\<rparr>)"
    unfolding colon words using digits q fmt_ud_value(3) [of a] by simp
  then have "ngx_inet6_addr (chr_colon # chr_colon # hexs as @ q) =
      Option.bind (inet6_dot (?s\<lparr>nibbles := length (fmt_ud a), word6 := w\<rparr>)) inet6_end"
    by (simp add: ngx_inet6_addr_def inet6_start_def)
  then show ?thesis using that by blast
qed

lemma inet6_dotted_end:
  assumes "list_all (\<lambda>w. w < 65536) as" "length as \<le> 5"
  shows "ngx_inet6_addr (chr_colon # chr_colon # hexs as @ dotted [a, b, c, d]) =
    (if [a, b, c, d] = INADDR_NONE then None else Some (replicate (12 - 2 * length as) 0 @ words_bytes as @ [a, b, c, d]))"
proof -
  let ?q = "dotted [a, b, c, d]"
  let ?s = "\<lambda>w. (between (words_bytes as) (Some 0) (Some ?q) (length ?q + 1) (8 - length as))\<lparr>nibbles := length (fmt_ud a), word6 := w\<rparr>"
  obtain w where w: "ngx_inet6_addr (chr_colon # chr_colon # hexs as @ ?q) = Option.bind (inet6_dot (?s w)) inet6_end"
    using inet6_dotted_loop [OF assms] by blast
  show ?thesis
  proof (cases "[a, b, c, d] = INADDR_NONE")
    case True
    then have "inet6_dot (?s w) = None" using inet_addr_dotted [of a b c d] by (simp add: inet6_dot_def)
    with w True show ?thesis by simp
  next
    case False
    have "inet6_dot (?s w) =
        Some ((?s (ntohl [a, b, c, d]))\<lparr>addr6 := words_bytes as @ [a, b], left6 := 8 - length as - 1\<rparr>)"
      using assms(2) False inet_addr_dotted [of a b c d] by (simp add: inet6_dot_def ntohl_bytes [of a b c d, simplified] Let_def)
    with w False show ?thesis using assms(2) ntohl_bytes [of a b c d] by (simp add: inet6_end_def put_word_def Let_def algebra_simps)
  qed
qed

text \<open>The words of an address, and what the two loops of the writer do with them.\<close>

definition inet6_word_at :: "bytes \<Rightarrow> nat \<Rightarrow> nat" where
  "inet6_word_at p j = unat (p ! (2 * j)) * 256 + unat (p ! (2 * j + 1))"

definition inet6_words_of :: "bytes \<Rightarrow> nat list" where
  "inet6_words_of p = map (inet6_word_at p) [0..<8]"

lemma word_at_bytes: "word_bytes (inet6_word_at p j) = [p ! (2 * j), p ! (2 * j + 1)]" "inet6_word_at p j < 65536"
proof -
  let ?a = "p ! (2 * j)" and ?b = "p ! (2 * j + 1)"
  have d: "(unat ?a * 256 + unat ?b) div 2 ^ 8 = unat ?a" using unat_byte [of ?b] by simp
  show "word_bytes (inet6_word_at p j) = [?a, ?b]"
    unfolding word_bytes_def inet6_word_at_def byte_low d by simp
  show "inet6_word_at p j < 65536" using unat_byte [of ?a] unat_byte [of ?b] by (simp add: inet6_word_at_def)
qed

lemma words_of_length [simp]: "length (inet6_words_of p) = 8"
  by (simp add: inet6_words_of_def)

lemma words_of_bound: "list_all (\<lambda>w. w < 65536) (inet6_words_of p)"
  by (simp add: inet6_words_of_def list_all_iff word_at_bytes)

lemma words_of_bytes:
  assumes "length p = 16"
  shows "words_bytes (inet6_words_of p) = p"
proof -
  have "words_bytes (inet6_words_of p) = map ((!) p) [0..<length p]"
    by (simp add: inet6_words_of_def assms upt_rec word_at_bytes numeral_eq_Suc)
  then show ?thesis by (simp only: map_nth)
qed

lemma drop_words:
  assumes "j < 8"
  shows "drop j (inet6_words_of p) = inet6_word_at p j # drop (Suc j) (inet6_words_of p)"
proof -
  have "inet6_words_of p ! j = inet6_word_at p j"
    unfolding inet6_words_of_def using assms nth_map [of j "[0..<8]" "inet6_word_at p"] nth_upt [of 0 j 8] by (simp only: length_upt add_0 diff_zero)
  then show ?thesis using Cons_nth_drop_Suc [of j "inet6_words_of p"] assms by simp
qed

lemma ntop_word:
  assumes "2 * j < n" "z \<noteq> Some (2 * j)"
  shows "ntop_loop p z m n (2 * j) = hexd (inet6_word_at p j) @ (if j < 7 then [chr_colon] else []) @ ntop_loop p z m n (2 * Suc j)"
  using assms by (subst ntop_loop.simps) (simp add: inet6_word_at_def)

lemma ntop_end: "n \<le> i \<Longrightarrow> ntop_loop p z m n i = []"
  by (subst ntop_loop.simps) simp

lemma ntop_after:
  assumes "j \<le> 8" "\<forall>i. z = Some i \<longrightarrow> i < 2 * j"
  shows "ntop_loop p z m 16 (2 * j) = join_hex (drop j (inet6_words_of p))"
  using assms
proof (induction "8 - j" arbitrary: j)
  case 0
  then show ?case by (simp add: ntop_end)
next
  case (Suc k)
  then have j: "j < 8" by simp
  have "ntop_loop p z m 16 (2 * Suc j) = join_hex (drop (Suc j) (inet6_words_of p))"
    using Suc.prems Suc.hyps(2) by (intro Suc.hyps(1)) auto
  moreover have "z \<noteq> Some (2 * j)" using Suc.prems(2) by auto
  ultimately have "ntop_loop p z m 16 (2 * j) = hexd (inet6_word_at p j) @ (if j < 7 then [chr_colon] else []) @ join_hex (drop (Suc j) (inet6_words_of p))"
    using ntop_word [of j 16 z p m] j by simp
  moreover have "join_hex (drop j (inet6_words_of p)) =
      hexd (inet6_word_at p j) @ (if j < 7 then [chr_colon] else []) @ join_hex (drop (Suc j) (inet6_words_of p))"
  proof (cases "j < 7")
    case True
    then have "Suc j < 8" by simp
    from drop_words [OF j, of p] drop_words [OF this, of p] True show ?thesis by simp
  next
    case False
    with drop_words [OF j, of p] show ?thesis by simp
  qed
  ultimately show ?case by simp
qed

lemma ntop_after_12:
  assumes "j \<le> 6" "\<forall>i. z = Some i \<longrightarrow> i < 2 * j"
  shows "ntop_loop p z m 12 (2 * j) = hexs (take (6 - j) (drop j (inet6_words_of p)))"
  using assms
proof (induction "6 - j" arbitrary: j)
  case 0
  then show ?case by (simp add: ntop_end hexs_def)
next
  case (Suc k)
  then have j: "j < 6" and k: "6 - j = Suc (6 - Suc j)" by simp_all
  have "ntop_loop p z m 12 (2 * Suc j) = hexs (take (6 - Suc j) (drop (Suc j) (inet6_words_of p)))"
    using Suc.prems Suc.hyps(2) by (intro Suc.hyps(1)) auto
  moreover have "z \<noteq> Some (2 * j)" using Suc.prems(2) by auto
  ultimately have "ntop_loop p z m 12 (2 * j) = hexd (inet6_word_at p j) @ [chr_colon] @ hexs (take (6 - Suc j) (drop (Suc j) (inet6_words_of p)))"
    using ntop_word [of j 12 z p m] j by simp
  then show ?case using drop_words [of j p] j by (simp add: k hexs_def)
qed

lemma ntop_before:
  assumes "j \<le> a" "a < 7" "1 \<le> m" "2 * a < n"
  shows "ntop_loop p (Some (2 * a)) m n (2 * j) =
    hexs (take (a - j) (drop j (inet6_words_of p))) @ chr_colon # ntop_loop p (Some (2 * a)) m n (2 * (a + m))"
  using assms
proof (induction "a - j" arbitrary: j)
  case 0
  obtain k where "m = Suc k" using 0(4) by (cases m) auto
  with 0 show ?case by (subst ntop_loop.simps) (simp add: hexs_def algebra_simps)
next
  case (Suc k)
  then have j: "j < a" and k: "a - j = Suc (a - Suc j)" by simp_all
  then have "ntop_loop p (Some (2 * a)) m n (2 * j) = hexd (inet6_word_at p j) @ [chr_colon] @ ntop_loop p (Some (2 * a)) m n (2 * Suc j)"
    using Suc ntop_word [of j n "Some (2 * a)" p m] by simp
  moreover have "ntop_loop p (Some (2 * a)) m n (2 * Suc j) =
      hexs (take (a - Suc j) (drop (Suc j) (inet6_words_of p))) @ chr_colon # ntop_loop p (Some (2 * a)) m n (2 * (a + m))"
    using Suc.prems Suc.hyps(2) j by (intro Suc.hyps(1)) simp_all
  ultimately show ?case using drop_words [of j p] j Suc.prems(2) by (simp add: k hexs_def)
qed

text \<open>A run of zero words.\<close>

definition zero_run :: "bytes \<Rightarrow> nat \<Rightarrow> nat \<Rightarrow> bool" where
  "zero_run p a m \<longleftrightarrow> (\<forall>j. a \<le> j \<and> j < a + m \<longrightarrow> p ! (2 * j) = 0 \<and> p ! (2 * j + 1) = 0)"

definition zero_inv :: "bytes \<Rightarrow> nat \<Rightarrow> nat option \<times> nat \<times> nat \<times> nat \<Rightarrow> bool" where
  "zero_inv p k st \<longleftrightarrow>
     (case st of (z, l, m, n) \<Rightarrow>
        1 \<le> m \<and> (\<forall>i. z = Some i \<longrightarrow> (\<exists>a. i = 2 * a \<and> 2 \<le> m \<and> a + m \<le> k \<and> zero_run p a m)) \<and>
        n \<le> k \<and> (0 < n \<longrightarrow> l = 2 * (k - n)) \<and> zero_run p (k - n) n)"

lemma zero_step_inv:
  assumes "zero_inv p k st"
  shows "zero_inv p (Suc k) (zero_step p st (2 * k))"
proof -
  obtain z l m n where st: "st = (z, l, m, n)" by (cases st) auto
  have run: "zero_run p (k - n) n" "n \<le> k" using assms by (simp_all add: zero_inv_def st)
  have "zero_run p (Suc k - Suc n) (Suc n)" if "p ! (2 * k) = 0" "p ! (2 * k + 1) = 0"
    using run that by (auto simp: zero_run_def less_Suc_eq)
  then show ?thesis using assms unfolding st
    by (fastforce simp: zero_inv_def zero_step_def zero_run_def split: if_splits)
qed

lemma zero_fold_inv: "zero_inv p k st \<Longrightarrow> zero_inv p (k + n) (foldl (zero_step p) st (map ((*) 2) [k..<k + n]))"
proof (induction n)
  case (Suc n)
  then show ?case using zero_step_inv [of p "k + n" "foldl (zero_step p) st (map ((*) 2) [k..<k + n])"] by simp
qed simp

lemma zero_search_run:
  assumes "zero_search p = (z, m)"
  shows "1 \<le> m \<and> (\<forall>i. z = Some i \<longrightarrow> (\<exists>a. i = 2 * a \<and> 2 \<le> m \<and> a + m \<le> 8 \<and> zero_run p a m))"
proof -
  have "zero_inv p 0 (None, 0, 1, 0)" by (simp add: zero_inv_def zero_run_def)
  from zero_fold_inv [OF this, of 8] have fold: "zero_inv p 8 (foldl (zero_step p) (None, 0, 1, 0) [0, 2, 4, 6, 8, 10, 12, 14])"
    by (simp add: upt_rec)
  obtain z' l' m' n' where st: "foldl (zero_step p) (None, 0, 1, 0) [0, 2, 4, 6, 8, 10, 12, 14] = (z', l', m', n')"
    by (cases "foldl (zero_step p) (None, 0, 1, 0) [0, 2, 4, 6, 8, 10, 12, 14]") auto
  have "z = (if m' < n' then Some l' else z')" "m = (if m' < n' then n' else m')"
    using assms unfolding zero_search_def st by (auto split: if_splits)
  then show ?thesis using fold unfolding st by (fastforce simp: zero_inv_def split: if_splits)
qed

lemma zero_run_words:
  assumes "zero_run p a m" "a + m \<le> 8"
  shows "inet6_words_of p = take a (inet6_words_of p) @ replicate m 0 @ drop (a + m) (inet6_words_of p)"
proof -
  have "take m (drop a (inet6_words_of p)) = replicate m 0"
  proof (rule replicate_eqI)
    fix w assume "w \<in> set (take m (drop a (inet6_words_of p)))"
    then obtain j where "j < m" "w = inet6_words_of p ! (a + j)" using assms(2) by (auto simp: in_set_conv_nth)
    moreover from this have "w = inet6_word_at p (a + j)"
      using drop_words [of "a + j" p] Cons_nth_drop_Suc [of "a + j" "inet6_words_of p"] assms(2) by simp
    moreover have "p ! (2 * (a + j)) = 0 \<and> p ! (2 * (a + j) + 1) = 0" 
      using assms(1) [unfolded zero_run_def, rule_format, of "a + j"] \<open>j < m\<close> by simp
    ultimately show "w = 0" by (simp only: inet6_word_at_def) simp
  qed (use assms(2) in simp)
  then have "drop a (inet6_words_of p) = replicate m 0 @ drop (a + m) (inet6_words_of p)"
    using append_take_drop_id [of m "drop a (inet6_words_of p)"] by (simp add: add.commute)
  then show ?thesis using append_take_drop_id [of a "inet6_words_of p"] by simp
qed

lemma words_bytes_zero: "concat (replicate m (word_bytes 0)) = replicate (2 * m) 0"
  by (induction m) (simp_all add: word_bytes_def)

lemma words_bytes_take: "words_bytes (take k ws) = take (2 * k) (words_bytes ws)"
proof (induction k arbitrary: ws)
  case (Suc k)
  then show ?case by (cases ws) simp_all
qed simp

lemma zero_run_take:
  assumes "length p = 16" "zero_run p 0 m" "m \<le> 8" "k \<le> m"
  shows "take (2 * k) p = replicate (2 * k) 0"
proof -
  have "take k (inet6_words_of p) = replicate k 0"
    using arg_cong [OF zero_run_words [OF assms(2)], of "take k"] assms(3,4) by (simp add: min_def)
  then show ?thesis using words_bytes_take [of k "inet6_words_of p"] words_of_bytes [OF assms(1)] by (simp add: words_bytes_zero)
qed

lemma inet6_plain_roundtrip:
  assumes "length p = 16" "zero_search p = (z, m)"
  shows "ngx_inet6_addr ((if z = Some 0 then [chr_colon] else []) @ ntop_loop p z m 16 0) = Some p"
proof (cases z)
  case None
  then have "ntop_loop p z m 16 0 = join_hex (inet6_words_of p)" using ntop_after [of 0 z p m] by simp
  with None show ?thesis using inet6_all_words [of "inet6_words_of p"] words_of_bound [of p] words_of_bytes [OF assms(1)] by simp
next
  case (Some i)
  let ?ws = "inet6_words_of p"
  obtain a where a: "i = 2 * a" "2 \<le> m" "a + m \<le> 8" "zero_run p a m" using zero_search_run [OF assms(2)] Some by blast
  have "ntop_loop p z m 16 0 = hexs (take a ?ws) @ chr_colon # join_hex (drop (a + m) ?ws)"
    using ntop_before [of 0 a m 16 p] ntop_after [of "a + m" "Some (2 * a)" p m] a Some by simp
  moreover have "?ws \<noteq> []" using words_of_length [of p] by force
  then have "(take a ?ws = []) = (z = Some 0)" using a(1) Some by simp
  moreover note this
  moreover have "list_all (\<lambda>w. w < 65536) (take a ?ws)" "list_all (\<lambda>w. w < 65536) (drop (a + m) ?ws)"
    using words_of_bound [of p] by (auto simp: list_all_iff dest: in_set_takeD in_set_dropD)
  ultimately have "ngx_inet6_addr ((if z = Some 0 then [chr_colon] else []) @ ntop_loop p z m 16 0) =
      Some (words_bytes (take a ?ws) @ replicate (2 * m) 0 @ words_bytes (drop (a + m) ?ws))"
    using inet6_zero_words [of "take a ?ws" m "drop (a + m) ?ws"] a by simp
  also have "words_bytes (take a ?ws) @ replicate (2 * m) 0 @ words_bytes (drop (a + m) ?ws) = p"
    using arg_cong [OF zero_run_words [OF a(4,3)], of words_bytes] words_of_bytes [OF assms(1)] by (simp add: words_bytes_zero)
  finally show ?thesis .
qed

lemma inet6_dotted_text:
  assumes "zero_search p = (Some 0, m)" "m \<in> {5, 6, 7}"
  shows "chr_colon # ntop_loop p (Some 0) m 12 0 = chr_colon # chr_colon # hexs (take (6 - m) (drop m (inet6_words_of p)))"
proof -
  have "ntop_loop p (Some 0) m 12 (2 * m) = hexs (take (6 - m) (drop m (inet6_words_of p)))"
    using assms(2) ntop_after_12 [of m "Some 0" p m] ntop_end [of 12 14 p "Some 0" m] by (auto simp: hexs_def)
  then show ?thesis using ntop_before [of 0 0 m 12 p] assms(2) by (auto simp: hexs_def)
qed

lemma inet6_dotted_roundtrip:
  assumes "length p = 16" "zero_search p = (Some 0, m)" "m \<in> {5, 6, 7}"
  shows "ngx_inet6_addr (chr_colon # ntop_loop p (Some 0) m 12 0 @ dotted (drop 12 p)) = (if drop 12 p = INADDR_NONE then None else Some p)"
proof -
  let ?ws = "inet6_words_of p" and ?as = "take (6 - m) (drop m (inet6_words_of p))"
  have run: "zero_run p 0 m" using zero_search_run [OF assms(2)] by auto
  obtain a b c d where q: "drop 12 p = [a, b, c, d]"
    using assms(1) length_drop [of 12 p] by (auto simp: numeral_eq_Suc length_Suc_conv)
  have written: "chr_colon # ntop_loop p (Some 0) m 12 0 @ dotted (drop 12 p) = chr_colon # chr_colon # hexs ?as @ dotted [a, b, c, d]"
    using inet6_dotted_text [OF assms(2,3)] q by simp
  have as: "list_all (\<lambda>w. w < 65536) ?as" "length ?as = 6 - m" "length ?as \<le> 5"
    using words_of_bound [of p] assms(3) by (auto simp: list_all_iff dest: in_set_takeD in_set_dropD)
  have "take 6 ?ws = replicate (min m 6) 0 @ ?as"
    using arg_cong [OF zero_run_words [OF run, of], of "take 6"] assms(3) by auto
  then have "words_bytes (take 6 ?ws) = replicate (12 - 2 * length ?as) 0 @ words_bytes ?as"
    using assms(3) as(2) by (auto simp: words_bytes_zero)
  moreover have "words_bytes (take 6 ?ws) = take 12 p" using words_bytes_take [of 6 ?ws] words_of_bytes [OF assms(1)] by simp
  ultimately have "replicate (12 - 2 * length ?as) 0 @ words_bytes ?as @ [a, b, c, d] = p" using q by (metis append.assoc append_take_drop_id)
  then show ?thesis unfolding written using inet6_dotted_end [OF as(1,3), of a b c d] q by simp
qed

text \<open>
  Property C36: an address that is written as text is read back as the same bytes, for IPv4 and for IPv6, with runs of zero words and with an embedded IPv4
  address.  The exceptions are the two addresses of IPv6 that end with 255.255.255.255 in dotted form: the value of that address is the one of an error.
\<close>

theorem inet_text_roundtrip:
  assumes "length p = 16" "NGX_INET6_ADDRSTRLEN \<le> cap"
    and "p \<noteq> replicate 10 0 @ replicate 6 255" "p \<noteq> replicate 12 0 @ replicate 4 255"
  shows "ngx_inet6_addr (ngx_inet_ntop True p cap) = Some p \<and> ngx_inet_addr (ngx_inet_ntop False [a, b, c, d] cap) = [a, b, c, d]"
proof -
  obtain z m where zs: "zero_search p = (z, m)" by force
  define four where "four \<longleftrightarrow> z = Some 0 \<and> (m = 5 \<and> p ! 10 = 0xff \<and> p ! 11 = 0xff \<or> m = 6 \<or> m = 7 \<and> p ! 14 \<noteq> 0 \<and> p ! 15 \<noteq> 1)"
  have ntop: "ngx_inet6_ntop p cap = (if z = Some 0 then [chr_colon] else []) @ ntop_loop p z m (if four then 12 else 16) 0 @
      (if four then dotted (drop 12 p) else [])"
    unfolding ngx_inet6_ntop_def zs prod.case Let_def four_def [symmetric] using assms(2) by simp
  have "ngx_inet6_addr (ngx_inet6_ntop p cap) = Some p"
  proof (cases four)
    case False
    then show ?thesis using inet6_plain_roundtrip [OF assms(1) zs] by (simp add: ntop)
  next
    case True
    then have z: "z = Some 0" "m \<in> {5, 6, 7}" by (auto simp: four_def)
    have "drop 12 p \<noteq> INADDR_NONE"
    proof
      assume q: "drop 12 p = INADDR_NONE"
      have run: "zero_run p 0 m" "m \<le> 8" using zero_search_run [OF zs] z by auto
      note zeros = zero_run_take [OF assms(1) run]
      have tail: "p = take 12 p @ replicate 4 255" using q append_take_drop_id [of 12 p] by (simp add: INADDR_NONE_def numeral_eq_Suc)
      have "take 12 p = take 10 p @ [p ! 10, p ! 11]" using assms(1) by (simp add: take_Suc_conv_app_nth numeral_eq_Suc)
      then have "m \<noteq> 5" using True zeros [of 5] assms(3) tail by (auto simp: four_def numeral_eq_Suc)
      moreover have "m \<noteq> 6" using zeros [of 6] assms(4) tail by auto
      moreover have "m \<noteq> 7"
      proof
        assume "m = 7"
        then have "p ! 12 = 0" using run(1) [unfolded zero_run_def, rule_format, of 6] by simp
        moreover have "p ! 12 = 255" using arg_cong [OF q, of hd] assms(1) by (simp add: hd_drop_conv_nth INADDR_NONE_def)
        ultimately show False by simp
      qed
      ultimately show False using z(2) by blast
    qed
    with inet6_dotted_roundtrip [OF assms(1)] zs z True show ?thesis by (simp add: ntop)
  qed
  moreover have "length (dotted [a, b, c, d]) \<le> cap"
    using dotted_length [of a b c d] assms(2) by (simp add: NGX_INET6_ADDRSTRLEN_def)
  ultimately show ?thesis by (simp add: ngx_inet_ntop_def inet_addr_dotted)
qed

theorem inet_text_roundtrip_witness:
  "ngx_inet6_addr (ngx_inet_ntop True ([0x20, 1, 0xd, 0xb8, 0, 0, 0, 0, 0, 0, 0, 0, 0, 0, 0, 1]) 45) = Some ([0x20, 1, 0xd, 0xb8, 0, 0, 0, 0, 0, 0, 0, 0, 0, 0, 0, 1]) \<and>
   ngx_inet_addr (ngx_inet_ntop False [10, 0, 0, 1] 45) = [10, 0, 0, 1]"
  using inet_text_roundtrip [of "[0x20, 1, 0xd, 0xb8, 0, 0, 0, 0, 0, 0, 0, 0, 0, 0, 0, 1]" 45 10 0 0 1]
  by (simp add: NGX_INET6_ADDRSTRLEN_def numeral_eq_Suc)

text \<open>Texts that are no addresses and are read as such, and one that is and is not.\<close>

lemmas inet6_code = ngx_inet6_addr_def inet6_start_def inet6_colon_def inet6_nibble_def inet6_end_def put_word_def str_def Let_def

lemma inet6_trailing_colon: "ngx_inet6_addr (str ''::1:'') = Some (replicate 12 0 @ [0, 1, 0, 0])"
  by (simp add: inet6_code)

lemma inet6_leading_colon: "ngx_inet6_addr (str '':1:2:3:4:5:6:7:8'') = ngx_inet6_addr (str ''1:2:3:4:5:6:7:8'')"
  by (simp add: inet6_code)

lemma inet6_seven_words: "ngx_inet6_addr (str ''1:2:3:4:5:6:7::'') = None"
  by (simp add: inet6_code)

lemma inet6_mapped_broadcast:
  defines "p \<equiv> [0, 0, 0, 0, 0, 0, 0, 0, 0, 0, 255, 255, 255, 255, 255, 255]"
  shows "ngx_inet6_addr (ngx_inet6_ntop p 45) = None"
proof -
  have zs: "zero_search p = (Some 0, 5)" by (simp add: p_def zero_search_def zero_step_def)
  then have "ngx_inet6_ntop p 45 = chr_colon # ntop_loop p (Some 0) 5 12 0 @ dotted (drop 12 p)"
    by (simp add: ngx_inet6_ntop_def NGX_INET6_ADDRSTRLEN_def p_def)
  moreover have "drop 12 p = INADDR_NONE" "length p = 16" by (simp_all add: p_def INADDR_NONE_def)
  ultimately show ?thesis using inet6_dotted_roundtrip [OF _ zs] by simp
qed

end
