(* ===== verification/Ngx_Cidr.thy ===== *)
theory Ngx_Cidr
  imports Ngx_Inet
begin

text \<open>
  Blocks of addresses: \<^verbatim>\<open>ngx_ptocidr\<close> and \<^verbatim>\<open>ngx_cidr_match\<close> of \<^verbatim>\<open>src/core/ngx_inet.c\<close>.  The lemmas show that an address matches a block
  exactly if it agrees with the address of the block in the bits of the prefix.
\<close>

subsection \<open>Blocks of addresses\<close>

datatype ngx_cidr = Cidr_in bytes bytes | Cidr_in6 bytes bytes | Cidr_unix

datatype sockaddr = Sock_in bytes | Sock_in6 bytes | Sock_unix

text \<open>The loop over the bytes of an address of IPv6: whether bits were cleared, the address and the mask.\<close>

fun cidr_mask_loop :: "int \<Rightarrow> bytes \<Rightarrow> bool \<times> bytes \<times> bytes" where
  "cidr_mask_loop shift [] = (False, [], [])"
| "cidr_mask_loop shift (a # addr) =
     (let s = (if shift > 8 then 8 else shift);
          m = push_bit (8 - nat s) 0xff;
          (cleared, addr', msk') = cidr_mask_loop (shift - s) addr in
      (a \<noteq> a AND m \<or> cleared, (a AND m) # addr', m # msk'))"

definition and_bytes :: "bytes \<Rightarrow> bytes \<Rightarrow> bytes" where
  "and_bytes a m = map2 (AND) a m"

text \<open>The left part of the result is the return code.\<close>

definition ngx_ptocidr :: "bytes \<Rightarrow> int \<times> ngx_cidr option" where
  "ngx_ptocidr text =
     (let slash = ngx_strlchr text chr_slash;
          len = (case slash of None \<Rightarrow> length text | Some k \<Rightarrow> k);
          addr = ngx_inet_addr (take len text);
          shift = ngx_atoi (drop (len + 1) text) in
      if addr \<noteq> INADDR_NONE then
        if slash = None then (NGX_OK, Some (Cidr_in addr [255, 255, 255, 255]))
        else if shift = NGX_ERROR then (NGX_ERROR, None)
        else if shift > 32 then (NGX_ERROR, None)
        else
          let msk = (if shift \<noteq> 0 then htonl (push_bit (32 - nat shift) 0xffffffff) else [0, 0, 0, 0]) in
          if addr = and_bytes addr msk then (NGX_OK, Some (Cidr_in addr msk))
          else (NGX_DONE, Some (Cidr_in (and_bytes addr msk) msk))
      else (case ngx_inet6_addr (take len text) of
          None \<Rightarrow> (NGX_ERROR, None)
        | Some addr \<Rightarrow>
            if slash = None then (NGX_OK, Some (Cidr_in6 addr (replicate 16 0xff)))
            else if shift = NGX_ERROR then (NGX_ERROR, None)
            else if shift > 128 then (NGX_ERROR, None)
            else
              let (cleared, addr, msk) = cidr_mask_loop shift addr in
              (if cleared then NGX_DONE else NGX_OK, Some (Cidr_in6 addr msk))))"

text \<open>The family and the address that are compared: an IPv4 address in an IPv6 socket is an IPv4 address.\<close>

definition v4mapped :: "bytes \<Rightarrow> bool" where
  "v4mapped p \<longleftrightarrow> take 12 p = replicate 10 0 @ [0xff, 0xff]"

definition cidr_peer :: "sockaddr \<Rightarrow> sockaddr" where
  "cidr_peer sa =
     (case sa of
        Sock_in6 p \<Rightarrow>
          if v4mapped p then
            Sock_in (htonl (push_bit 24 (ucast (p ! 12)) + push_bit 16 (ucast (p ! 13)) + push_bit 8 (ucast (p ! 14)) + ucast (p ! 15)))
          else sa
      | _ \<Rightarrow> sa)"

fun cidr_match_one :: "sockaddr \<Rightarrow> ngx_cidr \<Rightarrow> bool" where
  "cidr_match_one (Sock_in a) (Cidr_in addr msk) = (and_bytes a msk = addr)"
| "cidr_match_one (Sock_in6 a) (Cidr_in6 addr msk) = list_all (\<lambda>n. (a ! n) AND (msk ! n) = addr ! n) [0..<16]"
| "cidr_match_one Sock_unix Cidr_unix = True"
| "cidr_match_one _ _ = False"

fun cidr_match_loop :: "sockaddr \<Rightarrow> ngx_cidr list \<Rightarrow> int" where
  "cidr_match_loop sa [] = NGX_DECLINED"
| "cidr_match_loop sa (c # cidrs) = (if cidr_match_one sa c then NGX_OK else cidr_match_loop sa cidrs)"

definition ngx_cidr_match :: "sockaddr \<Rightarrow> ngx_cidr list \<Rightarrow> int" where
  "ngx_cidr_match sa cidrs = cidr_match_loop (cidr_peer sa) cidrs"

text \<open>\<open>None\<close> is \<^verbatim>\<open>NGX_DECLINED\<close>.\<close>

definition ngx_parse_addr :: "bytes \<Rightarrow> sockaddr option" where
  "ngx_parse_addr text =
     (if ngx_inet_addr text \<noteq> INADDR_NONE then Some (Sock_in (ngx_inet_addr text))
      else map_option Sock_in6 (ngx_inet6_addr text))"

subsection \<open>Matching a block\<close>

definition byte_bits :: "u_char \<Rightarrow> bool list" where
  "byte_bits b = map (\<lambda>i. bit b (7 - i)) [0..<8]"

definition addr_bits :: "bytes \<Rightarrow> bool list" where
  "addr_bits p = concat (map byte_bits p)"

text \<open>Two addresses agree in the first \<open>k\<close> bits.\<close>

definition same_prefix :: "nat \<Rightarrow> bytes \<Rightarrow> bytes \<Rightarrow> bool" where
  "same_prefix k a b \<longleftrightarrow> take k (addr_bits a) = take k (addr_bits b)"

text \<open>The mask for the first \<open>k\<close> bits of \<open>n\<close> bytes.\<close>

fun prefix_mask :: "nat \<Rightarrow> nat \<Rightarrow> bytes" where
  "prefix_mask k 0 = []"
| "prefix_mask k (Suc n) = push_bit (8 - min 8 k) 0xff # prefix_mask (k - 8) n"

lemma prefix_mask_length [simp]: "length (prefix_mask k n) = n"
  by (induction k n rule: prefix_mask.induct) simp_all

lemma mask_bit: "bit (push_bit (8 - s) 0xff :: u_char) n \<longleftrightarrow> 8 - s \<le> n \<and> n < 8"
proof -
  have "(0xff :: u_char) = mask 8" by (simp add: mask_eq_exp_minus_1)
  then show ?thesis by (simp only: bit_push_bit_iff bit_mask_iff) auto
qed

lemma mask_byte:
  assumes "s \<le> 8"
  shows "a AND push_bit (8 - s) 0xff = b AND push_bit (8 - s) 0xff \<longleftrightarrow> take s (byte_bits a) = take s (byte_bits (b :: u_char))"
proof -
  have "a AND push_bit (8 - s) 0xff = b AND push_bit (8 - s) 0xff \<longleftrightarrow> (\<forall>n. 8 - s \<le> n \<and> n < 8 \<longrightarrow> bit a n = bit b n)"
    by (auto simp: bit_eq_iff bit_and_iff mask_bit)
  also have "\<dots> \<longleftrightarrow> (\<forall>i < s. bit a (7 - i) = bit b (7 - i))"
  proof (rule iffI; intro allI impI)
    fix n assume all: "\<forall>i < s. bit a (7 - i) = bit b (7 - i)" and "8 - s \<le> n \<and> n < 8"
    then have "7 - n < s" "7 - (7 - n) = n" using assms by linarith+
    with all show "bit a n = bit b n" by metis
  next
    fix i assume all: "\<forall>n. 8 - s \<le> n \<and> n < 8 \<longrightarrow> bit a n = bit b n" and "i < s"
    then have "8 - s \<le> 7 - i \<and> 7 - i < 8" using assms by linarith
    with all show "bit a (7 - i) = bit b (7 - i)" by blast
  qed
  also have "\<dots> \<longleftrightarrow> take s (byte_bits a) = take s (byte_bits b)"
    using assms by (simp only: byte_bits_def take_map take_upt add_0 map_eq_conv) auto
  finally show ?thesis .
qed

lemma byte_bits_length [simp]: "length (byte_bits b) = 8"
  by (simp add: byte_bits_def)

lemma and_mask_prefix:
  "length a = n \<Longrightarrow> length b = n \<Longrightarrow> and_bytes a (prefix_mask k n) = and_bytes b (prefix_mask k n) \<longleftrightarrow> same_prefix k a b"
proof (induction k n arbitrary: a b rule: prefix_mask.induct)
  case (2 k n)
  then obtain x a' y b' where ab: "a = x # a'" "b = y # b'" "length a' = n" "length b' = n" by (auto simp: length_Suc_conv)
  have "same_prefix k a b \<longleftrightarrow> take k (byte_bits x) = take k (byte_bits y) \<and> same_prefix (k - 8) a' b'"
    by (simp add: same_prefix_def addr_bits_def ab)
  moreover have "take k (byte_bits x) = take (min 8 k) (byte_bits x)" "take k (byte_bits y) = take (min 8 k) (byte_bits y)"
    by (simp_all add: min_def)
  ultimately show ?case using 2(1) [OF ab(3,4)] mask_byte [of "min 8 k" x y] by (simp add: ab and_bytes_def)
qed (simp add: same_prefix_def addr_bits_def and_bytes_def)

lemma and_bytes_mask_idem: "length a = length m \<Longrightarrow> and_bytes (and_bytes a m) m = and_bytes a m"
  unfolding and_bytes_def by (induction a m rule: list_induct2) (simp_all add: and.assoc)

lemma mask_loop_prefix:
  "cidr_mask_loop (int k) a = (a \<noteq> and_bytes a (prefix_mask k (length a)), and_bytes a (prefix_mask k (length a)), prefix_mask k (length a))"
proof (induction a arbitrary: k)
  case (Cons x a)
  have "(if int k > 8 then 8 else int k) = int (min 8 k)" "int k - int (min 8 k) = int (k - 8)" by simp_all
  with Cons [of "k - 8"] show ?case by (auto simp: and_bytes_def Let_def)
qed (simp add: and_bytes_def)

lemma htonl_bit: "bit (of_int (uint (x :: 32 word) div 2 ^ s) :: u_char) n \<longleftrightarrow> n < 8 \<and> bit x (s + n)"
  by (auto simp: bit_word_of_int_iff bit_uint_iff bit_drop_bit_eq simp flip: drop_bit_eq_div dest: bit_imp_le_length)

lemma mask4_bit: "bit (push_bit (32 - k) 0xffffffff :: 32 word) n \<longleftrightarrow> 32 - k \<le> n \<and> n < 32"
proof -
  have "(0xffffffff :: 32 word) = mask 32" by (simp add: mask_eq_exp_minus_1)
  then show ?thesis by (simp only: bit_push_bit_iff bit_mask_iff) auto
qed

lemma mask4_prefix:
  assumes "0 < k" "k \<le> 32"
  shows "htonl (push_bit (32 - k) 0xffffffff) = prefix_mask k 4"
proof -
  let ?x = "push_bit (32 - k) 0xffffffff :: 32 word"
  have byte: "of_int (uint ?x div 2 ^ (24 - 8 * j)) = (push_bit (8 - min 8 (k - 8 * j)) 0xff :: u_char)" if "j \<le> 3" for j
    unfolding bit_eq_iff htonl_bit mask4_bit mask_bit using that assms by auto
  from byte [of 0] byte [of 1] byte [of 2] byte [of 3] show ?thesis by (simp add: htonl_def numeral_eq_Suc)
qed

lemma strlchr_at: "c \<notin> set t \<Longrightarrow> ngx_strlchr (t @ c # r) c = Some (length t)"
  by (induction t) auto

lemma atoi_number: "int k \<le> NGX_MAX_INT_T_VALUE \<Longrightarrow> ngx_atoi (ngx_sprintf_num (int k) chr_space 0) = int k"
  using sprintf_num_value [of "int k"] by (simp add: atoi.read_exact list_all_iff)

definition sock_ok :: "sockaddr \<Rightarrow> bool" where
  "sock_ok sa \<longleftrightarrow> (case sa of Sock_in a \<Rightarrow> length a = 4 | Sock_in6 a \<Rightarrow> length a = 16 | Sock_unix \<Rightarrow> True)"

lemma parse_addr_ok: "ngx_parse_addr t = Some sa \<Longrightarrow> sock_ok sa"
  using inet6_end_length inet6_loop_inv inet6_start_inv
  by (fastforce simp: ngx_parse_addr_def ngx_inet_addr_octets sock_ok_def ngx_inet6_addr_def Let_def bind_eq_Some_conv split: if_splits)

lemma peer_ok: "sock_ok sa \<Longrightarrow> sock_ok (cidr_peer sa)"
  by (auto simp: sock_ok_def cidr_peer_def htonl_def split: sockaddr.splits)

fun same_block :: "nat \<Rightarrow> sockaddr \<Rightarrow> sockaddr \<Rightarrow> bool" where
  "same_block k (Sock_in a) (Sock_in b) = same_prefix k a b"
| "same_block k (Sock_in6 a) (Sock_in6 b) = same_prefix k a b"
| "same_block k _ _ = False"

lemma match_in6:
  assumes "length a = 16" "length addr = 16" "length m = 16"
  shows "cidr_match_one (Sock_in6 a) (Cidr_in6 addr m) \<longleftrightarrow> and_bytes a m = addr"
proof -
  have "cidr_match_one (Sock_in6 a) (Cidr_in6 addr m) \<longleftrightarrow> (\<forall>n < 16. (a ! n) AND (m ! n) = addr ! n)"
    by (auto simp only: cidr_match_one.simps list_all_iff set_upt atLeastLessThan_iff)
  also have "\<dots> \<longleftrightarrow> and_bytes a m = addr" using assms by (auto simp: and_bytes_def list_eq_iff_nth_eq)
  finally show ?thesis .
qed

lemma block_in_matches:
  assumes "sock_ok peer" "length a = 4" "k \<le> 32"
  shows "cidr_match_one peer (Cidr_in (and_bytes a (prefix_mask k 4)) (prefix_mask k 4)) \<longleftrightarrow> same_block k peer (Sock_in a)"
  using assms by (cases peer) (simp_all add: sock_ok_def and_mask_prefix)

lemma block_in6_matches:
  assumes "sock_ok peer" "length a = 16"
  shows "cidr_match_one peer (Cidr_in6 (and_bytes a (prefix_mask k 16)) (prefix_mask k 16)) \<longleftrightarrow> same_block k peer (Sock_in6 a)"
proof (cases peer)
  case (Sock_in6 b)
  have "length (and_bytes a (prefix_mask k 16)) = 16" using assms(2) by (simp add: and_bytes_def)
  then show ?thesis using assms match_in6 [of b "and_bytes a (prefix_mask k 16)" "prefix_mask k 16"] and_mask_prefix [of b 16 a k]
    by (simp add: Sock_in6 sock_ok_def del: cidr_match_one.simps)
qed simp_all

text \<open>The block that is read from an address, a slash and a number.\<close>

lemma ptocidr_in:
  assumes "ngx_inet_addr t \<noteq> INADDR_NONE" "chr_slash \<notin> set t" "k \<le> 32"
  defines "a \<equiv> ngx_inet_addr t"
  shows "\<exists>rc. ngx_ptocidr (t @ chr_slash # ngx_sprintf_num (int k) chr_space 0) =
    (rc, Some (Cidr_in (and_bytes a (prefix_mask k 4)) (prefix_mask k 4))) \<and> (rc = NGX_OK \<or> rc = NGX_DONE)"
proof -
  have "prefix_mask 0 n = replicate n 0" for n by (induction n) simp_all
  moreover have "replicate 4 (0 :: u_char) = [0, 0, 0, 0]" by (simp add: numeral_eq_Suc)
  ultimately have m: "prefix_mask 0 4 = [0, 0, 0, 0]" by (simp only:)
  have "ngx_atoi (ngx_sprintf_num (int k) chr_space 0) = int k" using assms(3) by (intro atoi_number) (simp add: max_value_defs)
  then show ?thesis using assms(1,3) unfolding a_def
    by (cases "k = 0") (simp_all add: ngx_ptocidr_def strlchr_at [OF assms(2)] m mask4_prefix Let_def)
qed

lemma ptocidr_in6:
  assumes "ngx_inet_addr t = INADDR_NONE" "ngx_inet6_addr t = Some a" "length a = 16" "chr_slash \<notin> set t" "k \<le> 128"
  shows "\<exists>rc. ngx_ptocidr (t @ chr_slash # ngx_sprintf_num (int k) chr_space 0) =
    (rc, Some (Cidr_in6 (and_bytes a (prefix_mask k 16)) (prefix_mask k 16))) \<and> (rc = NGX_OK \<or> rc = NGX_DONE)"
proof -
  have "ngx_atoi (ngx_sprintf_num (int k) chr_space 0) = int k" using assms(5) by (intro atoi_number) (simp add: max_value_defs)
  then show ?thesis using assms
    by (simp add: ngx_ptocidr_def strlchr_at [OF assms(4)] mask_loop_prefix Let_def)
qed

text \<open>
  Property C37: blocks of addresses.  An address, a slash and a number \<open>k\<close> are read as a block, and a peer matches the block exactly if it is of
  the same family and agrees with the address in the first \<open>k\<close> bits; a peer with an IPv4 address in an IPv6 socket counts as IPv4.  A list of
  blocks is matched if one of them is.
\<close>

theorem cidr_matches_prefix:
  assumes "ngx_parse_addr t = Some sa" "chr_slash \<notin> set t" "k \<le> (case sa of Sock_in a \<Rightarrow> 32 | _ \<Rightarrow> 128)"
  shows "\<exists>rc cidr. ngx_ptocidr (t @ str ''/'' @ ngx_sprintf_num (int k) chr_space 0) = (rc, Some cidr) \<and> (rc = NGX_OK \<or> rc = NGX_DONE) \<and>
    (\<forall>peer cidrs. sock_ok peer \<longrightarrow>
       (ngx_cidr_match peer (cidr # cidrs) = NGX_OK \<longleftrightarrow> same_block k (cidr_peer peer) sa \<or> ngx_cidr_match peer cidrs = NGX_OK))"
proof -
  have sa: "sock_ok sa" by (rule parse_addr_ok [OF assms(1)])
  have s: "t @ str ''/'' @ ngx_sprintf_num (int k) chr_space 0 = t @ chr_slash # ngx_sprintf_num (int k) chr_space 0" by (simp add: str_def)
  have "\<exists>rc cidr. ngx_ptocidr (t @ chr_slash # ngx_sprintf_num (int k) chr_space 0) = (rc, Some cidr) \<and> (rc = NGX_OK \<or> rc = NGX_DONE) \<and>
      (\<forall>peer. sock_ok peer \<longrightarrow> cidr_match_one peer cidr = same_block k peer sa)"
  proof (cases "ngx_inet_addr t = INADDR_NONE")
    case False
    then have a: "sa = Sock_in (ngx_inet_addr t)" using assms(1) by (simp add: ngx_parse_addr_def)
    with ptocidr_in [OF False assms(2)] block_in_matches sa assms(3) show ?thesis by (fastforce simp: sock_ok_def)
  next
    case True
    then obtain a where a: "sa = Sock_in6 a" "ngx_inet6_addr t = Some a" using assms(1) by (auto simp: ngx_parse_addr_def)
    with ptocidr_in6 [OF True a(2) _ assms(2)] block_in6_matches sa assms(3) show ?thesis by (fastforce simp: sock_ok_def)
  qed
  then show ?thesis unfolding s ngx_cidr_match_def using peer_ok by fastforce
qed

theorem cidr_matches_prefix_witness:
  "\<exists>rc cidr. ngx_ptocidr (dotted [10, 0, 0, 0] @ str ''/'' @ ngx_sprintf_num (int 8) chr_space 0) = (rc, Some cidr) \<and>
     ngx_cidr_match (Sock_in [10, 1, 2, 3]) [cidr] = NGX_OK \<and> ngx_cidr_match (Sock_in [11, 1, 2, 3]) [cidr] \<noteq> NGX_OK"
proof -
  have addr: "ngx_parse_addr (dotted [10, 0, 0, 0]) = Some (Sock_in [10, 0, 0, 0])"
    by (simp add: ngx_parse_addr_def inet_addr_dotted INADDR_NONE_def)
  have "chr_slash \<notin> set (fmt_ud c)" for c using fmt_ud_value(1) [of c] by (auto simp: list_all_iff is_digit_def)
  then have slash: "chr_slash \<notin> set (dotted [10, 0, 0, 0])" by (simp add: dotted_def str_def)
  have "byte_bits 11 \<noteq> byte_bits 10" using mask_byte [of 8 11 10] by auto
  then have block: "same_block 8 (Sock_in [10, 1, 2, 3]) (Sock_in [10, 0, 0, 0])" "\<not> same_block 8 (Sock_in [11, 1, 2, 3]) (Sock_in [10, 0, 0, 0])"
    by (simp_all add: same_prefix_def addr_bits_def)
  obtain rc cidr where c: "ngx_ptocidr (dotted [10, 0, 0, 0] @ str ''/'' @ ngx_sprintf_num (int 8) chr_space 0) = (rc, Some cidr)"
    and m: "\<And>peer cidrs. sock_ok peer \<Longrightarrow> (ngx_cidr_match peer (cidr # cidrs) = NGX_OK \<longleftrightarrow>
      same_block 8 (cidr_peer peer) (Sock_in [10, 0, 0, 0]) \<or> ngx_cidr_match peer cidrs = NGX_OK)"
    using cidr_matches_prefix [OF addr slash, of 8] by auto
  have "ngx_cidr_match peer [] \<noteq> NGX_OK" for peer by (simp add: ngx_cidr_match_def)
  with c block m [of "Sock_in [10, 1, 2, 3]" "[]"] m [of "Sock_in [11, 1, 2, 3]" "[]"] show ?thesis
    by (auto simp: sock_ok_def cidr_peer_def)
qed

end
