(* ===== verification/Ngx_Queue.thy ===== *)
theory Ngx_Queue
  imports Ngx_Prelude "HOL-Library.Multiset"
begin

text \<open>
  The queues of \<^verbatim>\<open>src/core/ngx_queue.h\<close> and \<^verbatim>\<open>src/core/ngx_queue.c\<close>: rings of elements that are linked in both directions through a
  sentinel.  The lemmas relate every operation to one on lists, and show that the sort returns and is the stable sort.  The links are functions
  on addresses; an operation is a sequence of assignments to them, in the order of the source.
\<close>

subsection \<open>Operations\<close>

type_synonym link = nat

record links =
  qprev :: "link \<Rightarrow> link"
  qnext :: "link \<Rightarrow> link"

definition set_prev :: "link \<Rightarrow> link \<Rightarrow> links \<Rightarrow> links" where
  "set_prev x y s = s\<lparr>qprev := (qprev s)(x := y)\<rparr>"

definition set_next :: "link \<Rightarrow> link \<Rightarrow> links \<Rightarrow> links" where
  "set_next x y s = s\<lparr>qnext := (qnext s)(x := y)\<rparr>"

definition ngx_queue_init :: "link \<Rightarrow> links \<Rightarrow> links" where
  "ngx_queue_init q s = set_next q q (set_prev q q s)"

definition ngx_queue_empty :: "links \<Rightarrow> link \<Rightarrow> bool" where
  "ngx_queue_empty s h \<longleftrightarrow> h = qprev s h"

definition ngx_queue_insert_head :: "link \<Rightarrow> link \<Rightarrow> links \<Rightarrow> links" where
  "ngx_queue_insert_head h x s =
     (let s = set_next x (qnext s h) s;
          s = set_prev (qnext s x) x s;
          s = set_prev x h s in
      set_next h x s)"

definition ngx_queue_insert_tail :: "link \<Rightarrow> link \<Rightarrow> links \<Rightarrow> links" where
  "ngx_queue_insert_tail h x s =
     (let s = set_prev x (qprev s h) s;
          s = set_next (qprev s x) x s;
          s = set_next x h s in
      set_prev h x s)"

definition ngx_queue_remove :: "link \<Rightarrow> links \<Rightarrow> links" where
  "ngx_queue_remove x s =
     (let s = set_prev (qnext s x) (qprev s x) s in
      set_next (qprev s x) (qnext s x) s)"

definition ngx_queue_split :: "link \<Rightarrow> link \<Rightarrow> link \<Rightarrow> links \<Rightarrow> links" where
  "ngx_queue_split h q n s =
     (let s = set_prev n (qprev s h) s;
          s = set_next (qprev s n) n s;
          s = set_next n q s;
          s = set_prev h (qprev s q) s;
          s = set_next (qprev s h) h s in
      set_prev q n s)"

definition ngx_queue_add :: "link \<Rightarrow> link \<Rightarrow> links \<Rightarrow> links" where
  "ngx_queue_add h n s =
     (let s = set_next (qprev s h) (qnext s n) s;
          s = set_prev (qnext s n) (qprev s h) s;
          s = set_prev h (qprev s n) s in
      set_next (qprev s h) h s)"

partial_function (option) middle_loop :: "links \<Rightarrow> link \<Rightarrow> link \<Rightarrow> link \<Rightarrow> link option" where
  "middle_loop s h middle q =
     (let middle = qnext s middle; q = qnext s q in
      if q = qprev s h then Some middle
      else
        let q = qnext s q in
        if q = qprev s h then Some middle else middle_loop s h middle q)"

definition ngx_queue_middle :: "links \<Rightarrow> link \<Rightarrow> link option" where
  "ngx_queue_middle s h =
     (let middle = qnext s h in
      if middle = qprev s h then Some middle else middle_loop s h middle (qnext s h))"

text \<open>\<open>cmp\<close> compares the data around two links.  The inner loop yields \<^verbatim>\<open>prev\<close>.\<close>

partial_function (option) sort_back :: "(link \<Rightarrow> link \<Rightarrow> int) \<Rightarrow> link \<Rightarrow> links \<Rightarrow> link \<Rightarrow> link \<Rightarrow> link option" where
  "sort_back cmp h s q p =
     (if cmp p q \<le> 0 then Some p
      else
        let p = qprev s p in
        if p \<noteq> h then sort_back cmp h s q p else Some p)"

partial_function (option) sort_loop :: "(link \<Rightarrow> link \<Rightarrow> int) \<Rightarrow> link \<Rightarrow> link \<Rightarrow> links \<Rightarrow> links option" where
  "sort_loop cmp h q s =
     (if q = h then Some s
      else
        let p = qprev s q; n = qnext s q; s = ngx_queue_remove q s in
        Option.bind (sort_back cmp h s q p) (\<lambda>p. sort_loop cmp h n (ngx_queue_insert_head p q s)))"

definition ngx_queue_sort :: "(link \<Rightarrow> link \<Rightarrow> int) \<Rightarrow> link \<Rightarrow> links \<Rightarrow> links option" where
  "ngx_queue_sort cmp h s =
     (if qnext s h = qprev s h then Some s else sort_loop cmp h (qnext s (qnext s h)) s)"

subsection \<open>Rings\<close>

text \<open>The links lead from \<open>a\<close> over \<open>xs\<close> to \<open>b\<close> and back.\<close>

fun linked :: "links \<Rightarrow> link \<Rightarrow> link list \<Rightarrow> link \<Rightarrow> bool" where
  "linked s a [] b \<longleftrightarrow> qnext s a = b \<and> qprev s b = a"
| "linked s a (x # xs) b \<longleftrightarrow> qnext s a = x \<and> qprev s x = a \<and> linked s x xs b"

definition queue :: "links \<Rightarrow> link \<Rightarrow> link list \<Rightarrow> bool" where
  "queue s h xs \<longleftrightarrow> distinct (h # xs) \<and> linked s h xs h"

lemma linked_append: "linked s a (xs @ y # ys) b \<longleftrightarrow> linked s a xs y \<and> linked s y ys b"
  by (induction xs arbitrary: a) simp_all

lemma set_link_simps [simp]:
  "qprev (set_prev x y s) = (qprev s)(x := y)" "qnext (set_prev x y s) = qnext s"
  "qnext (set_next x y s) = (qnext s)(x := y)" "qprev (set_next x y s) = qprev s"
  by (simp_all add: set_prev_def set_next_def)

lemma linked_set_prev [simp]: "x \<notin> set xs \<Longrightarrow> x \<noteq> b \<Longrightarrow> linked (set_prev x y s) a xs b \<longleftrightarrow> linked s a xs b"
  by (induction xs arbitrary: a) auto

lemma linked_set_next [simp]: "x \<notin> set xs \<Longrightarrow> x \<noteq> a \<Longrightarrow> linked (set_next x y s) a xs b \<longleftrightarrow> linked s a xs b"
  by (induction xs arbitrary: a) auto

lemma linked_ends: "linked s a xs b \<Longrightarrow> qnext s a = hd (xs @ [b]) \<and> qprev s b = last (a # xs)"
  by (induction xs arbitrary: a) auto

text \<open>A change of the two links between neighbours.\<close>

lemma linked_last: "linked s a (xs @ [x]) b \<longleftrightarrow> linked s a xs x \<and> qnext s x = b \<and> qprev s b = x"
  by (simp add: linked_append)

lemma linked_rotate: "linked s h (xs @ p # ys) h \<longleftrightarrow> linked s p (ys @ h # xs) p"
  by (auto simp: linked_append)

lemma insert_head_linked:
  assumes "linked s h ys h" "distinct (h # ys)" "x \<notin> set (h # ys)"
  shows "linked (ngx_queue_insert_head h x s) h (x # ys) h"
  using assms by (cases ys) (auto simp: ngx_queue_insert_head_def Let_def)

lemma queue_insert_head:
  "queue s h xs \<Longrightarrow> x \<notin> set (h # xs) \<Longrightarrow> queue (ngx_queue_insert_head h x s) h (x # xs)"
  using insert_head_linked [of s h xs x] by (auto simp: queue_def)

lemma queue_insert_after:
  assumes "queue s h (xs @ p # ys)" "x \<notin> set (h # xs @ p # ys)"
  shows "queue (ngx_queue_insert_head p x s) h (xs @ p # x # ys)"
proof -
  have "linked (ngx_queue_insert_head p x s) p (x # ys @ h # xs) p"
    using assms by (intro insert_head_linked) (auto simp: queue_def linked_rotate)
  then show ?thesis using assms by (auto simp: queue_def linked_append)
qed

lemma insert_tail_linked:
  assumes "linked s h ys h" "distinct (h # ys)" "x \<notin> set (h # ys)"
  shows "linked (ngx_queue_insert_tail h x s) h (ys @ [x]) h"
  using assms by (cases ys rule: rev_cases) (auto simp: ngx_queue_insert_tail_def linked_append Let_def)

lemma queue_insert_tail:
  "queue s h xs \<Longrightarrow> x \<notin> set (h # xs) \<Longrightarrow> queue (ngx_queue_insert_tail h x s) h (xs @ [x])"
  using insert_tail_linked [of s h xs x] by (auto simp: queue_def)

lemma remove_linked:
  assumes "linked s x (h # ys) x" "distinct (x # h # ys)"
  shows "linked (ngx_queue_remove x s) h ys h"
  using assms by (cases ys rule: rev_cases) (auto simp: ngx_queue_remove_def linked_append Let_def)

lemma queue_remove:
  assumes "queue s h (xs @ x # ys)"
  shows "queue (ngx_queue_remove x s) h (xs @ ys)"
proof (cases ys)
  case Nil
  with assms have "linked s x (h # xs) x" by (simp add: queue_def linked_append)
  with remove_linked [of s x h xs] assms Nil show ?thesis by (auto simp: queue_def)
next
  case (Cons y zs)
  with assms have "linked s x (y # zs @ h # xs) x" by (simp add: queue_def linked_append)
  with remove_linked [of s x y "zs @ h # xs"] assms Cons have "linked (ngx_queue_remove x s) y (zs @ h # xs) y"
    by (auto simp: queue_def)
  with assms Cons show ?thesis by (auto simp: queue_def linked_append)
qed

lemma queue_init: "queue (ngx_queue_init h s) h []"
  by (simp add: queue_def ngx_queue_init_def)

lemma queue_ends: "queue s h xs \<Longrightarrow> qnext s h = hd (xs @ [h]) \<and> qprev s h = last (h # xs)"
  unfolding queue_def using linked_ends by blast

lemma queue_empty: "queue s h xs \<Longrightarrow> ngx_queue_empty s h \<longleftrightarrow> xs = []"
proof -
  assume q: "queue s h xs"
  then have "h \<notin> set xs" "qprev s h = last (h # xs)" using queue_ends [OF q] by (simp_all add: queue_def)
  then show ?thesis unfolding ngx_queue_empty_def by (cases "xs = []") (auto dest: last_in_set)
qed

text \<open>The end of a row of elements is linked to something else; the other links stay.\<close>

lemma linked_change:
  assumes "linked s a xs b" "distinct (a # xs)" "last (a # xs) = p"
    and "\<forall>x \<in> set (a # xs). x \<noteq> p \<longrightarrow> qnext s' x = qnext s x" "\<forall>x \<in> set xs. qprev s' x = qprev s x"
    and "qnext s' p = c" "qprev s' c = p"
  shows "linked s' a xs c"
  using assms
proof (induction xs arbitrary: a)
  case (Cons x xs)
  have "p \<in> set (x # xs)" using Cons.prems(3) last_in_set [of "x # xs"] by simp
  with Cons.prems(2) have "a \<noteq> p" by auto
  with Cons show ?case by auto
qed simp

lemma queue_split:
  assumes "queue s h (xs @ q # ys)" "n \<notin> set (h # xs @ q # ys)"
  defines "s' \<equiv> ngx_queue_split h q n s"
  shows "queue s' h xs \<and> queue s' n (q # ys)"
proof -
  have l: "linked s h xs q" "linked s q ys h" and d: "distinct (h # xs)" "distinct (q # ys)" "set (h # xs) \<inter> set (q # ys) = {}"
    using assms(1) by (auto simp: queue_def linked_append)
  obtain p e where p: "last (h # xs) = p" "p \<in> set (h # xs)" and e: "last (q # ys) = e" "e \<in> set (q # ys)"
    using last_in_set [of "h # xs"] last_in_set [of "q # ys"] by blast
  have ends: "qprev s q = p" "qprev s h = e" using linked_ends [OF l(1)] linked_ends [OF l(2)] p(1) e(1) by simp_all
  have ne: "n \<noteq> h" "n \<noteq> q" "q \<noteq> h" "e \<noteq> p" "n \<noteq> p" "n \<noteq> e" using assms(2) d(3) p(2) e(2) by auto
  have nx: "qnext s' = (qnext s)(e := n, n := q, p := h)" and pv: "qprev s' = (qprev s)(n := e, h := p, q := n)"
    using ne by (simp_all add: s'_def ngx_queue_split_def Let_def ends)
  have "linked s' h xs h"
    by (rule linked_change [OF l(1) d(1) p(1)]) (use d ne e(2) assms(2) in \<open>auto simp: nx pv\<close>)
  moreover have "linked s' q ys n"
    by (rule linked_change [OF l(2) d(2) e(1)]) (use d ne p(2) assms(2) in \<open>auto simp: nx pv\<close>)
  ultimately show ?thesis using d assms(2) ne by (auto simp: queue_def nx pv)
qed

lemma queue_add:
  assumes "queue s h xs" "queue s n ys" "set (h # xs) \<inter> set (n # ys) = {}"
  defines "s' \<equiv> ngx_queue_add h n s"
  shows "queue s' h (xs @ ys)"
proof -
  have l: "linked s h xs h" "linked s n ys n" and d: "distinct (h # xs)" "distinct (n # ys)"
    using assms(1,2) by (simp_all add: queue_def)
  obtain a e where a: "last (h # xs) = a" "a \<in> set (h # xs)" and e: "last (n # ys) = e" "e \<in> set (n # ys)"
    using last_in_set [of "h # xs"] last_in_set [of "n # ys"] by blast
  have ends: "qprev s h = a" "qprev s n = e" "qnext s n = hd (ys @ [n])" using linked_ends [OF l(1)] linked_ends [OF l(2)] a(1) e(1) by simp_all
  show ?thesis
  proof (cases ys)
    case Nil
    then have nx: "qnext s' = (qnext s)(a := h)" and pv: "qprev s' = (qprev s)(n := a, h := a)"
      using assms(3) by (auto simp: s'_def ngx_queue_add_def Let_def ends)
    have "linked s' h xs h"
      by (rule linked_change [OF l(1) d(1) a(1)]) (use d assms(3) in \<open>auto simp: nx pv\<close>)
    with Nil d show ?thesis by (simp add: queue_def)
  next
    case (Cons y zs)
    then have "e \<in> set (y # zs)" using e(1) last_in_set [of "y # zs"] by simp
    then have ne: "y \<noteq> h" "y \<noteq> n" "n \<noteq> h" "e \<noteq> a" "e \<noteq> h" "e \<noteq> n" "y \<noteq> a" using assms(3) d(2) a(2) Cons by auto
    then have nx: "qnext s' = (qnext s)(a := y, e := h)" and pv: "qprev s' = (qprev s)(y := a, h := e)"
      using a(2) assms(3) by (auto simp: s'_def ngx_queue_add_def Let_def ends Cons)
    have "linked s' h xs y"
      by (rule linked_change [OF l(1) d(1) a(1)]) (use d assms(3) ne e(2) Cons in \<open>auto simp: nx pv\<close>)
    moreover have ly: "linked s y zs n" "distinct (y # zs)" "last (y # zs) = e" using l(2) d(2) e(1) Cons by simp_all
    have "linked s' y zs h"
      by (rule linked_change [OF ly]) (use d assms(3) ne a(2) Cons in \<open>auto simp: nx pv\<close>)
    ultimately show ?thesis using assms(3) d Cons by (auto simp: queue_def linked_append)
  qed
qed

subsection \<open>The middle\<close>

lemma queue_nth:
  assumes "queue s h xs" "i < length xs"
  shows "qnext s (xs ! i) = (xs @ [h]) ! Suc i" "(xs ! i = qprev s h) \<longleftrightarrow> Suc i = length xs"
proof -
  have split: "xs = take i xs @ xs ! i # drop (Suc i) xs" using assms(2) by (simp add: id_take_nth_drop)
  then have "linked s (xs ! i) (drop (Suc i) xs) h" using assms(1) by (metis queue_def linked_append)
  then have "qnext s (xs ! i) = hd (drop (Suc i) xs @ [h])" using linked_ends by blast
  also have "\<dots> = (xs @ [h]) ! Suc i" using assms(2) by (cases "Suc i < length xs") (auto simp: nth_append hd_drop_conv_nth)
  finally show "qnext s (xs ! i) = (xs @ [h]) ! Suc i" .
  have "qprev s h = xs ! (length xs - 1)" "distinct xs"
    using queue_ends [OF assms(1)] assms by (auto simp: queue_def last_conv_nth)
  then show "(xs ! i = qprev s h) \<longleftrightarrow> Suc i = length xs" using assms(2) by (auto simp: nth_eq_iff_index_eq)
qed

lemma middle_loop_exact:
  assumes "queue s h xs" "Suc (2 * k) < length xs"
  shows "middle_loop s h (xs ! k) (xs ! (2 * k)) = Some (xs ! (length xs div 2))"
  using assms(2)
proof (induction "length xs - 2 * k" arbitrary: k rule: less_induct)
  case less
  have n1: "qnext s (xs ! k) = xs ! Suc k" "qnext s (xs ! (2 * k)) = xs ! Suc (2 * k)"
    using queue_nth(1) [OF assms(1)] less.prems by (simp_all add: nth_append)
  show ?case
  proof (cases "Suc (Suc (2 * k)) = length xs")
    case True
    then have "xs ! Suc (2 * k) = qprev s h" "length xs div 2 = Suc k" using queue_nth(2) [OF assms(1), of "Suc (2 * k)"] by auto
    then show ?thesis using n1 by (subst middle_loop.simps) simp
  next
    case False
    then have lt: "Suc (Suc (2 * k)) < length xs" using less.prems by simp
    have e1: "xs ! Suc (2 * k) \<noteq> qprev s h" using queue_nth(2) [OF assms(1) less.prems] False by simp
    have n2: "qnext s (xs ! Suc (2 * k)) = xs ! (2 * Suc k)" using queue_nth(1) [OF assms(1) less.prems] lt by (simp add: nth_append)
    show ?thesis
    proof (cases "Suc (2 * Suc k) = length xs")
      case True
      then have "xs ! (2 * Suc k) = qprev s h" "length xs div 2 = Suc k" using queue_nth(2) [OF assms(1), of "2 * Suc k"] by auto
      then show ?thesis using n1 n2 e1 by (subst middle_loop.simps) simp
    next
      case False
      with lt have lt2: "Suc (2 * Suc k) < length xs" by simp
      then have "xs ! (2 * Suc k) \<noteq> qprev s h" using queue_nth(2) [OF assms(1), of "2 * Suc k"] by simp
      moreover have "middle_loop s h (xs ! Suc k) (xs ! (2 * Suc k)) = Some (xs ! (length xs div 2))"
        using lt2 by (intro less.hyps) simp_all
      ultimately show ?thesis using n1 n2 e1 by (subst middle_loop.simps) simp
    qed
  qed
qed

text \<open>The middle element, or the first one of the second half, of a queue that is not empty.\<close>

lemma queue_middle:
  assumes "queue s h xs" "xs \<noteq> []"
  shows "ngx_queue_middle s h = Some (xs ! (length xs div 2))"
proof -
  have hd: "qnext s h = xs ! 0" using queue_ends [OF assms(1)] assms(2) by (cases xs) simp_all
  show ?thesis
  proof (cases "length xs = 1")
    case True
    then show ?thesis using queue_nth(2) [OF assms(1), of 0] hd by (simp add: ngx_queue_middle_def)
  next
    case False
    then have "Suc (2 * 0) < length xs" using assms(2) by (cases xs) auto
    with middle_loop_exact [OF assms(1), of 0] queue_nth(2) [OF assms(1), of 0] hd assms(2) show ?thesis
      by (simp add: ngx_queue_middle_def Let_def)
  qed
qed

subsection \<open>The sort\<close>

text \<open>Where the search backwards from the end of a row stops: behind the last element that is not greater.\<close>

lemma sort_back_stops:
  assumes "linked s h (xs @ [p]) b" "h \<notin> set (xs @ [p])"
  shows "\<exists>us vs. xs @ [p] = us @ vs \<and> (\<forall>v \<in> set vs. \<not> cmp v q \<le> 0) \<and> (us \<noteq> [] \<longrightarrow> cmp (last us) q \<le> 0) \<and>
    sort_back cmp h s q p = Some (last (h # us))"
  using assms
proof (induction xs arbitrary: p b rule: rev_induct)
  case Nil
  show ?case
  proof (cases "cmp p q \<le> 0")
    case True
    then show ?thesis by (intro exI [of _ "[p]"] exI [of _ "[]"]) (simp add: sort_back.simps [of cmp h s q p])
  next
    case False
    with Nil show ?thesis by (intro exI [of _ "[]"] exI [of _ "[p]"]) (simp add: sort_back.simps [of cmp h s q p])
  qed
next
  case (snoc x xs)
  show ?case
  proof (cases "cmp p q \<le> 0")
    case True
    then show ?thesis by (intro exI [of _ "(xs @ [x]) @ [p]"] exI [of _ "[]"]) (simp add: sort_back.simps [of cmp h s q p])
  next
    case False
    have l: "linked s h (xs @ [x]) p" "qprev s p = x" using snoc.prems(1) by (simp_all add: linked_append)
    have "h \<notin> set (xs @ [x])" using snoc.prems(2) by simp
    from snoc.IH [OF l(1) this] obtain us vs where u: "xs @ [x] = us @ vs" "\<forall>v \<in> set vs. \<not> cmp v q \<le> 0" "us \<noteq> [] \<longrightarrow> cmp (last us) q \<le> 0"
      "sort_back cmp h s q x = Some (last (h # us))" by blast
    moreover have "sort_back cmp h s q p = sort_back cmp h s q x"
      using False l(2) snoc.prems(2) by (simp add: sort_back.simps [of cmp h s q p])
    ultimately show ?thesis using False by (intro exI [of _ us] exI [of _ "vs @ [p]"]) auto
  qed
qed

text \<open>What one round does to a sorted beginning: the next element goes behind all that are not greater.\<close>

definition sort_step :: "('a \<Rightarrow> 'k :: linorder) \<Rightarrow> 'a list \<Rightarrow> 'a \<Rightarrow> 'a list \<Rightarrow> bool" where
  "sort_step key xs q xs' \<longleftrightarrow>
     (\<exists>us vs. xs = us @ vs \<and> xs' = us @ q # vs \<and> (\<forall>v \<in> set vs. key q < key v) \<and> (us \<noteq> [] \<longrightarrow> key (last us) \<le> key q))"

lemma sort_step_keeps:
  assumes "sort_step key xs q xs'" "sorted (map key xs)"
  shows "sorted (map key xs') \<and> mset xs' = mset (xs @ [q]) \<and> filter (\<lambda>x. k = key x) xs' = filter (\<lambda>x. k = key x) (xs @ [q])"
proof -
  obtain us vs where u: "xs = us @ vs" "xs' = us @ q # vs" "\<forall>v \<in> set vs. key q < key v" "us \<noteq> [] \<longrightarrow> key (last us) \<le> key q"
    using assms(1) by (auto simp: sort_step_def)
  have "\<forall>x \<in> set us. key x \<le> key q"
  proof (cases us rule: rev_cases)
    case (snoc ws w)
    then show ?thesis using assms(2) u(1,4) by (auto simp: sorted_append intro: order_trans)
  qed simp
  then have "sorted (map key xs')" using assms(2) u by (auto simp: sorted_append order_less_imp_le intro: order_trans)
  moreover have "filter (\<lambda>x. k = key x) (q # vs) = filter (\<lambda>x. k = key x) (vs @ [q])"
  proof (cases "k = key q")
    case True
    then have "filter (\<lambda>x. k = key x) vs = []" using u(3) by (auto simp: filter_empty_conv)
    with True show ?thesis by simp
  qed simp
  ultimately show ?thesis using u(1,2) by simp
qed

lemma sort_round:
  assumes "queue s h (xs @ q # ys)" "xs \<noteq> []" "\<forall>a \<in> set xs. cmp a q \<le> 0 \<longleftrightarrow> key a \<le> key q"
  shows "\<exists>p xs'. sort_back cmp h (ngx_queue_remove q s) q (qprev s q) = Some p \<and> sort_step key xs q xs' \<and>
    queue (ngx_queue_insert_head p q (ngx_queue_remove q s)) h (xs' @ ys)"
proof -
  let ?s = "ngx_queue_remove q s"
  obtain ws w where w: "xs = ws @ [w]" using assms(2) by (cases xs rule: rev_cases) auto
  have r: "queue ?s h (xs @ ys)" by (rule queue_remove [OF assms(1)])
  have fresh: "q \<notin> set (h # xs @ ys)" "h \<notin> set xs" "qprev s q = w" using assms(1) by (auto simp: queue_def linked_append w)
  obtain b where "linked ?s h (ws @ [w]) b" using r by (cases ys) (auto simp: queue_def w linked_append)
  from sort_back_stops [OF this, of cmp q] fresh(2) obtain us vs where
    u: "xs = us @ vs" "\<forall>v \<in> set vs. \<not> cmp v q \<le> 0" "us \<noteq> [] \<longrightarrow> cmp (last us) q \<le> 0"
      "sort_back cmp h ?s q w = Some (last (h # us))" by (auto simp: w)
  have step: "sort_step key xs q (us @ q # vs)"
    unfolding sort_step_def using u(1-3) assms(3) by (intro exI [of _ us] exI [of _ vs]) (auto simp: not_le)
  have "queue (ngx_queue_insert_head (last (h # us)) q ?s) h ((us @ q # vs) @ ys)"
  proof (cases us rule: rev_cases)
    case Nil
    with queue_insert_head [OF r, of q] fresh(1) u(1) show ?thesis by simp
  next
    case (snoc us' v)
    with queue_insert_after [of ?s h us' v "vs @ ys" q] r fresh(1) u(1) show ?thesis by simp
  qed
  with step u(4) fresh(3) show ?thesis by auto
qed

lemma sort_loop_sorts:
  assumes "queue s h (xs @ ys)" "xs \<noteq> []" "sorted (map key xs)"
    and "\<forall>a \<in> set (xs @ ys). \<forall>b \<in> set (xs @ ys). cmp a b \<le> 0 \<longleftrightarrow> key a \<le> key b"
  shows "\<exists>s' zs. sort_loop cmp h (hd (ys @ [h])) s = Some s' \<and> queue s' h zs \<and> sorted (map key zs) \<and> mset zs = mset (xs @ ys) \<and>
    (\<forall>k. filter (\<lambda>x. k = key x) zs = filter (\<lambda>x. k = key x) (xs @ ys))"
  using assms
proof (induction ys arbitrary: s xs)
  case Nil
  then show ?case by (intro exI [of _ s] exI [of _ xs]) (simp add: sort_loop.simps [of cmp h h])
next
  case (Cons q ys)
  have "\<forall>a \<in> set xs. cmp a q \<le> 0 \<longleftrightarrow> key a \<le> key q" using Cons.prems(4) by simp
  from sort_round [where s = s and h = h and xs = xs and ys = ys and q = q and cmp = cmp and key = key, OF Cons.prems(1,2) this] obtain p xs' where
    p: "sort_back cmp h (ngx_queue_remove q s) q (qprev s q) = Some p" and step: "sort_step key xs q xs'"
    and q: "queue (ngx_queue_insert_head p q (ngx_queue_remove q s)) h (xs' @ ys)" by blast
  note k = sort_step_keeps [OF step Cons.prems(3)]
  have "set xs' = set (xs @ [q])" using k [of undefined] by (metis set_mset_mset)
  then have ne: "xs' \<noteq> []" and cmp': "\<forall>a \<in> set (xs' @ ys). \<forall>b \<in> set (xs' @ ys). cmp a b \<le> 0 \<longleftrightarrow> key a \<le> key b"
    using Cons.prems(4) by auto
  have l: "linked s q ys h" "q \<noteq> h" using Cons.prems(1) by (auto simp: queue_def linked_append)
  from l have "sort_loop cmp h (hd ((q # ys) @ [h])) s =
      sort_loop cmp h (hd (ys @ [h])) (ngx_queue_insert_head p q (ngx_queue_remove q s))"
    using p linked_ends [OF l(1)] by (simp add: sort_loop.simps [of cmp h q] Let_def)
  moreover obtain s' zs where "sort_loop cmp h (hd (ys @ [h])) (ngx_queue_insert_head p q (ngx_queue_remove q s)) = Some s'"
    "queue s' h zs" "sorted (map key zs)" "mset zs = mset (xs' @ ys)" "\<forall>k. filter (\<lambda>x. k = key x) zs = filter (\<lambda>x. k = key x) (xs' @ ys)"
    using Cons.IH [OF q ne _ cmp'] k by blast
  moreover have "mset (xs' @ ys) = mset (xs @ q # ys)" using k [of undefined] by simp
  moreover have "filter (\<lambda>x. k = key x) (xs' @ ys) = filter (\<lambda>x. k = key x) (xs @ q # ys)" for k
    using k [of k] by (simp only: filter_append append_assoc) simp
  ultimately show ?case by (intro exI [of _ s'] exI [of _ zs]) (simp only: simp_thms)
qed

text \<open>
  Property C40: the queues behave as lists.  Insertion, removal, division and concatenation keep the ring of links and do to the list of
  elements what their names say.
\<close>

theorem queue_operations:
  assumes "queue s h xs"
  shows "queue (ngx_queue_init h s) h [] \<and> (ngx_queue_empty s h \<longleftrightarrow> xs = []) \<and>
    (x \<notin> set (h # xs) \<longrightarrow> queue (ngx_queue_insert_head h x s) h (x # xs) \<and> queue (ngx_queue_insert_tail h x s) h (xs @ [x])) \<and>
    (xs = us @ y # vs \<longrightarrow> queue (ngx_queue_remove y s) h (us @ vs) \<and>
       (n \<notin> set (h # xs) \<longrightarrow> queue (ngx_queue_split h y n s) h us \<and> queue (ngx_queue_split h y n s) n (y # vs))) \<and>
    (queue s n ys \<and> set (h # xs) \<inter> set (n # ys) = {} \<longrightarrow> queue (ngx_queue_add h n s) h (xs @ ys)) \<and>
    (xs \<noteq> [] \<longrightarrow> ngx_queue_middle s h = Some (xs ! (length xs div 2)))"
  using assms queue_init queue_empty [OF assms] queue_insert_head [OF assms, of x] queue_insert_tail [OF assms, of x]
    queue_remove [of s h us y vs] queue_split [of s h us y vs n] queue_add [OF assms, of n ys] queue_middle [OF assms] by blast

definition example_queue :: links where
  "example_queue = ngx_queue_insert_tail 0 1 (ngx_queue_insert_tail 0 3 (ngx_queue_insert_tail 0 2
     (ngx_queue_init 0 \<lparr>qprev = (\<lambda>_. 0), qnext = (\<lambda>_. 0)\<rparr>)))"

lemma example_queue: "queue example_queue 0 [2, 3, 1]"
  using queue_insert_tail [OF queue_insert_tail [OF queue_insert_tail [OF queue_init, of 2 0], of 3], of 1] by (simp add: example_queue_def)

theorem queue_operations_witness:
  "queue (ngx_queue_remove 3 example_queue) 0 [2, 1] \<and> queue (ngx_queue_split 0 3 7 example_queue) 7 [3, 1] \<and>
   ngx_queue_middle example_queue 0 = Some 3"
  using queue_operations [OF example_queue, of 9 "[2]" 3 "[1]" 7 "[]"] by simp

text \<open>
  Property C39: the sort of a queue returns, and leaves a queue of the same elements in the order of the comparison, with equal elements in the
  order they had.
\<close>

theorem queue_sort_stable:
  assumes "queue s h xs" "\<forall>a \<in> set xs. \<forall>b \<in> set xs. cmp a b \<le> 0 \<longleftrightarrow> key a \<le> (key b :: 'k :: linorder)"
  shows "\<exists>s'. ngx_queue_sort cmp h s = Some s' \<and> queue s' h (sort_key key xs)"
proof (cases "length xs \<le> 1")
  case True
  then have "sort_key key xs = xs" "qnext s h = qprev s h"
    using queue_ends [OF assms(1)] by (cases xs; cases "tl xs"; simp)+
  then show ?thesis using assms(1) by (simp add: ngx_queue_sort_def)
next
  case False
  then obtain x y ys where xs: "xs = x # y # ys" by (cases xs; cases "tl xs") auto
  have "qnext s h \<noteq> qprev s h" using queue_nth(2) [OF assms(1), of 0] queue_ends [OF assms(1)] by (simp add: xs)
  moreover have "qnext s (qnext s h) = y" using assms(1) by (simp add: queue_def xs)
  moreover obtain s' zs where "sort_loop cmp h y s = Some s'" "queue s' h zs" "sorted (map key zs)" "mset zs = mset xs"
      "\<forall>k. filter (\<lambda>x. k = key x) zs = filter (\<lambda>x. k = key x) xs"
    using sort_loop_sorts [of s h "[x]" "y # ys" key cmp] assms by (auto simp: xs)
  moreover from this have "sort_key key xs = zs" by (intro properties_for_sort_key) auto
  ultimately show ?thesis by (simp add: ngx_queue_sort_def)
qed

theorem queue_sort_stable_witness:
  "\<exists>s'. ngx_queue_sort (\<lambda>a b. int a - int b) 0 example_queue = Some s' \<and> queue s' 0 [1, 2, 3]"
  using queue_sort_stable [OF example_queue, of "\<lambda>a b. int a - int b" "\<lambda>a. a"] by (simp add: insort_key.simps)

end
