(* ===== verification/Spec2Isabelle.thy ===== *)
theory Spec2Isabelle
  imports Ngx_Prelude Ngx_Number Ngx_Parse Ngx_Base64 Ngx_Escape Ngx_Http_Chars Ngx_Http_Request_Line
    Ngx_Http_Header_Line Ngx_Http_Complex_Uri Ngx_Http_Request_Uri Ngx_Http_Parse_Uri Ngx_Http_Status_Line
    Ngx_Http_Chunked Ngx_Upstream_Round_Robin Ngx_Upstream_Next Ngx_Rwlock Ngx_Shmtx Ngx_String Ngx_Http_Unsafe_Uri Ngx_Http_Args
    Ngx_Radix_Tree Ngx_Rbtree Ngx_Rbtree_Shape Ngx_Rbtree_Insert Ngx_Rbtree_Delete Ngx_Event_Timer
    Ngx_Times Ngx_Parse_Time Ngx_Mail_Parse Ngx_Mail_Session Ngx_Mail_Safety Ngx_Mail_Pop3 Ngx_Mail_Smtp Ngx_Mail_Login
    Ngx_Sprintf Ngx_Http_Range Ngx_Http_Range_Body Ngx_Http_Range_Header Ngx_Inet Ngx_Inet6_Text Ngx_Cidr
    Ngx_Queue
begin

text \<open>
  A verification development for nginx 1.25.0, the C program under
  \<^verbatim>\<open>src/nginx/.../workdir/nginx-1.25.0/src\<close>; the file names below are relative to that directory.
  The rest of the repository consists of container images, compose files and configuration files,
  which have no code of their own.

  \<^bold>\<open>The program and the part of it that is modelled.\<close>  nginx is an event-driven HTTP server and
  proxy.  A worker waits for events and timers (\<^verbatim>\<open>event/ngx_event_timer.c\<close> on \<^verbatim>\<open>core/ngx_rbtree.c\<close>), reads a request line and header
  lines with resumable state machines (\<^verbatim>\<open>http/ngx_http_parse.c\<close>), computes the path of the request from the line
  (\<^verbatim>\<open>http/ngx_http_request.c\<close>), reads the body, possibly in chunks (\<^verbatim>\<open>http/ngx_http_request_body.c\<close>),
  cuts the ranges out of a response that the client asks for (\<^verbatim>\<open>http/modules/ngx_http_range_filter_module.c\<close>), chooses an upstream
  peer (\<^verbatim>\<open>http/ngx_http_upstream_round_robin.c\<close>), and another one when it fails (\<^verbatim>\<open>http/ngx_http_upstream.c\<close>), under locks in shared memory
  (\<^verbatim>\<open>core/ngx_rwlock.c\<close>, \<^verbatim>\<open>core/ngx_shmtx.c\<close>), and reads the status line of its answer.  The mail proxy leads a dialogue with a client
  until a login is known (\<^verbatim>\<open>mail/ngx_mail_handler.c\<close> and the handlers of the protocols).  Underneath are the text
  functions of \<^verbatim>\<open>core/ngx_string.c\<close> and \<^verbatim>\<open>core/ngx_parse.c\<close>, dates, addresses, and trees.  These are the parts where untrusted bytes
  turn into decisions, and they are what the theories model, function by function:

  \<^item> \<open>Ngx_Prelude\<close>: machine types, return codes, character constants, and what all components share: the
    loop over the bytes of a buffer (\<open>scan\<close>), the locales for step functions with an invariant
    (\<open>scan_contract\<close>, \<open>buffer_contract\<close>) and for parsers that are called again when more bytes are there
    (\<open>resumable_parser\<close>), and for invariants of step relations (\<open>invariant_system\<close>).
  \<^item> \<open>Ngx_Number\<close>, \<open>Ngx_Parse\<close>: \<^verbatim>\<open>ngx_atoi\<close> and its variants, \<^verbatim>\<open>ngx_atofp\<close>, \<^verbatim>\<open>ngx_hextoi\<close>, \<^verbatim>\<open>ngx_hex_dump\<close>;
    \<^verbatim>\<open>ngx_parse_size\<close>, \<^verbatim>\<open>ngx_parse_offset\<close>, \<^verbatim>\<open>ngx_parse_time\<close>.  Each returns the value of the text or
    NGX_ERROR, and the overflow guards refuse exactly what does not fit.
  \<^item> \<open>Ngx_Base64\<close>, \<open>Ngx_Escape\<close>: base64 and URI, HTML and JSON escaping.  Round trips, and that the buffer
    sizes the callers compute are the right ones.
  \<^item> \<open>Ngx_String\<close>: comparing and searching strings without regard to case.
  \<^item> \<open>Ngx_Times\<close>, \<open>Ngx_Parse_Time\<close>: \<^verbatim>\<open>ngx_gmtime\<close> against a calendar that counts days, the texts of dates, and
    \<^verbatim>\<open>ngx_parse_http_time\<close>, which reads its own texts back and never reads behind its argument.
  \<^item> \<open>Ngx_Sprintf\<close>, \<open>Ngx_Inet\<close>, \<open>Ngx_Inet6_Text\<close>, \<open>Ngx_Cidr\<close>: the numbers that \<^verbatim>\<open>ngx_sprintf\<close> writes, and the addresses of \<^verbatim>\<open>core/ngx_inet.c\<close>: texts of addresses of IPv4 and IPv6 are read back, the
    reader stays in its sixteen bytes, and blocks of addresses match by their prefix.
  \<^item> \<open>Ngx_Http_Chars\<close>, \<open>Ngx_Http_Request_Line\<close>, \<open>Ngx_Http_Header_Line\<close>, \<open>Ngx_Http_Status_Line\<close>: the
    bitmap of usual bytes and the three line parsers, one definition per state of the C code.  A
    record has the fields of the C structure the parser writes; pointers are positions in
    the buffer, NULL is \<open>None\<close>.  The lemmas show that the division of the input into reads does not
    matter, that the recorded positions are ordered and inside the buffer, that numbers stay in
    range, and what is recorded for well-formed lines.
  \<^item> \<open>Ngx_Http_Complex_Uri\<close>, \<open>Ngx_Http_Request_Uri\<close>, \<open>Ngx_Http_Parse_Uri\<close>: the normalisation of paths.  The
    one-pass normaliser is refined to a specification in three passes (decode, split at slashes,
    resolve), no accepted path has dot segments, and the quick check of the request line that
    spares a request the normaliser is sound: this spans the line parser, the request
    code and the normaliser.
  \<^item> \<open>Ngx_Http_Unsafe_Uri\<close>, \<open>Ngx_Http_Args\<close>: the check of URIs that do not come from a request line, and the look-up of
    arguments, header values and cookies.
  \<^item> \<open>Ngx_Http_Chunked\<close>: the chunk parser and the filter loop that calls it, against a specification that
    reads one byte at a time; encoded bodies are decoded to their data.
  \<^item> \<open>Ngx_Http_Range\<close>, \<open>Ngx_Http_Range_Body\<close>, \<open>Ngx_Http_Range_Header\<close>: the range filter of responses.  Ranges are read as they are written and lie
    inside the response, the body filter cuts them out of any chain of buffers, a response becomes partial only if the validator
    of the client holds, and the announced length is the length that is sent: this spans the parser and both filters.
  \<^item> \<open>Ngx_Upstream_Round_Robin\<close>: smooth weighted round robin with failures, connection limits and backup
    groups.  Which peer is chosen, that effective weights stay in range, and
    that a cycle over healthy peers is distributed exactly by weight.  Weights are unbounded integers.
  \<^item> \<open>Ngx_Upstream_Next\<close>: the attempts of one request, \<^verbatim>\<open>ngx_http_upstream_next\<close> around the balancer.  A request does not go back from
    the backup group and gets no peer of a group with several peers twice; a single peer is only tried again
    after an error on a cached connection.
  \<^item> \<open>Ngx_Rwlock\<close>, \<open>Ngx_Shmtx\<close>: the reader-writer lock and the mutex as step relations on the words in shared memory and the
    program counters of any number of processes; mutual exclusion in every interleaving, and that no waiting process misses its wake-up.
  \<^item> \<open>Ngx_Radix_Tree\<close>: the trees of address prefixes.  The nodes are values of a datatype, without parent pointers and free
    list, of which only the number of nodes that can be allocated is left; a look-up gives the value of the longest prefix.
  \<^item> \<open>Ngx_Queue\<close>: the queues of \<^verbatim>\<open>core/ngx_queue.c\<close>, rings of links; every operation is one on lists, and the sort is the stable sort.
  \<^item> \<open>Ngx_Rbtree\<close>, \<open>Ngx_Rbtree_Shape\<close>, \<open>Ngx_Rbtree_Insert\<close>, \<open>Ngx_Rbtree_Delete\<close>: the red-black tree with its parent pointers in a
    heap of nodes.  Insertion (by key and by time, through the locale \<open>insertion\<close>) and deletion keep order, colours and links, and
    add or remove exactly one node.
  \<^item> \<open>Ngx_Event_Timer\<close>: the timers of events on the red-black tree, with the wrap-around of milliseconds.  Adding keeps the
    timers, expiry ends and calls the handlers in order of time.
  \<^item> \<open>Ngx_Mail_Parse\<close>: the command lines of POP3 and SMTP against a grammar (locale \<open>mail_grammar\<close>); a call consumes exactly one line.
  \<^item> \<open>Ngx_Mail_Session\<close>, \<open>Ngx_Mail_Safety\<close>, \<open>Ngx_Mail_Pop3\<close>, \<open>Ngx_Mail_Smtp\<close>, \<open>Ngx_Mail_Login\<close>: the session of a mail client, the SASL
    mechanisms and the handlers of the two protocols.  The locale \<open>mail_protocol\<close> is the contract of the commands of a protocol; its lemmas make
    an invariant of every reachable state, and both protocols interpret it: no missing argument is read, the buffer is not overrun, and it
    is empty, with the parser and, in SMTP, the envelope, when TLS begins.  Credentials given before TLS are kept where it is only offered.  The login theorem spans the parser, the
    mechanism and the base64 decoder.

  \<^bold>\<open>Conventions.\<close>  A function on a buffer gets the bytes as a list of 8-bit words.  What the C code
  writes through a pointer is in the returned record.  Return codes are integers with the values of the
  source.  Arithmetic is on words where the source wraps or where a guard keeps it from doing so
  (\<open>uint\<close>, \<open>unat\<close> read them), on integers with an explicit bound where the source compares with a
  limit, as the text of each theory says.  Where a C function has a \<open>switch\<close> over a local state enumeration,
  the states are a datatype with the names of the source and every \<open>case\<close> is a definition; \<open>scan\<close>
  drives them over the buffer as the \<open>for\<close> loop does.  The red-black trees, the timers and the queues, which are linked by pointers, live in an explicit
  heap, a map from addresses to nodes, and a lost pointer is \<open>None\<close>; the radix trees are values.

  \<^bold>\<open>Loops.\<close>  The loops over input are structural recursions, except the filter loop of chunked
  bodies, which runs with fuel \<open>Suc (length buf)\<close>: each round consumes a byte of the buffer or
  leaves the loop, and the refinement theorem includes that the fuel does not run out.  The loops over trees, timers and queues are
  partial functions, and the theorems about them state that they return.  The locks
  spin without bound; they are step relations.  A mail session is a step relation as well, with the calls that
  nginx nests (an answer that calls the read handler) as separate steps.

  \<^bold>\<open>Not modelled.\<close>  Memory allocation (taken to succeed), logging, the event loop and all
  input and output, the hash tables of \<^verbatim>\<open>core/ngx_hash.c\<close>, digests, TLS and QUIC, HTTP/2 and HTTP/3 framing, the IMAP parser and dialogue and the backend side of the mail proxy, the stream proxy, the
  other optional modules, and the start-up code.  Of the round robin balancer the construction of the peers from the
  configuration is left out, of \<^verbatim>\<open>ngx_http_upstream_next\<close> the answer from a stale cache entry, of the filter of chunked bodies the buffers
  behind the end of the body, of the addresses the ports and the resolution of names.  The Win32 and Cygwin branches of the parsers are not part of the build that is modelled.

  \<^bold>\<open>What was found.\<close>
  \<^item> The status line parser accepts spaces between the digits of the status code and then
    records a wrong start (\<open>status_line_spaced_code\<close>).
  \<^item> A comment beside the table for refresh URIs does not describe its value (\<open>escape_refresh_tilde\<close>).
  \<^item> \<^verbatim>\<open>ngx_http_parse_unsafe_uri\<close> accepts a parent segment directly in front of the arguments (\<open>unsafe_uri_dots_before_args\<close>).
  \<^item> Deleting the root of a radix tree follows a null pointer, and the loop over 128-bit keys reads a byte behind the key (\<open>Ngx_Radix_Tree\<close>).
  \<^item> The day 00 is a date (\<open>parse_http_time_day_zero\<close>).
  \<^item> The SASL mechanisms of the mail proxy move a pointer and keep an old length (\<open>auth_plain_keeps_length\<close>,
    \<open>auth_login_keeps_length\<close>), or accept an old password (\<open>auth_cram_md5_old_password\<close>).
  \<^item> The log of a refused SMTP command destroys the commands behind it (\<open>smtp_rejected_mail_joins_lines\<close>), and with
    \<^verbatim>\<open>starttls only\<close> a session without TLS can be passed on (\<open>smtp_none_without_tls\<close>).
  \<^item> \<^verbatim>\<open>STARTTLS\<close> keeps the credentials of a refused login, against the comment that quotes RFC 3207
    (\<open>smtp_credentials_survive_starttls\<close>), and \<^verbatim>\<open>STLS\<close> keeps the name of a user (\<open>pop3_login_survives_stls\<close>).
  \<^item> The reader of IPv6 addresses accepts a stray colon (\<open>inet6_trailing_colon\<close>, \<open>inet6_leading_colon\<close>) and refuses two addresses
    (\<open>inet6_seven_words\<close>, \<open>inet6_mapped_broadcast\<close>).
\<close>

end
